(* ===== verification/Kbase.thy ===== *)
theory Kbase imports Main "HOL-Library.Word" begin

text \<open>
  The prelude of the development: C integers of the m88k kernel with their wrap-around, the
  error numbers of sys/errno.h, the part of the user structure the modelled system calls read,
  and linked lists in a heap.  A list threaded through a pointer field \<open>nx\<close> is described by
  \<open>seg\<close> and \<open>chain\<close> (which nodes, in which order) and walked by \<open>follow\<close>, the executable
  traversal used by the loops of the code.  The collections \<open>c_arith\<close> (wrap-around
  disappears in range) and \<open>links\<close> (facts on linked lists) feed the component proofs.
\<close>

unbundle bit_operations_syntax

named_theorems c_arith \<open>wrap-around operations are the identity in range\<close>
named_theorems links \<open>facts on lists linked through pointer fields\<close>

subsection \<open>C integers\<close>

text \<open>The m88k has 16-bit shorts and 32-bit ints and longs, in two's complement.\<close>

definition c_short :: "int \<Rightarrow> int" where
  "c_short x = (x + 32768) mod 65536 - 32768"

definition c_ushort :: "int \<Rightarrow> int" where
  "c_ushort x = x mod 65536"

definition c_int :: "int \<Rightarrow> int" where
  "c_int x = (x + 2147483648) mod 4294967296 - 2147483648"

definition c_uint :: "nat \<Rightarrow> nat" where
  "c_uint x = x mod 4294967296"

lemma c_short_id [c_arith]: "-32768 \<le> x \<Longrightarrow> x < 32768 \<Longrightarrow> c_short x = x"
  by (simp add: c_short_def)

lemma c_ushort_id [c_arith]: "0 \<le> x \<Longrightarrow> x < 65536 \<Longrightarrow> c_ushort x = x"
  by (simp add: c_ushort_def)

lemma c_int_id [c_arith]: "-2147483648 \<le> x \<Longrightarrow> x < 2147483648 \<Longrightarrow> c_int x = x"
  by (simp add: c_int_def)

lemma c_int_wrap: "2147483648 \<le> x \<Longrightarrow> x < 4294967296 \<Longrightarrow> c_int x = x - 4294967296"
  unfolding c_int_def using minus_mod_self2 [of "x + 2147483648" 4294967296]
    mod_pos_pos_trivial [of "x + 2147483648 - 4294967296" 4294967296] by simp

lemma c_uint_id [c_arith]: "x < 4294967296 \<Longrightarrow> c_uint x = x"
  by (simp add: c_uint_def)

lemma c_short_range: "-32768 \<le> c_short x \<and> c_short x < 32768"
  by (simp add: c_short_def)

lemma c_ushort_range: "0 \<le> c_ushort x \<and> c_ushort x < 65536"
  by (simp add: c_ushort_def)

lemma c_int_range: "-2147483648 \<le> c_int x \<and> c_int x < 2147483648"
  by (simp add: c_int_def)

subsection \<open>Errors and the current process\<close>

datatype errno =
    EPERM | ENOENT | EINTR | E2BIG | EBADF | EAGAIN | EACCES | EFAULT | EBUSY | EEXIST
  | EINVAL | EFBIG | ENOSPC | ERANGE | ENOMSG | EIDRM | EDEADLK | ENOLCK | EMFILE | ENOMEM | EIO

text \<open>The fields of \<open>u\<close> and \<open>u.u_procp\<close> that the modelled calls read.\<close>

record user =
  u_uid :: int
  u_gid :: int
  p_pid :: int
  p_epid :: int
  p_sysid :: int
  p_slot :: nat

text \<open>\<open>suser\<close>: Inl is the error it leaves in \<open>u.u_error\<close>.\<close>

definition suser :: "user \<Rightarrow> errno + unit" where
  "suser u = (if u_uid u = 0 then Inr () else Inl EPERM)"

subsection \<open>Linked lists in a heap\<close>

text \<open>\<open>seg nx p xs q\<close>: following \<open>nx\<close> from \<open>p\<close> visits \<open>xs\<close> and arrives at \<open>q\<close>.\<close>

primrec seg :: "('a \<Rightarrow> 'a option) \<Rightarrow> 'a option \<Rightarrow> 'a list \<Rightarrow> 'a option \<Rightarrow> bool" where
  "seg nx p [] q \<longleftrightarrow> p = q"
| "seg nx p (x # xs) q \<longleftrightarrow> p = Some x \<and> seg nx (nx x) xs q"

abbreviation chain :: "('a \<Rightarrow> 'a option) \<Rightarrow> 'a option \<Rightarrow> 'a list \<Rightarrow> bool" where
  "chain nx p xs \<equiv> seg nx p xs None"

primrec follow :: "nat \<Rightarrow> ('a \<Rightarrow> 'a option) \<Rightarrow> 'a option \<Rightarrow> 'a list" where
  "follow 0 nx p = []"
| "follow (Suc n) nx p = (case p of None \<Rightarrow> [] | Some x \<Rightarrow> x # follow n nx (nx x))"

lemma seg_append [links]: "seg nx p (xs @ ys) q \<longleftrightarrow> (\<exists>r. seg nx p xs r \<and> seg nx r ys q)"
  by (induction xs arbitrary: p) auto

lemma seg_cong: "(\<And>x. x \<in> set xs \<Longrightarrow> nx x = nx' x) \<Longrightarrow> seg nx p xs q = seg nx' p xs q"
  by (induction xs arbitrary: p) auto

lemma seg_upd [links]: "a \<notin> set xs \<Longrightarrow> seg (nx(a := v)) p xs q = seg nx p xs q"
  by (rule seg_cong) auto

lemma chain_None [links, simp]: "chain nx None xs \<longleftrightarrow> xs = []"
  by (cases xs) auto

lemma chain_Some [links]: "chain nx (Some a) xs \<longleftrightarrow> (\<exists>ys. xs = a # ys \<and> chain nx (nx a) ys)"
  by (cases xs) auto

lemma chain_unique: "chain nx p xs \<Longrightarrow> chain nx p ys \<Longrightarrow> xs = ys"
  by (induction xs arbitrary: p ys) (auto simp: chain_Some)

lemma chain_distinct: "chain nx p xs \<Longrightarrow> distinct xs"
proof (induction xs arbitrary: p)
  case (Cons a xs)
  have "a \<notin> set xs"
  proof
    assume "a \<in> set xs"
    then obtain us vs where xs: "xs = us @ a # vs" by (meson split_list)
    with Cons.prems have "chain nx (nx a) vs" "chain nx (nx a) xs" by (auto simp: seg_append)
    then have "vs = xs" by (rule chain_unique)
    with xs show False by simp
  qed
  with Cons show ?case by auto
qed simp

text \<open>Enough fuel: a traversal of a chain returns exactly its nodes.\<close>

lemma follow_chain [links]: "chain nx p xs \<Longrightarrow> length xs \<le> n \<Longrightarrow> follow n nx p = xs"
proof (induction n arbitrary: p xs)
  case (Suc n)
  then show ?case by (cases p) (auto simp: chain_Some)
qed simp

text \<open>The last node of a list as the code keeps it: NULL for the empty list.\<close>

definition last_opt :: "'a list \<Rightarrow> 'a option" where
  "last_opt xs = (if xs = [] then None else Some (last xs))"

lemma last_opt_simps [links, simp]:
  "last_opt [] = None" "last_opt (xs @ [x]) = Some x" "last_opt xs = None \<longleftrightarrow> xs = []"
  by (auto simp: last_opt_def)

lemma last_opt_Some: "last_opt xs = Some x \<longleftrightarrow> (\<exists>ys. xs = ys @ [x])"
  by (auto simp: last_opt_def) (metis append_butlast_last_id)

lemma last_opt_Cons: "xs \<noteq> [] \<Longrightarrow> last_opt (x # xs) = last_opt xs"
  by (simp add: last_opt_def)

lemma chain_snoc_upd:
  assumes "chain nx p (xs @ [a])" "distinct (xs @ [a, b])"
  shows "chain (nx(a := Some b, b := None)) p (xs @ [a, b])"
proof -
  from assms obtain r where "seg nx p xs r" "seg nx r [a] None" by (auto simp: seg_append)
  moreover from assms have "a \<notin> set xs" "b \<notin> set xs" "a \<noteq> b" by auto
  ultimately show ?thesis by (auto simp: seg_append seg_upd)
qed

text \<open>Finding the predecessor of a node, and taking the node out.\<close>

lemma chain_find_pred:
  "chain nx a (zs @ q # p # ys) \<Longrightarrow> find (\<lambda>x. nx x = Some p) (zs @ q # p # ys) = Some q"
proof (induction zs arbitrary: a)
  case (Cons z zs)
  from chain_distinct [OF Cons.prems] have "p \<notin> set (zs @ [q])" by auto
  moreover from Cons.prems have c: "chain nx (nx z) (zs @ q # p # ys)" by simp
  then obtain x xs where "zs @ [q] = x # xs" "nx z = Some x" by (cases zs) auto
  ultimately have "nx z \<noteq> Some p" by auto
  with Cons.IH [OF c] show ?case by simp
qed auto

lemma chain_unlink:
  assumes "chain nx a (zs @ q # p # ys)"
  shows "chain (nx(q := nx p)) a (zs @ q # ys)"
proof -
  from chain_distinct [OF assms] have d: "q \<notin> set zs" "q \<notin> set ys" by auto
  from assms obtain r where r: "seg nx a zs r" "r = Some q" "chain nx (nx p) ys"
    by (auto simp: seg_append)
  have "seg (nx(q := nx p)) a zs r" "chain (nx(q := nx p)) (nx p) ys"
    using r d by (auto simp: seg_upd)
  with r(2) show ?thesis by (auto simp: seg_append)
qed

text \<open>Distinct nodes below a bound are at most that many, the fuel bound of the traversals.\<close>

lemma distinct_bounded_length: "distinct xs \<Longrightarrow> set xs \<subseteq> {..<n} \<Longrightarrow> length xs \<le> (n::nat)"
  using card_mono [of "{..<n}" "set xs"] by (simp add: distinct_card)

end
