(* ===== verification/Fifo.thy ===== *)
theory Fifo imports Kbase begin

text \<open>
  The contract of a family of queues kept in one shared state, as its clients rely on it: a
  successful \<open>put\<close> appends to one queue, \<open>get\<close> takes the first element of one, and neither touches
  the others.  \<open>put_all\<close> and \<open>get_all\<close> are the loops of a writer and of a reader.
\<close>

primrec put_all :: "('e \<Rightarrow> 's \<Rightarrow> bool \<times> 's) \<Rightarrow> 'e list \<Rightarrow> 's \<Rightarrow> 's option" where
  "put_all put [] s = Some s"
| "put_all put (e # es) s = (case put e s of (ok, s') \<Rightarrow> if ok then put_all put es s' else None)"

primrec get_all :: "('s \<Rightarrow> 'e option \<times> 's) \<Rightarrow> nat \<Rightarrow> 's \<Rightarrow> 'e list \<times> 's" where
  "get_all get 0 s = ([], s)"
| "get_all get (Suc n) s = (case get s of
     (None, s') \<Rightarrow> ([], s')
   | (Some e, s') \<Rightarrow> (case get_all get n s' of (es, s2) \<Rightarrow> (e # es, s2)))"

locale fifo_family =
  fixes inv :: "'k set \<Rightarrow> 's \<Rightarrow> bool" and content :: "'s \<Rightarrow> 'k \<Rightarrow> 'e list"
    and put :: "'k \<Rightarrow> 'e \<Rightarrow> 's \<Rightarrow> bool \<times> 's" and get :: "'k \<Rightarrow> 's \<Rightarrow> 'e option \<times> 's"
  assumes put_ok: "inv K s \<Longrightarrow> k \<in> K \<Longrightarrow> put k e s = (True, s') \<Longrightarrow>
      inv K s' \<and> (\<forall>q\<in>K. content s' q = (if q = k then content s k @ [e] else content s q))"
    and put_fail: "inv K s \<Longrightarrow> k \<in> K \<Longrightarrow> put k e s = (False, s') \<Longrightarrow> s' = s"
    and get_empty: "inv K s \<Longrightarrow> k \<in> K \<Longrightarrow> content s k = [] \<Longrightarrow> get k s = (None, s)"
    and get_ok: "inv K s \<Longrightarrow> k \<in> K \<Longrightarrow> content s k = e # es \<Longrightarrow> \<exists>s'. get k s = (Some e, s') \<and>
      inv K s' \<and> (\<forall>q\<in>K. content s' q = (if q = k then es else content s q))"
begin

lemma put_all_content:
  "inv K s \<Longrightarrow> k \<in> K \<Longrightarrow> put_all (put k) es s = Some s' \<Longrightarrow>
   inv K s' \<and> (\<forall>q\<in>K. content s' q = (if q = k then content s k @ es else content s q))"
proof (induction es arbitrary: s)
  case (Cons e es)
  from Cons.prems(3) obtain s1 where p: "put k e s = (True, s1)" "put_all (put k) es s1 = Some s'"
    by (auto split: prod.splits if_splits)
  from put_ok [OF Cons.prems(1,2) p(1)] Cons.IH [OF _ Cons.prems(2) p(2)] Cons.prems(2)
  show ?case by auto
qed auto

lemma get_all_content:
  "inv K s \<Longrightarrow> k \<in> K \<Longrightarrow> content s k = es @ fs \<Longrightarrow> \<exists>s'. get_all (get k) (length es) s = (es, s') \<and>
   inv K s' \<and> (\<forall>q\<in>K. content s' q = (if q = k then fs else content s q))"
proof (induction es arbitrary: s)
  case (Cons e es)
  from get_ok [OF Cons.prems(1,2), of e "es @ fs"] Cons.prems(3) obtain s1 where g: "get k s = (Some e, s1)"
    "inv K s1" "\<forall>q\<in>K. content s1 q = (if q = k then es @ fs else content s q)" by auto
  with Cons.IH [OF g(2) Cons.prems(2)] Cons.prems(2) show ?case by auto
qed auto

lemma put_get_all:
  assumes "inv K s" "k \<in> K" "content s k = []" "put_all (put k) es s = Some s1"
  shows "\<exists>s2. get_all (get k) (length es) s1 = (es, s2) \<and> inv K s2 \<and>
    (\<forall>q\<in>K. content s2 q = content s q)"
proof -
  from put_all_content [OF assms(1,2,4)] assms(2,3)
  have "inv K s1" "content s1 k = es @ []" "\<forall>q\<in>K. q \<noteq> k \<longrightarrow> content s1 q = content s q" by auto
  from get_all_content [OF this(1) assms(2) this(2)] this(3) assms(3) show ?thesis by auto
qed

end

end
