(* ===== verification/Prio.thy ===== *)
theory Prio imports Fifo "HOL-Library.Multiset" begin

text \<open>
  The contract of a queue ordered by class: \<open>enq\<close> is where an element goes, behind those of its class
  and above, and a client of \<open>put\<close> and \<open>get\<close> that keep to it gets the elements back stably sorted by
  class, highest first.  \<open>enq_front\<close> is where an element put back goes.
\<close>

definition enq :: "('a \<Rightarrow> int) \<Rightarrow> 'a \<Rightarrow> 'a list \<Rightarrow> 'a list" where
  "enq cls b xs = (if xs = [] \<or> cls b \<le> cls (last xs) then xs @ [b]
     else takeWhile (\<lambda>x. cls x \<ge> cls b) xs @ b # dropWhile (\<lambda>x. cls x \<ge> cls b) xs)"

definition enq_front :: "('a \<Rightarrow> int) \<Rightarrow> 'a \<Rightarrow> 'a list \<Rightarrow> 'a list" where
  "enq_front cls b xs = takeWhile (\<lambda>x. cls x > cls b) xs @ b # dropWhile (\<lambda>x. cls x > cls b) xs"

lemma mset_enq [simp]: "mset (enq cls b xs) = add_mset b (mset xs)"
proof -
  have "mset (takeWhile P xs) + mset (dropWhile P xs) = mset xs" for P
    by (simp add: mset_append [symmetric])
  then show ?thesis by (simp add: enq_def)
qed

lemma set_enq [simp]: "set (enq cls b xs) = insert b (set xs)"
  by (metis mset_enq set_mset_add_mset_insert set_mset_mset)

lemma enq_cong:
  assumes "\<And>x. x \<in> set xs \<Longrightarrow> cls x = cls' x" "cls b = cls' b"
  shows "enq cls b xs = enq cls' b xs"
proof -
  have l: "xs \<noteq> [] \<Longrightarrow> cls (last xs) = cls' (last xs)" using assms(1) by simp
  have "takeWhile (\<lambda>x. cls x \<ge> cls b) xs = takeWhile (\<lambda>x. cls' x \<ge> cls' b) xs"
    "dropWhile (\<lambda>x. cls x \<ge> cls b) xs = dropWhile (\<lambda>x. cls' x \<ge> cls' b) xs"
    using assms by (simp_all cong: takeWhile_cong dropWhile_cong)
  then show ?thesis unfolding enq_def using l assms(2) by auto
qed

lemma desc_drop:
  assumes "sorted (map (\<lambda>x. - cls x) xs)" "y \<in> set (dropWhile (\<lambda>x. cls x \<ge> (k::int)) xs)"
  shows "cls y < k"
  using assms
proof (induction xs)
  case (Cons x xs)
  show ?case
  proof (cases "cls x \<ge> k")
    case True
    with Cons show ?thesis by simp
  next
    case False
    with Cons.prems have "y = x \<or> y \<in> set xs" "\<forall>z\<in>set xs. - cls x \<le> - cls z" by simp_all
    with False show ?thesis by auto
  qed
qed simp

lemma enq_desc:
  assumes "sorted (map (\<lambda>x. - cls x) xs)"
  shows "enq cls b xs = takeWhile (\<lambda>x. cls x \<ge> cls b) xs @ b # dropWhile (\<lambda>x. cls x \<ge> cls b) xs"
proof (cases "xs = [] \<or> cls b \<le> cls (last xs)")
  case True
  have d: "dropWhile (\<lambda>x. cls x \<ge> cls b) xs = []"
  proof (rule ccontr)
    assume n: "dropWhile (\<lambda>x. cls x \<ge> cls b) xs \<noteq> []"
    then have "last xs \<in> set (dropWhile (\<lambda>x. cls x \<ge> cls b) xs)"
      by (metis last_appendR last_in_set takeWhile_dropWhile_id)
    from desc_drop [OF assms this] True n show False by auto
  qed
  then have t: "takeWhile (\<lambda>x. cls x \<ge> cls b) xs = xs" by (metis append_Nil2 takeWhile_dropWhile_id)
  show ?thesis unfolding enq_def t d using True by (simp only: if_True)
next
  case False
  then show ?thesis unfolding enq_def by (simp only: if_False)
qed

lemma sorted_enq:
  assumes s: "sorted (map (\<lambda>x. - cls x) xs)"
  shows "sorted (map (\<lambda>x. - cls x) (enq cls b xs))"
proof -
  have 1: "cls b \<le> cls x" if "x \<in> set (takeWhile (\<lambda>x. cls x \<ge> cls b) xs)" for x using set_takeWhileD [OF that] by simp
  have 2: "cls x < cls b" if "x \<in> set (dropWhile (\<lambda>x. cls x \<ge> cls b) xs)" for x using desc_drop [OF s that] .
  let ?t = "takeWhile (\<lambda>x. cls x \<ge> cls b) xs" let ?d = "dropWhile (\<lambda>x. cls x \<ge> cls b) xs"
  have "sorted (map (\<lambda>x. - cls x) (?t @ ?d))" using s by simp
  then have td: "sorted (map (\<lambda>x. - cls x) ?t)" "sorted (map (\<lambda>x. - cls x) ?d)"
    unfolding map_append sorted_append by blast+
  have "sorted (map (\<lambda>x. - cls x) (b # ?d))" using td(2) 2 by (simp add: less_imp_le)
  moreover have "- cls x \<le> - cls y" if "x \<in> set ?t" "y \<in> set (b # ?d)" for x y
    using 1 [OF that(1)] that(2) 2 [of y] by auto
  ultimately show ?thesis using td(1) unfolding enq_desc [OF s] map_append sorted_append by auto
qed

lemma filter_enq:
  assumes s: "sorted (map (\<lambda>x. - cls x) xs)"
  shows "filter (\<lambda>x. cls x = k) (enq cls b xs) = filter (\<lambda>x. cls x = k) xs @ (if cls b = k then [b] else [])"
proof -
  let ?t = "takeWhile (\<lambda>x. cls x \<ge> cls b) xs" let ?d = "dropWhile (\<lambda>x. cls x \<ge> cls b) xs"
  have "filter (\<lambda>x. cls x = k) xs = filter (\<lambda>x. cls x = k) ?t @ filter (\<lambda>x. cls x = k) ?d"
    by (simp add: filter_append [symmetric])
  moreover have "filter (\<lambda>x. cls x = k) ?d = []" if "cls b = k"
    using desc_drop [OF s, of _ "cls b"] that by (force simp: filter_empty_conv)
  ultimately show ?thesis by (auto simp: enq_desc [OF s])
qed

lemma fold_enq_sorted: "sorted (map (\<lambda>x. - cls x) (fold (enq cls) es []))"
  by (induction es rule: rev_induct) (simp_all add: sorted_enq)

text \<open>Entering elements one by one into the empty list sorts them stably.\<close>

lemma fold_enq: "fold (enq cls) es [] = sort_key (\<lambda>x. - cls x) es"
proof (rule sym, rule properties_for_sort_key)
  show "mset (fold (enq cls) es []) = mset es" by (induction es rule: rev_induct) simp_all
  show "sorted (map (\<lambda>x. - cls x) (fold (enq cls) es []))" by (rule fold_enq_sorted)
  have "filter (\<lambda>x. cls x = k) (fold (enq cls) es []) = filter (\<lambda>x. cls x = k) es" for k
  proof (induction es rule: rev_induct)
    case (snoc e es)
    then show ?case using filter_enq [OF fold_enq_sorted [of cls es], of k e] by simp
  qed simp
  then show "filter (\<lambda>x. - cls k = - cls x) (fold (enq cls) es []) = filter (\<lambda>x. - cls k = - cls x) es" for k
    by (simp add: eq_commute [of "cls k"])
qed

locale prio_queue =
  fixes inv :: "'s \<Rightarrow> bool" and content :: "'s \<Rightarrow> 'e list" and ready :: "'e \<Rightarrow> 's \<Rightarrow> bool" and cls :: "'e \<Rightarrow> int"
    and put :: "'e \<Rightarrow> 's \<Rightarrow> 's" and get :: "'s \<Rightarrow> 'e option \<times> 's"
  assumes put_ok: "inv s \<Longrightarrow> ready e s \<Longrightarrow> inv (put e s) \<and> content (put e s) = enq cls e (content s) \<and>
      (\<forall>f. ready f s \<and> f \<noteq> e \<longrightarrow> ready f (put e s))"
    and get_ok: "inv s \<Longrightarrow> content s = e # es \<Longrightarrow> \<exists>s'. get s = (Some e, s') \<and> inv s' \<and> content s' = es"
begin

lemma put_seq:
  "inv s \<Longrightarrow> distinct es \<Longrightarrow> \<forall>e\<in>set es. ready e s \<Longrightarrow>
   inv (fold put es s) \<and> content (fold put es s) = fold (enq cls) es (content s)"
proof (induction es arbitrary: s)
  case (Cons e es)
  have "ready e s" using Cons.prems by simp
  note p = put_ok [OF Cons.prems(1) this]
  have "\<forall>f\<in>set es. ready f (put e s)" using Cons.prems p by auto
  with Cons.IH [of "put e s"] Cons.prems p show ?case by simp
qed simp

lemma get_seq: "inv s \<Longrightarrow> content s = es \<Longrightarrow> \<exists>s'. get_all get (length es) s = (es, s') \<and> inv s' \<and> content s' = []"
proof (induction es arbitrary: s)
  case (Cons e es)
  from get_ok [OF Cons.prems] obtain s1 where g: "get s = (Some e, s1)" "inv s1" "content s1 = es" by blast
  with Cons.IH [OF g(2,3)] show ?case by auto
qed auto

lemma put_get_sorted:
  assumes "inv s" "content s = []" "distinct es" "\<forall>e\<in>set es. ready e s"
  shows "\<exists>s'. get_all get (length es) (fold put es s) = (sort_key (\<lambda>e. - cls e) es, s') \<and> inv s' \<and> content s' = []"
  using put_seq [OF assms(1,3,4)] get_seq [of "fold put es s" "sort_key (\<lambda>e. - cls e) es"] assms(2)
  by (simp add: fold_enq)

end

end
