(* ===== verification/Dll.thy ===== *)
theory Dll imports Kbase begin

text \<open>
  Doubly linked lists with a first and a last pointer, as the message queues of io/stream.c and the
  lock lists of os/flock.c keep them: \<open>dll nx pv f l xs\<close>.  The lemmas say what a routine that inserts
  or removes a node has to do to the pointers; they are proved for one direction and used for both.
\<close>

definition hd_opt :: "'a list \<Rightarrow> 'a option" where
  "hd_opt xs = (case xs of [] \<Rightarrow> None | x # _ \<Rightarrow> Some x)"

lemma hd_opt_simps [links, simp]: "hd_opt [] = None" "hd_opt (x # xs) = Some x"
  by (simp_all add: hd_opt_def)

lemma hd_opt_rev [links, simp]: "hd_opt (rev xs) = last_opt xs" "last_opt (rev xs) = hd_opt xs"
  by (cases xs rule: rev_cases; simp) (cases xs; simp)

lemma hd_opt_None [links, simp]: "hd_opt xs = None \<longleftrightarrow> xs = []"
  by (cases xs) simp_all

lemma hd_opt_mem: "hd_opt xs = Some x \<Longrightarrow> x \<in> set xs"
  by (cases xs) auto

lemma last_opt_mem: "last_opt xs = Some x \<Longrightarrow> x \<in> set xs"
  by (auto simp: last_opt_Some)

lemma chain_hd: "chain nx p xs \<Longrightarrow> p = hd_opt xs"
  by (cases xs) auto

definition dll :: "('a \<Rightarrow> 'a option) \<Rightarrow> ('a \<Rightarrow> 'a option) \<Rightarrow> 'a option \<Rightarrow> 'a option \<Rightarrow> 'a list \<Rightarrow> bool" where
  "dll nx pv f l xs \<longleftrightarrow> chain nx f xs \<and> chain pv l (rev xs)"

lemma dll_ends: "dll nx pv f l xs \<Longrightarrow> f = hd_opt xs" "dll nx pv f l xs \<Longrightarrow> l = last_opt xs"
  using chain_hd [of nx f xs] chain_hd [of pv l "rev xs"] by (auto simp: dll_def)

lemma dll_distinct: "dll nx pv f l xs \<Longrightarrow> distinct xs"
  by (auto simp: dll_def dest: chain_distinct)

lemma dll_Nil [simp]: "dll nx pv f l [] \<longleftrightarrow> f = None \<and> l = None"
  by (auto simp: dll_def)

lemma dll_cong:
  assumes "\<And>x. x \<in> set xs \<Longrightarrow> nx x = nx' x" "\<And>x. x \<in> set xs \<Longrightarrow> pv x = pv' x"
  shows "dll nx pv f l xs = dll nx' pv' f l xs"
  unfolding dll_def using seg_cong [of xs nx nx'] seg_cong [of "rev xs" pv pv'] assms by simp

lemma chain_next: "chain nx f (us @ x # vs) \<Longrightarrow> nx x = hd_opt vs"
  by (auto simp: seg_append dest: chain_hd)

lemma dll_next:
  assumes "dll nx pv f l (us @ x # vs)"
  shows "nx x = hd_opt vs" "pv x = last_opt us"
  using assms chain_next [of nx f us x vs] chain_next [of pv l "rev vs" x "rev us"] by (auto simp: dll_def)

lemma chain_insert:
  assumes c: "chain nx f (us @ vs)" and b: "b \<notin> set (us @ vs)"
    and nx: "\<And>x. x \<in> set (us @ vs) \<Longrightarrow> nx' x = (if last_opt us = Some x then Some b else nx x)" "nx' b = hd_opt vs"
    and f: "f' = (if us = [] then Some b else f)"
  shows "chain nx' f' (us @ b # vs)"
proof -
  from c obtain r where r: "seg nx f us r" "chain nx r vs" by (auto simp: seg_append)
  have d: "distinct (us @ vs)" using chain_distinct [OF c] .
  have "nx x = nx' x" if "x \<in> set vs" for x
  proof -
    have "last_opt us \<noteq> Some x" using that d by (auto dest: last_opt_mem)
    with nx(1) [of x] that show ?thesis by simp
  qed
  then have v: "chain nx' r vs" using seg_cong [of vs nx nx'] r(2) by auto
  show ?thesis
  proof (cases us rule: rev_cases)
    case Nil
    with v r(1) chain_hd [OF r(2)] f nx(2) show ?thesis by simp
  next
    case (snoc ws u)
    have s: "seg nx f ws (Some u)" using r(1) snoc by (auto simp: seg_append)
    have "seg nx f ws (Some u) = seg nx' f ws (Some u)"
    proof (rule seg_cong)
      fix x assume "x \<in> set ws"
      with d snoc have "last_opt us \<noteq> Some x" "x \<in> set (us @ vs)" by auto
      with nx(1) show "nx x = nx' x" by simp
    qed
    with s v snoc f nx(1) [of u] nx(2) chain_hd [OF r(2)] show ?thesis by (simp add: seg_append)
  qed
qed

lemma dll_insert:
  assumes c: "dll nx pv f l (us @ vs)" and b: "b \<notin> set (us @ vs)"
    and nx: "\<And>x. x \<in> set (us @ vs) \<Longrightarrow> nx' x = (if last_opt us = Some x then Some b else nx x)" "nx' b = hd_opt vs"
    and pv: "\<And>x. x \<in> set (us @ vs) \<Longrightarrow> pv' x = (if hd_opt vs = Some x then Some b else pv x)" "pv' b = last_opt us"
    and f: "f' = (if us = [] then Some b else f)" and l: "l' = (if vs = [] then Some b else l)"
  shows "dll nx' pv' f' l' (us @ b # vs)"
proof -
  have "chain nx' f' (us @ b # vs)" using c b nx f by (intro chain_insert [of nx f us vs]) (auto simp: dll_def)
  moreover have "chain pv' l' (rev vs @ b # rev us)"
    using c b pv l by (intro chain_insert [of pv l "rev vs" "rev us"]) (auto simp: dll_def)
  ultimately show ?thesis by (simp add: dll_def)
qed

lemma chain_remove:
  assumes c: "chain nx f (us @ b # vs)"
    and nx: "\<And>x. x \<in> set (us @ vs) \<Longrightarrow> nx' x = (if last_opt us = Some x then hd_opt vs else nx x)"
    and f: "f' = (if us = [] then hd_opt vs else f)"
  shows "chain nx' f' (us @ vs)"
proof -
  from c have r: "seg nx f us (Some b)" "chain nx (nx b) vs" by (auto simp: seg_append)
  have d: "distinct (us @ b # vs)" using chain_distinct [OF c] .
  have "nx x = nx' x" if "x \<in> set vs" for x
  proof -
    have "last_opt us \<noteq> Some x" using that d by (auto dest: last_opt_mem)
    with nx [of x] that show ?thesis by simp
  qed
  then have v: "chain nx' (hd_opt vs) vs" using seg_cong [of vs nx nx'] r(2) chain_hd [OF r(2)] by auto
  show ?thesis
  proof (cases us rule: rev_cases)
    case Nil
    with v f show ?thesis by simp
  next
    case (snoc ws u)
    have s: "seg nx f ws (Some u)" using r(1) snoc by (auto simp: seg_append)
    have "seg nx f ws (Some u) = seg nx' f ws (Some u)"
    proof (rule seg_cong)
      fix x assume "x \<in> set ws"
      with d snoc have "last_opt us \<noteq> Some x" "x \<in> set (us @ vs)" by auto
      with nx show "nx x = nx' x" by simp
    qed
    with s v snoc f nx [of u] show ?thesis by (simp add: seg_append)
  qed
qed

lemma dll_remove:
  assumes c: "dll nx pv f l (us @ b # vs)"
    and nx: "\<And>x. x \<in> set (us @ vs) \<Longrightarrow> nx' x = (if last_opt us = Some x then hd_opt vs else nx x)"
    and pv: "\<And>x. x \<in> set (us @ vs) \<Longrightarrow> pv' x = (if hd_opt vs = Some x then last_opt us else pv x)"
    and f: "f' = (if us = [] then hd_opt vs else f)" and l: "l' = (if vs = [] then last_opt us else l)"
  shows "dll nx' pv' f' l' (us @ vs)"
proof -
  have "chain nx' f' (us @ vs)" using c nx f by (intro chain_remove [of nx f us b vs]) (auto simp: dll_def)
  moreover have "chain pv' l' (rev vs @ rev us)"
    using c pv l by (intro chain_remove [of pv l "rev vs" b "rev us"]) (auto simp: dll_def)
  ultimately show ?thesis by (simp add: dll_def)
qed

text \<open>What the walks from the first node find.\<close>

lemma find_split:
  assumes "find P xs = Some x"
  obtains us vs where "xs = us @ x # vs" "P x" "\<And>y. y \<in> set us \<Longrightarrow> \<not> P y"
proof -
  from assms obtain i where i: "i < length xs" "P (xs ! i)" "x = xs ! i" "\<forall>j<i. \<not> P (xs ! j)"
    by (auto simp: find_Some_iff)
  show thesis
  proof (rule that [of "take i xs" "drop (Suc i) xs"])
    show "xs = take i xs @ x # drop (Suc i) xs" using i(1,3) by (simp add: id_take_nth_drop [symmetric])
    show "P x" using i by simp
    show "\<not> P y" if "y \<in> set (take i xs)" for y using that i by (auto simp: in_set_conv_nth)
  qed
qed

text \<open>The walk that stops at the last node whose successor does not satisfy \<open>R\<close>, or has none.\<close>

lemma find_stop:
  assumes c: "chain nx p xs" and t: "takeWhile R xs = ws @ [n]"
  shows "find (\<lambda>x. case nx x of None \<Rightarrow> True | Some y \<Rightarrow> \<not> R y) xs = Some n"
proof -
  define vs where "vs = dropWhile R xs"
  have xs: "xs = ws @ n # vs" using takeWhile_dropWhile_id [of R xs] t by (simp add: vs_def)
  have R: "R x" if "x \<in> set (ws @ [n])" for x using set_takeWhileD [of x R xs] that t by simp
  have v: "\<not> R y" if "hd_opt vs = Some y" for y
    using that hd_dropWhile [of R xs] by (cases vs) (auto simp: vs_def [symmetric])
  show ?thesis using c R unfolding xs
  proof (induction ws arbitrary: p)
    case Nil
    then have "nx n = hd_opt vs" using chain_next [of nx p "[]" n vs] by simp
    with v show ?case by (auto split: option.split)
  next
    case (Cons w ws)
    then have "chain nx (nx w) (ws @ n # vs)" "\<And>x. x \<in> set (ws @ [n]) \<Longrightarrow> R x" by auto
    note IH = Cons.IH [OF this]
    obtain z where z: "hd_opt (ws @ n # vs) = Some z" "z \<in> set (ws @ [n])" by (cases ws) auto
    have "nx w = Some z" using chain_next [of nx p "[]" w "ws @ n # vs"] Cons.prems(1) z by simp
    moreover have "R z" using Cons.prems(2) z(2) by simp
    ultimately show ?case using IH by simp
  qed
qed

end
