(* ===== verification/Rmap.thy ===== *)
theory Rmap imports Kbase begin

text \<open>
  The resource map allocator of os/malloc.c.  A \<open>struct map X[]\<close> is an array whose slot 0
  holds \<open>mapsize\<close> and \<open>mapwant\<close> and whose further slots hold the free ranges in increasing
  address order, ended by a slot of size 0.  The array is the list \<open>ents\<close>, of fixed length,
  the slots behind the terminator included; running off the array is None.
\<close>

record mapent =
  m_size :: nat
  m_addr :: nat

record rmap =
  mapsize :: nat
  mapwant :: nat
  ents :: "mapent list"

text \<open>The loop that moves the entries behind \<open>bp\<close> down by one, terminator included.\<close>

fun closeup :: "mapent list \<Rightarrow> mapent list option" where
  "closeup (e # f # r) =
     (if m_size f = 0 then Some (f # f # r) else map_option ((#) f) (closeup (f # r)))"
| "closeup _ = None"

text \<open>The search loop of \<open>malloc\<close> from \<open>bp\<close> on: the address (0 for NULL), the slots, and
  whether a slot became empty.\<close>

fun malloc_at :: "nat \<Rightarrow> mapent list \<Rightarrow> (nat \<times> mapent list \<times> bool) option" where
  "malloc_at n [] = None"
| "malloc_at n (e # es) =
     (if m_size e = 0 then Some (0, e # es, False)
      else if n \<le> m_size e then
        (let a = m_addr e;
             e' = \<lparr>m_size = m_size e - n, m_addr = c_uint (m_addr e + n)\<rparr>
         in if m_size e' = 0 then map_option (\<lambda>r. (a, r, True)) (closeup (e' # es))
            else Some (a, e' # es, False))
      else map_option (\<lambda>(a, r, b). (a, e # r, b)) (malloc_at n es))"

definition malloc :: "rmap \<Rightarrow> nat \<Rightarrow> (nat \<times> rmap) option" where
  "malloc mp n =
     (if n = 0 then Some (0, mp)
      else map_option (\<lambda>(a, es, b). (a, mp\<lparr>ents := es,
             mapsize := (if b then c_uint (mapsize mp + 1) else mapsize mp)\<rparr>))
           (malloc_at n (ents mp)))"

text \<open>\<open>mfree\<close>: the slots before \<open>bp\<close> and those from \<open>bp\<close> on.\<close>

fun mfree_find :: "nat \<Rightarrow> mapent list \<Rightarrow> (mapent list \<times> mapent list) option" where
  "mfree_find a [] = None"
| "mfree_find a (e # es) =
     (if m_addr e \<le> a \<and> m_size e \<noteq> 0
      then map_option (\<lambda>(p, q). (e # p, q)) (mfree_find a es)
      else Some ([], e # es))"

fun shift_in :: "mapent \<Rightarrow> mapent list \<Rightarrow> mapent list option" where
  "shift_in x [] = None"
| "shift_in x (e # es) =
     (if m_size e = 0 then Some (x # es) else map_option ((#) x) (shift_in e es))"

text \<open>The common exit of \<open>mfree\<close>: True when it wakes the processes waiting for the map.\<close>

definition mfree_exit :: "rmap \<Rightarrow> rmap \<times> bool" where
  "mfree_exit mp = (if mapwant mp \<noteq> 0 then (mp\<lparr>mapwant := 0\<rparr>, True) else (mp, False))"

definition mfree :: "rmap \<Rightarrow> nat \<Rightarrow> nat \<Rightarrow> (rmap \<times> bool) option" where
  "mfree mp n a =
     (if n = 0 then Some (mp, False)
      else case mfree_find a (ents mp) of None \<Rightarrow> None | Some (pre, rest) \<Rightarrow>
        let bp = hd rest; pv = last pre in
        if pre \<noteq> [] \<and> c_uint (m_addr pv + m_size pv) = a then
          (let pv1 = pv\<lparr>m_size := c_uint (m_size pv + n)\<rparr> in
           if m_addr bp \<noteq> 0 \<and> c_uint (a + n) = m_addr bp then
             map_option (\<lambda>r. mfree_exit (mp\<lparr>
                 ents := butlast pre @ pv1\<lparr>m_size := c_uint (m_size pv1 + m_size bp)\<rparr> # r,
                 mapsize := c_uint (mapsize mp + 1)\<rparr>))
               (if m_size bp = 0 then Some rest else closeup rest)
           else Some (mfree_exit (mp\<lparr>ents := butlast pre @ pv1 # rest\<rparr>)))
        else if c_uint (a + n) = m_addr bp \<and> m_size bp \<noteq> 0 then
          Some (mfree_exit (mp\<lparr>ents := pre @
            bp\<lparr>m_addr := c_uint (m_addr bp + (4294967296 - n)), m_size := c_uint (m_size bp + n)\<rparr> # tl rest\<rparr>))
        else if mapsize mp = 0 then Some (mp, False)
        else map_option (\<lambda>r. mfree_exit (mp\<lparr>ents := pre @ r, mapsize := mapsize mp - 1\<rparr>))
               (shift_in \<lparr>m_size = n, m_addr = a\<rparr> rest))"

text \<open>\<open>mapinit\<close> on a zeroed array of \<open>y\<close> slots, slot 0 included.\<close>

definition mapinit :: "nat \<Rightarrow> rmap" where
  "mapinit y = \<lparr>mapsize = y - 2, mapwant = 0,
     ents = replicate (y - 1) \<lparr>m_size = 0, m_addr = 0\<rparr>\<rparr>"

subsection \<open>The free units and the invariant\<close>

definition ent_units :: "mapent \<Rightarrow> nat set" where
  "ent_units e = {m_addr e ..< m_addr e + m_size e}"

definition units_of :: "mapent list \<Rightarrow> nat set" where
  "units_of es = (\<Union>e\<in>set es. ent_units e)"

definition live :: "mapent list \<Rightarrow> mapent list" where
  "live es = takeWhile (\<lambda>e. m_size e \<noteq> 0) es"

definition units :: "rmap \<Rightarrow> nat set" where
  "units mp = units_of (live (ents mp))"

abbreviation nullent :: mapent where
  "nullent \<equiv> \<lparr>m_size = 0, m_addr = 0\<rparr>"

definition ent_ok :: "mapent \<Rightarrow> bool" where
  "ent_ok e \<longleftrightarrow> 0 < m_size e \<and> 0 < m_addr e \<and> m_addr e + m_size e < 4294967296"

abbreviation gap :: "mapent \<Rightarrow> mapent \<Rightarrow> bool" where
  "gap x y \<equiv> m_addr x + m_size x < m_addr y"

text \<open>The spare slots: the terminator and \<open>k\<close> more, all zero, as \<open>shift_in\<close> relies on.\<close>

definition spare :: "nat \<Rightarrow> mapent list" where
  "spare k = replicate (Suc k) nullent"

text \<open>The map is made of \<open>es\<close>, separated and in order, and of \<open>k\<close> spare slots.\<close>

definition rm_rep :: "rmap \<Rightarrow> mapent list \<Rightarrow> nat \<Rightarrow> bool" where
  "rm_rep mp es k \<longleftrightarrow> ents mp = es @ spare k \<and> mapsize mp = k \<and>
     (\<forall>e\<in>set es. ent_ok e) \<and> sorted_wrt gap es \<and> length es + k < 4294967295"

definition rm_ok :: "rmap \<Rightarrow> bool" where
  "rm_ok mp \<longleftrightarrow> (\<exists>es k. rm_rep mp es k)"

subsection \<open>The loops\<close>

lemma live_rep [simp]: "\<forall>e\<in>set es. ent_ok e \<Longrightarrow> live (es @ spare k) = es"
  by (induction es) (auto simp: live_def ent_ok_def spare_def)

lemma units_rep: "rm_rep mp es k \<Longrightarrow> units mp = units_of es"
  by (simp add: units_def rm_rep_def)

lemma units_of_simps [simp]:
  "units_of [] = {}" "units_of (e # es) = ent_units e \<union> units_of es"
  "units_of (es @ fs) = units_of es \<union> units_of fs"
  by (auto simp: units_of_def)

lemma closeup_rep:
  "\<forall>f\<in>set q. ent_ok f \<Longrightarrow> closeup (e # q @ spare k) = Some (q @ spare (Suc k))"
  by (induction q arbitrary: e) (auto simp: ent_ok_def spare_def)

lemma shift_in_rep:
  "\<forall>f\<in>set q. ent_ok f \<Longrightarrow> shift_in x (q @ spare (Suc k)) = Some (x # q @ spare k)"
  by (induction q arbitrary: x) (auto simp: ent_ok_def spare_def)

lemma malloc_at_none:
  "\<forall>e\<in>set es. ent_ok e \<and> m_size e < n \<Longrightarrow>
   malloc_at n (es @ spare k) = Some (0, es @ spare k, False)"
  by (induction es) (auto simp: ent_ok_def spare_def)

lemma malloc_at_skip:
  "\<forall>e\<in>set p. ent_ok e \<and> m_size e < n \<Longrightarrow>
   malloc_at n (p @ r) = map_option (\<lambda>(a, s, b). (a, p @ s, b)) (malloc_at n r)"
proof (induction p)
  case Nil
  then show ?case by (simp add: option.map_ident case_prod_unfold)
next
  case (Cons e p)
  then show ?case by (simp add: ent_ok_def option.map_comp o_def case_prod_unfold)
qed

text \<open>First fit: the request is cut from the first entry that is large enough.\<close>

lemma malloc_at_hit:
  assumes "\<forall>e\<in>set (p @ e # q). ent_ok e" "\<forall>x\<in>set p. m_size x < n" "n \<le> m_size e" "0 < n"
  shows "malloc_at n ((p @ e # q) @ spare k) =
    (if m_size e = n then Some (m_addr e, (p @ q) @ spare (Suc k), True)
     else Some (m_addr e, (p @ \<lparr>m_size = m_size e - n, m_addr = m_addr e + n\<rparr> # q) @ spare k, False))"
proof -
  have "c_uint (m_addr e + n) = m_addr e + n" using assms by (auto simp: ent_ok_def c_uint_id)
  moreover have "m_size e \<noteq> 0" using assms by (auto simp: ent_ok_def)
  moreover have "\<forall>f\<in>set q. ent_ok f" "\<forall>x\<in>set p. ent_ok x \<and> m_size x < n" using assms by auto
  ultimately show ?thesis using assms(3) by (simp add: malloc_at_skip closeup_rep Let_def)
qed

lemma mfree_find_rep:
  assumes "\<forall>f\<in>set es. ent_ok f" "0 < a"
  shows "mfree_find a (es @ spare k) =
    Some (takeWhile (\<lambda>e. m_addr e \<le> a) es, dropWhile (\<lambda>e. m_addr e \<le> a) es @ spare k)"
  using assms by (induction es) (auto simp: ent_ok_def spare_def)

lemma units_of_mem: "x \<in> units_of es \<longleftrightarrow> (\<exists>e\<in>set es. m_addr e \<le> x \<and> x < m_addr e + m_size e)"
  by (auto simp: units_of_def ent_units_def)

lemma gap_units: "sorted_wrt gap (p @ e # q) \<Longrightarrow> ent_units e \<inter> units_of (p @ q) = {}"
  by (fastforce simp: sorted_wrt_append units_of_mem ent_units_def)

subsection \<open>malloc\<close>

text \<open>What \<open>malloc\<close> computes on a well-formed map, by the two outcomes of the search.\<close>

lemma rep_ents: "rm_rep mp es k \<Longrightarrow> mp\<lparr>ents := es @ spare k\<rparr> = mp"
  by (cases mp) (simp add: rm_rep_def)

lemma malloc_none:
  assumes rep: "rm_rep mp es k" and no: "n = 0 \<or> (\<forall>e\<in>set es. m_size e < n)"
  shows "malloc mp n = Some (0, mp)"
proof (cases "n = 0")
  case False
  with no rep have "malloc_at n (ents mp) = Some (0, es @ spare k, False)"
    by (simp add: rm_rep_def malloc_at_none)
  with False show ?thesis by (simp add: malloc_def rep_ents [OF rep])
qed (simp add: malloc_def)

lemma malloc_hit:
  assumes "rm_rep mp (p @ e # q) k" "\<forall>x\<in>set p. m_size x < n" "n \<le> m_size e" "0 < n"
  shows "malloc mp n = Some (m_addr e,
    if m_size e = n then mp\<lparr>ents := (p @ q) @ spare (Suc k), mapsize := Suc k\<rparr>
    else mp\<lparr>ents := (p @ \<lparr>m_size = m_size e - n, m_addr = m_addr e + n\<rparr> # q) @ spare k\<rparr>)"
proof -
  from assms(1) have "c_uint (Suc (mapsize mp)) = Suc k" by (simp add: rm_rep_def c_uint_id)
  moreover note malloc_at_hit [of p e q n k]
  ultimately show ?thesis using assms
    by (cases mp; cases "m_size e = n") (auto simp: malloc_def rm_rep_def)
qed

lemma malloc_search:
  obtains "n = 0 \<or> (\<forall>e\<in>set es. m_size e < n)"
  | p e q where "es = p @ e # q" "\<forall>x\<in>set p. m_size x < n" "n \<le> m_size e" "0 < n"
proof (cases "n = 0 \<or> (\<forall>e\<in>set es. m_size e < n)")
  case False
  then have "\<exists>x\<in>set es. n \<le> m_size x" "0 < n" by (auto simp: not_less)
  from split_list_first_prop [OF this(1)] this(2) that(2) show ?thesis by (auto simp: not_le)
qed (rule that(1))

lemma ent_units_cut:
  "n \<le> m_size e \<Longrightarrow> ent_units e = {m_addr e ..< m_addr e + n} \<union>
     ent_units \<lparr>m_size = m_size e - n, m_addr = m_addr e + n\<rparr>"
  by (auto simp: ent_units_def)

text \<open>The contract of \<open>malloc\<close> on a well-formed map.\<close>

lemma malloc_contract:
  assumes "rm_ok mp" "malloc mp n = Some (a, mp')"
  shows "rm_ok mp' \<and> mapsize mp \<le> mapsize mp' \<and> mapwant mp' = mapwant mp \<and>
    (if a = 0 then mp' = mp
     else 0 < n \<and> a + n < 4294967296 \<and> {a..<a + n} \<subseteq> units mp \<and> units mp' = units mp - {a..<a + n})"
proof -
  from assms(1) obtain es k where rep: "rm_rep mp es k" by (auto simp: rm_ok_def)
  show ?thesis
  proof (cases rule: malloc_search [of n es])
    case 1
    with rep malloc_none assms show ?thesis by fastforce
  next
    case (2 p e q)
    let ?e = "\<lparr>m_size = m_size e - n, m_addr = m_addr e + n\<rparr>"
    from rep 2 have u: "units mp = {m_addr e ..< m_addr e + n} \<union> ent_units ?e \<union> units_of (p @ q)"
      by (auto simp: units_rep ent_units_cut [of n e])
    from rep have g: "ent_units e \<inter> units_of (p @ q) = {}" unfolding 2(1) unfolding rm_rep_def
      by (intro gap_units) simp
    have "{m_addr e ..< m_addr e + n} \<inter> ent_units ?e = {}" by (auto simp: ent_units_def)
    then have d: "units mp - {m_addr e ..< m_addr e + n} = ent_units ?e \<union> units_of (p @ q)"
      using g u ent_units_cut [of n e] 2(3) by blast
    from rep 2 have e: "ent_ok e" by (auto simp: rm_rep_def)
    show ?thesis
    proof (cases "m_size e = n")
      case True
      with rep 2 assms malloc_hit [of mp p e q k n]
      have a: "a = m_addr e" and rep': "rm_rep mp' (p @ q) (Suc k)" "mapwant mp' = mapwant mp"
        by (auto simp: rm_rep_def sorted_wrt_append)
      from True d a have "units mp' = units mp - {a..<a + n}"
        unfolding units_rep [OF rep'(1)] by (simp add: ent_units_def)
      with a rep rep' u 2 e show ?thesis by (auto simp: rm_ok_def rm_rep_def ent_ok_def)
    next
      case False
      with rep 2 assms malloc_hit [of mp p e q k n]
      have a: "a = m_addr e" and rep': "rm_rep mp' (p @ ?e # q) k" "mapwant mp' = mapwant mp"
        by (auto simp: rm_rep_def sorted_wrt_append ent_ok_def)
      from d a have "units mp' = units mp - {a..<a + n}"
        unfolding units_rep [OF rep'(1)] by auto
      with a rep rep' u 2 e show ?thesis by (auto simp: rm_ok_def rm_rep_def ent_ok_def)
    qed
  qed
qed

lemma malloc_total: "rm_ok mp \<Longrightarrow> \<exists>a mp'. malloc mp n = Some (a, mp')"
proof -
  assume "rm_ok mp"
  then obtain es k where rep: "rm_rep mp es k" by (auto simp: rm_ok_def)
  show ?thesis
    by (cases rule: malloc_search [of n es]) (use rep in \<open>auto simp: malloc_none malloc_hit\<close>)
qed

subsection \<open>mfree\<close>

text \<open>Where \<open>mfree\<close> stops: everything before ends at or below \<open>a\<close>, everything behind starts at
  or above \<open>a + n\<close>.\<close>

lemma mfree_split:
  assumes rep: "rm_rep mp es k" and pos: "0 < a" and dis: "{a..<a + n} \<inter> units mp = {}" "0 < n"
  obtains pre post where "es = pre @ post" "mfree_find a (ents mp) = Some (pre, post @ spare k)"
    "\<forall>x\<in>set pre. m_addr x + m_size x \<le> a" "\<forall>y\<in>set post. a + n \<le> m_addr y"
proof
  let ?P = "\<lambda>e. m_addr e \<le> a"
  let ?pre = "takeWhile ?P es" and ?post = "dropWhile ?P es"
  from rep have ok: "\<forall>e\<in>set es. ent_ok e" and gaps: "sorted_wrt gap (?pre @ ?post)"
    by (auto simp: rm_rep_def)
  have un: "x \<notin> units_of es" if "a \<le> x" "x < a + n" for x
    using dis that by (auto simp: units_rep [OF rep])
  show "es = ?pre @ ?post" by simp
  show "mfree_find a (ents mp) = Some (?pre, ?post @ spare k)"
    using rep ok pos by (simp add: rm_rep_def mfree_find_rep)
  show "\<forall>x\<in>set ?pre. m_addr x + m_size x \<le> a"
    using un [of a] dis(2) by (auto dest!: set_takeWhileD simp: units_of_mem not_less)
  have post: "a < m_addr y \<and> y \<in> set es" if y: "y \<in> set ?post" for y
  proof -
    from y obtain h t where ht: "?post = h # t" by (cases ?post) auto
    then have "a < m_addr h" using hd_dropWhile [of ?P es] by auto
    with gaps y ht set_dropWhileD [OF y] show ?thesis by (auto simp: sorted_wrt_append)
  qed
  show "\<forall>y\<in>set ?post. a + n \<le> m_addr y"
  proof
    fix y assume "y \<in> set ?post"
    from post [OF this] ok have y: "a < m_addr y" "y \<in> set es" "0 < m_size y"
      by (auto simp: ent_ok_def)
    with un [of "m_addr y"] show "a + n \<le> m_addr y" by (force simp: units_of_mem not_less)
  qed
qed

lemma ent_ok_c_uint:
  "ent_ok e \<Longrightarrow> c_uint (m_addr e + m_size e) = m_addr e + m_size e \<and> c_uint (m_size e) = m_size e"
  by (simp add: ent_ok_def c_uint_id)

lemmas rep_simps = rm_rep_def sorted_wrt_append ent_ok_def c_uint_id

text \<open>The four ways a range is put back, as equations on the represented list.\<close>

lemma mfree_both:
  assumes "rm_rep mp (p @ v # b # q) k" "mfree_find a (ents mp) = Some (p @ [v], b # q @ spare k)"
    "m_addr v + m_size v = a" "m_addr b = a + n" "0 < n" "a + n < 4294967296"
  shows "let es = p @ v\<lparr>m_size := m_size v + n + m_size b\<rparr> # q;
             mp1 = mp\<lparr>ents := es @ spare (Suc k), mapsize := Suc k\<rparr>
         in mfree mp n a = Some (mfree_exit mp1) \<and> rm_rep mp1 es (Suc k)"
proof -
  have "closeup (b # q @ spare k) = Some (q @ spare (Suc k))"
    using assms(1) by (intro closeup_rep) (auto simp: rm_rep_def)
  with assms show ?thesis by (auto simp: mfree_def Let_def rep_simps add.assoc)
qed

lemma mfree_left:
  assumes "rm_rep mp (p @ v # q) k" "mfree_find a (ents mp) = Some (p @ [v], q @ spare k)"
    "m_addr v + m_size v = a" "\<forall>y\<in>set q. a + n < m_addr y" "0 < n" "a + n < 4294967296"
  shows "let es = p @ v\<lparr>m_size := m_size v + n\<rparr> # q; mp1 = mp\<lparr>ents := es @ spare k\<rparr>
         in mfree mp n a = Some (mfree_exit mp1) \<and> rm_rep mp1 es k"
proof -
  have 1: "m_addr (hd (q @ spare k)) \<noteq> 0 \<longrightarrow> c_uint (a + n) \<noteq> m_addr (hd (q @ spare k))"
    using assms(4,6) by (cases q) (auto simp: spare_def c_uint_id)
  show ?thesis using assms 1 by (auto simp: mfree_def Let_def rep_simps add.assoc)
qed

lemma mfree_right:
  assumes "rm_rep mp (p @ b # q) k" "mfree_find a (ents mp) = Some (p, b # q @ spare k)"
    "\<forall>x\<in>set p. m_addr x + m_size x < a" "m_addr b = a + n" "0 < n" "0 < a" "a + n < 4294967296"
  shows "let es = p @ b\<lparr>m_addr := a, m_size := m_size b + n\<rparr> # q; mp1 = mp\<lparr>ents := es @ spare k\<rparr>
         in mfree mp n a = Some (mfree_exit mp1) \<and> rm_rep mp1 es k"
proof -
  have b: "ent_ok b" using assms(1) by (simp add: rm_rep_def)
  have "m_addr b + (4294967296 - n) = a + 4294967296" using assms by simp
  then have "c_uint (m_addr b + (4294967296 - n)) = a" using assms by (simp add: c_uint_def)
  moreover have "p \<noteq> [] \<Longrightarrow> c_uint (m_addr (last p) + m_size (last p)) \<noteq> a"
    using assms(1,3) by (auto simp: rep_simps)
  ultimately show ?thesis using assms b
    by (auto simp: mfree_def Let_def rep_simps add.assoc simp del: One_nat_def)
qed

lemma mfree_insert:
  assumes "rm_rep mp (p @ q) k" "mfree_find a (ents mp) = Some (p, q @ spare k)"
    "\<forall>x\<in>set p. m_addr x + m_size x < a" "\<forall>y\<in>set q. a + n < m_addr y"
    "0 < n" "0 < a" "a + n < 4294967296"
  shows "if k = 0 then mfree mp n a = Some (mp, False)
    else let es = p @ \<lparr>m_size = n, m_addr = a\<rparr> # q;
             mp1 = mp\<lparr>ents := es @ spare (k - 1), mapsize := k - 1\<rparr>
         in mfree mp n a = Some (mfree_exit mp1) \<and> rm_rep mp1 es (k - 1)"
proof -
  have 1: "p \<noteq> [] \<Longrightarrow> c_uint (m_addr (last p) + m_size (last p)) \<noteq> a"
    using assms(1,3) by (auto simp: rep_simps)
  have 2: "\<not> (c_uint (a + n) = m_addr (hd (q @ spare k)) \<and> m_size (hd (q @ spare k)) \<noteq> 0)"
    using assms(4,7) by (cases q) (auto simp: spare_def c_uint_id)
  have 3: "k \<noteq> 0 \<Longrightarrow> shift_in \<lparr>m_size = n, m_addr = a\<rparr> (q @ spare k) =
      Some (\<lparr>m_size = n, m_addr = a\<rparr> # q @ spare (k - 1))"
    using shift_in_rep [of q _ "k - 1"] assms(1) by (auto simp: rm_rep_def)
  show ?thesis using assms 1 2 3 by (auto simp: mfree_def Let_def rep_simps)
qed

lemma mfree_exit_simps [simp]:
  "rm_rep (fst (mfree_exit mp)) es k = rm_rep mp es k"
  "mapsize (fst (mfree_exit mp)) = mapsize mp" "mapwant (fst (mfree_exit mp)) = 0"
  "snd (mfree_exit mp) \<longleftrightarrow> mapwant mp \<noteq> 0"
  by (auto simp: mfree_exit_def rm_rep_def)

text \<open>What a successful \<open>mfree\<close> leaves behind.\<close>

definition put_back :: "rmap \<Rightarrow> nat \<Rightarrow> nat \<Rightarrow> rmap \<times> bool \<Rightarrow> bool" where
  "put_back mp n a r \<longleftrightarrow> rm_ok (fst r) \<and> units (fst r) = units mp \<union> {a..<a + n} \<and>
     mapsize mp \<le> Suc (mapsize (fst r)) \<and> mapwant (fst r) = 0 \<and> (snd r \<longleftrightarrow> mapwant mp \<noteq> 0)"

lemma put_backI:
  assumes "rm_rep mp es k" "rm_rep mp1 fs j" "units_of fs = units_of es \<union> {a..<a + n}" "k \<le> Suc j"
    "mapwant mp1 = mapwant mp"
  shows "put_back mp n a (mfree_exit mp1)"
proof -
  from assms(2) have "rm_rep (fst (mfree_exit mp1)) fs j" by simp
  from units_rep [OF this] units_rep [OF assms(1)] this assms show ?thesis
    by (auto simp: put_back_def rm_ok_def rm_rep_def [of mp] rm_rep_def [of mp1])
qed

lemma mfree_done:
  assumes "mfree mp n a = Some (mfree_exit mp1) \<and> rm_rep mp1 fs j" "rm_rep mp es k"
    "units_of fs = units_of es \<union> {a..<a + n}" "k \<le> Suc j" "mapwant mp1 = mapwant mp"
  shows "\<exists>r. mfree mp n a = Some r \<and> put_back mp n a r"
  using assms put_backI by blast

lemma left_adjacent:
  assumes "\<forall>x\<in>set pre. m_addr x + m_size x \<le> a" "sorted_wrt gap pre"
  shows "(\<exists>p v. pre = p @ [v] \<and> m_addr v + m_size v = a) \<or> (\<forall>x\<in>set pre. m_addr x + m_size x < a)"
proof (cases pre rule: rev_cases)
  case (snoc p v)
  with assms show ?thesis by (cases "m_addr v + m_size v = a") (force simp: sorted_wrt_append)+
qed simp

lemma right_adjacent:
  assumes "\<forall>y\<in>set post. b \<le> m_addr y" "sorted_wrt gap post"
  shows "(\<exists>h q. post = h # q \<and> m_addr h = b) \<or> (\<forall>y\<in>set post. b < m_addr y)"
  using assms by (cases post) force+

text \<open>The contract of \<open>mfree\<close>: the range joins the free units, unless it touches no free range
  and the table is full, where the code reports the overflow and loses the range.\<close>

lemma mfree_contract:
  assumes ok: "rm_ok mp" and rng: "0 < n" "0 < a" "a + n < 4294967296"
    and dis: "{a..<a + n} \<inter> units mp = {}"
  shows "(\<exists>r. mfree mp n a = Some r \<and> put_back mp n a r) \<or>
    mapsize mp = 0 \<and> a - 1 \<notin> units mp \<and> a + n \<notin> units mp \<and> mfree mp n a = Some (mp, False)"
proof -
  from ok obtain es k where rep: "rm_rep mp es k" by (auto simp: rm_ok_def)
  obtain pre post where sp: "es = pre @ post" "mfree_find a (ents mp) = Some (pre, post @ spare k)"
    "\<forall>x\<in>set pre. m_addr x + m_size x \<le> a" "\<forall>y\<in>set post. a + n \<le> m_addr y"
    by (rule mfree_split [OF rep rng(2) dis rng(1)])
  have gaps: "sorted_wrt gap (pre @ post)"
    using rep sp(1) by (auto simp: rm_rep_def)
  consider (left) p v where "pre = p @ [v]" "m_addr v + m_size v = a"
    | (apart) "\<forall>x\<in>set pre. m_addr x + m_size x < a"
    using left_adjacent [of pre a] sp(3) gaps by (auto simp: sorted_wrt_append)
  note L = this
  consider (right) b q where "post = b # q" "m_addr b = a + n"
    | (apart) "\<forall>y\<in>set post. a + n < m_addr y"
    using right_adjacent [of post "a + n"] sp(4) gaps by (auto simp: sorted_wrt_append)
  note R = this
  have un: "ent_units (v\<lparr>m_size := m_size v + n\<rparr>) = ent_units v \<union> {a..<a + n}"
    if "m_addr v + m_size v = a" for v using that by (auto simp: ent_units_def)
  show ?thesis
  proof (cases rule: L)
    case (left p v)
    show ?thesis
    proof (cases rule: R)
      case (right b q)
      have u: "ent_units (v\<lparr>m_size := m_size v + n + m_size b\<rparr>) =
          ent_units v \<union> {a..<a + n} \<union> ent_units b"
        using left right by (auto simp: ent_units_def)
      show ?thesis
        by (intro disjI1 mfree_done [OF mfree_both [unfolded Let_def, of mp p v b q k a n] rep])
          (use left right sp rep rng in \<open>auto simp: u\<close>)
    next
      case apart
      show ?thesis
        by (intro disjI1 mfree_done [OF mfree_left [unfolded Let_def, of mp p v post k a n] rep])
          (use left apart sp rep rng in \<open>auto simp: un\<close>)
    qed
  next
    case apart
    show ?thesis
    proof (cases rule: R)
      case (right b q)
      have u: "ent_units (b\<lparr>m_addr := a, m_size := m_size b + n\<rparr>) = {a..<a + n} \<union> ent_units b"
        using right by (auto simp: ent_units_def)
      show ?thesis
        by (intro disjI1 mfree_done [OF mfree_right [unfolded Let_def, of mp pre b q k a n] rep])
          (use apart right sp rep rng in \<open>auto simp: u\<close>)
    next
      case apart': apart
      have u: "ent_units \<lparr>m_size = n, m_addr = a\<rparr> = {a..<a + n}" by (auto simp: ent_units_def)
      have out: "a - 1 \<notin> units mp \<and> a + n \<notin> units mp"
        using apart apart' rng units_rep [OF rep] sp(1) by (fastforce simp: units_of_mem)
      have k: "k = mapsize mp" using rep by (simp add: rm_rep_def)
      note ins = mfree_insert [of mp pre post k a n]
      show ?thesis
      proof (cases "k = 0")
        case True
        with ins apart apart' sp rep rng out k show ?thesis by auto
      next
        case False
        with ins [unfolded Let_def] apart apart' sp rep rng
        have "mfree mp n a = Some (mfree_exit (mp\<lparr>ents := (pre @ \<lparr>m_size = n, m_addr = a\<rparr> # post)
            @ spare (k - 1), mapsize := k - 1\<rparr>)) \<and> rm_rep (mp\<lparr>ents := (pre @ \<lparr>m_size = n, m_addr = a\<rparr>
            # post) @ spare (k - 1), mapsize := k - 1\<rparr>) (pre @ \<lparr>m_size = n, m_addr = a\<rparr> # post) (k - 1)"
          by auto
        moreover have "units_of (pre @ \<lparr>m_size = n, m_addr = a\<rparr> # post) = units_of es \<union> {a..<a + n}"
          using sp(1) by (auto simp: u)
        ultimately show ?thesis using mfree_done [OF _ rep] by auto
      qed
    qed
  qed
qed

subsection \<open>A map is determined by its free units\<close>

lemma units_of_le: "\<forall>x\<in>set es. b \<le> m_addr x \<Longrightarrow> y \<in> units_of es \<Longrightarrow> b \<le> y"
  by (force simp: units_of_mem)

lemma sorted_gap_Cons:
  "sorted_wrt gap (e # es) \<Longrightarrow> y \<in> units_of es \<Longrightarrow> m_addr e + m_size e < y"
  using units_of_le [of es "Suc (m_addr e + m_size e)" y] by (auto simp: Suc_le_eq)

lemma units_end_le:
  assumes "sorted_wrt gap (e # es)" "sorted_wrt gap (f # fs)" "ent_ok f" "m_addr e = m_addr f"
    "units_of (e # es) = units_of (f # fs)"
  shows "m_size f \<le> m_size e"
proof (rule ccontr)
  let ?x = "m_addr e + m_size e"
  assume "\<not> ?thesis"
  with assms(4) have "?x \<in> units_of (f # fs)" by (auto simp: ent_units_def)
  with assms(5) have "?x \<in> units_of es" by (auto simp: ent_units_def)
  with sorted_gap_Cons [OF assms(1) this] show False by simp
qed

lemma units_canonical:
  assumes "\<forall>e\<in>set es \<union> set fs. ent_ok e" "sorted_wrt gap es" "sorted_wrt gap fs"
    "units_of es = units_of fs"
  shows "es = fs"
  using assms
proof (induction es arbitrary: fs)
  case Nil
  then show ?case by (cases fs) (auto simp: ent_units_def ent_ok_def)
next
  case (Cons e es)
  from Cons.prems have "m_addr e \<in> units_of fs" by (auto simp: ent_units_def ent_ok_def)
  then obtain f gs where fs: "fs = f # gs" by (cases fs) auto
  have f: "m_addr f \<in> units_of (e # es)"
    using Cons.prems fs by (auto simp: ent_units_def ent_ok_def)
  have lo: "m_addr x \<le> y" if "sorted_wrt gap (x # xs)" "y \<in> units_of (x # xs)" for x xs y
    using sorted_gap_Cons [OF that(1), of y] that(2) by (auto simp: ent_units_def)
  from lo [of e es "m_addr f"] f Cons.prems(2) have "m_addr e \<le> m_addr f" by simp
  moreover from lo [of f gs "m_addr e"] \<open>m_addr e \<in> units_of fs\<close> Cons.prems(3) fs
  have "m_addr f \<le> m_addr e" by simp
  ultimately have a: "m_addr e = m_addr f" by simp
  have se: "sorted_wrt gap (e # es)" "ent_ok e" and sf: "sorted_wrt gap (f # gs)" "ent_ok f"
    and eq: "units_of (e # es) = units_of (f # gs)"
    using Cons.prems(2-4) bspec [OF Cons.prems(1), of e] bspec [OF Cons.prems(1), of f] fs by auto
  have "m_size f \<le> m_size e" by (rule units_end_le [OF se(1) sf a eq])
  moreover have "m_size e \<le> m_size f"
    by (rule units_end_le [OF sf(1) se a [symmetric] eq [symmetric]])
  ultimately have "m_size e = m_size f" by simp
  with a have ef: "e = f" by simp
  have tl: "units_of xs = units_of (e # xs) - ent_units e" if "sorted_wrt gap (e # xs)" for xs
    using sorted_gap_Cons [OF that] by (force simp: ent_units_def)
  have "units_of es = units_of gs"
    using tl [OF se(1)] tl [of gs] sf(1) eq ef by simp
  with Cons.IH [of gs] Cons.prems fs ef show ?case by auto
qed

lemma rm_canonical:
  assumes "rm_ok mp" "rm_ok mp'" "units mp = units mp'"
  shows "live (ents mp) = live (ents mp')"
proof -
  from assms(1,2) obtain es k fs j where "rm_rep mp es k" "rm_rep mp' fs j" by (auto simp: rm_ok_def)
  with assms(3) units_canonical [of es fs] show ?thesis by (auto simp: units_rep) (auto simp: rm_rep_def)
qed

subsection \<open>The interface used by the IPC facilities\<close>

text \<open>What \<open>semget\<close> and \<open>msgsnd\<close> rely on: the units handed out come from the free units, and
  releasing them puts them back as long as a slot is left for them.\<close>

locale unit_pool =
  fixes ok :: "'m \<Rightarrow> bool" and free :: "'m \<Rightarrow> nat set" and slots :: "'m \<Rightarrow> nat"
    and alloc :: "'m \<Rightarrow> nat \<Rightarrow> (nat \<times> 'm) option" and release :: "'m \<Rightarrow> nat \<Rightarrow> nat \<Rightarrow> 'm option"
  assumes alloc_total: "ok m \<Longrightarrow> \<exists>a m'. alloc m n = Some (a, m')"
    and alloc_ok: "ok m \<Longrightarrow> alloc m n = Some (a, m') \<Longrightarrow> ok m' \<and> slots m \<le> slots m'"
    and alloc_fail: "ok m \<Longrightarrow> alloc m n = Some (0, m') \<Longrightarrow> m' = m"
    and alloc_units: "ok m \<Longrightarrow> alloc m n = Some (a, m') \<Longrightarrow> 0 < a \<Longrightarrow>
      0 < n \<and> a + n < 4294967296 \<and> {a..<a + n} \<subseteq> free m \<and> free m' = free m - {a..<a + n}"
    and release_units: "ok m \<Longrightarrow> 0 < slots m \<Longrightarrow> 0 < n \<Longrightarrow> 0 < a \<Longrightarrow> a + n < 4294967296 \<Longrightarrow>
      {a..<a + n} \<inter> free m = {} \<Longrightarrow>
      \<exists>m'. release m n a = Some m' \<and> ok m' \<and> free m' = free m \<union> {a..<a + n}"
begin

lemma alloc_alloc_disjoint:
  assumes "ok m" "alloc m n = Some (a, m1)" "0 < a" "alloc m1 k = Some (b, m2)" "0 < b"
  shows "{a..<a + n} \<inter> {b..<b + k} = {}"
proof -
  from assms have "ok m1" "free m1 = free m - {a..<a + n}" using alloc_ok alloc_units by blast+
  moreover from alloc_units [OF \<open>ok m1\<close> assms(4,5)] have "{b..<b + k} \<subseteq> free m1" by simp
  ultimately show ?thesis by blast
qed

lemma alloc_release:
  assumes "ok m" "0 < slots m" "alloc m n = Some (a, m1)" "0 < a"
  shows "\<exists>m2. release m1 n a = Some m2 \<and> ok m2 \<and> free m2 = free m"
proof -
  from alloc_units [OF assms(1,3,4)] alloc_ok [OF assms(1,3)] assms(2)
    release_units [of m1 n a] assms(4)
  obtain m2 where "release m1 n a = Some m2" "ok m2" "free m2 = (free m - {a..<a + n}) \<union> {a..<a + n}"
    by auto
  with alloc_units [OF assms(1,3,4)] show ?thesis by blast
qed

end

interpretation rm: unit_pool rm_ok units mapsize malloc "\<lambda>mp n a. map_option fst (mfree mp n a)"
proof unfold_locales
  fix mp n
  assume "rm_ok mp"
  then show "\<exists>a mp'. malloc mp n = Some (a, mp')" by (rule malloc_total)
next
  fix mp n a mp'
  assume "rm_ok mp" "malloc mp n = Some (a, mp')"
  note c = malloc_contract [OF this]
  from c show "rm_ok mp' \<and> mapsize mp \<le> mapsize mp'" by blast
  from c show "0 < n \<and> a + n < 4294967296 \<and> {a..<a + n} \<subseteq> units mp \<and> units mp' = units mp - {a..<a + n}"
    if "0 < a" using that by simp
next
  fix mp n mp'
  assume "rm_ok mp" "malloc mp n = Some (0, mp')"
  from malloc_contract [OF this] show "mp' = mp" by simp
next
  fix mp n a
  assume "rm_ok mp" "0 < mapsize mp" "0 < n" "0 < a" "a + n < 4294967296" "{a..<a + n} \<inter> units mp = {}"
  with mfree_contract [of mp n a]
  show "\<exists>m'. map_option fst (mfree mp n a) = Some m' \<and> rm_ok m' \<and> units m' = units mp \<union> {a..<a + n}"
    by (auto simp: put_back_def)
qed

subsection \<open>Properties\<close>

lemma malloc_fit:
  assumes "rm_ok mp" "malloc mp n = Some (a, mp')"
  shows "(a = 0 \<longrightarrow> n = 0 \<or> (\<forall>e\<in>set (live (ents mp)). m_size e < n)) \<and>
    (a \<noteq> 0 \<longrightarrow> (\<forall>e\<in>set (live (ents mp)). m_addr e < a \<longrightarrow> m_size e < n))"
proof -
  from assms(1) obtain es k where rep: "rm_rep mp es k" by (auto simp: rm_ok_def)
  then have lv: "live (ents mp) = es" by (simp add: rm_rep_def)
  show ?thesis
  proof (cases rule: malloc_search [of n es])
    case 1
    with malloc_none [OF rep 1] assms lv show ?thesis by simp
  next
    case (2 p e q)
    from malloc_hit [of mp p e q k n] rep 2 assms have a: "a = m_addr e" by simp
    have "0 < m_addr e" "sorted_wrt gap (p @ e # q)"
      using rep 2(1) by (auto simp: rm_rep_def ent_ok_def)
    with 2 a lv show ?thesis by (auto simp: sorted_wrt_append)
  qed
qed

lemma rm_ok_mapinit: "2 \<le> y \<Longrightarrow> y < 4294967296 \<Longrightarrow> rm_ok (mapinit y) \<and> units (mapinit y) = {}"
proof -
  assume y: "2 \<le> y" "y < 4294967296"
  then have "Suc (y - 2) = y - 1" by simp
  with y have "rm_rep (mapinit y) [] (y - 2)" by (auto simp: rm_rep_def mapinit_def spare_def)
  then show ?thesis by (auto simp: rm_ok_def units_rep)
qed

text \<open>A map with two free ranges, for the witnesses.\<close>

lemma two_ranges_ok:
  "rm_ok \<lparr>mapsize = 2, mapwant = 1, ents = [\<lparr>m_size = 4, m_addr = 1\<rparr>, \<lparr>m_size = 8, m_addr = 10\<rparr>,
     nullent, nullent, nullent]\<rparr>"
  unfolding rm_ok_def
  by (rule exI [of _ "[\<lparr>m_size = 4, m_addr = 1\<rparr>, \<lparr>m_size = 8, m_addr = 10\<rparr>]"], rule exI [of _ 2])
    (simp add: rm_rep_def ent_ok_def spare_def numeral_2_eq_2)

text \<open>C10: On a well-formed map, \<open>malloc\<close> always returns; it fails only when no free range is large
  enough, and then changes nothing; otherwise it hands out the lowest free range that fits (first
  fit), removes exactly those units from the free units and keeps the map well formed.\<close>

theorem malloc_first_fit:
  assumes "rm_ok mp"
  shows "\<exists>a mp'. malloc mp n = Some (a, mp') \<and> rm_ok mp' \<and>
    (if a = 0 then mp' = mp \<and> (n = 0 \<or> (\<forall>e\<in>set (live (ents mp)). m_size e < n))
     else 0 < n \<and> {a..<a + n} \<subseteq> units mp \<and> units mp' = units mp - {a..<a + n} \<and>
       (\<forall>e\<in>set (live (ents mp)). m_addr e < a \<longrightarrow> m_size e < n))"
proof -
  from malloc_total [OF assms] obtain a mp' where m: "malloc mp n = Some (a, mp')" by blast
  from malloc_contract [OF assms m] malloc_fit [OF assms m] m show ?thesis by auto
qed

theorem malloc_first_fit_witness:
  "let mp = \<lparr>mapsize = 2, mapwant = 1, ents = [\<lparr>m_size = 4, m_addr = 1\<rparr>, \<lparr>m_size = 8, m_addr = 10\<rparr>,
     nullent, nullent, nullent]\<rparr>
   in \<exists>mp'. malloc mp 5 = Some (10, mp') \<and> units mp' = units mp - {10..<15}"
  using malloc_first_fit [OF two_ranges_ok, of 5]
  by (auto simp: malloc_def c_uint_def Let_def)

text \<open>C11: On a well-formed map, \<open>mfree\<close> of a range of used units always returns; the range joins the
  free units, merged with its neighbours so that the map stays well formed, and the processes
  waiting for the map are woken exactly when there are some; only a range that touches no free
  range while the table is full is dropped, with the map unchanged.\<close>

theorem mfree_returns_units:
  assumes "rm_ok mp" "0 < n" "0 < a" "a + n < 4294967296" "{a..<a + n} \<inter> units mp = {}"
  shows "(\<exists>mp' woken. mfree mp n a = Some (mp', woken) \<and> rm_ok mp' \<and>
      units mp' = units mp \<union> {a..<a + n} \<and> mapwant mp' = 0 \<and> (woken \<longleftrightarrow> mapwant mp \<noteq> 0)) \<or>
    (mapsize mp = 0 \<and> a - 1 \<notin> units mp \<and> a + n \<notin> units mp \<and> mfree mp n a = Some (mp, False))"
  using mfree_contract [OF assms] by (auto simp: put_back_def)

theorem mfree_returns_units_witness:
  "let mp = \<lparr>mapsize = 2, mapwant = 1, ents = [\<lparr>m_size = 4, m_addr = 1\<rparr>, \<lparr>m_size = 8, m_addr = 10\<rparr>,
     nullent, nullent, nullent]\<rparr>
   in \<exists>mp'. mfree mp 5 5 = Some (mp', True) \<and> units mp' = units mp \<union> {5..<10} \<and>
        live (ents mp') = [\<lparr>m_size = 17, m_addr = 1\<rparr>]"
proof -
  let ?mp = "\<lparr>mapsize = 2, mapwant = 1, ents = [\<lparr>m_size = 4, m_addr = 1\<rparr>, \<lparr>m_size = 8, m_addr = 10\<rparr>,
     nullent, nullent, nullent]\<rparr>"
  have "units ?mp = {1..<5} \<union> {10..<18}" by (auto simp: units_def live_def ent_units_def)
  then have d: "{5..<5 + 5} \<inter> units ?mp = {}" by auto
  show ?thesis using mfree_returns_units [OF two_ranges_ok _ _ _ d]
    by (auto simp: mfree_def mfree_exit_def c_uint_def Let_def live_def)
qed

text \<open>C25: Allocating from a map with a spare slot and freeing the same range gives back exactly the
  table of free ranges there was before (the representation is canonical).\<close>

theorem malloc_mfree_roundtrip:
  assumes "rm_ok mp" "0 < mapsize mp" "malloc mp n = Some (a, mp1)" "0 < a"
  shows "\<exists>mp2 woken. mfree mp1 n a = Some (mp2, woken) \<and> live (ents mp2) = live (ents mp)"
proof -
  from rm.alloc_release [OF assms] obtain mp2 where
    "map_option fst (mfree mp1 n a) = Some mp2" "rm_ok mp2" "units mp2 = units mp" by blast
  with rm_canonical [of mp2 mp] assms(1) show ?thesis by auto
qed

theorem malloc_mfree_roundtrip_witness:
  "let mp = \<lparr>mapsize = 2, mapwant = 1, ents = [\<lparr>m_size = 4, m_addr = 1\<rparr>, \<lparr>m_size = 8, m_addr = 10\<rparr>,
     nullent, nullent, nullent]\<rparr>
   in \<exists>a mp1 mp2 woken. malloc mp 3 = Some (a, mp1) \<and> mfree mp1 3 a = Some (mp2, woken) \<and>
        live (ents mp2) = live (ents mp)"
proof -
  let ?mp = "\<lparr>mapsize = 2, mapwant = 1, ents = [\<lparr>m_size = 4, m_addr = 1\<rparr>, \<lparr>m_size = 8, m_addr = 10\<rparr>,
     nullent, nullent, nullent]\<rparr>"
  have "malloc ?mp 3 = Some (1, ?mp\<lparr>ents := [\<lparr>m_size = 1, m_addr = 4\<rparr>, \<lparr>m_size = 8, m_addr = 10\<rparr>,
     nullent, nullent, nullent]\<rparr>)" by (simp add: malloc_def c_uint_def Let_def)
  from malloc_mfree_roundtrip [OF two_ranges_ok _ this] this show ?thesis by (simp add: Let_def)
qed

end
