(* ===== verification/Clist.thy ===== *)
theory Clist imports Fifo begin

text \<open>
  Character lists, io/clist.c: queues of bytes kept in chained blocks of \<open>CLSIZE\<close> characters that
  all come from one free list.  Blocks live in a heap \<open>cblk\<close> indexed by their address, clists in
  \<open>clst\<close>; the links are the pointer fields of the code.  The spl calls that bracket every routine
  make each of them one step; the throttled console warnings are left out.  None is the result
  where the code would follow a null pointer.
\<close>

record cblock =
  c_next :: "nat option"
  c_first :: nat
  c_last :: nat
  c_data :: "nat \<Rightarrow> 8 word"

record clist =
  c_cc :: int
  c_cf :: "nat option"
  c_cl :: "nat option"

record cstate =
  cblk :: "nat \<Rightarrow> cblock"
  clst :: "nat \<Rightarrow> clist"
  cf_next :: "nat option"
  cf_size :: nat
  cf_flag :: bool
  cf_wakes :: nat
  cfreecnt :: nat
  v_clist :: nat

definition upd_blk :: "nat \<Rightarrow> (cblock \<Rightarrow> cblock) \<Rightarrow> cstate \<Rightarrow> cstate" where
  "upd_blk b f s = s\<lparr>cblk := (cblk s)(b := f (cblk s b))\<rparr>"

definition upd_cl :: "nat \<Rightarrow> (clist \<Rightarrow> clist) \<Rightarrow> cstate \<Rightarrow> cstate" where
  "upd_cl p f s = s\<lparr>clst := (clst s)(p := f (clst s p))\<rparr>"

text \<open>\<open>if (cfreelist.c_flag) \<dots> wakeup(&cfreelist)\<close>\<close>

definition cf_wakeup :: "cstate \<Rightarrow> cstate" where
  "cf_wakeup s = (if cf_flag s then s\<lparr>cf_flag := False, cf_wakes := Suc (cf_wakes s)\<rparr> else s)"

definition putcf :: "nat \<Rightarrow> cstate \<Rightarrow> cstate" where
  "putcf b s = cf_wakeup ((upd_blk b (\<lambda>x. x\<lparr>c_next := cf_next s\<rparr>) s)\<lparr>cf_next := Some b\<rparr>)"

text \<open>\<open>getc\<close>: the tail of its body, from \<open>bp->c_next = cfreelist.c_next\<close> on, is \<open>putcf\<close>.\<close>

definition getc :: "nat \<Rightarrow> cstate \<Rightarrow> (int \<times> cstate) option" where
  "getc p s =
     (if 0 < c_cc (clst s p) then
        case c_cf (clst s p) of None \<Rightarrow> None | Some b \<Rightarrow>
          let bp = cblk s b;
              c = uint (c_data bp (c_first bp));
              s1 = upd_blk b (\<lambda>x. x\<lparr>c_first := Suc (c_first x)\<rparr>)
                     (upd_cl p (\<lambda>q. q\<lparr>c_cc := c_cc q - 1\<rparr>) s)
          in if Suc (c_first bp) = c_last bp then
               Some (c, putcf b (upd_cl p (\<lambda>q. q\<lparr>c_cf := c_next bp,
                  c_cl := (if c_next bp = None then None else c_cl q)\<rparr>) s1))
             else Some (c, s1)
      else Some (-1, s))"

text \<open>\<open>bp->c_data[bp->c_last++] = c; p->c_cc++;\<close>\<close>

definition putc_store :: "int \<Rightarrow> nat \<Rightarrow> nat \<Rightarrow> cstate \<Rightarrow> cstate" where
  "putc_store c b p s = upd_cl p (\<lambda>q. q\<lparr>c_cc := c_cc q + 1\<rparr>)
     (upd_blk b (\<lambda>x. x\<lparr>c_data := (c_data x)(c_last x := word_of_int c), c_last := Suc (c_last x)\<rparr>) s)"

definition putc :: "int \<Rightarrow> nat \<Rightarrow> cstate \<Rightarrow> int \<times> cstate" where
  "putc c p s =
     (case c_cl (clst s p) of
        None \<Rightarrow>
          (case cf_next s of None \<Rightarrow> (-1, s) | Some b \<Rightarrow>
             (0, putc_store c b p (upd_cl p (\<lambda>q. q\<lparr>c_cf := Some b, c_cl := Some b\<rparr>)
               (upd_blk b (\<lambda>x. x\<lparr>c_next := None, c_first := 0, c_last := 0\<rparr>)
                 (s\<lparr>cf_next := c_next (cblk s b)\<rparr>)))))
      | Some ob \<Rightarrow>
          if c_last (cblk s ob) = cf_size s then
            (case cf_next s of None \<Rightarrow> (-1, s) | Some b \<Rightarrow>
               (0, putc_store c b p (upd_cl p (\<lambda>q. q\<lparr>c_cl := Some b\<rparr>)
                 (upd_blk ob (\<lambda>x. x\<lparr>c_next := Some b\<rparr>)
                   (upd_blk b (\<lambda>x. x\<lparr>c_next := None, c_first := 0, c_last := 0\<rparr>)
                     (s\<lparr>cf_next := c_next (cblk s b)\<rparr>))))))
          else (0, putc_store c ob p s))"

definition getcf :: "cstate \<Rightarrow> nat option \<times> cstate" where
  "getcf s = (case cf_next s of None \<Rightarrow> (None, s) | Some b \<Rightarrow>
     (Some b, upd_blk b (\<lambda>x. x\<lparr>c_next := None, c_first := 0, c_last := cf_size s\<rparr>)
                (s\<lparr>cf_next := c_next (cblk s b)\<rparr>)))"

definition getcb :: "nat \<Rightarrow> cstate \<Rightarrow> nat option \<times> cstate" where
  "getcb p s = (case c_cf (clst s p) of None \<Rightarrow> (None, s) | Some b \<Rightarrow>
     (Some b, upd_cl p (\<lambda>q. q\<lparr>c_cc := c_cc q - (int (c_last (cblk s b)) - int (c_first (cblk s b))),
        c_cf := c_next (cblk s b),
        c_cl := (if c_next (cblk s b) = None then None else c_cl q)\<rparr>) s))"

definition putcb :: "nat \<Rightarrow> nat \<Rightarrow> cstate \<Rightarrow> cstate" where
  "putcb b p s =
     (let s1 = (case c_cl (clst s p) of
                  None \<Rightarrow> upd_cl p (\<lambda>q. q\<lparr>c_cf := Some b\<rparr>) s
                | Some ob \<Rightarrow> upd_blk ob (\<lambda>x. x\<lparr>c_next := Some b\<rparr>) s)
      in upd_cl p (\<lambda>q. q\<lparr>c_cl := Some b, c_cc := c_cc q +
             (int (c_last (cblk s1 b)) - int (c_first (cblk s1 b)))\<rparr>)
           (upd_blk b (\<lambda>x. x\<lparr>c_next := None\<rparr>) s1))"

definition cinit :: "cstate \<Rightarrow> cstate" where
  "cinit s = (fold (\<lambda>b s. (upd_blk b (\<lambda>x. x\<lparr>c_next := cf_next s\<rparr>) s)
                \<lparr>cf_next := Some b, cfreecnt := Suc (cfreecnt s)\<rparr>) [0..<v_clist s] s)\<lparr>cf_size := 64\<rparr>"

subsection \<open>The bytes of a clist\<close>

definition nx :: "cstate \<Rightarrow> nat \<Rightarrow> nat option" where
  "nx s b = c_next (cblk s b)"

definition blk_bytes :: "cstate \<Rightarrow> nat \<Rightarrow> 8 word list" where
  "blk_bytes s b = map (c_data (cblk s b)) [c_first (cblk s b)..<c_last (cblk s b)]"

definition bytes :: "cstate \<Rightarrow> nat list \<Rightarrow> 8 word list" where
  "bytes s bs = concat (map (blk_bytes s) bs)"

definition cl_blocks :: "cstate \<Rightarrow> nat \<Rightarrow> nat list" where
  "cl_blocks s p = follow (v_clist s) (nx s) (c_cf (clst s p))"

definition cl_bytes :: "cstate \<Rightarrow> nat \<Rightarrow> 8 word list" where
  "cl_bytes s p = bytes s (cl_blocks s p)"

definition free_blocks :: "cstate \<Rightarrow> nat list" where
  "free_blocks s = follow (v_clist s) (nx s) (cf_next s)"

subsection \<open>The invariant\<close>

definition blk_ok :: "cstate \<Rightarrow> nat \<Rightarrow> bool" where
  "blk_ok s b \<longleftrightarrow> c_first (cblk s b) < c_last (cblk s b) \<and> c_last (cblk s b) \<le> cf_size s"

text \<open>Clist \<open>p\<close> consists of the blocks \<open>bs\<close>.\<close>

definition qrep :: "cstate \<Rightarrow> nat \<Rightarrow> nat list \<Rightarrow> bool" where
  "qrep s p bs \<longleftrightarrow> chain (nx s) (c_cf (clst s p)) bs \<and> c_cl (clst s p) = last_opt bs \<and>
     c_cc (clst s p) = int (length (bytes s bs)) \<and> (\<forall>b\<in>set bs. blk_ok s b)"

text \<open>Every block is in exactly one place: on the free list \<open>fs\<close>, in the list \<open>L p\<close> of one of the
  clists \<open>P\<close>, or taken out (\<open>D\<close>) by \<open>getcf\<close> or \<open>getcb\<close>.\<close>

definition cl_rep :: "nat set \<Rightarrow> nat set \<Rightarrow> (nat \<Rightarrow> nat list) \<Rightarrow> nat list \<Rightarrow> cstate \<Rightarrow> bool" where
  "cl_rep P D L fs s \<longleftrightarrow> 0 < cf_size s \<and> chain (nx s) (cf_next s) fs \<and> (\<forall>p\<in>P. qrep s p (L p)) \<and>
     (\<forall>p\<in>P. set (L p) \<inter> (set fs \<union> D) = {} \<and> (\<forall>q\<in>P. q \<noteq> p \<longrightarrow> set (L p) \<inter> set (L q) = {})) \<and>
     set fs \<inter> D = {} \<and> set fs \<union> D \<union> (\<Union>p\<in>P. set (L p)) = {..<v_clist s}"

definition cl_inv :: "nat set \<Rightarrow> nat set \<Rightarrow> cstate \<Rightarrow> bool" where
  "cl_inv P D s \<longleftrightarrow> (\<exists>L fs. cl_rep P D L fs s)"

subsection \<open>What an operation has to show\<close>

lemma upd_simps [simp]:
  "cblk (upd_blk b f s) = (cblk s)(b := f (cblk s b))" "clst (upd_blk b f s) = clst s"
  "cf_next (upd_blk b f s) = cf_next s" "cf_size (upd_blk b f s) = cf_size s"
  "v_clist (upd_blk b f s) = v_clist s"
  "cblk (upd_cl p g s) = cblk s" "clst (upd_cl p g s) = (clst s)(p := g (clst s p))"
  "cf_next (upd_cl p g s) = cf_next s" "cf_size (upd_cl p g s) = cf_size s"
  "v_clist (upd_cl p g s) = v_clist s"
  by (simp_all add: upd_blk_def upd_cl_def)

lemma cf_wakeup_simps [simp]:
  "cblk (cf_wakeup s) = cblk s" "clst (cf_wakeup s) = clst s" "cf_next (cf_wakeup s) = cf_next s"
  "cf_size (cf_wakeup s) = cf_size s" "v_clist (cf_wakeup s) = v_clist s"
  by (simp_all add: cf_wakeup_def)

lemma bytes_simps [simp]:
  "bytes s [] = []" "bytes s (b # bs) = blk_bytes s b @ bytes s bs"
  "bytes s (bs @ cs) = bytes s bs @ bytes s cs"
  by (simp_all add: bytes_def)

lemma bytes_cong: "\<forall>b\<in>set bs. cblk s' b = cblk s b \<Longrightarrow> bytes s' bs = bytes s bs"
  by (induction bs) (auto simp: blk_bytes_def)

lemma chain_cong: "\<forall>b\<in>set bs. cblk s' b = cblk s b \<Longrightarrow> seg (nx s') x bs y = seg (nx s) x bs y"
  by (rule seg_cong) (simp add: nx_def)

lemma qrep_cong:
  "clst s' p = clst s p \<Longrightarrow> cf_size s' = cf_size s \<Longrightarrow> \<forall>b\<in>set bs. cblk s' b = cblk s b \<Longrightarrow>
   qrep s' p bs = qrep s p bs"
  by (simp add: qrep_def chain_cong [of bs s' s] bytes_cong [of bs s' s] blk_ok_def)

lemma blk_bytes_nonempty: "blk_ok s b \<Longrightarrow> blk_bytes s b \<noteq> []"
  by (simp add: blk_ok_def blk_bytes_def)

lemma qrep_empty: "qrep s p bs \<Longrightarrow> bytes s bs = [] \<longleftrightarrow> bs = []"
  by (cases bs) (auto simp: qrep_def blk_bytes_nonempty)

lemma cl_repD:
  assumes "cl_rep P D L fs s" "p \<in> P"
  shows "qrep s p (L p)" "distinct (L p)" "set (L p) \<inter> (set fs \<union> D) = {}"
    "set fs \<inter> D = {}" "chain (nx s) (cf_next s) fs" "distinct fs"
    "set (L p) \<subseteq> {..<v_clist s}" "set fs \<subseteq> {..<v_clist s}"
  using assms by (auto simp: cl_rep_def qrep_def intro: chain_distinct)

lemma cl_rep_disj: "cl_rep P D L fs s \<Longrightarrow> p \<in> P \<Longrightarrow> q \<in> P \<Longrightarrow> q \<noteq> p \<Longrightarrow> set (L p) \<inter> set (L q) = {}"
  by (simp add: cl_rep_def)

lemma cl_rep_all: "cl_rep P D L fs s \<Longrightarrow> set fs \<union> D \<union> (\<Union>p\<in>P. set (L p)) = {..<v_clist s}"
  by (simp add: cl_rep_def)

lemma cl_bytes_rep: "cl_rep P D L fs s \<Longrightarrow> p \<in> P \<Longrightarrow> cl_bytes s p = bytes s (L p)"
proof -
  assume a: "cl_rep P D L fs s" "p \<in> P"
  from cl_repD [OF a] have "length (L p) \<le> v_clist s" "chain (nx s) (c_cf (clst s p)) (L p)"
    by (auto simp: qrep_def intro: distinct_bounded_length)
  then show ?thesis by (simp add: cl_bytes_def cl_blocks_def follow_chain)
qed

lemma cl_free_rep:
  assumes "cl_rep P D L fs s" shows "free_blocks s = fs"
proof -
  from assms have "chain (nx s) (cf_next s) fs" "set fs \<subseteq> {..<v_clist s}" by (auto simp: cl_rep_def)
  with chain_distinct [of "nx s" "cf_next s" fs] show ?thesis
    by (simp add: free_blocks_def follow_chain distinct_bounded_length)
qed

text \<open>An operation on clist \<open>p\<close> that touches only the blocks of \<open>p\<close>, the free ones and those taken
  out, and that redistributes these three groups, keeps the invariant and the other clists.\<close>

definition frame :: "nat set \<Rightarrow> nat \<Rightarrow> cstate \<Rightarrow> cstate \<Rightarrow> bool" where
  "frame B p s s' \<longleftrightarrow> cf_size s' = cf_size s \<and> v_clist s' = v_clist s \<and>
     (\<forall>q. q \<noteq> p \<longrightarrow> clst s' q = clst s q) \<and> (\<forall>b. b \<notin> B \<longrightarrow> cblk s' b = cblk s b)"

lemma cl_step:
  assumes rep: "cl_rep P D L fs s" "p \<in> P" and fr: "frame (set (L p) \<union> set fs \<union> D) p s s'"
    and new: "qrep s' p bs" "chain (nx s') (cf_next s') gs"
    and blocks: "set bs \<union> set gs \<union> E = set (L p) \<union> set fs \<union> D"
      "set bs \<inter> (set gs \<union> E) = {}" "set gs \<inter> E = {}"
  shows "cl_inv P E s' \<and> free_blocks s' = gs \<and>
    (\<forall>q\<in>P. cl_bytes s' q = (if q = p then bytes s' bs else cl_bytes s q))"
proof -
  let ?L = "L(p := bs)" and ?B = "set (L p) \<union> set fs \<union> D"
  have q: "clst s' q = clst s q" "\<forall>b\<in>set (L q). cblk s' b = cblk s b" "set (L q) \<inter> ?B = {}"
    if "q \<in> P" "q \<noteq> p" for q
  proof -
    show d: "set (L q) \<inter> ?B = {}" 
      using cl_repD(3) [OF rep(1) that(1)] cl_rep_disj [OF rep(1) that(1) rep(2)] that(2) by auto
    show "clst s' q = clst s q" using fr that by (simp add: frame_def)
    show "\<forall>b\<in>set (L q). cblk s' b = cblk s b" using fr d unfolding frame_def by blast
  qed
  have sz: "cf_size s' = cf_size s" "v_clist s' = v_clist s" using fr by (auto simp: frame_def)
  have "cl_rep P E ?L gs s'" unfolding cl_rep_def
  proof (intro conjI ballI impI)
    show "0 < cf_size s'" using rep sz by (simp add: cl_rep_def)
    show "chain (nx s') (cf_next s') gs" "set gs \<inter> E = {}" by fact+
    show "qrep s' r (?L r)" if "r \<in> P" for r
    proof (cases "r = p")
      case False
      note cl_repD(1) [OF rep(1) that]
      with qrep_cong [OF q(1) [OF that False] sz(1) q(2) [OF that False]] False show ?thesis by simp
    qed (simp add: new(1))
    show "set (?L r) \<inter> (set gs \<union> E) = {}" if "r \<in> P" for r
    proof (cases "r = p")
      case False
      have "set gs \<union> E \<subseteq> ?B" using blocks(1) by blast
      with q(3) [OF that False] False show ?thesis by auto
    qed (simp add: blocks(2))
    show "set (?L r) \<inter> set (?L t) = {}" if "r \<in> P" "t \<in> P" "t \<noteq> r" for r t
    proof -
      have bs: "set bs \<subseteq> ?B" using blocks(1) by blast
      have "set (L r) \<inter> set (L t) = {}" by (rule cl_rep_disj [OF rep(1) that])
      moreover have "set bs \<inter> set (L u) = {}" if "u \<in> P" "u \<noteq> p" for u
        using bs q(3) [OF that] by blast
      ultimately show ?thesis using that by (auto simp: Int_commute)
    qed
    have "(\<Union>r\<in>P. set (?L r)) = set bs \<union> (\<Union>r\<in>P - {p}. set (L r))"
      using rep(2) by (auto split: if_splits)
    moreover have "(\<Union>r\<in>P. set (L r)) = set (L p) \<union> (\<Union>r\<in>P - {p}. set (L r))" using rep(2) by auto
    moreover have "set fs \<union> D \<union> (\<Union>r\<in>P. set (L r)) = {..<v_clist s}"
      by (rule cl_rep_all [OF rep(1)])
    ultimately show "set gs \<union> E \<union> (\<Union>r\<in>P. set (?L r)) = {..<v_clist s'}"
      using blocks(1) sz(2) by (metis Un_assoc Un_commute)
  qed
  moreover have "bytes s' (?L r) = (if r = p then bytes s' bs else bytes s (L r))" if "r \<in> P" for r
    using q(2) [OF that] by (simp add: bytes_cong)
  ultimately show ?thesis
    using cl_bytes_rep [OF rep(1)] cl_bytes_rep [of P E ?L gs s'] cl_free_rep [of P E ?L gs s']
    by (auto simp: cl_inv_def)
qed

subsection \<open>The operations\<close>

lemma getc_spec:
  assumes "cl_inv P D s" "p \<in> P"
  shows "if cl_bytes s p = [] then getc p s = Some (-1, s)
    else \<exists>s'. getc p s = Some (uint (hd (cl_bytes s p)), s') \<and> cl_inv P D s' \<and>
      (\<forall>q\<in>P. cl_bytes s' q = (if q = p then tl (cl_bytes s p) else cl_bytes s q))"
proof -
  from assms(1) obtain L fs where rep: "cl_rep P D L fs s" by (auto simp: cl_inv_def)
  note r = cl_repD [OF rep assms(2)] and cb = cl_bytes_rep [OF rep assms(2)]
  show ?thesis
  proof (cases "L p")
    case Nil
    with r(1) cb show ?thesis by (simp add: qrep_def getc_def)
  next
    case (Cons b bs)
    with r(1) have q: "c_cf (clst s p) = Some b" "chain (nx s) (nx s b) bs" "blk_ok s b"
      "c_cc (clst s p) = int (length (blk_bytes s b @ bytes s bs))" "\<forall>x\<in>set bs. blk_ok s x"
      "c_cl (clst s p) = last_opt (b # bs)"
      by (auto simp: qrep_def)
    let ?b = "cblk s b"
    have lt: "c_first ?b < c_last ?b" "c_last ?b \<le> cf_size s" using q(3) by (auto simp: blk_ok_def)
    then have bb: "blk_bytes s b = c_data ?b (c_first ?b) # map (c_data ?b) [Suc (c_first ?b)..<c_last ?b]"
      by (simp add: blk_bytes_def upt_conv_Cons)
    have nb: "b \<notin> set bs" "b \<notin> set fs" using r(2,3) Cons by auto
    have ne: "cl_bytes s p \<noteq> []" "hd (cl_bytes s p) = c_data ?b (c_first ?b)" using cb Cons bb by auto
    obtain s' where g: "getc p s = Some (uint (c_data ?b (c_first ?b)), s')"
      using q(1,4) bb by (cases "Suc (c_first ?b) = c_last ?b") (auto simp: getc_def Let_def)
    show ?thesis
    proof (cases "Suc (c_first ?b) = c_last ?b")
      case True
      then have b1: "blk_bytes s b = [c_data ?b (c_first ?b)]" using bb by simp
      from g q(1,4) True bb have s': "s' = putcf b (upd_cl p (\<lambda>q. q\<lparr>c_cf := c_next ?b,
          c_cl := (if c_next ?b = None then None else c_cl q)\<rparr>)
          (upd_blk b (\<lambda>x. x\<lparr>c_first := Suc (c_first x)\<rparr>) (upd_cl p (\<lambda>q. q\<lparr>c_cc := c_cc q - 1\<rparr>) s)))"
        by (simp add: getc_def Let_def)
      have bl: "\<forall>x. x \<noteq> b \<longrightarrow> cblk s' x = cblk s x" by (simp add: s' putcf_def)
      have same: "bytes s' bs = bytes s bs" using bl nb by (intro bytes_cong) auto
      have "chain (nx s') (nx s b) bs = chain (nx s) (nx s b) bs"
        using bl nb by (intro chain_cong) auto
      moreover have "(if nx s b = None then None else last_opt (b # bs)) = last_opt bs"
        using q(2) by (cases bs) (auto simp: last_opt_Cons)
      moreover have "c_cf (clst s' p) = nx s b" "c_cc (clst s' p) = int (length (bytes s bs))"
        "c_cl (clst s' p) = (if nx s b = None then None else last_opt (b # bs))"
        using q(4,6) b1 by (auto simp: s' putcf_def nx_def)
      moreover have "\<forall>x\<in>set bs. blk_ok s' x" using q(5) bl nb
        by (auto simp: blk_ok_def s' putcf_def)
      ultimately have new: "qrep s' p bs" using q(2) same by (simp add: qrep_def)
      have "chain (nx s') (cf_next s) fs = chain (nx s) (cf_next s) fs"
        using bl nb by (intro chain_cong) auto
      then have fr: "chain (nx s') (cf_next s') (b # fs)"
        using r(5) by (simp add: s' putcf_def nx_def)
      have "frame (set (L p) \<union> set fs \<union> D) p s s'" using Cons by (simp add: frame_def s' putcf_def)
      from cl_step [OF rep assms(2) this new fr, of D] g ne cb same b1 r(2-4) Cons
      show ?thesis by auto
    next
      case False
      from g q(1,4) False bb have s': "s' = upd_blk b (\<lambda>x. x\<lparr>c_first := Suc (c_first x)\<rparr>)
          (upd_cl p (\<lambda>q. q\<lparr>c_cc := c_cc q - 1\<rparr>) s)"
        by (simp add: getc_def Let_def)
      have bl: "\<forall>x. x \<noteq> b \<longrightarrow> cblk s' x = cblk s x" and nxe: "nx s' = nx s"
        by (simp_all add: s' nx_def fun_eq_iff)
      have same: "bytes s' bs = bytes s bs" using bl nb by (intro bytes_cong) auto
      have tl: "blk_bytes s' b = tl (blk_bytes s b)" using bb by (simp add: s' blk_bytes_def)
      have new: "qrep s' p (b # bs)" using q lt False bb same tl bl nb
        by (auto simp: qrep_def nxe) (auto simp: s' blk_ok_def)
      have fr: "chain (nx s') (cf_next s') fs" using r(5) by (simp add: nxe) (simp add: s')
      have "frame (set (L p) \<union> set fs \<union> D) p s s'" using Cons by (simp add: frame_def s')
      from cl_step [OF rep assms(2) this new fr, of D] g ne cb same tl bb r(2-4) Cons
      show ?thesis by auto
    qed
  qed
qed

text \<open>\<open>putc\<close> fails exactly when it needs a block and none is free.\<close>

definition putc_room :: "nat \<Rightarrow> cstate \<Rightarrow> bool" where
  "putc_room p s \<longleftrightarrow> cf_next s \<noteq> None \<or>
     (case c_cl (clst s p) of None \<Rightarrow> False | Some b \<Rightarrow> c_last (cblk s b) \<noteq> cf_size s)"

lemma bytes_store:
  assumes "cblk s' b = (cblk s b)\<lparr>c_data := (c_data (cblk s b))(c_last (cblk s b) := w),
      c_last := Suc (c_last (cblk s b))\<rparr>" "c_first (cblk s b) \<le> c_last (cblk s b)"
  shows "blk_bytes s' b = blk_bytes s b @ [w]"
  using assms by (auto simp: blk_bytes_def)

text \<open>The two ways \<open>putc\<close> ends: a new last block, or one more byte in the last block.\<close>

lemma putc_new:
  assumes rep: "cl_rep P D L (b # fs) s" "p \<in> P"
    and s': "cf_next s' = nx s b" "cf_size s' = cf_size s" "v_clist s' = v_clist s"
      "clst s' = (clst s)(p := clist.make (c_cc (clst s p) + 1)
         (if L p = [] then Some b else c_cf (clst s p)) (Some b))"
      "\<And>x. x \<noteq> b \<Longrightarrow> cblk s' x = (if L p \<noteq> [] \<and> x = last (L p)
         then (cblk s x)\<lparr>c_next := Some b\<rparr> else cblk s x)"
      "c_next (cblk s' b) = None" "blk_bytes s' b = [w]" "blk_ok s' b"
  shows "cl_inv P D s' \<and> (\<forall>q\<in>P. cl_bytes s' q = (if q = p then cl_bytes s p @ [w] else cl_bytes s q))"
proof -
  note r = cl_repD [OF rep] and cb = cl_bytes_rep [OF rep]
  have nb: "b \<notin> set (L p)" "b \<notin> set fs" using r(3,6) by auto
  have eq: "c_data (cblk s' x) = c_data (cblk s x) \<and>
      c_first (cblk s' x) = c_first (cblk s x) \<and> c_last (cblk s' x) = c_last (cblk s x)"
    if "x \<in> set (L p)" for x
  proof -
    from that nb have "x \<noteq> b" by auto
    then show ?thesis by (simp add: s'(5))
  qed
  have same: "bytes s' (L p) = bytes s (L p)" unfolding bytes_def
    by (rule arg_cong [of _ _ concat], rule map_cong) (use eq in \<open>auto simp: blk_bytes_def\<close>)
  have ch: "chain (nx s') (c_cf (clst s' p)) (L p @ [b])"
  proof (cases "L p" rule: rev_cases)
    case Nil
    then show ?thesis using s' by (simp add: clist.defs nx_def)
  next
    case (snoc ys y)
    have "chain (nx s) (c_cf (clst s p)) (ys @ [y])" using r(1) snoc by (simp add: qrep_def)
    then have "chain ((nx s)(y := Some b, b := None)) (c_cf (clst s p)) (ys @ [y, b])"
      using chain_snoc_upd [of "nx s" _ ys y b] r(2) nb snoc by auto
    moreover have "nx s' x = ((nx s)(y := Some b, b := None)) x" for x
      using s'(5,6) snoc by (auto simp: nx_def)
    then have "nx s' = (nx s)(y := Some b, b := None)" by (rule ext)
    ultimately show ?thesis using s'(4) snoc by (simp add: clist.defs)
  qed
  have "blk_ok s' x" if "x \<in> set (L p)" for x
    using r(1) eq [OF that] that s'(2) by (auto simp: qrep_def blk_ok_def)
  then have new: "qrep s' p (L p @ [b])" using ch r(1) s' same by (auto simp: qrep_def clist.defs)
  have "last (L p) \<notin> set fs" if "L p \<noteq> []" using r(3) last_in_set [OF that] by auto
  moreover have "x \<noteq> b" if "x \<in> set fs" for x using that nb by auto
  ultimately have "\<forall>x\<in>set fs. cblk s' x = cblk s x" by (auto simp: s'(5))
  then have "chain (nx s') (nx s b) fs = chain (nx s) (nx s b) fs" by (rule chain_cong)
  then have fr: "chain (nx s') (cf_next s') fs" using r(5) s'(1) by simp
  have "frame (set (L p) \<union> set (b # fs) \<union> D) p s s'" unfolding frame_def
    using s' last_in_set [of "L p"] by auto
  from cl_step [OF rep this new fr, of D] same cb s'(7) r(3,4,6) nb show ?thesis by auto
qed

lemma putc_more:
  assumes rep: "cl_rep P D L fs s" "p \<in> P" "c_cl (clst s p) = Some ob" "c_last (cblk s ob) \<noteq> cf_size s"
  shows "cl_inv P D (putc_store c ob p s) \<and> (\<forall>q\<in>P. cl_bytes (putc_store c ob p s) q =
    (if q = p then cl_bytes s p @ [word_of_int c] else cl_bytes s q))"
proof -
  note r = cl_repD [OF rep(1,2)] and cb = cl_bytes_rep [OF rep(1,2)]
  let ?s = "putc_store c ob p s"
  from r(1) rep(3) have "last_opt (L p) = Some ob" by (simp add: qrep_def)
  then obtain ys where L: "L p = ys @ [ob]" by (auto simp: last_opt_Some)
  have bl: "\<forall>x. x \<noteq> ob \<longrightarrow> cblk ?s x = cblk s x" and nxe: "nx ?s = nx s"
    by (simp_all add: putc_store_def nx_def fun_eq_iff)
  have "bytes ?s ys = bytes s ys" using bl r(2) L by (intro bytes_cong) auto
  moreover have ok: "blk_ok s ob" using r(1) L by (simp add: qrep_def)
  then have "blk_bytes ?s ob = blk_bytes s ob @ [word_of_int c]"
    by (intro bytes_store) (auto simp: putc_store_def blk_ok_def)
  ultimately have same: "bytes ?s (L p) = bytes s (L p) @ [word_of_int c]" using L by simp
  have "blk_ok ?s x" if "x \<in> set (L p)" for x
    using r(1) that ok rep(4) by (auto simp: qrep_def putc_store_def blk_ok_def)
  moreover have "clst ?s p = (clst s p)\<lparr>c_cc := c_cc (clst s p) + 1\<rparr>" by (simp add: putc_store_def)
  ultimately have new: "qrep ?s p (L p)" using r(1) same by (simp add: qrep_def nxe)
  have fr: "chain (nx ?s) (cf_next ?s) fs" using r(5) nxe by (simp add: putc_store_def)
  have "frame (set (L p) \<union> set fs \<union> D) p s ?s" using L by (simp add: frame_def putc_store_def)
  from cl_step [OF rep(1,2) this new fr, of D] same cb r(3,4) show ?thesis by auto
qed

lemma free_room: "free_blocks s \<noteq> [] \<Longrightarrow> putc_room p s"
  by (cases "cf_next s"; cases "v_clist s") (simp_all add: free_blocks_def putc_room_def)

lemma putc_spec:
  assumes inv: "cl_inv P D s" "p \<in> P"
  shows "if putc_room p s then \<exists>s'. putc c p s = (0, s') \<and> cl_inv P D s' \<and>
      (\<forall>q\<in>P. cl_bytes s' q = (if q = p then cl_bytes s p @ [word_of_int c] else cl_bytes s q))
    else putc c p s = (-1, s)"
proof -
  from inv(1) obtain L fs where rep: "cl_rep P D L fs s" by (auto simp: cl_inv_def)
  note r = cl_repD [OF rep inv(2)]
  have lst: "last_opt (L p) = c_cl (clst s p)" using r(1) by (simp add: qrep_def)
  consider (full) "\<not> putc_room p s"
    | (more) ob where "c_cl (clst s p) = Some ob" "c_last (cblk s ob) \<noteq> cf_size s"
    | (new) b where "cf_next s = Some b"
        "\<And>ob. c_cl (clst s p) = Some ob \<Longrightarrow> c_last (cblk s ob) = cf_size s"
    by (cases "c_cl (clst s p)"; cases "cf_next s") (auto simp: putc_room_def)
  then show ?thesis
  proof cases
    case full
    then show ?thesis by (auto simp: putc_room_def putc_def split: option.splits)
  next
    case more
    from putc_more [OF rep inv(2) more] more show ?thesis by (auto simp: putc_def putc_room_def)
  next
    case (new b)
    with r(5) obtain gs where gs: "fs = b # gs" "chain (nx s) (nx s b) gs" by (auto simp: chain_Some)
    have nb: "b \<notin> set (L p)" using r(3) gs by auto
    obtain s' where s': "putc c p s = (0, s')" "putc_room p s"
      using new by (cases "c_cl (clst s p)") (auto simp: putc_def putc_room_def)
    have sz: "0 < cf_size s" using rep by (simp add: cl_rep_def)
    have "cl_inv P D s' \<and> (\<forall>q\<in>P. cl_bytes s' q =
      (if q = p then cl_bytes s p @ [word_of_int c] else cl_bytes s q))"
    proof (rule putc_new [OF rep [unfolded gs(1)] inv(2)])
      have e: "L p = [] \<longleftrightarrow> c_cl (clst s p) = None" using lst by (metis last_opt_simps(3))
      have l: "c_cl (clst s p) = Some x \<Longrightarrow> last (L p) = x \<and> x \<noteq> b" for x
        using lst nb by (auto simp: last_opt_Some)
      show "cf_next s' = nx s b" "cf_size s' = cf_size s" "v_clist s' = v_clist s"
        "clst s' = (clst s)(p := clist.make (c_cc (clst s p) + 1)
           (if L p = [] then Some b else c_cf (clst s p)) (Some b))"
        "c_next (cblk s' b) = None" "blk_bytes s' b = [word_of_int c]" "blk_ok s' b"
        using s' new l e sz by (cases "c_cl (clst s p)";
          auto simp: putc_def putc_store_def nx_def clist.defs blk_bytes_def blk_ok_def)+
      show "cblk s' x = (if L p \<noteq> [] \<and> x = last (L p) then (cblk s x)\<lparr>c_next := Some b\<rparr> else cblk s x)"
        if "x \<noteq> b" for x
        using s' new l e that by (cases "c_cl (clst s p)") (auto simp: putc_def putc_store_def)
    qed
    with s' show ?thesis by simp
  qed
qed

text \<open>Whole blocks: \<open>getcf\<close> and \<open>getcb\<close> take one out, \<open>putcf\<close> and \<open>putcb\<close> put one back.\<close>

lemma getcb_spec:
  assumes inv: "cl_inv P D s" "p \<in> P"
  shows "if cl_bytes s p = [] then getcb p s = (None, s)
    else \<exists>b s'. getcb p s = (Some b, s') \<and> b \<notin> D \<and> blk_ok s' b \<and> cl_inv P (insert b D) s' \<and>
      (\<forall>q\<in>P. cl_bytes s q = (if q = p then blk_bytes s' b @ cl_bytes s' p else cl_bytes s' q))"
proof -
  from inv(1) obtain L fs where rep: "cl_rep P D L fs s" by (auto simp: cl_inv_def)
  note r = cl_repD [OF rep inv(2)] and cb = cl_bytes_rep [OF rep inv(2)]
  show ?thesis
  proof (cases "L p")
    case Nil
    with r(1) cb show ?thesis by (simp add: qrep_def getcb_def)
  next
    case (Cons b bs)
    with r(1) have q: "c_cf (clst s p) = Some b" "chain (nx s) (nx s b) bs" "blk_ok s b"
      "c_cc (clst s p) = int (length (blk_bytes s b)) + int (length (bytes s bs))"
      "\<forall>x\<in>set bs. blk_ok s x" "c_cl (clst s p) = last_opt (b # bs)"
      by (auto simp: qrep_def)
    let ?s = "snd (getcb p s)"
    have g: "getcb p s = (Some b, ?s)" and bl: "cblk ?s = cblk s"
      using q(1) by (simp_all add: getcb_def)
    have len: "int (length (blk_bytes s b)) = int (c_last (cblk s b)) - int (c_first (cblk s b))"
      using q(3) by (simp add: blk_bytes_def blk_ok_def)
    have cl: "(if nx s b = None then None else last_opt (b # bs)) = last_opt bs"
      using q(2) by (cases bs) (auto simp: last_opt_Cons)
    have clst: "clst ?s p = clist.make (c_cc (clst s p) - int (length (blk_bytes s b))) (nx s b)
      (if nx s b = None then None else last_opt (b # bs))"
      using q(1,6) len by (simp add: getcb_def nx_def clist.defs)
    have same: "bytes ?s xs = bytes s xs" for xs by (rule bytes_cong) (simp add: bl)
    have nxe: "nx ?s = nx s" by (simp add: nx_def fun_eq_iff bl)
    have bok: "blk_ok ?s x = blk_ok s x" for x using q(1) by (simp add: blk_ok_def getcb_def)
    have new: "qrep ?s p bs"
      using q(2,4,5) cl same by (simp add: qrep_def clst clist.defs nxe bok)
    have fr: "chain (nx ?s) (cf_next ?s) fs" using r(5) q(1) by (simp add: nxe) (simp add: getcb_def)
    have "frame (set (L p) \<union> set fs \<union> D) p s ?s" using q(1) by (simp add: frame_def getcb_def)
    from cl_step [OF rep inv(2) this new fr, of "insert b D"] r(2-4) Cons
    have "cl_inv P (insert b D) ?s" "\<forall>q\<in>P. cl_bytes ?s q = (if q = p then bytes s bs else cl_bytes s q)"
      by (auto simp: same)
    moreover have "blk_bytes ?s b = blk_bytes s b" by (simp add: blk_bytes_def bl)
    moreover have "b \<notin> D" "cl_bytes s p = blk_bytes s b @ bytes s bs" "blk_bytes s b \<noteq> []"
      using r(3) Cons cb blk_bytes_nonempty [OF q(3)] by auto
    ultimately have ne: "cl_bytes s p \<noteq> []" and "b \<notin> D" "blk_ok ?s b" "cl_inv P (insert b D) ?s"
      "\<forall>q\<in>P. cl_bytes s q = (if q = p then blk_bytes ?s b @ cl_bytes ?s p else cl_bytes ?s q)"
      using inv(2) bok [of b] q(3) by auto
    then show ?thesis unfolding if_not_P [OF ne] using g by blast
  qed
qed

lemma putcb_spec:
  assumes inv: "cl_inv P D s" "p \<in> P" "b \<in> D" "blk_ok s b"
  shows "cl_inv P (D - {b}) (putcb b p s) \<and> (\<forall>q\<in>P. cl_bytes (putcb b p s) q =
    (if q = p then cl_bytes s p @ blk_bytes s b else cl_bytes s q))"
proof -
  from inv(1) obtain L fs where rep: "cl_rep P D L fs s" by (auto simp: cl_inv_def)
  note r = cl_repD [OF rep inv(2)] and cb = cl_bytes_rep [OF rep inv(2)]
  let ?s = "putcb b p s"
  have nb: "b \<notin> set (L p)" "b \<notin> set fs" using r(3,4) inv(3) by auto
  have lst: "c_cl (clst s p) = last_opt (L p)" using r(1) by (simp add: qrep_def)
  have bl: "cblk ?s x = (cblk s x)\<lparr>c_next := (if x = b then None else
      if last_opt (L p) = Some x then Some b else nx s x)\<rparr>" for x
    using lst by (cases "last_opt (L p)") (auto simp: putcb_def Let_def nx_def)
  have data: "blk_bytes ?s x = blk_bytes s x" "blk_ok ?s x = blk_ok s x" for x
    by (simp_all add: blk_bytes_def blk_ok_def bl) (simp add: putcb_def Let_def split: option.split)
  have same: "bytes ?s xs = bytes s xs" for xs by (induction xs) (simp_all add: data)
  have len: "int (length (blk_bytes s b)) = int (c_last (cblk s b)) - int (c_first (cblk s b))"
    using inv(4) by (simp add: blk_bytes_def blk_ok_def)
  have clst: "clst ?s p = clist.make (c_cc (clst s p) + int (length (blk_bytes s b)))
      (if L p = [] then Some b else c_cf (clst s p)) (Some b)"
    using lst len by (cases "last_opt (L p)") (auto simp: putcb_def Let_def clist.defs last_opt_Some)
  have ch: "chain (nx ?s) (c_cf (clst ?s p)) (L p @ [b])"
  proof (cases "L p" rule: rev_cases)
    case Nil
    then show ?thesis by (simp add: clst clist.defs nx_def bl)
  next
    case (snoc ys y)
    have "chain (nx s) (c_cf (clst s p)) (ys @ [y])" using r(1) snoc by (simp add: qrep_def)
    then have "chain ((nx s)(y := Some b, b := None)) (c_cf (clst s p)) (ys @ [y, b])"
      using chain_snoc_upd [of "nx s" _ ys y b] r(2) nb snoc by auto
    moreover have "nx ?s = (nx s)(y := Some b, b := None)"
      using snoc by (auto simp: nx_def bl fun_eq_iff)
    ultimately show ?thesis using snoc by (simp add: clst clist.defs)
  qed
  have new: "qrep ?s p (L p @ [b])"
    using ch r(1) inv(4) by (auto simp: qrep_def same data clst clist.defs)
  have "last_opt (L p) \<noteq> Some x" if "x \<in> set fs" for x
    using r(3) that by (auto simp: last_opt_Some)
  then have "\<forall>x\<in>set fs. nx ?s x = nx s x" using nb by (auto simp: nx_def bl)
  then have "chain (nx ?s) (cf_next s) fs" using r(5) seg_cong [of fs "nx ?s" "nx s"] by simp
  moreover have "cf_next ?s = cf_next s" by (simp add: putcb_def Let_def split: option.split)
  ultimately have fr: "chain (nx ?s) (cf_next ?s) fs" by simp
  have "x = b \<or> x \<in> set (L p)" if "cblk ?s x \<noteq> cblk s x" for x
    using that by (auto simp: bl nx_def last_opt_Some split: if_splits)
  then have "\<forall>x. x \<notin> set (L p) \<union> set fs \<union> D \<longrightarrow> cblk ?s x = cblk s x" using inv(3) by blast
  moreover have "cf_size ?s = cf_size s \<and> v_clist ?s = v_clist s \<and> (\<forall>q. q \<noteq> p \<longrightarrow> clst ?s q = clst s q)"
    by (simp add: putcb_def Let_def split: option.split)
  ultimately have f: "frame (set (L p) \<union> set fs \<union> D) p s ?s" by (simp add: frame_def)
  have "set (L p @ [b]) \<union> set fs \<union> (D - {b}) = set (L p) \<union> set fs \<union> D"
    "set (L p @ [b]) \<inter> (set fs \<union> (D - {b})) = {}" "set fs \<inter> (D - {b}) = {}"
    using inv(3) r(3,4) nb by auto
  from cl_step [OF rep inv(2) f new fr this] cb show ?thesis by (simp add: same data)
qed

lemma getcf_spec:
  assumes inv: "cl_inv P D s"
  shows "if free_blocks s = [] then getcf s = (None, s)
    else \<exists>b s'. getcf s = (Some b, s') \<and> b \<notin> D \<and> blk_ok s' b \<and> cl_inv P (insert b D) s' \<and>
      free_blocks s = b # free_blocks s' \<and> (\<forall>q\<in>P. cl_bytes s' q = cl_bytes s q)"
proof -
  from inv(1) obtain L fs where rep: "cl_rep P D L fs s" by (auto simp: cl_inv_def)
  note fb = cl_free_rep [OF rep]
  have r: "chain (nx s) (cf_next s) fs" "set fs \<inter> D = {}" "0 < cf_size s"
    "\<And>p. p \<in> P \<Longrightarrow> qrep s p (L p) \<and> set (L p) \<inter> (set fs \<union> D) = {}"
    "set fs \<union> D \<union> (\<Union>p\<in>P. set (L p)) = {..<v_clist s}"
    using rep by (auto simp: cl_rep_def)
  show ?thesis
  proof (cases fs)
    case Nil
    with r(1) fb show ?thesis by (simp add: getcf_def)
  next
    case (Cons b gs)
    let ?s = "snd (getcf s)"
    have cf: "cf_next s = Some b" "chain (nx s) (nx s b) gs" using r(1) Cons by auto
    then have g: "getcf s = (Some b, ?s)" by (simp add: getcf_def)
    have bl: "\<forall>x. x \<noteq> b \<longrightarrow> cblk ?s x = cblk s x" and oth: "clst ?s = clst s"
      "cf_size ?s = cf_size s" "v_clist ?s = v_clist s" "cf_next ?s = nx s b"
      using cf(1) by (simp_all add: getcf_def nx_def)
    have nb: "b \<notin> set gs" using chain_distinct [OF r(1)] Cons by simp
    have same: "\<forall>x\<in>set (L p). cblk ?s x = cblk s x" if "p \<in> P" for p
      using r(4) [OF that] Cons bl by auto
    have "chain (nx ?s) (nx s b) gs = chain (nx s) (nx s b) gs"
      using bl nb by (intro chain_cong) auto
    moreover have "qrep ?s p (L p)" if "p \<in> P" for p
      using r(4) [OF that] qrep_cong [of ?s p s "L p"] oth same [OF that] by simp
    moreover have "set (L p) \<inter> set (L q) = {}" if "p \<in> P" "q \<in> P" "q \<noteq> p" for p q
      by (rule cl_rep_disj [OF rep that])
    moreover have "set gs \<union> insert b D \<union> (\<Union>p\<in>P. set (L p)) = {..<v_clist ?s}"
      using r(5) Cons by (simp add: oth)
    ultimately have rep': "cl_rep P (insert b D) L gs ?s"
      using cf(2) oth r(2,3,4) Cons nb by (auto simp: cl_rep_def)
    moreover have "blk_ok ?s b" using cf r(3) by (simp add: getcf_def blk_ok_def)
    moreover have "cl_bytes ?s q = cl_bytes s q" if "q \<in> P" for q
      using bytes_cong [OF same [OF that]] cl_bytes_rep [OF rep that] cl_bytes_rep [OF rep' that] by simp
    moreover have "b \<notin> D" "free_blocks ?s = gs" using r(2) Cons cl_free_rep [OF rep'] by auto
    moreover have ne: "free_blocks s \<noteq> []" using fb Cons by simp
    ultimately show ?thesis unfolding if_not_P [OF ne] using g fb Cons
      by (intro exI [of _ b] exI [of _ ?s]) (auto simp: cl_inv_def)
  qed
qed

lemma putcf_spec:
  assumes inv: "cl_inv P D s" "b \<in> D"
  shows "cl_inv P (D - {b}) (putcf b s) \<and> free_blocks (putcf b s) = b # free_blocks s \<and>
    (\<forall>q\<in>P. cl_bytes (putcf b s) q = cl_bytes s q) \<and>
    (cf_flag s \<longrightarrow> cf_wakes (putcf b s) = Suc (cf_wakes s) \<and> \<not> cf_flag (putcf b s))"
proof -
  from inv(1) obtain L fs where rep: "cl_rep P D L fs s" by (auto simp: cl_inv_def)
  let ?s = "putcf b s"
  have r: "chain (nx s) (cf_next s) fs" "set fs \<inter> D = {}" "0 < cf_size s"
    "\<And>p. p \<in> P \<Longrightarrow> qrep s p (L p) \<and> set (L p) \<inter> (set fs \<union> D) = {}"
    "set fs \<union> D \<union> (\<Union>p\<in>P. set (L p)) = {..<v_clist s}"
    using rep by (auto simp: cl_rep_def)
  have bl: "\<forall>x. x \<noteq> b \<longrightarrow> cblk ?s x = cblk s x" and oth: "clst ?s = clst s"
    "cf_size ?s = cf_size s" "v_clist ?s = v_clist s" "cf_next ?s = Some b" "nx ?s b = cf_next s"
    by (simp_all add: putcf_def nx_def)
  have nb: "b \<notin> set fs" using r(2) inv(2) by auto
  have same: "\<forall>x\<in>set (L p). cblk ?s x = cblk s x" if "p \<in> P" for p
    using r(4) [OF that] inv(2) bl by auto
  have "chain (nx ?s) (cf_next s) fs = chain (nx s) (cf_next s) fs"
    using bl nb by (intro chain_cong) auto
  moreover have "qrep ?s p (L p)" if "p \<in> P" for p
    using r(4) [OF that] qrep_cong [of ?s p s "L p"] oth same [OF that] by simp
  moreover have "set (L p) \<inter> set (L q) = {}" if "p \<in> P" "q \<in> P" "q \<noteq> p" for p q
    by (rule cl_rep_disj [OF rep that])
  moreover have "insert b (set fs) \<union> (D - {b}) = set fs \<union> D" using inv(2) by auto
  moreover have "set (L p) \<inter> (set (b # fs) \<union> (D - {b})) = {}" if "p \<in> P" for p
    using r(4) [OF that] inv(2) by auto
  ultimately have rep': "cl_rep P (D - {b}) L (b # fs) ?s"
    using oth r(1-3) r(5) nb unfolding cl_rep_def by auto
  moreover have "cl_bytes ?s q = cl_bytes s q" if "q \<in> P" for q
    using bytes_cong [OF same [OF that]] cl_bytes_rep [OF rep that] cl_bytes_rep [OF rep' that] by simp
  ultimately show ?thesis using cl_free_rep [OF rep] cl_free_rep [OF rep']
    by (auto simp: cl_inv_def) (auto simp: putcf_def cf_wakeup_def upd_blk_def)
qed

text \<open>\<open>cinit\<close> strings the blocks \<open>n, n+1, \<dots>\<close> in front of the free list.\<close>

lemma cinit_fold:
  "set fs \<inter> set bs = {} \<Longrightarrow> distinct bs \<Longrightarrow> chain (nx s) (cf_next s) fs \<Longrightarrow>
   let s' = fold (\<lambda>b s. (upd_blk b (\<lambda>x. x\<lparr>c_next := cf_next s\<rparr>) s)
                \<lparr>cf_next := Some b, cfreecnt := Suc (cfreecnt s)\<rparr>) bs s
   in chain (nx s') (cf_next s') (rev bs @ fs) \<and> v_clist s' = v_clist s \<and> clst s' = clst s \<and>
      cfreecnt s' = cfreecnt s + length bs"
proof (induction bs arbitrary: s fs)
  case (Cons b bs)
  let ?s = "(upd_blk b (\<lambda>x. x\<lparr>c_next := cf_next s\<rparr>) s)\<lparr>cf_next := Some b, cfreecnt := Suc (cfreecnt s)\<rparr>"
  have "nx ?s = (nx s)(b := cf_next s)" by (auto simp: nx_def)
  then have "chain (nx ?s) (cf_next ?s) (b # fs)" using Cons.prems by (simp add: seg_upd)
  from Cons.IH [OF _ _ this] Cons.prems show ?case by (auto simp: Let_def upd_blk_def)
qed simp

lemma cinit_spec:
  assumes "cf_next s = None" "\<forall>p\<in>P. c_cc (clst s p) = 0 \<and> c_cf (clst s p) = None \<and> c_cl (clst s p) = None"
  shows "cl_inv P {} (cinit s) \<and> free_blocks (cinit s) = rev [0..<v_clist s] \<and>
    cfreecnt (cinit s) = cfreecnt s + v_clist s \<and> (\<forall>p\<in>P. cl_bytes (cinit s) p = [])"
proof -
  let ?s = "cinit s" and ?fs = "rev [0..<v_clist s]"
  note c = cinit_fold [of "[]" "[0..<v_clist s]" s, unfolded Let_def]
  have "nx ?s = nx (?s\<lparr>cf_size := k\<rparr>)" for k by (simp add: nx_def fun_eq_iff)
  then have s: "chain (nx ?s) (cf_next ?s) ?fs" "v_clist ?s = v_clist s" "clst ?s = clst s"
    "cfreecnt ?s = cfreecnt s + v_clist s" "cf_size ?s = 64"
    using c assms(1) by (auto simp: cinit_def nx_def [abs_def])
  have rep: "cl_rep P {} (\<lambda>p. []) ?fs ?s"
    using s assms(2) by (auto simp: cl_rep_def qrep_def)
  then show ?thesis using s cl_free_rep [OF rep] cl_bytes_rep [OF rep] by (auto simp: cl_inv_def)
qed

subsection \<open>Clists as a family of queues\<close>

text \<open>The two calls as a writer and a reader of bytes use them.\<close>

definition clist_put :: "nat \<Rightarrow> 8 word \<Rightarrow> cstate \<Rightarrow> bool \<times> cstate" where
  "clist_put p w s = (case putc (uint w) p s of (r, s') \<Rightarrow> (r = 0, s'))"

definition clist_get :: "nat \<Rightarrow> cstate \<Rightarrow> 8 word option \<times> cstate" where
  "clist_get p s = (case getc p s of None \<Rightarrow> (None, s) | Some (c, s') \<Rightarrow>
     (if c = -1 then None else Some (word_of_int c), s'))"

interpretation cl: fifo_family "\<lambda>P. cl_inv P D" cl_bytes clist_put clist_get for D
proof unfold_locales
  fix P s p s' and w :: "8 word"
  assume a: "cl_inv P D s" "p \<in> P"
  obtain r t where pc: "putc (uint w) p s = (r, t)" by fastforce
  note c = putc_spec [OF a, of "uint w", unfolded pc]
  from c show "cl_inv P D s' \<and> (\<forall>q\<in>P. cl_bytes s' q = (if q = p then cl_bytes s p @ [w] else cl_bytes s q))"
    if "clist_put p w s = (True, s')"
    using that pc by (auto simp: clist_put_def split: if_splits)
  from c show "s' = s" if "clist_put p w s = (False, s')"
    using that pc by (auto simp: clist_put_def split: if_splits)
next
  fix P s p
  assume "cl_inv P D s" "p \<in> P" "cl_bytes s p = []"
  with getc_spec show "clist_get p s = (None, s)" by (auto simp: clist_get_def)
next
  fix P s p e es
  assume a: "cl_inv P D s" "p \<in> P" "cl_bytes s p = e # es"
  have "uint e \<noteq> -1" using uint_ge_0 [of e] by linarith
  with getc_spec [OF a(1,2)] a(3)
  show "\<exists>s'. clist_get p s = (Some e, s') \<and> cl_inv P D s' \<and>
      (\<forall>q\<in>P. cl_bytes s' q = (if q = p then es else cl_bytes s q))"
    by (auto simp: clist_get_def)
qed

text \<open>Two clists and three blocks, one of them taken out, for the witnesses.\<close>

definition cl_demo :: cstate where
  "cl_demo = cinit \<lparr>cblk = (\<lambda>b. \<lparr>c_next = None, c_first = 0, c_last = 0, c_data = (\<lambda>i. 0)\<rparr>),
     clst = (\<lambda>p. \<lparr>c_cc = 0, c_cf = None, c_cl = None\<rparr>), cf_next = None, cf_size = 0,
     cf_flag = True, cf_wakes = 0, cfreecnt = 0, v_clist = 3\<rparr>"

lemma cl_demo: "cl_inv {0, 1} {} cl_demo" "cl_bytes cl_demo 0 = []" "cl_bytes cl_demo 1 = []"
    "free_blocks cl_demo = [2, 1, 0]"
proof -
  let ?s = "\<lparr>cblk = (\<lambda>b. \<lparr>c_next = None, c_first = 0, c_last = 0, c_data = (\<lambda>i. 0)\<rparr>),
     clst = (\<lambda>p. \<lparr>c_cc = 0, c_cf = None, c_cl = None\<rparr>), cf_next = None, cf_size = 0,
     cf_flag = True, cf_wakes = 0, cfreecnt = 0, v_clist = 3\<rparr> :: cstate"
  note c = cinit_spec [of ?s "{0, 1}", folded cl_demo_def]
  from c show "cl_inv {0, 1} {} cl_demo" "cl_bytes cl_demo 0 = []" "cl_bytes cl_demo 1 = []"
    "free_blocks cl_demo = [2, 1, 0]" by (simp_all add: numeral_3_eq_3 numeral_2_eq_2)
qed

subsection \<open>Properties\<close>

text \<open>C20: Whatever bytes a writer manages to put on an empty clist with \<open>putc\<close>, the same number of
  \<open>getc\<close> calls gives back, in the same order; the other clists are untouched, the clist is empty
  again and every block is accounted for.\<close>

theorem clist_fifo:
  assumes "cl_inv P D s" "p \<in> P" "cl_bytes s p = []" "put_all (clist_put p) ws s = Some s1"
  shows "\<exists>s2. get_all (clist_get p) (length ws) s1 = (ws, s2) \<and> cl_inv P D s2 \<and>
    (\<forall>q\<in>P. cl_bytes s2 q = cl_bytes s q)"
  by (rule cl.put_get_all [OF assms])

theorem clist_fifo_witness:
  "\<exists>s1 s2. put_all (clist_put 0) [7, 8] cl_demo = Some s1 \<and>
     get_all (clist_get 0) 2 s1 = ([7, 8], s2) \<and> cl_inv {0, 1} {} s2 \<and> cl_bytes s2 0 = []"
proof -
  have "\<exists>s1. put_all (clist_put 0) [7, 8] cl_demo = Some s1"
    by (simp add: cl_demo_def clist_put_def putc_def cinit_def putc_store_def upd_blk_def upd_cl_def
        upt_rec numeral_3_eq_3)
  then obtain s1 where s1: "put_all (clist_put 0) [7, 8] cl_demo = Some s1" by blast
  from clist_fifo [OF cl_demo(1) _ cl_demo(2) s1] s1 cl_demo(2) show ?thesis by (auto simp: numeral_2_eq_2)
qed

text \<open>\<open>putc\<close> appends the low eight bits of its argument to the clist and returns 0, with the other
  clists as they were; it returns -1, changing nothing, exactly when the last block is full (or
  there is none) and no block is free.\<close>

theorem putc_appends:
  assumes "cl_inv P D s" "p \<in> P"
  shows "if putc_room p s then \<exists>s'. putc c p s = (0, s') \<and> cl_inv P D s' \<and>
      (\<forall>q\<in>P. cl_bytes s' q = (if q = p then cl_bytes s p @ [word_of_int c] else cl_bytes s q))
    else putc c p s = (-1, s)"
  by (rule putc_spec [OF assms])

theorem putc_appends_witness:
  "\<exists>s'. putc 321 1 cl_demo = (0, s') \<and> cl_bytes s' 1 = [65] \<and> cl_bytes s' 0 = []"
proof -
  have "putc_room 1 cl_demo" using cl_demo(4) by (intro free_room) simp
  with putc_appends [OF cl_demo(1), of 1 321] cl_demo(2,3) show ?thesis by auto
qed

text \<open>\<open>getc\<close> never follows a null pointer: on an empty clist it returns -1 and changes nothing,
  otherwise it returns the first byte as an unsigned value and removes just that byte.\<close>

theorem getc_takes_first:
  assumes "cl_inv P D s" "p \<in> P"
  shows "if cl_bytes s p = [] then getc p s = Some (-1, s)
    else \<exists>s'. getc p s = Some (uint (hd (cl_bytes s p)), s') \<and> cl_inv P D s' \<and>
      (\<forall>q\<in>P. cl_bytes s' q = (if q = p then tl (cl_bytes s p) else cl_bytes s q))"
  by (rule getc_spec [OF assms])

theorem getc_takes_first_witness:
  "getc 0 cl_demo = Some (-1, cl_demo) \<and>
   (\<exists>s1 s2. putc 200 0 cl_demo = (0, s1) \<and> getc 0 s1 = Some (200, s2) \<and> cl_bytes s2 0 = [])"
proof -
  have "putc_room 0 cl_demo" using cl_demo(4) by (intro free_room) simp
  with putc_spec [OF cl_demo(1), of 0 200] cl_demo(2) obtain s1 where
    s1: "putc 200 0 cl_demo = (0, s1)" "cl_inv {0, 1} {} s1" "cl_bytes s1 0 = [200]" by auto
  from getc_takes_first [OF s1(2), of 0] s1(1,3) getc_takes_first [OF cl_demo(1), of 0] cl_demo(2)
  show ?thesis by auto
qed

text \<open>Moving whole blocks loses no byte and no block: \<open>getcb\<close> takes the first block of a clist
  out (none exactly when the clist is empty), \<open>putcb\<close> appends the bytes of a block that is out, and
  putting a block just taken behind an empty remainder restores the clist.\<close>

theorem clist_blocks_conserved:
  assumes "cl_inv P D s" "p \<in> P" "q \<in> P" "p \<noteq> q" "cl_bytes s p \<noteq> []"
  shows "\<exists>b s1. getcb p s = (Some b, s1) \<and> b \<notin> D \<and> cl_inv P (insert b D) s1 \<and> cl_inv P D (putcb b q s1) \<and>
    cl_bytes s p = blk_bytes s1 b @ cl_bytes s1 p \<and>
    cl_bytes (putcb b q s1) p = cl_bytes s1 p \<and>
    cl_bytes (putcb b q s1) q = cl_bytes s q @ blk_bytes s1 b \<and>
    (\<forall>r\<in>P - {p, q}. cl_bytes (putcb b q s1) r = cl_bytes s r)"
proof -
  from getcb_spec [OF assms(1,2)] assms(5) obtain b s1 where g: "getcb p s = (Some b, s1)" "b \<notin> D"
    "blk_ok s1 b" "cl_inv P (insert b D) s1"
    "\<forall>r\<in>P. cl_bytes s r = (if r = p then blk_bytes s1 b @ cl_bytes s1 p else cl_bytes s1 r)"
    by auto
  from putcb_spec [OF g(4) assms(3) _ g(3)] g assms(2,3,4) show ?thesis by auto
qed

theorem clist_blocks_conserved_witness:
  "\<exists>s b s1. putc 65 0 cl_demo = (0, s) \<and> getcb 0 s = (Some b, s1) \<and> cl_bytes (putcb b 1 s1) 1 = [65]"
proof -
  have "putc_room 0 cl_demo" using cl_demo(4) by (intro free_room) simp
  with putc_spec [OF cl_demo(1), of 0 65] cl_demo(2,3) obtain s where
    s: "putc 65 0 cl_demo = (0, s)" "cl_inv {0, 1} {} s" "cl_bytes s 0 = [65]" "cl_bytes s 1 = []" by auto
  from clist_blocks_conserved [OF s(2), of 0 1] s obtain b s1 where
    g: "getcb 0 s = (Some b, s1)" "[65] = blk_bytes s1 b @ cl_bytes s1 0"
      "cl_bytes (putcb b 1 s1) 1 = blk_bytes s1 b" "cl_inv {0, 1} {b} s1" by auto
  from getcb_spec [OF s(2), of 0] s(3) g(1) have "blk_bytes s1 b \<noteq> []"
    by (auto simp: blk_bytes_nonempty)
  with g(2,3) have "cl_bytes (putcb b 1 s1) 1 = [65]" by (cases "blk_bytes s1 b") auto
  with s(1) g(1) show ?thesis by blast
qed

end
