(* ===== verification/Ipc.thy ===== *)
theory Ipc imports Kbase begin

text \<open>
  The access check and the key lookup that the System V IPC facilities share, io/ipc.c.  A
  facility's array of headers appears here as the list of the \<open>ipc_perm\<close> structures its entries
  start with; \<open>ipcget\<close> returns the position of the entry and its status word (True for a new one)
  together with the updated list.
\<close>

unbundle bit_operations_syntax

record ipc_perm =
  ip_uid :: int
  ip_gid :: int
  ip_cuid :: int
  ip_cgid :: int
  ip_mode :: int
  ip_seq :: int
  ip_key :: int

abbreviation (input) IPC_ALLOC :: int where "IPC_ALLOC \<equiv> 32768"
abbreviation (input) IPC_CREAT :: int where "IPC_CREAT \<equiv> 512"
abbreviation (input) IPC_EXCL :: int where "IPC_EXCL \<equiv> 1024"
abbreviation (input) IPC_NOWAIT :: int where "IPC_NOWAIT \<equiv> 2048"
abbreviation (input) IPC_PRIVATE :: int where "IPC_PRIVATE \<equiv> 0"

definition ipcaccess :: "user \<Rightarrow> ipc_perm \<Rightarrow> int \<Rightarrow> errno + unit" where
  "ipcaccess u p mode =
     (if u_uid u = 0 then Inr ()
      else let m = (if u_uid u \<noteq> ip_uid p \<and> u_uid u \<noteq> ip_cuid p then
                      let m1 = drop_bit 3 mode in
                      if u_gid u \<noteq> ip_gid p \<and> u_gid u \<noteq> ip_cgid p then drop_bit 3 m1 else m1
                    else mode)
           in if m AND ip_mode p \<noteq> 0 then Inr () else Inl EACCES)"

definition ipc_allocated :: "ipc_perm \<Rightarrow> bool" where
  "ipc_allocated p \<longleftrightarrow> ip_mode p AND IPC_ALLOC \<noteq> 0"

text \<open>The two search loops, from entry \<open>i\<close> on.\<close>

fun ipc_free :: "nat \<Rightarrow> ipc_perm list \<Rightarrow> nat option" where
  "ipc_free i [] = None"
| "ipc_free i (p # ps) = (if ipc_allocated p then ipc_free (Suc i) ps else Some i)"

fun ipc_scan :: "int \<Rightarrow> int \<Rightarrow> nat \<Rightarrow> nat option \<Rightarrow> ipc_perm list \<Rightarrow> errno + nat + nat option" where
  "ipc_scan key flag i a [] = Inr (Inr a)"
| "ipc_scan key flag i a (p # ps) =
     (if ipc_allocated p then
        if ip_key p = key then
          if flag AND (IPC_CREAT OR IPC_EXCL) = IPC_CREAT OR IPC_EXCL then Inl EEXIST
          else if flag AND 511 AND NOT (ip_mode p) \<noteq> 0 then Inl EACCES
          else Inr (Inl i)
        else ipc_scan key flag (Suc i) a ps
      else ipc_scan key flag (Suc i) (if a = None then Some i else a) ps)"

text \<open>The code at \<open>init\<close>.\<close>

definition ipc_init :: "user \<Rightarrow> int \<Rightarrow> int \<Rightarrow> ipc_perm \<Rightarrow> ipc_perm" where
  "ipc_init u key flag p = p\<lparr>ip_mode := IPC_ALLOC OR (flag AND 511), ip_key := key,
     ip_cuid := u_uid u, ip_uid := u_uid u, ip_cgid := u_gid u, ip_gid := u_gid u\<rparr>"

definition ipcget :: "user \<Rightarrow> int \<Rightarrow> int \<Rightarrow> ipc_perm list \<Rightarrow> (errno + nat \<times> bool) \<times> ipc_perm list" where
  "ipcget u key flag ps =
     (let new = (\<lambda>i. (Inr (i, True), ps[i := ipc_init u key flag (ps ! i)])) in
      if key = IPC_PRIVATE then
        case ipc_free 0 ps of None \<Rightarrow> (Inl ENOSPC, ps) | Some i \<Rightarrow> new i
      else case ipc_scan key flag 0 None ps of
          Inl e \<Rightarrow> (Inl e, ps)
        | Inr (Inl i) \<Rightarrow> (Inr (i, False), ps)
        | Inr (Inr a) \<Rightarrow>
            if flag AND IPC_CREAT = 0 then (Inl ENOENT, ps)
            else case a of None \<Rightarrow> (Inl ENOSPC, ps) | Some i \<Rightarrow> new i)"

subsection \<open>The searches\<close>

text \<open>No two allocated entries have the same key, private ones apart.\<close>

definition keys_unique :: "ipc_perm list \<Rightarrow> bool" where
  "keys_unique ps \<longleftrightarrow> (\<forall>i<length ps. \<forall>j<length ps. ipc_allocated (ps ! i) \<and> ipc_allocated (ps ! j) \<and>
     ip_key (ps ! i) = ip_key (ps ! j) \<and> ip_key (ps ! i) \<noteq> IPC_PRIVATE \<longrightarrow> i = j)"

text \<open>The first entry that satisfies \<open>P\<close>.\<close>

definition first_with :: "('a \<Rightarrow> bool) \<Rightarrow> 'a list \<Rightarrow> nat option \<Rightarrow> bool" where
  "first_with P xs r = (case r of None \<Rightarrow> \<forall>x\<in>set xs. \<not> P x
     | Some i \<Rightarrow> i < length xs \<and> P (xs ! i) \<and> (\<forall>j<i. \<not> P (xs ! j)))"

lemma first_with_Cons:
  "first_with P (x # xs) (if P x then Some 0 else map_option Suc r)" if "\<not> P x \<longrightarrow> first_with P xs r"
  using that by (cases r) (auto simp: first_with_def less_Suc_eq_0_disj)

lemma ipc_free_shift: "ipc_free (Suc i) ps = map_option Suc (ipc_free i ps)"
  by (induction i ps rule: ipc_free.induct) auto

lemma ipc_free_first: "first_with (\<lambda>p. \<not> ipc_allocated p) ps (ipc_free 0 ps)"
proof (induction ps)
  case (Cons p ps)
  have "ipc_free 0 (p # ps) = (if \<not> ipc_allocated p then Some 0 else map_option Suc (ipc_free 0 ps))"
    using ipc_free_shift [of 0 ps] by simp
  with first_with_Cons [of "\<lambda>p. \<not> ipc_allocated p", OF impI, OF Cons.IH, of p] show ?case by simp
qed (simp add: first_with_def)

definition ipc_has :: "int \<Rightarrow> ipc_perm \<Rightarrow> bool" where
  "ipc_has key p \<longleftrightarrow> ipc_allocated p \<and> ip_key p = key"

definition ipc_hit :: "int \<Rightarrow> nat \<Rightarrow> ipc_perm \<Rightarrow> errno + nat + nat option" where
  "ipc_hit flag i p =
     (if flag AND (IPC_CREAT OR IPC_EXCL) = IPC_CREAT OR IPC_EXCL then Inl EEXIST
      else if flag AND 511 AND NOT (ip_mode p) \<noteq> 0 then Inl EACCES else Inr (Inl i))"

lemma ipc_scan_miss:
  "\<forall>p\<in>set ps. \<not> ipc_has key p \<Longrightarrow>
   ipc_scan key flag i a ps = Inr (Inr (if a = None then ipc_free i ps else a))"
  by (induction key flag i a ps rule: ipc_scan.induct) (auto simp: ipc_has_def)

lemma ipc_scan_hit:
  "\<forall>x\<in>set ps. \<not> ipc_has key x \<Longrightarrow> ipc_has key p \<Longrightarrow>
   ipc_scan key flag i a (ps @ p # qs) = ipc_hit flag (i + length ps) p"
  by (induction ps arbitrary: i a) (auto simp: ipc_has_def ipc_hit_def)

lemma ipc_scan_cases:
  obtains "\<forall>p\<in>set ps. \<not> ipc_has key p" "ipc_scan key flag 0 None ps = Inr (Inr (ipc_free 0 ps))"
  | i where "first_with (ipc_has key) ps (Some i)" "ipc_scan key flag 0 None ps = ipc_hit flag i (ps ! i)"
proof (cases "\<exists>p\<in>set ps. ipc_has key p")
  case True
  from split_list_first_prop [OF this] obtain qs p rs where
    ps: "ps = qs @ p # rs" "ipc_has key p" "\<forall>x\<in>set qs. \<not> ipc_has key x" by blast
  then have "first_with (ipc_has key) ps (Some (length qs))" by (auto simp: first_with_def nth_append)
  moreover have "ipc_scan key flag 0 None ps = ipc_hit flag (length qs) (ps ! length qs)"
    using ps ipc_scan_hit [of qs key p flag 0 None rs] by simp
  ultimately show ?thesis by (rule that(2))
qed (use that(1) ipc_scan_miss [of ps key flag 0 None] in auto)

subsection \<open>Permission bits\<close>

lemma and_nonzero_bit: "(x::int) AND y \<noteq> 0 \<longleftrightarrow> (\<exists>n. bit x n \<and> bit y n)"
  by (auto simp: bit_eq_iff bit_and_iff)

lemma alloc_bit: "(x::int) AND IPC_ALLOC \<noteq> 0 \<longleftrightarrow> bit x 15"
  using bit_iff_and_push_bit_not_eq_0 [of x 15] by simp

lemma ipc_allocated_bit: "ipc_allocated p \<longleftrightarrow> bit (ip_mode p) 15"
  by (simp add: ipc_allocated_def alloc_bit)

lemma ipc_init_simps [simp]:
  "ipc_allocated (ipc_init u key flag p)" "ip_key (ipc_init u key flag p) = key"
  "ip_seq (ipc_init u key flag p) = ip_seq p" "ip_uid (ipc_init u key flag p) = u_uid u"
  "ip_cuid (ipc_init u key flag p) = u_uid u"
proof -
  have "bit IPC_ALLOC 15" using alloc_bit [of IPC_ALLOC] by simp
  then show "ipc_allocated (ipc_init u key flag p)" by (simp add: ipc_allocated_bit ipc_init_def bit_or_iff)
qed (simp_all add: ipc_init_def)

lemma perm_bit: "bit (511::int) n \<longleftrightarrow> n < 9"
  using bit_mask_iff [of 9 n, where 'a = int] by (simp add: mask_eq_exp_minus_1)

subsection \<open>What ipcget returns\<close>

lemma ipcget_found:
  assumes "key \<noteq> IPC_PRIVATE" "first_with (ipc_has key) ps (Some i)"
  shows "ipcget u key flag ps = (case ipc_hit flag i (ps ! i) of
    Inl e \<Rightarrow> (Inl e, ps) | Inr x \<Rightarrow> (Inr (i, False), ps))"
proof (cases rule: ipc_scan_cases [of ps key flag])
  case 1
  with assms(2) show ?thesis by (auto simp: first_with_def)
next
  case (2 j)
  with assms(2) have "j = i" by (auto simp: first_with_def) (metis nat_neq_iff)
  with 2 assms(1) show ?thesis by (auto simp: ipcget_def Let_def ipc_hit_def)
qed

lemma ipcget_new:
  assumes "key = IPC_PRIVATE \<or> (\<forall>p\<in>set ps. \<not> ipc_has key p)"
  shows "ipcget u key flag ps =
    (if key \<noteq> IPC_PRIVATE \<and> flag AND IPC_CREAT = 0 then (Inl ENOENT, ps)
     else case ipc_free 0 ps of None \<Rightarrow> (Inl ENOSPC, ps)
       | Some i \<Rightarrow> (Inr (i, True), ps[i := ipc_init u key flag (ps ! i)]))"
  using assms by (auto simp: ipcget_def Let_def ipc_scan_miss split: option.splits)

lemma ipcget_cases:
  obtains (found) i where "key \<noteq> IPC_PRIVATE" "first_with (ipc_has key) ps (Some i)"
  | (new) "key = IPC_PRIVATE \<or> (\<forall>p\<in>set ps. \<not> ipc_has key p)"
  by (cases rule: ipc_scan_cases [of ps key 0]) blast+

text \<open>What the callers rely on.\<close>

lemma ipcget_result:
  assumes "ipcget u key flag ps = (r, ps')"
  shows "case r of Inl e \<Rightarrow> ps' = ps
    | Inr (i, True) \<Rightarrow> i < length ps \<and> \<not> ipc_allocated (ps ! i) \<and> (\<forall>j<i. ipc_allocated (ps ! j)) \<and>
        ps' = ps[i := ipc_init u key flag (ps ! i)] \<and> (key = IPC_PRIVATE \<or> (\<forall>p\<in>set ps. \<not> ipc_has key p))
    | Inr (i, False) \<Rightarrow> i < length ps \<and> ipc_allocated (ps ! i) \<and> ip_key (ps ! i) = key \<and> ps' = ps"
proof (cases rule: ipcget_cases [of key ps])
  case (found i)
  with ipcget_found [OF found, of u flag] assms show ?thesis
    by (auto simp: first_with_def ipc_has_def split: sum.splits)
next
  case new
  with ipcget_new [OF new, of u flag] assms ipc_free_first [of ps] show ?thesis
    by (auto simp: first_with_def split: if_splits option.splits)
qed

lemma keys_unique_init:
  assumes "keys_unique ps" "key = IPC_PRIVATE \<or> (\<forall>p\<in>set ps. \<not> ipc_has key p)"
  shows "keys_unique (ps[i := ipc_init u key flag p])"
proof (cases "i < length ps")
  case True
  have no: "\<not> ipc_has key (ps ! j)" if "key \<noteq> IPC_PRIVATE" "j < length ps" for j
    using assms(2) that by auto
  show ?thesis unfolding keys_unique_def
  proof (intro allI impI)
    fix j k
    let ?p = "ps[i := ipc_init u key flag p]"
    assume jk: "j < length ?p" "k < length ?p" and
      eq: "ipc_allocated (?p ! j) \<and> ipc_allocated (?p ! k) \<and> ip_key (?p ! j) = ip_key (?p ! k) \<and>
        ip_key (?p ! j) \<noteq> IPC_PRIVATE"
    with True no [of j] no [of k] assms(1) show "j = k"
      by (cases "j = i"; cases "k = i") (auto simp: ipc_has_def keys_unique_def)
  qed
next
  case False
  with assms(1) show ?thesis by (simp add: list_update_beyond)
qed

subsection \<open>Properties\<close>

text \<open>Access is granted to the superuser, and otherwise exactly when one of the requested bits is
  set in the permission class that applies: the owner's bits for owner and creator, the bits three
  places below for their groups, the bits six places below for everybody else.\<close>

theorem ipcaccess_class:
  "ipcaccess u p mode = (if u_uid u = 0 \<or> (\<exists>n. bit (ip_mode p) n \<and> bit mode (n +
      (if u_uid u = ip_uid p \<or> u_uid u = ip_cuid p then 0
       else if u_gid u = ip_gid p \<or> u_gid u = ip_cgid p then 3 else 6)))
    then Inr () else Inl EACCES)"
  by (auto simp: ipcaccess_def Let_def and_nonzero_bit bit_drop_bit_eq add.commute numeral_eq_Suc)

text \<open>Looking up the key of an existing entry leaves the table alone and returns the first entry
  with that key; it fails with EEXIST exactly under both creation flags, and otherwise with EACCES
  exactly when the flag asks for a permission bit the entry does not grant.\<close>

theorem ipcget_lookup:
  assumes "key \<noteq> IPC_PRIVATE" "first_with (ipc_has key) ps (Some i)"
  shows "ipcget u key flag ps =
    (if flag AND (IPC_CREAT OR IPC_EXCL) = IPC_CREAT OR IPC_EXCL then Inl EEXIST
     else if \<exists>b<9. bit flag b \<and> \<not> bit (ip_mode (ps ! i)) b then Inl EACCES
     else Inr (i, False), ps)"
proof -
  have e: "flag AND 511 AND NOT (ip_mode (ps ! i)) \<noteq> 0 \<longleftrightarrow> (\<exists>b<9. bit flag b \<and> \<not> bit (ip_mode (ps ! i)) b)"
    by (auto simp: and_nonzero_bit bit_and_iff bit_not_iff perm_bit)
  show ?thesis unfolding ipcget_found [OF assms, of u flag] ipc_hit_def e by auto
qed

theorem ipcget_lookup_witness:
  "let p = \<lparr>ip_uid = 5, ip_gid = 6, ip_cuid = 5, ip_cgid = 6, ip_mode = IPC_ALLOC OR 384, ip_seq = 0, ip_key = 77\<rparr>;
       u = \<lparr>u_uid = 5, u_gid = 6, p_pid = 1, p_epid = 1, p_sysid = 0, p_slot = 0\<rparr>
   in ipcget u 77 256 [p\<lparr>ip_mode := 0\<rparr>, p] = (Inr (1, False), [p\<lparr>ip_mode := 0\<rparr>, p]) \<and>
      fst (ipcget u 77 (IPC_CREAT OR IPC_EXCL) [p\<lparr>ip_mode := 0\<rparr>, p]) = Inl EEXIST"
proof -
  let ?p = "\<lparr>ip_uid = 5, ip_gid = 6, ip_cuid = 5, ip_cgid = 6, ip_mode = IPC_ALLOC OR 384, ip_seq = 0, ip_key = 77\<rparr>"
  have "first_with (ipc_has 77) [?p\<lparr>ip_mode := 0\<rparr>, ?p] (Some 1)"
    by (simp add: first_with_def ipc_has_def ipc_allocated_def)
  note l = ipcget_lookup [OF _ this]
  have "(256::int) AND NOT 33152 = 0" by simp
  then have "\<forall>n. bit (256::int) n \<longrightarrow> bit (33152::int) n"
    using and_nonzero_bit [of 256 "NOT 33152"] unfolding bit_not_iff by auto
  with l [of _ 256] l [of _ "IPC_CREAT OR IPC_EXCL"] show ?thesis by (simp add: Let_def)
qed

text \<open>C26: A private key, or a key no entry has, makes \<open>ipcget\<close> take the first free entry, owned by the
  caller and with the key and permission bits asked for, and touch no other; without IPC_CREAT a
  missing key is ENOENT, without a free entry the call is ENOSPC.  Keys stay unique.\<close>

theorem ipcget_create:
  assumes "key = IPC_PRIVATE \<or> (\<forall>p\<in>set ps. \<not> ipc_has key p)" "keys_unique ps"
  shows "if key \<noteq> IPC_PRIVATE \<and> flag AND IPC_CREAT = 0 then ipcget u key flag ps = (Inl ENOENT, ps)
    else if \<forall>p\<in>set ps. ipc_allocated p then ipcget u key flag ps = (Inl ENOSPC, ps)
    else \<exists>i p. ipcget u key flag ps = (Inr (i, True), ps[i := p]) \<and>
      first_with (\<lambda>p. \<not> ipc_allocated p) ps (Some i) \<and> keys_unique (ps[i := p]) \<and>
      ipc_allocated p \<and> ip_key p = key \<and> ip_seq p = ip_seq (ps ! i) \<and> ip_uid p = u_uid u \<and>
      ip_cuid p = u_uid u \<and> (\<forall>b<9. bit (ip_mode p) b = bit flag b)"
proof -
  have b: "bit (ip_mode (ipc_init u key flag p)) b = bit flag b" if "b < 9" for b p
  proof -
    have "\<not> bit IPC_ALLOC b" using that bit_push_bit_iff [of 15 "1::int" b] by auto
    with that show ?thesis by (simp add: ipc_init_def bit_or_iff bit_and_iff perm_bit)
  qed
  note g = ipcget_new [OF assms(1), of u flag]
  show ?thesis
  proof (cases "ipc_free 0 ps")
    case None
    with g ipc_free_first [of ps] show ?thesis by (simp add: first_with_def)
  next
    case (Some i)
    with ipc_free_first [of ps] have f: "first_with (\<lambda>p. \<not> ipc_allocated p) ps (Some i)" by simp
    then have "\<not> (\<forall>p\<in>set ps. ipc_allocated p)" by (auto simp: first_with_def)
    with Some f g show ?thesis using keys_unique_init [OF assms(2,1), of i u flag] b
      by (auto intro!: exI [of _ i] exI [of _ "ipc_init u key flag (ps ! i)"])
  qed
qed

theorem ipcget_create_witness:
  "let p = \<lparr>ip_uid = 5, ip_gid = 6, ip_cuid = 5, ip_cgid = 6, ip_mode = IPC_ALLOC OR 384, ip_seq = 0, ip_key = 77\<rparr>;
       u = \<lparr>u_uid = 5, u_gid = 6, p_pid = 1, p_epid = 1, p_sysid = 0, p_slot = 0\<rparr>
   in (\<exists>i q. ipcget u 78 (IPC_CREAT OR 256) [p, p\<lparr>ip_mode := 0\<rparr>] = (Inr (i, True), q)) \<and>
      ipcget u 78 256 [p, p\<lparr>ip_mode := 0\<rparr>] = (Inl ENOENT, [p, p\<lparr>ip_mode := 0\<rparr>])"
proof -
  let ?p = "\<lparr>ip_uid = 5, ip_gid = 6, ip_cuid = 5, ip_cgid = 6, ip_mode = IPC_ALLOC OR 384, ip_seq = 0, ip_key = 77\<rparr>"
  let ?u = "\<lparr>u_uid = 5, u_gid = 6, p_pid = 1, p_epid = 1, p_sysid = 0, p_slot = 0\<rparr>"
  have k: "keys_unique [?p, ?p\<lparr>ip_mode := 0\<rparr>]"
    by (auto simp: keys_unique_def less_Suc_eq nth_Cons' ipc_allocated_def)
  have "\<forall>p\<in>set [?p, ?p\<lparr>ip_mode := 0\<rparr>]. \<not> ipc_has 78 p" by (simp add: ipc_has_def)
  then have h: "78 = IPC_PRIVATE \<or> (\<forall>p\<in>set [?p, ?p\<lparr>ip_mode := 0\<rparr>]. \<not> ipc_has 78 p)" by simp
  show ?thesis
    using ipcget_create [OF h k, where flag = "IPC_CREAT OR 256" and u = "?u"]
      ipcget_create [OF h k, where flag = 256 and u = "?u"]
    by (simp add: Let_def ipc_allocated_def) blast
qed

end
