(* ===== verification/Sem.thy ===== *)
theory Sem imports Rmap Ipc begin

text \<open>
  System V semaphores, io/sem.c.  \<open>sems\<close> is the array \<open>sem[]\<close> from which the resource map
  \<open>semmap\<close> hands out the sets, \<open>semu\<close> the undo structures, \<open>undo_of\<close> the array \<open>sem_undo[]\<close> by
  process slot.  An undo structure holds its \<open>un_cnt\<close> active entries as a list.  What the calls
  copy in from the user is an argument; sleeping splits \<open>semop\<close> into \<open>semop\<close> and
  \<open>semop_resume\<close>; wakeups are logged in \<open>sem_woken\<close>, newest first.
\<close>

unbundle bit_operations_syntax

abbreviation (input) SEM_A :: int where "SEM_A \<equiv> 128"
abbreviation (input) SEM_R :: int where "SEM_R \<equiv> 256"
abbreviation (input) SEM_UNDO :: int where "SEM_UNDO \<equiv> 4096"

record sem =
  semval :: int
  sempid :: int
  semncnt :: int
  semzcnt :: int

record semid_ds =
  sem_perm :: ipc_perm
  sem_base :: nat
  sem_nsems :: nat
  sem_otime :: int
  sem_ousec :: int
  sem_ctime :: int
  sem_cusec :: int

record sembuf =
  sem_num :: nat
  sem_op :: int
  sem_flg :: int

record undo =
  un_aoe :: int
  un_num :: int
  un_id :: int

record sem_undo =
  un_np :: "nat option"
  un_ent :: "undo list"

record seminfo =
  semmap_ents :: nat
  semmni :: nat
  semmns :: nat
  semmnu :: nat
  semmsl :: int
  semopm :: nat
  semume :: nat
  semvmx :: int
  semaem :: int

text \<open>The channels \<open>&semncnt\<close> and \<open>&semzcnt\<close> of a semaphore.\<close>

datatype semchan = NCNT nat | ZCNT nat

record semst =
  seminfo :: seminfo
  sema :: "semid_ds list"
  sems :: "nat \<Rightarrow> sem"
  semmap :: rmap
  semu :: "nat \<Rightarrow> sem_undo"
  undo_of :: "nat \<Rightarrow> nat option"
  semunp :: "nat option"
  semfup :: "nat option"
  sem_woken :: "semchan list"
  sem_clock :: "int \<times> int"

definition upd_sem :: "nat \<Rightarrow> (sem \<Rightarrow> sem) \<Rightarrow> semst \<Rightarrow> semst" where
  "upd_sem i f s = s\<lparr>sems := (sems s)(i := f (sems s i))\<rparr>"

definition upd_semu :: "nat \<Rightarrow> (sem_undo \<Rightarrow> sem_undo) \<Rightarrow> semst \<Rightarrow> semst" where
  "upd_semu i f s = s\<lparr>semu := (semu s)(i := f (semu s i))\<rparr>"

definition upd_sema :: "nat \<Rightarrow> (semid_ds \<Rightarrow> semid_ds) \<Rightarrow> semst \<Rightarrow> semst" where
  "upd_sema j f s = s\<lparr>sema := (sema s)[j := f (sema s ! j)]\<rparr>"

definition wake_n :: "nat \<Rightarrow> semst \<Rightarrow> semst" where
  "wake_n i s = (if semncnt (sems s i) \<noteq> 0
     then (upd_sem i (\<lambda>p. p\<lparr>semncnt := 0\<rparr>) s)\<lparr>sem_woken := NCNT i # sem_woken s\<rparr> else s)"

definition wake_z :: "nat \<Rightarrow> semst \<Rightarrow> semst" where
  "wake_z i s = (if semzcnt (sems s i) \<noteq> 0
     then (upd_sem i (\<lambda>p. p\<lparr>semzcnt := 0\<rparr>) s)\<lparr>sem_woken := ZCNT i # sem_woken s\<rparr> else s)"

subsection \<open>The undo tables\<close>

text \<open>\<open>semaoe\<close> on the entries of one process: position \<open>uup\<close>, then insert, update or delete.\<close>

definition before :: "undo \<Rightarrow> int \<Rightarrow> int \<Rightarrow> bool" where
  "before e sid num \<longleftrightarrow> un_id e < sid \<or> un_id e = sid \<and> un_num e < num"

definition aoe_entries :: "seminfo \<Rightarrow> int \<Rightarrow> int \<Rightarrow> int \<Rightarrow> undo list \<Rightarrow> errno + undo list" where
  "aoe_entries si val sid num es =
     (let pre = takeWhile (\<lambda>e. before e sid num) es;
          post = dropWhile (\<lambda>e. before e sid num) es
      in case post of
           e # r \<Rightarrow>
             if un_id e = sid \<and> un_num e = num then
               let v = c_short (un_aoe e - val) in
               if v > semaem si \<or> v < - semaem si then Inl ERANGE
               else if v = 0 then Inr (pre @ r)
               else Inr (pre @ e\<lparr>un_aoe := v\<rparr> # r)
             else if length es \<ge> semume si then Inl EINVAL
             else Inr (pre @ \<lparr>un_aoe = c_short (- val), un_num = num, un_id = sid\<rparr> # post)
         | [] \<Rightarrow>
             if length es \<ge> semume si then Inl EINVAL
             else Inr (pre @ [\<lparr>un_aoe = c_short (- val), un_num = num, un_id = sid\<rparr>]))"

text \<open>Taking a structure out of the list of active ones.\<close>

definition undo_unlink :: "nat \<Rightarrow> semst \<Rightarrow> semst" where
  "undo_unlink up s =
     (let s1 = (if semunp s = Some up then s\<lparr>semunp := un_np (semu s up)\<rparr>
                else case find (\<lambda>q. un_np (semu s q) = Some up)
                       (follow (semmnu (seminfo s)) (\<lambda>q. un_np (semu s q)) (semunp s)) of
                  None \<Rightarrow> s
                | Some q \<Rightarrow> upd_semu q (\<lambda>x. x\<lparr>un_np := un_np (semu s up)\<rparr>) s)
      in s1)"

text \<open>The undo structure of the process, taken from the free ones if it has none.\<close>

definition undo_struct :: "user \<Rightarrow> semst \<Rightarrow> (nat \<times> semst) option" where
  "undo_struct u s = (case undo_of s (p_slot u) of
       Some up \<Rightarrow> Some (up, s)
     | None \<Rightarrow> (case semfup s of None \<Rightarrow> None | Some up \<Rightarrow>
         Some (up, (upd_semu up (\<lambda>x. x\<lparr>un_np := None\<rparr>) (s\<lparr>semfup := un_np (semu s up)\<rparr>))
           \<lparr>undo_of := (undo_of s)(p_slot u := Some up)\<rparr>)))"

text \<open>Writing the entries back: a structure whose first entry is made joins the active ones, one
  whose last entry is deleted leaves them.\<close>

definition undo_store :: "nat \<Rightarrow> undo list \<Rightarrow> semst \<Rightarrow> semst" where
  "undo_store up es s =
     (let s2 = (if un_ent (semu s up) = [] then (upd_semu up (\<lambda>x. x\<lparr>un_np := semunp s\<rparr>) s)\<lparr>semunp := Some up\<rparr>
                else s);
          s3 = upd_semu up (\<lambda>x. x\<lparr>un_ent := es\<rparr>) s2
      in if es = [] then upd_semu up (\<lambda>x. x\<lparr>un_np := None\<rparr>) (undo_unlink up s3) else s3)"

definition semaoe :: "user \<Rightarrow> int \<Rightarrow> int \<Rightarrow> int \<Rightarrow> semst \<Rightarrow> (errno + unit) \<times> semst" where
  "semaoe u val sid num s =
     (if val = 0 then (Inr (), s)
      else if val > semaem (seminfo s) \<or> val < - semaem (seminfo s) then (Inl ERANGE, s)
      else case undo_struct u s of
        None \<Rightarrow> (Inl ENOSPC, s)
      | Some (up, s1) \<Rightarrow>
          (case aoe_entries (seminfo s) val sid num (un_ent (semu s1 up)) of
             Inl e \<Rightarrow> (Inl e, s1)
           | Inr es \<Rightarrow> (Inr (), undo_store up es s1)))"

fun unrm_entries :: "int \<Rightarrow> int \<Rightarrow> int \<Rightarrow> undo list \<Rightarrow> undo list" where
  "unrm_entries sid low high [] = []"
| "unrm_entries sid low high (e # es) =
     (if sid < un_id e then e # es
      else if sid > un_id e \<or> low > un_num e then e # unrm_entries sid low high es
      else if high < un_num e then e # es
      else unrm_entries sid low high es)"

text \<open>The walk of \<open>semunrm\<close> along the active structures, at \<open>p\<close> with predecessor \<open>pp\<close>.\<close>

fun unrm_walk :: "nat \<Rightarrow> int \<Rightarrow> int \<Rightarrow> int \<Rightarrow> nat option \<Rightarrow> nat option \<Rightarrow> semst \<Rightarrow> semst" where
  "unrm_walk (Suc n) sid low high pp (Some p) s =
     (let es = unrm_entries sid low high (un_ent (semu s p));
          np = un_np (semu s p);
          s1 = upd_semu p (\<lambda>x. x\<lparr>un_ent := es\<rparr>) s
      in if es = [] then
           unrm_walk n sid low high pp np (upd_semu p (\<lambda>x. x\<lparr>un_np := None\<rparr>)
             (case pp of None \<Rightarrow> s1\<lparr>semunp := np\<rparr>
              | Some q \<Rightarrow> upd_semu q (\<lambda>x. x\<lparr>un_np := np\<rparr>) s1))
         else unrm_walk n sid low high (Some p) np s1)"
| "unrm_walk _ sid low high pp p s = s"

definition semunrm :: "int \<Rightarrow> int \<Rightarrow> int \<Rightarrow> semst \<Rightarrow> semst" where
  "semunrm sid low high s =
     unrm_walk (semmnu (seminfo s)) sid (c_ushort low) (c_ushort high) None (semunp s) s"

subsection \<open>semop\<close>

definition semconv :: "int \<Rightarrow> semst \<Rightarrow> errno + nat" where
  "semconv sid s =
     (if sid < 0 then Inl EINVAL
      else let j = nat sid mod semmni (seminfo s); p = sem_perm (sema s ! j) in
        if \<not> ipc_allocated p \<or> int (nat sid div semmni (seminfo s)) \<noteq> ip_seq p then Inl EINVAL
        else Inr j)"

text \<open>One operation of the list: done, failed, or to wait for.\<close>

datatype opres = OpDone | OpFail errno | OpWait semchan

definition sem_try :: "user \<Rightarrow> int \<Rightarrow> semid_ds \<Rightarrow> sembuf \<Rightarrow> semst \<Rightarrow> opres \<times> semst" where
  "sem_try u sid sp b s =
     (let i = sem_base sp + sem_num b; p = sems s i; o1 = sem_op b;
          undo = sem_flg b AND SEM_UNDO \<noteq> 0;
          put = (\<lambda>s. upd_sem i (\<lambda>p. p\<lparr>semval := c_ushort (semval p + o1)\<rparr>) s);
          zero = (\<lambda>s. if semval (sems s i) = 0 then wake_z i s else s);
          wait = (\<lambda>ch. if sem_flg b AND IPC_NOWAIT \<noteq> 0 then OpFail EAGAIN else OpWait ch)
      in if o1 > 0 then
           if o1 + semval p > semvmx (seminfo s) then (OpFail ERANGE, s)
           else case (if undo then semaoe u o1 sid (int (sem_num b)) s else (Inr (), s)) of
               (Inl e, s1) \<Rightarrow> (OpFail e, s1)
             | (Inr _, s1) \<Rightarrow> (OpDone, zero (wake_n i (put s1)))
         else if o1 < 0 then
           if semval p \<ge> - o1 then
             case (if undo then semaoe u o1 sid (int (sem_num b)) s else (Inr (), s)) of
               (Inl e, s1) \<Rightarrow> (OpFail e, s1)
             | (Inr _, s1) \<Rightarrow> (OpDone, zero (put s1))
           else (wait (NCNT i), s)
         else if semval p \<noteq> 0 then (wait (ZCNT i), s)
         else (OpDone, s))"

text \<open>\<open>semundo\<close>: the operations done are taken back, the last one first.\<close>

fun semundo :: "user \<Rightarrow> sembuf list \<Rightarrow> int \<Rightarrow> semid_ds \<Rightarrow> semst \<Rightarrow> semst" where
  "semundo u [] sid sp s = s"
| "semundo u (b # bs) sid sp s =
     (let s' = semundo u bs sid sp s in
      if sem_op b = 0 then s'
      else let s1 = upd_sem (sem_base sp + sem_num b) (\<lambda>p. p\<lparr>semval := c_ushort (semval p - sem_op b)\<rparr>) s'
        in if sem_flg b AND SEM_UNDO \<noteq> 0
           then snd (semaoe u (c_short (- sem_op b)) sid (int (sem_num b)) s1) else s1)"

text \<open>Finished with an error or the return value, or asleep on a channel.\<close>

datatype semres = SemRet "errno + int" | SemSleep semchan

definition sem_wait :: "semchan \<Rightarrow> semst \<Rightarrow> semst" where
  "sem_wait ch s = (case ch of
     NCNT i \<Rightarrow> upd_sem i (\<lambda>p. p\<lparr>semncnt := c_ushort (semncnt p + 1)\<rparr>) s
   | ZCNT i \<Rightarrow> upd_sem i (\<lambda>p. p\<lparr>semzcnt := c_ushort (semzcnt p + 1)\<rparr>) s)"

fun semop_loop :: "user \<Rightarrow> int \<Rightarrow> nat \<Rightarrow> sembuf list \<Rightarrow> sembuf list \<Rightarrow> semst \<Rightarrow> semres \<times> semst" where
  "semop_loop u sid j dn [] s =
     (let sp = sema s ! j;
          s1 = fold (\<lambda>b. upd_sem (sem_base sp + sem_num b) (\<lambda>p. p\<lparr>sempid := c_short (p_pid u)\<rparr>)) dn s
      in (SemRet (Inr 0), upd_sema j (\<lambda>d. d\<lparr>sem_otime := fst (sem_clock s), sem_ousec := snd (sem_clock s)\<rparr>) s1))"
| "semop_loop u sid j dn (b # bs) s =
     (let sp = sema s ! j in case sem_try u sid sp b s of
        (OpDone, s1) \<Rightarrow> semop_loop u sid j (dn @ [b]) bs s1
      | (OpFail e, s1) \<Rightarrow> (SemRet (Inl e), semundo u dn sid sp s1)
      | (OpWait ch, s1) \<Rightarrow> (SemSleep ch, sem_wait ch (semundo u dn sid sp s1)))"

text \<open>The check of the operations against the set.\<close>

fun sem_verify :: "user \<Rightarrow> semid_ds \<Rightarrow> sembuf list \<Rightarrow> errno + unit" where
  "sem_verify u sp [] = Inr ()"
| "sem_verify u sp (b # bs) =
     (case ipcaccess u (sem_perm sp) (if sem_op b \<noteq> 0 then SEM_A else SEM_R) of
        Inl e \<Rightarrow> Inl e
      | Inr _ \<Rightarrow> if sem_num b \<ge> sem_nsems sp then Inl EFBIG else sem_verify u sp bs)"

text \<open>\<open>semop\<close> up to its end or its first sleep; \<open>mv\<close> is the result of copying in the operations.\<close>

definition semop :: "user \<Rightarrow> int \<Rightarrow> nat \<Rightarrow> errno + sembuf list \<Rightarrow> semst \<Rightarrow> semres \<times> semst" where
  "semop u sid nsops mv s =
     (case semconv sid s of Inl e \<Rightarrow> (SemRet (Inl e), s) | Inr j \<Rightarrow>
        if nsops > semopm (seminfo s) then (SemRet (Inl E2BIG), s)
        else case mv of Inl e \<Rightarrow> (SemRet (Inl e), s) | Inr ops \<Rightarrow>
          case sem_verify u (sema s ! j) ops of Inl e \<Rightarrow> (SemRet (Inl e), s)
          | Inr _ \<Rightarrow> semop_loop u sid j [] ops s)"

text \<open>What follows a sleep on \<open>ch\<close>, interrupted by a signal or woken up.\<close>

definition semop_resume :: "user \<Rightarrow> int \<Rightarrow> nat \<Rightarrow> semchan \<Rightarrow> bool \<Rightarrow> errno + sembuf list \<Rightarrow> semst \<Rightarrow> semres \<times> semst" where
  "semop_resume u sid j ch intr mv s =
     (if intr then
        (SemRet (Inl EINTR), case ch of
            NCNT i \<Rightarrow> if semncnt (sems s i) \<le> 1
              then (upd_sem i (\<lambda>p. p\<lparr>semncnt := 0\<rparr>) s)\<lparr>sem_woken := ch # sem_woken s\<rparr>
              else upd_sem i (\<lambda>p. p\<lparr>semncnt := semncnt p - 1\<rparr>) s
          | ZCNT i \<Rightarrow> if semzcnt (sems s i) \<le> 1
              then (upd_sem i (\<lambda>p. p\<lparr>semzcnt := 0\<rparr>) s)\<lparr>sem_woken := ch # sem_woken s\<rparr>
              else upd_sem i (\<lambda>p. p\<lparr>semzcnt := semzcnt p - 1\<rparr>) s)
      else case semconv sid s of Inl e \<Rightarrow> (SemRet (Inl EIDRM), s)
      | Inr _ \<Rightarrow> (case mv of Inl e \<Rightarrow> (SemRet (Inl e), s) | Inr ops \<Rightarrow> semop_loop u sid j [] ops s))"

subsection \<open>semget, seminit and semexit\<close>

definition semget :: "user \<Rightarrow> int \<Rightarrow> int \<Rightarrow> int \<Rightarrow> semst \<Rightarrow> ((errno + int) \<times> semst) option" where
  "semget u key nsems semflg s =
     (case ipcget u key semflg (map sem_perm (sema s)) of (r, ps) \<Rightarrow>
        let s1 = s\<lparr>sema := map2 (\<lambda>d p. d\<lparr>sem_perm := p\<rparr>) (sema s) ps\<rparr>;
            fin = (\<lambda>j s. (Inr (c_int (ip_seq (sem_perm (sema s ! j)) * int (semmni (seminfo s)) + int j)), s));
            drop_mode = (\<lambda>j. upd_sema j (\<lambda>d. d\<lparr>sem_perm := (sem_perm d)\<lparr>ip_mode := 0\<rparr>\<rparr>))
        in case r of Inl e \<Rightarrow> Some (Inl e, s1)
         | Inr (j, True) \<Rightarrow>
             if nsems \<le> 0 \<or> nsems > semmsl (seminfo s) then Some (Inl EINVAL, drop_mode j s1)
             else (case malloc (semmap s1) (nat nsems) of None \<Rightarrow> None | Some (i, mp) \<Rightarrow>
               if i = 0 then Some (Inl ENOSPC, drop_mode j s1)
               else Some (fin j (upd_sema j (\<lambda>d. d\<lparr>sem_base := i - 1, sem_nsems := nat (c_ushort nsems),
                      sem_ctime := fst (sem_clock s), sem_cusec := snd (sem_clock s),
                      sem_otime := 0, sem_ousec := 0\<rparr>) (s1\<lparr>semmap := mp\<rparr>))))
         | Inr (j, False) \<Rightarrow>
             if nsems \<noteq> 0 \<and> int (sem_nsems (sema s1 ! j)) < nsems then Some (Inl EINVAL, s1)
             else Some (fin j s1))"

text \<open>\<open>seminit\<close>; the undo structures are \<open>0, \<dots>, semmnu - 1\<close>.\<close>

definition seminit :: "semst \<Rightarrow> semst option" where
  "seminit s = (case mfree (mapinit (semmap_ents (seminfo s))) (semmns (seminfo s)) 1 of
     None \<Rightarrow> None
   | Some (mp, w) \<Rightarrow>
       let n = semmnu (seminfo s);
           link = (\<lambda>i. if Suc i < n then Some (Suc i) else None)
       in Some (s\<lparr>semmap := mp, semfup := Some 0,
            semu := (\<lambda>i. if i < max 1 n then (semu s i)\<lparr>un_np := link i\<rparr> else semu s i)\<rparr>))"

definition semexit_entry :: "undo \<Rightarrow> semst \<Rightarrow> semst" where
  "semexit_entry e s =
     (case semconv (un_id e) s of Inl _ \<Rightarrow> s | Inr j \<Rightarrow>
        let i = nat (int (sem_base (sema s ! j)) + un_num e); v = semval (sems s i) + un_aoe e in
        if v < 0 \<or> v > semvmx (seminfo s) then s
        else let s1 = upd_sem i (\<lambda>p. p\<lparr>semval := c_ushort v\<rparr>) s;
                 s2 = (if v = 0 then wake_z i s1 else s1)
             in if un_aoe e > 0 then wake_n i s2 else s2)"

definition semexit :: "user \<Rightarrow> semst \<Rightarrow> semst" where
  "semexit u s =
     (case undo_of s (p_slot u) of None \<Rightarrow> s | Some up \<Rightarrow>
        let s1 = (if un_ent (semu s up) = [] then s
                  else undo_unlink up (upd_semu up (\<lambda>x. x\<lparr>un_ent := []\<rparr>)
                         (foldr semexit_entry (un_ent (semu s up)) s)))
        in (upd_semu up (\<lambda>x. x\<lparr>un_np := semfup s1\<rparr>) s1)
             \<lparr>semfup := Some up, undo_of := (undo_of s1)(p_slot u := None)\<rparr>)"

subsection \<open>semctl\<close>

text \<open>What a command hands back: a number, or what it copies out.\<close>

datatype semout = CtlVal int | CtlDs semid_ds | CtlVals "int list"

definition sem_owner :: "user \<Rightarrow> semid_ds \<Rightarrow> bool" where
  "sem_owner u sp \<longleftrightarrow> u_uid u = ip_uid (sem_perm sp) \<or> u_uid u = ip_cuid (sem_perm sp) \<or> suser u = Inr ()"

definition rmid_sem :: "nat \<Rightarrow> semst \<Rightarrow> semst" where
  "rmid_sem i s = wake_z i (wake_n i (upd_sem i (\<lambda>p. p\<lparr>semval := 0, sempid := 0\<rparr>) s))"

definition semctl_rmid :: "user \<Rightarrow> int \<Rightarrow> nat \<Rightarrow> semst \<Rightarrow> ((errno + semout) \<times> semst) option" where
  "semctl_rmid u sid j s =
     (let sp = sema s ! j in
      if \<not> sem_owner u sp then Some (Inl EPERM, s)
      else let s1 = semunrm sid 0 (int (sem_nsems sp)) s;
               s2 = fold rmid_sem [sem_base sp..<sem_base sp + sem_nsems sp] s1
        in case mfree (semmap s2) (sem_nsems sp) (sem_base sp + 1) of None \<Rightarrow> None
         | Some (mp, w) \<Rightarrow>
             Some (Inr (CtlVal 0), upd_sema j (\<lambda>d. d\<lparr>sem_perm := (sem_perm d)\<lparr>
                 ip_seq := (if c_int (sid + int (semmni (seminfo s))) < 0 then 0
                            else c_ushort (ip_seq (sem_perm d) + 1)),
                 ip_mode := 0\<rparr>\<rparr>) (s2\<lparr>semmap := mp\<rparr>)))"

definition semctl_set :: "user \<Rightarrow> nat \<Rightarrow> ipc_perm option \<Rightarrow> semst \<Rightarrow> (errno + semout) \<times> semst" where
  "semctl_set u j ds s =
     (if \<not> sem_owner u (sema s ! j) then (Inl EPERM, s)
      else case ds of None \<Rightarrow> (Inl EFAULT, s) | Some p \<Rightarrow>
        (Inr (CtlVal 0), upd_sema j (\<lambda>d. d\<lparr>sem_perm := (sem_perm d)\<lparr>ip_uid := ip_uid p, ip_gid := ip_gid p,
            ip_mode := (ip_mode p AND 511) OR IPC_ALLOC\<rparr>,
            sem_ctime := fst (sem_clock s), sem_cusec := snd (sem_clock s)\<rparr>) s))"

text \<open>GETNCNT, GETPID, GETVAL and GETZCNT differ in the field they read.\<close>

definition semctl_get :: "(sem \<Rightarrow> int) \<Rightarrow> user \<Rightarrow> nat \<Rightarrow> nat \<Rightarrow> semst \<Rightarrow> errno + semout" where
  "semctl_get f u j num s =
     (let sp = sema s ! j in
      case ipcaccess u (sem_perm sp) SEM_R of Inl e \<Rightarrow> Inl e | Inr _ \<Rightarrow>
        if num \<ge> sem_nsems sp then Inl EINVAL else Inr (CtlVal (f (sems s (sem_base sp + num)))))"

text \<open>The value loop of GETALL; \<open>fault\<close> is the number of words moved before a fault, if any.\<close>

definition semctl_getall :: "user \<Rightarrow> nat \<Rightarrow> nat option \<Rightarrow> semst \<Rightarrow> errno + semout" where
  "semctl_getall u j fault s =
     (let sp = sema s ! j in
      case ipcaccess u (sem_perm sp) SEM_R of Inl e \<Rightarrow> Inl e | Inr _ \<Rightarrow>
        (case fault of Some k \<Rightarrow> if k < sem_nsems sp then Inl EFAULT
            else Inr (CtlVals (map (\<lambda>i. semval (sems s i)) [sem_base sp..<sem_base sp + sem_nsems sp]))
         | None \<Rightarrow> Inr (CtlVals (map (\<lambda>i. semval (sems s i)) [sem_base sp..<sem_base sp + sem_nsems sp]))))"

definition semctl_stat :: "user \<Rightarrow> nat \<Rightarrow> bool \<Rightarrow> semst \<Rightarrow> errno + semout" where
  "semctl_stat u j fault s =
     (case ipcaccess u (sem_perm (sema s ! j)) SEM_R of Inl e \<Rightarrow> Inl e
      | Inr _ \<Rightarrow> if fault then Inl EFAULT else Inr (CtlDs (sema s ! j)))"

definition sem_store :: "nat \<Rightarrow> int \<Rightarrow> semst \<Rightarrow> semst" where
  "sem_store i v s = (let s1 = upd_sem i (\<lambda>p. p\<lparr>semval := c_ushort v\<rparr>) s in
     if c_ushort v \<noteq> 0 then wake_n i s1 else wake_z i s1)"

definition semctl_setval :: "user \<Rightarrow> int \<Rightarrow> nat \<Rightarrow> nat \<Rightarrow> int \<Rightarrow> semst \<Rightarrow> (errno + semout) \<times> semst" where
  "semctl_setval u sid j num arg s =
     (let sp = sema s ! j; i = sem_base sp + num in
      case ipcaccess u (sem_perm sp) SEM_A of Inl e \<Rightarrow> (Inl e, s) | Inr _ \<Rightarrow>
        if num \<ge> sem_nsems sp then (Inl EINVAL, s)
        else if arg mod 4294967296 > semvmx (seminfo s) then (Inl ERANGE, s)
        else (Inr (CtlVal 0), semunrm sid (int num) (int num)
               (upd_sem i (\<lambda>p. p\<lparr>sempid := c_short (p_pid u)\<rparr>) (sem_store i arg s))))"

definition semctl_setall :: "user \<Rightarrow> int \<Rightarrow> nat \<Rightarrow> errno + int list \<Rightarrow> semst \<Rightarrow> (errno + semout) \<times> semst" where
  "semctl_setall u sid j mv s =
     (let sp = sema s ! j in
      case ipcaccess u (sem_perm sp) SEM_A of Inl e \<Rightarrow> (Inl e, s) | Inr _ \<Rightarrow>
        (case mv of Inl e \<Rightarrow> (Inl e, s) | Inr vs \<Rightarrow>
          if \<exists>v\<in>set (take (sem_nsems sp) vs). v > semvmx (seminfo s) then (Inl ERANGE, s)
          else (Inr (CtlVal 0), fold (\<lambda>(k, v) s. upd_sem (sem_base sp + k)
                  (\<lambda>p. p\<lparr>sempid := c_short (p_pid u)\<rparr>) (sem_store (sem_base sp + k) v s))
                 (zip [0..<sem_nsems sp] vs) (semunrm sid 0 (int (sem_nsems sp)) s))))"

text \<open>What \<open>arg\<close> leads to in user space, by command.\<close>

record semarg =
  a_num :: nat
  a_val :: int
  a_perm :: "ipc_perm option"
  a_vals :: "errno + int list"
  a_fault :: "nat option"

definition semctl :: "user \<Rightarrow> int \<Rightarrow> int \<Rightarrow> semarg \<Rightarrow> semst \<Rightarrow> ((errno + semout) \<times> semst) option" where
  "semctl u sid cmd a s =
     (case semconv sid s of Inl e \<Rightarrow> Some (Inl e, s) | Inr j \<Rightarrow>
        if cmd = 0 then semctl_rmid u sid j s
        else Some
          (if cmd = 1 then semctl_set u j (a_perm a) s
           else if cmd = 2 then (semctl_stat u j (a_fault a \<noteq> None) s, s)
           else if cmd = 3 then (semctl_get semncnt u j (a_num a) s, s)
           else if cmd = 4 then (semctl_get sempid u j (a_num a) s, s)
           else if cmd = 5 then (semctl_get semval u j (a_num a) s, s)
           else if cmd = 6 then (semctl_getall u j (a_fault a) s, s)
           else if cmd = 7 then (semctl_get semzcnt u j (a_num a) s, s)
           else if cmd = 8 then semctl_setval u sid j (a_num a) (a_val a) s
           else if cmd = 9 then semctl_setall u sid j (a_vals a) s
           else (Inl EINVAL, s)))"

subsection \<open>The table of one process\<close>

definition si_ok :: "seminfo \<Rightarrow> bool" where
  "si_ok si \<longleftrightarrow> 0 \<le> semvmx si \<and> semvmx si \<le> 32767 \<and> 0 < semaem si \<and> semaem si \<le> 16384 \<and>
     0 < semmni si \<and> 0 < semume si"

abbreviation undo_less :: "undo \<Rightarrow> undo \<Rightarrow> bool" where
  "undo_less e f \<equiv> before e (un_id f) (un_num f)"

text \<open>Sorted by identifier and number, no adjustment of 0, at most \<open>semume\<close> entries.\<close>

definition tab_ok :: "seminfo \<Rightarrow> undo list \<Rightarrow> bool" where
  "tab_ok si es \<longleftrightarrow> sorted_wrt undo_less es \<and> length es \<le> semume si \<and>
     (\<forall>e\<in>set es. un_aoe e \<noteq> 0 \<and> \<bar>un_aoe e\<bar> \<le> semaem si)"

text \<open>The adjustment a table holds for a semaphore.\<close>

fun adj :: "undo list \<Rightarrow> int \<Rightarrow> int \<Rightarrow> int" where
  "adj [] sid num = 0"
| "adj (e # es) sid num = (if un_id e = sid \<and> un_num e = num then un_aoe e else adj es sid num)"

lemma before_trans: "before e (un_id f) (un_num f) \<Longrightarrow> before f sid num \<Longrightarrow> before e sid num"
  by (auto simp: before_def)

lemma before_irrefl [simp]: "\<not> before e (un_id e) (un_num e)"
  by (simp add: before_def)

lemma before_aoe [simp]: "before (e\<lparr>un_aoe := v\<rparr>) i k = before e i k"
  by (simp add: before_def)

lemma adj_skip: "\<not> (un_id e = i \<and> un_num e = k) \<Longrightarrow> adj (p @ e # t) i k = adj (p @ t) i k"
  by (induction p) auto

lemma adj_at: "\<forall>x\<in>set p. before x (un_id e) (un_num e) \<Longrightarrow> adj (p @ e # t) (un_id e) (un_num e) = un_aoe e"
  by (induction p) (auto simp: before_def)

lemma adj_gone:
  "\<forall>x\<in>set p. before x i k \<Longrightarrow> \<forall>x\<in>set t. \<not> (un_id x = i \<and> un_num x = k) \<Longrightarrow> adj (p @ t) i k = 0"
proof (induction p)
  case Nil
  then show ?case by (induction t) auto
qed (auto simp: before_def)

text \<open>Where \<open>semaoe\<close> stops in a sorted table: on the entry for the semaphore, or in front of the
  greater ones.\<close>

lemma aoe_split [consumes 1, case_names hit miss]:
  assumes "sorted_wrt undo_less es"
  obtains (hit) p e r where "es = p @ e # r" "un_id e = sid" "un_num e = num"
      "\<forall>x\<in>set p. before x sid num" "\<forall>x\<in>set r. undo_less e x"
  | (miss) p r where "es = p @ r" "\<forall>x\<in>set p. before x sid num"
      "\<forall>x\<in>set r. \<not> before x sid num \<and> \<not> (un_id x = sid \<and> un_num x = num)"
proof -
  let ?B = "\<lambda>e. before e sid num"
  let ?p = "takeWhile ?B es" and ?q = "dropWhile ?B es"
  have es: "es = ?p @ ?q" and p: "\<forall>x\<in>set ?p. ?B x" by (auto dest: set_takeWhileD)
  show ?thesis
  proof (cases ?q)
    case Nil
    with es p that(2) [of ?p "[]"] show ?thesis by simp
  next
    case (Cons e r)
    have e: "\<not> ?B e" using hd_dropWhile [of ?B es] Cons by auto
    have r: "\<forall>x\<in>set r. undo_less e x" using assms es Cons
      by (metis sorted_wrt.simps(2) sorted_wrt_append)
    show ?thesis
    proof (cases "un_id e = sid \<and> un_num e = num")
      case True
      with es Cons p r show ?thesis by (intro that(1) [of ?p e r]) auto
    next
      case False
      have "\<forall>x\<in>set (e # r). \<not> ?B x \<and> \<not> (un_id x = sid \<and> un_num x = num)"
      proof
        fix x assume "x \<in> set (e # r)"
        then consider "x = e" | "undo_less e x" using r by auto
        then show "\<not> ?B x \<and> \<not> (un_id x = sid \<and> un_num x = num)"
          using e False by cases (auto dest: before_trans)
      qed
      with es Cons p show ?thesis by (intro that(2) [of ?p "e # r"]) auto
    qed
  qed
qed

lemma aoe_entries_hit:
  assumes "\<forall>x\<in>set p. before x sid num" "un_id e = sid" "un_num e = num"
  shows "aoe_entries si val sid num (p @ e # r) = (let v = c_short (un_aoe e - val) in
     if v > semaem si \<or> v < - semaem si then Inl ERANGE
     else Inr (if v = 0 then p @ r else p @ e\<lparr>un_aoe := v\<rparr> # r))"
proof -
  have "\<not> before e sid num" using assms(2,3) by auto
  with assms show ?thesis by (simp add: aoe_entries_def Let_def takeWhile_append2 dropWhile_append2)
qed

lemma aoe_entries_miss:
  assumes "\<forall>x\<in>set p. before x sid num" "\<forall>x\<in>set r. \<not> before x sid num \<and> \<not> (un_id x = sid \<and> un_num x = num)"
  shows "aoe_entries si val sid num (p @ r) =
     (if length (p @ r) \<ge> semume si then Inl EINVAL
      else Inr (p @ \<lparr>un_aoe = c_short (- val), un_num = num, un_id = sid\<rparr> # r))"
proof (cases r)
  case Nil
  have "takeWhile (\<lambda>e. before e sid num) p = p" "dropWhile (\<lambda>e. before e sid num) p = []"
    using assms(1) by (auto simp: takeWhile_eq_all_conv dropWhile_eq_Nil_conv)
  with Nil show ?thesis
    by (simp add: aoe_entries_def Let_def del: takeWhile_eq_all_conv dropWhile_eq_Nil_conv)
next
  case (Cons e t)
  with assms have "\<not> before e sid num" "\<not> (un_id e = sid \<and> un_num e = num)" by auto
  with assms Cons show ?thesis by (simp add: aoe_entries_def Let_def takeWhile_append2 dropWhile_append2)
qed

text \<open>A successful update keeps the table in order, changes the one adjustment, and is undone
  exactly by the opposite update.\<close>

lemma aoe_entries_ok:
  assumes si: "si_ok si" and tab: "tab_ok si es" and val: "val \<noteq> 0" "\<bar>val\<bar> \<le> semaem si"
    and r: "aoe_entries si val sid num es = Inr fs"
  shows "tab_ok si fs \<and> aoe_entries si (- val) sid num fs = Inr es \<and>
    (\<forall>i k. adj fs i k = adj es i k - (if i = sid \<and> k = num then val else 0))"
proof -
  from tab have "sorted_wrt undo_less es" by (simp add: tab_ok_def)
  from this show ?thesis
  proof (cases rule: aoe_split [of es sid num])
  case (hit p e t)
  note split = this
  have srt: "sorted_wrt undo_less (p @ e # t)" and e: "\<bar>un_aoe e\<bar> \<le> semaem si" "un_aoe e \<noteq> 0"
    using tab split(1) by (auto simp: tab_ok_def)
  let ?v = "un_aoe e - val"
  have cs: "c_short ?v = ?v \<or> ?v = 32768"
    using e val si by (intro disjCI c_short_id) (auto simp: si_ok_def)
  have w: "c_short 32768 = - 32768" by (simp add: c_short_def)
  have v: "\<bar>?v\<bar> \<le> semaem si" "c_short ?v = ?v"
    using r cs w si unfolding split(1) aoe_entries_hit [OF split(4,2,3)]
    by (auto simp: Let_def si_ok_def split: if_splits)
  with r split have fs: "fs = (if ?v = 0 then p @ t else p @ e\<lparr>un_aoe := ?v\<rparr> # t)"
    by (simp add: aoe_entries_hit Let_def split: if_splits)
  have t: "\<forall>x\<in>set t. \<not> before x sid num \<and> \<not> (un_id x = sid \<and> un_num x = num)"
  proof
    fix x assume "x \<in> set t"
    with split(5) have "undo_less e x" by blast
    with split(2,3) show "\<not> before x sid num \<and> \<not> (un_id x = sid \<and> un_num x = num)"
      unfolding before_def by linarith
  qed
  have inv: "aoe_entries si (- val) sid num fs = Inr es"
  proof (cases "?v = 0")
    case True
    have "c_short (un_aoe e) = un_aoe e" using e si by (intro c_short_id) (auto simp: si_ok_def)
    with True fs split tab aoe_entries_miss [OF split(4) t, of si "- val"] show ?thesis
      by (auto simp: tab_ok_def)
  next
    case False
    have "c_short (un_aoe e) = un_aoe e" using e si by (intro c_short_id) (auto simp: si_ok_def)
    moreover from False fs have f: "fs = p @ e\<lparr>un_aoe := ?v\<rparr> # t" by simp
    ultimately show ?thesis using split e unfolding f
      by (subst aoe_entries_hit [OF split(4)]) (auto simp: Let_def)
  qed
  have "sorted_wrt undo_less fs" using srt unfolding fs by (simp add: sorted_wrt_append)
  moreover have "set fs \<subseteq> insert (e\<lparr>un_aoe := ?v\<rparr>) (set es)" "length fs \<le> length es"
    "?v = 0 \<longrightarrow> set fs \<subseteq> set es" unfolding fs split(1) by auto
  ultimately have "tab_ok si fs" using tab v(1) unfolding tab_ok_def by fastforce
  moreover have "adj fs i k = adj es i k - (if i = sid \<and> k = num then val else 0)" for i k
  proof (cases "i = un_id e \<and> k = un_num e")
    case True
    have "adj (p @ t) sid num = 0" using split(4) t by (intro adj_gone) auto
    moreover have "adj (p @ f # t) (un_id f) (un_num f) = un_aoe f" if "un_id f = sid" "un_num f = num" for f
      using split(4) that by (intro adj_at) auto
    note this [of e] this [of "e\<lparr>un_aoe := ?v\<rparr>"]
    ultimately show ?thesis using True split(2,3) unfolding fs split(1) by simp
  next
    case False
    then have "adj (p @ f # t) i k = adj (p @ t) i k" if "un_id f = sid" "un_num f = num" for f
      using that split(2,3) by (intro adj_skip) auto
    note this [of e] this [of "e\<lparr>un_aoe := ?v\<rparr>"]
    with False split(2,3) show ?thesis unfolding fs split(1) by auto
  qed
  ultimately show ?thesis using inv by blast
next
  case (miss p t)
  note split = this
  have cs: "c_short (- val) = - val" using val si by (intro c_short_id) (auto simp: si_ok_def)
  let ?e = "\<lparr>un_aoe = - val, un_num = num, un_id = sid\<rparr>"
  from r split cs aoe_entries_miss [OF split(2,3), of si val]
  have fs: "fs = p @ ?e # t" and len: "length es < semume si" by (auto split: if_splits)
  have inv: "aoe_entries si (- val) sid num fs = Inr es"
    using split fs aoe_entries_hit [OF split(2), of ?e si "- val" t] si
    by (simp add: Let_def c_short_def si_ok_def)
  have "\<forall>x\<in>set t. undo_less ?e x" using split(3) by (auto simp: before_def)
  with tab split(2) have "sorted_wrt undo_less fs"
    unfolding fs tab_ok_def split(1) by (simp add: sorted_wrt_append)
  moreover have "set fs \<subseteq> insert ?e (set es)" "length fs = Suc (length es)"
    unfolding fs split(1) by auto
  ultimately have "tab_ok si fs" using tab len val unfolding tab_ok_def by fastforce
  moreover have "adj fs i k = adj es i k - (if i = sid \<and> k = num then val else 0)" for i k
  proof (cases "i = sid \<and> k = num")
    case True
    have "adj (p @ t) sid num = 0" using split(2,3) by (intro adj_gone) auto
    with True split(2) adj_at [of p ?e t] show ?thesis unfolding fs split(1) by simp
  next
    case False
    with adj_skip [of ?e i k p t] show ?thesis unfolding fs split(1) by auto
  qed
  ultimately show ?thesis using inv by blast
  qed
qed

subsection \<open>The undo structures\<close>

definition np :: "semst \<Rightarrow> nat \<Rightarrow> nat option" where
  "np s q = un_np (semu s q)"

text \<open>The adjustments the process in a slot has registered.\<close>

definition undos :: "semst \<Rightarrow> nat \<Rightarrow> undo list" where
  "undos s sl = (case undo_of s sl of None \<Rightarrow> [] | Some up \<Rightarrow> un_ent (semu s up))"

text \<open>The structures in use are chained in \<open>act\<close>, the free ones in \<open>fr\<close>; a process may hold one
  that is empty and in neither.\<close>

definition undo_rep :: "nat list \<Rightarrow> nat list \<Rightarrow> semst \<Rightarrow> bool" where
  "undo_rep act fr s \<longleftrightarrow> chain (np s) (semunp s) act \<and> chain (np s) (semfup s) fr \<and>
     set act \<inter> set fr = {} \<and> set act \<union> set fr \<subseteq> {..<semmnu (seminfo s)} \<and>
     (\<forall>p. p \<in> set act \<longleftrightarrow> un_ent (semu s p) \<noteq> []) \<and>
     (\<forall>sl up. undo_of s sl = Some up \<longrightarrow> up < semmnu (seminfo s) \<and> up \<notin> set fr \<and>
        (\<forall>sl'. undo_of s sl' = Some up \<longrightarrow> sl' = sl)) \<and>
     (\<forall>p\<in>set act. \<exists>sl. undo_of s sl = Some p) \<and>
     (\<forall>p. tab_ok (seminfo s) (un_ent (semu s p)))"

definition undo_ok :: "semst \<Rightarrow> bool" where
  "undo_ok s \<longleftrightarrow> si_ok (seminfo s) \<and> (\<exists>act fr. undo_rep act fr s)"

text \<open>What the operations on undo structures leave alone.\<close>

definition same_sems :: "semst \<Rightarrow> semst \<Rightarrow> bool" where
  "same_sems s s' \<longleftrightarrow> seminfo s' = seminfo s \<and> sema s' = sema s \<and> sems s' = sems s \<and>
     semmap s' = semmap s \<and> sem_woken s' = sem_woken s \<and> sem_clock s' = sem_clock s"

lemma upd_semu_simps [simp]:
  "semu (upd_semu i f s) = (semu s)(i := f (semu s i))" "seminfo (upd_semu i f s) = seminfo s"
  "sema (upd_semu i f s) = sema s" "sems (upd_semu i f s) = sems s" "semmap (upd_semu i f s) = semmap s"
  "undo_of (upd_semu i f s) = undo_of s" "semunp (upd_semu i f s) = semunp s"
  "semfup (upd_semu i f s) = semfup s" "sem_woken (upd_semu i f s) = sem_woken s"
  "sem_clock (upd_semu i f s) = sem_clock s"
  by (simp_all add: upd_semu_def)

lemma undo_unlink_spec:
  assumes "chain (np s) (semunp s) (xs @ p # ys)" "length (xs @ p # ys) \<le> semmnu (seminfo s)"
  shows "same_sems s (undo_unlink p s) \<and> undo_of (undo_unlink p s) = undo_of s \<and>
    semfup (undo_unlink p s) = semfup s \<and>
    chain (np (undo_unlink p s)) (semunp (undo_unlink p s)) (xs @ ys) \<and>
    (\<forall>q. un_ent (semu (undo_unlink p s) q) = un_ent (semu s q)) \<and>
    (\<forall>q. q \<notin> set xs \<longrightarrow> np (undo_unlink p s) q = np s q)"
proof (cases xs rule: rev_cases)
  case Nil
  with assms have "semunp s = Some p" "chain (np s) (np s p) ys" by auto
  moreover have "np (s\<lparr>semunp := v\<rparr>) = np s" for v by (simp add: np_def fun_eq_iff)
  ultimately show ?thesis using Nil by (simp add: undo_unlink_def same_sems_def np_def)
next
  case (snoc zs q)
  let ?s = "upd_semu q (\<lambda>x. x\<lparr>un_np := un_np (semu s p)\<rparr>) s"
  have c: "chain (np s) (semunp s) (zs @ q # p # ys)" using assms(1) snoc by simp
  have f: "follow (semmnu (seminfo s)) (np s) (semunp s) = zs @ q # p # ys"
    using follow_chain [OF c] assms(2) snoc by simp
  have "semunp s \<noteq> Some p"
    using c chain_distinct [OF c] by (cases zs) auto
  with f chain_find_pred [OF c] have u: "undo_unlink p s = ?s"
    by (simp add: undo_unlink_def np_def [abs_def])
  have "np ?s = (np s)(q := np s p)" by (simp add: np_def fun_eq_iff)
  with chain_unlink [OF c] snoc u show ?thesis by (simp add: same_sems_def)
qed

lemma undos_struct:
  "undo_of s sl = Some up \<Longrightarrow> undos s sl = un_ent (semu s up)"
  by (simp add: undos_def)

lemma undo_struct_spec:
  assumes rep: "undo_rep act fr s" and g: "undo_struct u s = Some (up, s')"
  shows "(\<exists>fr'. undo_rep act fr' s') \<and> same_sems s s' \<and> undo_of s' (p_slot u) = Some up \<and>
    undos s' = undos s"
proof (cases "undo_of s (p_slot u)")
  case (Some p)
  with g rep show ?thesis by (auto simp: undo_struct_def same_sems_def)
next
  case None
  with g have f: "semfup s = Some up" and
    s': "s' = (upd_semu up (\<lambda>x. x\<lparr>un_np := None\<rparr>) (s\<lparr>semfup := un_np (semu s up)\<rparr>))
           \<lparr>undo_of := (undo_of s)(p_slot u := Some up)\<rparr>"
    by (auto simp: undo_struct_def split: option.splits)
  from rep f obtain gs where fr: "fr = up # gs" "chain (np s) (np s up) gs"
    by (auto simp: undo_rep_def chain_Some)
  then have d: "up \<notin> set gs" using chain_distinct [of "np s" "semfup s" fr] rep by (auto simp: undo_rep_def)
  have up: "up \<notin> set act" "un_ent (semu s up) = []" using rep fr by (auto simp: undo_rep_def)
  have np': "np s' = (np s)(up := None)" by (simp add: np_def fun_eq_iff s')
  have ent: "un_ent (semu s' q) = un_ent (semu s q)" for q by (simp add: s')
  have uo: "undo_of s' = (undo_of s)(p_slot u := Some up)" by (simp add: s')
  have free: "undo_of s sl \<noteq> Some up" for sl using rep fr by (auto simp: undo_rep_def)
  have "undo_rep act gs s'" unfolding undo_rep_def
  proof (intro conjI)
    show "chain (np s') (semunp s') act" "chain (np s') (semfup s') gs"
      using rep fr d up unfolding np' by (simp_all add: undo_rep_def seg_upd) (simp_all add: s' np_def)
    show "\<forall>sl up. undo_of s' sl = Some up \<longrightarrow> up < semmnu (seminfo s') \<and> up \<notin> set gs \<and>
        (\<forall>sl'. undo_of s' sl' = Some up \<longrightarrow> sl' = sl)"
      using rep fr d free unfolding uo by (auto simp: undo_rep_def s' split: if_splits)
    show "\<forall>p\<in>set act. \<exists>sl. undo_of s' sl = Some p"
      using rep None unfolding uo by (auto simp: undo_rep_def) (metis option.distinct(1))
  qed (use rep fr in \<open>auto simp: undo_rep_def ent s'\<close>)
  moreover have "undos s' = undos s"
    using None up(2) by (auto simp: undos_def uo ent fun_eq_iff split: option.splits)
  ultimately show ?thesis by (auto simp: uo) (simp add: same_sems_def s')
qed

lemma undo_store_spec:
  assumes rep: "undo_rep act fr s" and up: "undo_of s sl = Some up"
    and es: "tab_ok (seminfo s) es" "un_ent (semu s up) = [] \<longrightarrow> es \<noteq> []"
  shows "(\<exists>act'. undo_rep act' fr (undo_store up es s)) \<and> same_sems s (undo_store up es s) \<and>
    undo_of (undo_store up es s) = undo_of s \<and> undos (undo_store up es s) = (undos s)(sl := es)"
proof -
  let ?s = "undo_store up es s"
  have r: "chain (np s) (semunp s) act" "chain (np s) (semfup s) fr" "set act \<inter> set fr = {}"
    "up \<notin> set fr" "up \<in> set act \<longleftrightarrow> un_ent (semu s up) \<noteq> []" "up < semmnu (seminfo s)"
    "set act \<subseteq> {..<semmnu (seminfo s)}" "\<And>sl'. undo_of s sl' = Some up \<Longrightarrow> sl' = sl"
    using rep up by (auto simp: undo_rep_def)
  have "\<exists>act'. chain (np ?s) (semunp ?s) act' \<and> chain (np ?s) (semfup ?s) fr \<and>
      (\<forall>p. p \<in> set act' \<longleftrightarrow> (if p = up then es \<noteq> [] else p \<in> set act)) \<and>
      undo_of ?s = undo_of s \<and> same_sems s ?s \<and>
      (\<forall>q. un_ent (semu ?s q) = (if q = up then es else un_ent (semu s q)))"
  proof (cases "un_ent (semu s up) = []")
    case True
    with es have s': "?s = upd_semu up (\<lambda>x. x\<lparr>un_ent := es\<rparr>)
        ((upd_semu up (\<lambda>x. x\<lparr>un_np := semunp s\<rparr>) s)\<lparr>semunp := Some up\<rparr>)"
      by (simp add: undo_store_def Let_def)
    have "np ?s = (np s)(up := semunp s)" by (simp add: np_def fun_eq_iff s')
    then have "chain (np ?s) (semunp ?s) (up # act)" "chain (np ?s) (semfup ?s) fr"
      using r True by (simp_all add: seg_upd s')
    then show ?thesis using True es by (intro exI [of _ "up # act"]) (auto simp: s' same_sems_def)
  next
    case ne: False
    show ?thesis
    proof (cases "es = []")
      case False
      with ne have s': "?s = upd_semu up (\<lambda>x. x\<lparr>un_ent := es\<rparr>) s" by (simp add: undo_store_def Let_def)
      have "np ?s = np s" by (simp add: np_def fun_eq_iff s')
      with r ne False show ?thesis by (intro exI [of _ act]) (auto simp: s' same_sems_def)
    next
      case True
      let ?t = "upd_semu up (\<lambda>x. x\<lparr>un_ent := es\<rparr>) s"
      have s': "?s = upd_semu up (\<lambda>x. x\<lparr>un_np := None\<rparr>) (undo_unlink up ?t)"
        using ne True by (simp add: undo_store_def Let_def)
      from ne r(5) obtain xs ys where act: "act = xs @ up # ys" by (metis split_list)
      have d: "distinct act" using r(1) by (rule chain_distinct)
      have npt: "np ?t = np s" by (simp add: np_def fun_eq_iff)
      have "length act \<le> semmnu (seminfo s)" by (rule distinct_bounded_length [OF d r(7)])
      then have u: "same_sems ?t (undo_unlink up ?t)" "undo_of (undo_unlink up ?t) = undo_of s"
        "semfup (undo_unlink up ?t) = semfup s"
        "chain (np (undo_unlink up ?t)) (semunp (undo_unlink up ?t)) (xs @ ys)"
        "\<And>q. un_ent (semu (undo_unlink up ?t) q) = un_ent (semu ?t q)"
        "\<And>q. q \<notin> set xs \<Longrightarrow> np (undo_unlink up ?t) q = np s q"
        using undo_unlink_spec [of ?t xs up ys] r(1) act by (simp_all add: npt)
      have np': "np ?s = (np (undo_unlink up ?t))(up := None)" by (simp add: np_def fun_eq_iff s')
      have "up \<notin> set (xs @ ys)" using d act by auto
      then have 1: "chain (np ?s) (semunp ?s) (xs @ ys)" using u(4) unfolding np' by (simp add: seg_upd s')
      have "np ?s q = np s q" if "q \<in> set fr" for q
        using that u(6) [of q] r(3,4) act unfolding np' by auto
      then have 2: "chain (np ?s) (semfup ?s) fr"
        using r(2) u(3) seg_cong [of fr "np ?s" "np s"] by (simp add: s')
      have 3: "undo_of ?s = undo_of s \<and> same_sems s ?s \<and>
          (\<forall>q. un_ent (semu ?s q) = (if q = up then es else un_ent (semu s q)))"
        using u(1,2,5) unfolding s' by (auto simp: same_sems_def)
      show ?thesis using 1 2 3 d act True by (intro exI [of _ "xs @ ys"]) auto
    qed
  qed
  then obtain act' where a: "chain (np ?s) (semunp ?s) act'" "chain (np ?s) (semfup ?s) fr"
    "\<And>p. p \<in> set act' \<longleftrightarrow> (if p = up then es \<noteq> [] else p \<in> set act)"
    "undo_of ?s = undo_of s" "same_sems s ?s"
    "\<And>q. un_ent (semu ?s q) = (if q = up then es else un_ent (semu s q))" by blast
  have si: "seminfo ?s = seminfo s" using a(5) by (simp add: same_sems_def)
  have act: "\<And>p. p \<in> set act \<longleftrightarrow> un_ent (semu s p) \<noteq> []" "\<And>p. p \<in> set act \<Longrightarrow> \<exists>sl. undo_of s sl = Some p"
    "\<And>p. tab_ok (seminfo s) (un_ent (semu s p))" "set fr \<subseteq> {..<semmnu (seminfo s)}"
    and of: "\<forall>sl up. undo_of s sl = Some up \<longrightarrow> up < semmnu (seminfo s) \<and> up \<notin> set fr \<and>
        (\<forall>sl'. undo_of s sl' = Some up \<longrightarrow> sl' = sl)" using rep by (simp_all add: undo_rep_def)
  have sub: "set act' \<subseteq> insert up (set act)" by (auto simp: a(3) split: if_splits)
  have "undo_rep act' fr ?s" unfolding undo_rep_def si a(4)
  proof (intro conjI a(1,2) of allI ballI)
    show "set act' \<inter> set fr = {}" "set act' \<union> set fr \<subseteq> {..<semmnu (seminfo s)}"
      using sub r(3,4,6,7) act(4) by auto
    show "p \<in> set act' \<longleftrightarrow> un_ent (semu ?s p) \<noteq> []" for p by (simp add: a(3,6) act(1))
    show "\<exists>sl. undo_of s sl = Some p" if "p \<in> set act'" for p
      using that sub act(2) [of p] up by auto
    show "tab_ok (seminfo s) (un_ent (semu ?s p))" for p using act(3) es by (simp add: a(6))
  qed
  moreover have "undos ?s = (undos s)(sl := es)"
  proof
    fix x
    show "undos ?s x = ((undos s)(sl := es)) x"
    proof (cases "x = sl")
      case False
      then have "undo_of s x \<noteq> Some up" using r(8) by blast
      with False show ?thesis by (cases "undo_of s x") (simp_all add: undos_def a(4,6))
    qed (simp add: undos_def a(4,6) up)
  qed
  ultimately show ?thesis using a(4,5) by blast
qed

lemma undo_ok_tab: "undo_ok s \<Longrightarrow> tab_ok (seminfo s) (undos s sl)"
  by (cases "undo_of s sl") (auto simp: undo_ok_def undo_rep_def undos_def tab_ok_def)

lemma undo_ok_si: "undo_ok s \<Longrightarrow> si_ok (seminfo s)"
  by (simp add: undo_ok_def)

lemma aoe_entries_nonempty: "aoe_entries si val sid num [] = Inr es \<Longrightarrow> es \<noteq> []"
  by (auto simp: aoe_entries_def split: if_splits)

lemma semaoe_spec:
  assumes ok: "undo_ok s" and r: "semaoe u val sid num s = (r, s')"
  shows "undo_ok s' \<and> same_sems s s' \<and> (undo_of s (p_slot u) \<noteq> None \<longrightarrow> undo_of s' (p_slot u) \<noteq> None) \<and>
    (case r of Inl e \<Rightarrow> undos s' = undos s
     | Inr _ \<Rightarrow> if val = 0 then s' = s else \<bar>val\<bar> \<le> semaem (seminfo s) \<and> undo_of s' (p_slot u) \<noteq> None \<and>
         (\<exists>es. aoe_entries (seminfo s) val sid num (undos s (p_slot u)) = Inr es \<and>
            undos s' = (undos s)(p_slot u := es)))"
proof (cases "val = 0 \<or> val > semaem (seminfo s) \<or> val < - semaem (seminfo s) \<or> undo_struct u s = None")
  case True
  with r ok show ?thesis by (auto simp: semaoe_def same_sems_def split: if_splits)
next
  case False
  then obtain up s1 where g: "undo_struct u s = Some (up, s1)" by auto
  from False have v: "val \<noteq> 0" "\<bar>val\<bar> \<le> semaem (seminfo s)" by auto
  from ok obtain act fr where rep: "undo_rep act fr s" and si: "si_ok (seminfo s)" by (auto simp: undo_ok_def)
  from undo_struct_spec [OF rep g] obtain fr' where
    g1: "undo_rep act fr' s1" "same_sems s s1" "undo_of s1 (p_slot u) = Some up" "undos s1 = undos s" by blast
  have si1: "seminfo s1 = seminfo s" using g1(2) by (simp add: same_sems_def)
  have ent: "un_ent (semu s1 up) = undos s (p_slot u)" using g1(3,4) undos_struct [of s1] by simp
  show ?thesis
  proof (cases "aoe_entries (seminfo s) val sid num (undos s (p_slot u))")
    case (Inl e)
    with False g r ent g1 si si1 show ?thesis by (auto simp: semaoe_def undo_ok_def)
  next
    case (Inr es)
    have t: "tab_ok (seminfo s1) es"
      using aoe_entries_ok [OF si undo_ok_tab [OF ok] v Inr] by (simp add: si1)
    have "un_ent (semu s1 up) = [] \<longrightarrow> es \<noteq> []" using Inr ent aoe_entries_nonempty by metis
    from undo_store_spec [OF g1(1,3) t this] False g r ent Inr g1 si si1 show ?thesis
      by (auto simp: semaoe_def undo_ok_def same_sems_def)
  qed
qed

lemma semaoe_held:
  assumes ok: "undo_ok s" and up: "undo_of s (p_slot u) \<noteq> None" and val: "val \<noteq> 0" "\<bar>val\<bar> \<le> semaem (seminfo s)"
    and es: "aoe_entries (seminfo s) val sid num (undos s (p_slot u)) = Inr es"
  shows "fst (semaoe u val sid num s) = Inr ()"
proof -
  from up obtain p where p: "undo_of s (p_slot u) = Some p" by auto
  with es val show ?thesis by (auto simp: semaoe_def undo_struct_def undos_struct)
qed

subsection \<open>One operation\<close>

abbreviation vals :: "semst \<Rightarrow> nat \<Rightarrow> int" where
  "vals s i \<equiv> semval (sems s i)"

definition sem_ok :: "semst \<Rightarrow> bool" where
  "sem_ok s \<longleftrightarrow> undo_ok s \<and> (\<forall>i. 0 \<le> vals s i \<and> vals s i \<le> semvmx (seminfo s))"

lemma sem_ok_range: "sem_ok s \<Longrightarrow> 0 \<le> vals s i \<and> vals s i \<le> 32767"
proof -
  assume "sem_ok s"
  then have "0 \<le> vals s i" "vals s i \<le> semvmx (seminfo s)" "si_ok (seminfo s)"
    by (simp_all add: sem_ok_def undo_ok_si)
  then show ?thesis by (simp add: si_ok_def)
qed

text \<open>What \<open>semop\<close> never changes before it succeeds.\<close>

definition keeps :: "semst \<Rightarrow> semst \<Rightarrow> bool" where
  "keeps s s' \<longleftrightarrow> seminfo s' = seminfo s \<and> sema s' = sema s \<and> semmap s' = semmap s \<and>
     sem_clock s' = sem_clock s \<and> (\<forall>i. sempid (sems s' i) = sempid (sems s i))"

lemma keeps_refl [simp]: "keeps s s"
  by (simp add: keeps_def)

lemma keeps_trans: "keeps s t \<Longrightarrow> keeps t r \<Longrightarrow> keeps s r"
  by (simp add: keeps_def)

lemma same_keeps: "same_sems s s' \<Longrightarrow> keeps s s'"
  by (simp add: keeps_def same_sems_def)

lemma upd_sem_simps [simp]:
  "sems (upd_sem i f s) = (sems s)(i := f (sems s i))" "seminfo (upd_sem i f s) = seminfo s"
  "sema (upd_sem i f s) = sema s" "semmap (upd_sem i f s) = semmap s" "semu (upd_sem i f s) = semu s"
  "undo_of (upd_sem i f s) = undo_of s" "semunp (upd_sem i f s) = semunp s"
  "semfup (upd_sem i f s) = semfup s" "sem_woken (upd_sem i f s) = sem_woken s"
  "sem_clock (upd_sem i f s) = sem_clock s"
  by (simp_all add: upd_sem_def)

text \<open>Changes to \<open>sem[]\<close> and the log leave the undo structures alone.\<close>

definition same_undo :: "semst \<Rightarrow> semst \<Rightarrow> bool" where
  "same_undo s s' \<longleftrightarrow> seminfo s' = seminfo s \<and> semu s' = semu s \<and> undo_of s' = undo_of s \<and>
     semunp s' = semunp s \<and> semfup s' = semfup s"

lemma same_undoD:
  assumes "same_undo s s'"
  shows "undo_ok s' = undo_ok s" "undos s' = undos s" "undo_of s' = undo_of s"
proof -
  have "np s' = np s" using assms by (simp add: same_undo_def np_def fun_eq_iff)
  with assms show "undo_ok s' = undo_ok s" by (simp add: undo_ok_def undo_rep_def same_undo_def)
  from assms have "undos s' sl = undos s sl" for sl
    by (auto simp: undos_def same_undo_def split: option.split)
  then show "undos s' = undos s" by (rule ext)
  from assms show "undo_of s' = undo_of s" by (simp add: same_undo_def)
qed

text \<open>Waking up changes neither values nor pids.\<close>

definition quiet :: "semst \<Rightarrow> semst \<Rightarrow> bool" where
  "quiet s s' \<longleftrightarrow> same_undo s s' \<and> keeps s s' \<and> vals s' = vals s"

lemma quiet_simps [simp]:
  "quiet s s" "quiet s (wake_n i s)" "quiet s (wake_z i s)" "quiet s (sem_wait ch s)"
  by (auto simp: quiet_def same_undo_def keeps_def wake_n_def wake_z_def sem_wait_def fun_eq_iff
      split: semchan.split)

lemma quiet_trans: "quiet s t \<Longrightarrow> quiet t r \<Longrightarrow> quiet s r"
  by (simp add: quiet_def same_undo_def keeps_def)

lemma quietD:
  assumes "quiet s s'"
  shows "sem_ok s' = sem_ok s" "vals s' = vals s" "undos s' = undos s" "undo_of s' = undo_of s"
    "keeps s s'" "seminfo s' = seminfo s"
proof -
  from assms have "vals s' i = vals s i" for i by (auto simp: quiet_def fun_eq_iff)
  with assms same_undoD [of s s'] show "sem_ok s' = sem_ok s"
    by (simp add: sem_ok_def quiet_def same_undo_def)
qed (use assms same_undoD [of s s'] in \<open>simp_all add: quiet_def same_undo_def\<close>)

text \<open>Storing a value in range.\<close>

lemma put_val:
  assumes "sem_ok s" "0 \<le> v" "v \<le> semvmx (seminfo s)"
  shows "sem_ok (upd_sem i (\<lambda>p. p\<lparr>semval := c_ushort v\<rparr>) s) \<and>
    keeps s (upd_sem i (\<lambda>p. p\<lparr>semval := c_ushort v\<rparr>) s) \<and>
    vals (upd_sem i (\<lambda>p. p\<lparr>semval := c_ushort v\<rparr>) s) = (vals s)(i := v) \<and>
    undos (upd_sem i (\<lambda>p. p\<lparr>semval := c_ushort v\<rparr>) s) = undos s"
proof -
  let ?s = "upd_sem i (\<lambda>p. p\<lparr>semval := c_ushort v\<rparr>) s"
  have "si_ok (seminfo s)" using assms(1) by (simp add: sem_ok_def undo_ok_si)
  then have "c_ushort v = v" using assms by (simp add: c_ushort_id si_ok_def)
  moreover have "same_undo s ?s" by (simp add: same_undo_def)
  ultimately show ?thesis using assms same_undoD [of s ?s]
    by (auto simp: sem_ok_def keeps_def fun_eq_iff)
qed

definition tried :: "user \<Rightarrow> int \<Rightarrow> semid_ds \<Rightarrow> sembuf \<Rightarrow> semst \<Rightarrow> semst \<Rightarrow> bool" where
  "tried u sid sp b s s' \<longleftrightarrow>
     vals s' = (vals s)(sem_base sp + sem_num b := vals s (sem_base sp + sem_num b) + sem_op b) \<and>
     (if sem_op b \<noteq> 0 \<and> sem_flg b AND SEM_UNDO \<noteq> 0
      then \<bar>sem_op b\<bar> \<le> semaem (seminfo s) \<and> undo_of s' (p_slot u) \<noteq> None \<and>
        (\<exists>es. aoe_entries (seminfo s) (sem_op b) sid (int (sem_num b)) (undos s (p_slot u)) = Inr es \<and>
           undos s' = (undos s)(p_slot u := es))
      else undos s' = undos s)"

lemma tried_quiet:
  assumes "tried u sid sp b s t" "quiet t r" shows "tried u sid sp b s r"
  using assms(1) quietD [OF assms(2)] unfolding tried_def by simp

text \<open>The part of an operation that is common to both signs: the adjustment, then the value.\<close>

lemma op_effect:
  assumes ok: "sem_ok s" and op: "sem_op b \<noteq> 0"
    and v: "0 \<le> vals s i + sem_op b" "vals s i + sem_op b \<le> semvmx (seminfo s)"
      "i = sem_base sp + sem_num b"
    and r: "(if sem_flg b AND SEM_UNDO \<noteq> 0 then semaoe u (sem_op b) sid (int (sem_num b)) s else (Inr (), s)) = (r, s1)"
  shows "sem_ok s1 \<and> keeps s s1 \<and> (undo_of s (p_slot u) \<noteq> None \<longrightarrow> undo_of s1 (p_slot u) \<noteq> None) \<and>
    vals s1 = vals s \<and> (case r of Inl e \<Rightarrow> undos s1 = undos s
      | Inr _ \<Rightarrow> let s2 = upd_sem i (\<lambda>p. p\<lparr>semval := c_ushort (vals s i + sem_op b)\<rparr>) s1 in
          sem_ok s2 \<and> keeps s s2 \<and> tried u sid sp b s s2 \<and>
          (undo_of s (p_slot u) \<noteq> None \<longrightarrow> undo_of s2 (p_slot u) \<noteq> None))"
proof -
  let ?U = "sem_flg b AND SEM_UNDO \<noteq> 0"
  have uok: "undo_ok s" using ok by (simp add: sem_ok_def)
  have 1: "undo_ok s1 \<and> same_sems s s1 \<and> (undo_of s (p_slot u) \<noteq> None \<longrightarrow> undo_of s1 (p_slot u) \<noteq> None) \<and>
    (case r of Inl e \<Rightarrow> undos s1 = undos s
     | Inr _ \<Rightarrow> if ?U then \<bar>sem_op b\<bar> \<le> semaem (seminfo s) \<and> undo_of s1 (p_slot u) \<noteq> None \<and>
         (\<exists>es. aoe_entries (seminfo s) (sem_op b) sid (int (sem_num b)) (undos s (p_slot u)) = Inr es \<and>
            undos s1 = (undos s)(p_slot u := es)) else undos s1 = undos s)"
  proof (cases ?U)
    case True
    with r semaoe_spec [OF uok, of u "sem_op b" sid "int (sem_num b)" r s1] op show ?thesis
      by (auto split: sum.splits)
  next
    case False
    with r uok show ?thesis by (auto simp: same_sems_def)
  qed
  then have s1: "seminfo s1 = seminfo s" "sems s1 = sems s" "keeps s s1" "undo_ok s1"
    by (auto simp: same_sems_def same_keeps)
  then have ok1: "sem_ok s1" using ok by (simp add: sem_ok_def)
  let ?s2 = "upd_sem i (\<lambda>p. p\<lparr>semval := c_ushort (vals s i + sem_op b)\<rparr>) s1"
  have 2: "sem_ok ?s2" "keeps s1 ?s2" "vals ?s2 = (vals s)(i := vals s i + sem_op b)" "undos ?s2 = undos s1"
    using put_val [OF ok1 v(1), of i] v(2) s1(1,2) by simp_all
  show ?thesis
  proof (cases r)
    case (Inl e)
    with 1 s1 ok1 show ?thesis by simp
  next
    case (Inr x)
    have "keeps s ?s2" using s1(3) 2(2) by (rule keeps_trans)
    moreover have "tried u sid sp b s ?s2" using 1 2 op Inr v(3) unfolding tried_def by simp
    ultimately show ?thesis using Inr 1 2(1) s1(2,3) ok1 by (simp add: Let_def)
  qed
qed

lemma sem_try_spec:
  assumes ok: "sem_ok s" and r: "sem_try u sid sp b s = (r, s')"
  shows "sem_ok s' \<and> keeps s s' \<and> (undo_of s (p_slot u) \<noteq> None \<longrightarrow> undo_of s' (p_slot u) \<noteq> None) \<and>
    (if r = OpDone then tried u sid sp b s s' else vals s' = vals s \<and> undos s' = undos s)"
proof -
  let ?i = "sem_base sp + sem_num b" and ?op = "sem_op b"
  let ?put = "\<lambda>s. upd_sem ?i (\<lambda>p. p\<lparr>semval := c_ushort (vals s ?i + ?op)\<rparr>) s"
  let ?zero = "\<lambda>s. if vals s ?i = 0 then wake_z ?i s else s"
  have q: "quiet t (?zero t)" "quiet t (?zero (wake_n ?i t))" for t
    using quiet_trans [of t "wake_n ?i t" "wake_z ?i (wake_n ?i t)"] by auto
  have bnd: "0 \<le> vals s ?i" "vals s ?i \<le> semvmx (seminfo s)" using ok by (auto simp: sem_ok_def)
  have eta: "(\<lambda>p. p\<lparr>semval := c_ushort (semval p + ?op)\<rparr>) (sems t ?i)
     = (\<lambda>p. p\<lparr>semval := c_ushort (vals t ?i + ?op)\<rparr>) (sems t ?i)" for t by simp
  have put: "upd_sem ?i (\<lambda>p. p\<lparr>semval := c_ushort (semval p + ?op)\<rparr>) t = ?put t" for t
    by (simp add: upd_sem_def)
  show ?thesis
  proof (cases "?op = 0 \<or> (?op > 0 \<and> ?op + vals s ?i > semvmx (seminfo s)) \<or> (?op < 0 \<and> vals s ?i < - ?op)")
    case True
    then show ?thesis
    proof (elim disjE)
      assume "?op = 0"
      with r ok show ?thesis by (auto simp: sem_try_def Let_def tried_def fun_eq_iff split: if_splits)
    qed (use r ok in \<open>auto simp: sem_try_def Let_def split: if_splits\<close>)
  next
    case False
    obtain x s1 where x: "(if sem_flg b AND SEM_UNDO \<noteq> 0 then semaoe u ?op sid (int (sem_num b)) s
        else (Inr (), s)) = (x, s1)" by fastforce
    have e: "0 \<le> vals s ?i + ?op" "vals s ?i + ?op \<le> semvmx (seminfo s)" "?op \<noteq> 0"
      using False bnd by auto
    note eff = op_effect [OF ok e(3) e(1,2) refl x]
    show ?thesis
    proof (cases x)
      case (Inl err)
      with False x r eff show ?thesis by (auto simp: sem_try_def Let_def split: if_splits)
    next
      case (Inr y)
      then have "vals s1 = vals s" using eff by simp
      then have v: "vals s1 ?i = vals s ?i" by (rule fun_cong)
      with eff Inr have s2: "sem_ok (?put s1)" "keeps s (?put s1)" "tried u sid sp b s (?put s1)"
        "undo_of s (p_slot u) \<noteq> None \<longrightarrow> undo_of (?put s1) (p_slot u) \<noteq> None"
        by (simp_all add: Let_def)
      have "quiet (?put s1) s' \<and> r = OpDone"
      proof (cases "?op > 0")
        case True
        with False x r Inr have "r = OpDone" "s' = ?zero (wake_n ?i (?put s1))"
          unfolding sem_try_def Let_def x put by simp_all
        then show ?thesis using q(2) [of "?put s1"] by simp
      next
        case neg: False
        with False x r Inr e(3) have "r = OpDone" "s' = ?zero (?put s1)"
          unfolding sem_try_def Let_def x put by simp_all
        then show ?thesis using q(1) [of "?put s1"] by simp
      qed
      with s2 quietD [of "?put s1" s'] keeps_trans [of s "?put s1" s'] tried_quiet [OF s2(3), of s']
      show ?thesis by simp
    qed
  qed
qed

subsection \<open>Taking operations back\<close>

text \<open>All the operations of a list succeed, one after the other.\<close>

fun sem_all :: "user \<Rightarrow> int \<Rightarrow> semid_ds \<Rightarrow> sembuf list \<Rightarrow> semst \<Rightarrow> semst option" where
  "sem_all u sid sp [] s = Some s"
| "sem_all u sid sp (b # bs) s = (case sem_try u sid sp b s of
     (OpDone, s1) \<Rightarrow> sem_all u sid sp bs s1 | (_, s1) \<Rightarrow> None)"

lemma sem_all_append:
  "sem_all u sid sp (xs @ ys) s = Option.bind (sem_all u sid sp xs s) (sem_all u sid sp ys)"
  by (induction xs arbitrary: s) (auto split: prod.split opres.split)

text \<open>The same values and adjustments.\<close>

definition looks :: "user \<Rightarrow> semst \<Rightarrow> semst \<Rightarrow> bool" where
  "looks u s t \<longleftrightarrow> vals t = vals s \<and> undos t = undos s \<and> seminfo t = seminfo s \<and>
     (undo_of s (p_slot u) \<noteq> None \<longrightarrow> undo_of t (p_slot u) \<noteq> None)"

lemma undo_one:
  assumes ok: "sem_ok s" and t: "tried u sid sp b s s1" "seminfo s1 = seminfo s" and
    look: "sem_ok t" "looks u s1 t" "undo_of s (p_slot u) \<noteq> None \<longrightarrow> undo_of s1 (p_slot u) \<noteq> None"
    and t': "t' = (if sem_op b = 0 then t
      else let s1 = upd_sem (sem_base sp + sem_num b) (\<lambda>p. p\<lparr>semval := c_ushort (semval p - sem_op b)\<rparr>) t
        in if sem_flg b AND SEM_UNDO \<noteq> 0
           then snd (semaoe u (c_short (- sem_op b)) sid (int (sem_num b)) s1) else s1)"
  shows "sem_ok t' \<and> looks u s t' \<and> keeps t t'"
proof (cases "sem_op b = 0")
  case True
  with assms show ?thesis by (auto simp: tried_def looks_def)
next
  case False
  let ?i = "sem_base sp + sem_num b"
  let ?t1 = "upd_sem ?i (\<lambda>p. p\<lparr>semval := c_ushort (semval p - sem_op b)\<rparr>) t"
  have si: "seminfo t = seminfo s" and siok: "si_ok (seminfo s)"
    using look(2) t(2) ok by (auto simp: looks_def sem_ok_def undo_ok_si)
  have vt0: "vals t = (vals s)(?i := vals s ?i + sem_op b)"
    using look(2) t(1) by (simp add: looks_def tried_def)
  have vt: "vals t j = (if j = ?i then vals s ?i + sem_op b else vals s j)" for j
    using fun_cong [OF vt0, of j] by simp
  have t1eq: "?t1 = upd_sem ?i (\<lambda>p. p\<lparr>semval := c_ushort (vals s ?i)\<rparr>) t"
    using vt [of ?i] by (simp add: upd_sem_def)
  have t1: "sem_ok ?t1" "keeps t ?t1" "vals ?t1 = vals s" "undos ?t1 = undos t"
  proof -
    have b: "0 \<le> vals s ?i" "vals s ?i \<le> semvmx (seminfo t)" using ok si by (simp_all add: sem_ok_def)
    have "(vals t)(?i := vals s ?i) = vals s" by (rule ext) (simp add: vt)
    with put_val [OF look(1) b, of ?i] show "sem_ok ?t1" "keeps t ?t1" "vals ?t1 = vals s" "undos ?t1 = undos t"
      unfolding t1eq by simp_all
  qed
  have ut1: "undo_of ?t1 = undo_of t" by simp
  show ?thesis
  proof (cases "sem_flg b AND SEM_UNDO \<noteq> 0")
    case no: False
    with False t' have "t' = ?t1" by simp
    with t1 look t(1) no False si ut1 show ?thesis by (simp add: looks_def tried_def)
  next
    case True
    let ?o = "sem_op b" and ?k = "int (sem_num b)"
    from t(1) True False obtain es where es: "\<bar>?o\<bar> \<le> semaem (seminfo s)" "undo_of s1 (p_slot u) \<noteq> None"
      "aoe_entries (seminfo s) ?o sid ?k (undos s (p_slot u)) = Inr es" "undos s1 = (undos s)(p_slot u := es)"
      by (auto simp: tried_def)
    have neg: "c_short (- ?o) = - ?o" using es(1) siok by (intro c_short_id) (auto simp: si_ok_def)
    have uok: "undo_ok s" "undo_ok ?t1" using ok t1(1) by (simp_all add: sem_ok_def)
    have "aoe_entries (seminfo s) (- ?o) sid ?k es = Inr (undos s (p_slot u))"
      using aoe_entries_ok [OF siok undo_ok_tab [OF uok(1)] False es(1,3)] by blast
    moreover have ut: "undos t = (undos s)(p_slot u := es)" using look(2) es(4) by (simp add: looks_def)
    then have "undos ?t1 (p_slot u) = es" using t1(4) by simp
    ultimately have bk: "aoe_entries (seminfo ?t1) (- ?o) sid ?k (undos ?t1 (p_slot u)) = Inr (undos s (p_slot u))"
      using si by simp
    have held: "undo_of ?t1 (p_slot u) \<noteq> None" using look(2) es(2) by (simp add: looks_def)
    obtain r t2 where sm: "semaoe u (- ?o) sid ?k ?t1 = (r, t2)" by fastforce
    then have tt: "t' = t2" using t' False True neg by (simp add: Let_def)
    have "r = Inr ()"
      using semaoe_held [OF uok(2) held _ _ bk] False es(1) si sm by simp
    with semaoe_spec [OF uok(2) sm] bk False have
      "undo_ok t2" "same_sems ?t1 t2" "undo_of t2 (p_slot u) \<noteq> None"
      "undos t2 = (undos ?t1)(p_slot u := undos s (p_slot u))" by auto
    moreover have "(undos ?t1)(p_slot u := undos s (p_slot u)) = undos s"
      using t1(4) ut by (simp add: fun_eq_iff)
    moreover have "keeps t t2" using t1(2) same_keeps [OF \<open>same_sems ?t1 t2\<close>] by (rule keeps_trans)
    ultimately show ?thesis using t1(1,3) si tt
      by (simp add: looks_def sem_ok_def same_sems_def)
  qed
qed

lemma semundo_back:
  assumes "sem_ok s" "sem_all u sid sp bs s = Some s1" "sem_ok t" "looks u s1 t"
  shows "sem_ok (semundo u bs sid sp t) \<and> looks u s (semundo u bs sid sp t) \<and>
    keeps t (semundo u bs sid sp t)"
  using assms
proof (induction bs arbitrary: s)
  case (Cons b bs)
  from Cons.prems(2) obtain s2 where s2: "sem_try u sid sp b s = (OpDone, s2)" "sem_all u sid sp bs s2 = Some s1"
    by (auto split: prod.splits opres.splits)
  from sem_try_spec [OF Cons.prems(1) s2(1)] have tr: "sem_ok s2" "keeps s s2" "tried u sid sp b s s2"
    "undo_of s (p_slot u) \<noteq> None \<longrightarrow> undo_of s2 (p_slot u) \<noteq> None" by auto
  from Cons.IH [OF tr(1) s2(2) Cons.prems(3,4)] have
    ih: "sem_ok (semundo u bs sid sp t)" "looks u s2 (semundo u bs sid sp t)" "keeps t (semundo u bs sid sp t)"
    by auto
  have si: "seminfo s2 = seminfo s" using tr(2) by (simp add: keeps_def)
  from undo_one [OF Cons.prems(1) tr(3) si ih(1,2) tr(4) refl]
  show ?case using ih(3) keeps_trans unfolding semundo.simps Let_def by blast
qed simp

subsection \<open>Wakeups\<close>

text \<open>Between \<open>s\<close> and \<open>s'\<close> nobody was forgotten: where processes waited for a semaphore to grow
  (to become zero) they were woken, or are still counted and it has not grown (become zero).\<close>

definition wakes_due :: "semst \<Rightarrow> semst \<Rightarrow> bool" where
  "wakes_due s s' \<longleftrightarrow> (\<exists>new. sem_woken s' = new @ sem_woken s \<and> (\<forall>i.
     (semncnt (sems s i) \<noteq> 0 \<longrightarrow> NCNT i \<in> set new \<or>
        semncnt (sems s' i) = semncnt (sems s i) \<and> vals s' i \<le> vals s i) \<and>
     (semzcnt (sems s i) \<noteq> 0 \<longrightarrow> ZCNT i \<in> set new \<or>
        semzcnt (sems s' i) = semzcnt (sems s i) \<and> (vals s' i = 0 \<longrightarrow> vals s i = 0))))"

lemma wakes_due_refl [simp]: "wakes_due s s"
  by (simp add: wakes_due_def)

lemma wakes_due_trans:
  assumes "wakes_due s t" "wakes_due t r" shows "wakes_due s r"
proof -
  from assms obtain n1 n2 where n: "sem_woken t = n1 @ sem_woken s" "sem_woken r = n2 @ sem_woken t"
    "\<And>i. semncnt (sems s i) \<noteq> 0 \<Longrightarrow> NCNT i \<in> set n1 \<or>
        semncnt (sems t i) = semncnt (sems s i) \<and> vals t i \<le> vals s i"
    "\<And>i. semncnt (sems t i) \<noteq> 0 \<Longrightarrow> NCNT i \<in> set n2 \<or>
        semncnt (sems r i) = semncnt (sems t i) \<and> vals r i \<le> vals t i"
    "\<And>i. semzcnt (sems s i) \<noteq> 0 \<Longrightarrow> ZCNT i \<in> set n1 \<or>
        semzcnt (sems t i) = semzcnt (sems s i) \<and> (vals t i = 0 \<longrightarrow> vals s i = 0)"
    "\<And>i. semzcnt (sems t i) \<noteq> 0 \<Longrightarrow> ZCNT i \<in> set n2 \<or>
        semzcnt (sems r i) = semzcnt (sems t i) \<and> (vals r i = 0 \<longrightarrow> vals t i = 0)"
    unfolding wakes_due_def by blast
  show ?thesis unfolding wakes_due_def
  proof (intro exI [of _ "n2 @ n1"] conjI allI impI)
    show "sem_woken r = (n2 @ n1) @ sem_woken s" using n(1,2) by simp
    show "NCNT i \<in> set (n2 @ n1) \<or> semncnt (sems r i) = semncnt (sems s i) \<and> vals r i \<le> vals s i"
      if "semncnt (sems s i) \<noteq> 0" for i using n(3) [OF that] n(4) [of i] that by fastforce
    show "ZCNT i \<in> set (n2 @ n1) \<or> semzcnt (sems r i) = semzcnt (sems s i) \<and> (vals r i = 0 \<longrightarrow> vals s i = 0)"
      if "semzcnt (sems s i) \<noteq> 0" for i using n(5) [OF that] n(6) [of i] that by fastforce
  qed
qed

lemma wakes_due_same: "sems t = sems s \<Longrightarrow> sem_woken t = sem_woken s \<Longrightarrow> wakes_due s t"
  by (simp add: wakes_due_def)

text \<open>The pattern of the code: store a new value, then wake the waiters it can help.\<close>

lemma wakes_due_store:
  assumes "\<And>t. t = upd_sem i (\<lambda>p. p\<lparr>semval := v\<rparr>) s \<Longrightarrow>
      s' = (let t1 = (if g then wake_n i t else t) in if vals t1 i = 0 then wake_z i t1 else t1)"
    and "g \<or> v \<le> vals s i"
  shows "wakes_due s s'"
proof -
  define t where "t = upd_sem i (\<lambda>p. p\<lparr>semval := v\<rparr>) s"
  define t1 where "t1 = (if g then wake_n i t else t)"
  have s': "s' = (if vals t1 i = 0 then wake_z i t1 else t1)" using assms(1) [OF t_def] by (simp add: t1_def Let_def)
  have t: "sem_woken t = sem_woken s" "semncnt (sems t j) = semncnt (sems s j)"
    "semzcnt (sems t j) = semzcnt (sems s j)" "vals t j = (if j = i then v else vals s j)" for j
    by (simp_all add: t_def)
  let ?n1 = "if g \<and> semncnt (sems s i) \<noteq> 0 then [NCNT i] else []"
  let ?n2 = "if v = 0 \<and> semzcnt (sems s i) \<noteq> 0 then [ZCNT i] else []"
  have t1: "sem_woken t1 = ?n1 @ sem_woken s" "semzcnt (sems t1 j) = semzcnt (sems s j)"
    "vals t1 j = (if j = i then v else vals s j)"
    "semncnt (sems t1 j) = (if g \<and> j = i then 0 else semncnt (sems s j))" for j
    using t by (auto simp: t1_def wake_n_def)
  have r: "sem_woken s' = ?n2 @ ?n1 @ sem_woken s" "vals s' j = (if j = i then v else vals s j)"
    "semncnt (sems s' j) = (if g \<and> j = i then 0 else semncnt (sems s j))"
    "semzcnt (sems s' j) = (if v = 0 \<and> j = i then 0 else semzcnt (sems s j))" for j
    using t1 by (auto simp: s' wake_z_def)
  show ?thesis unfolding wakes_due_def using assms(2) r
    by (intro exI [of _ "?n2 @ ?n1"]) auto
qed

lemma sem_try_wakes:
  assumes ok: "sem_ok s" and r: "sem_try u sid sp b s = (OpDone, s')"
  shows "wakes_due s s'"
proof -
  let ?i = "sem_base sp + sem_num b" and ?op = "sem_op b"
  obtain x s1 where x: "(if sem_flg b AND SEM_UNDO \<noteq> 0 then semaoe u ?op sid (int (sem_num b)) s
      else (Inr (), s)) = (x, s1)" by fastforce
  have uok: "undo_ok s" using ok by (simp add: sem_ok_def)
  have s1: "same_sems s s1"
    using x semaoe_spec [OF uok, of u ?op sid "int (sem_num b)" x s1] by (auto simp: same_sems_def split: if_splits)
  then have w1: "wakes_due s s1" by (intro wakes_due_same) (simp_all add: same_sems_def)
  have b: "0 \<le> vals s ?i" "vals s ?i \<le> 32767" "semvmx (seminfo s) \<le> 32767"
    using sem_ok_range [OF ok] undo_ok_si [OF uok] by (auto simp: si_ok_def)
  have "wakes_due s1 s'" if nz: "?op \<noteq> 0"
  proof (rule wakes_due_store [of ?i "c_ushort (vals s1 ?i + ?op)" s1 s' "?op > 0"])
    show "s' = (let t1 = (if ?op > 0 then wake_n ?i t else t) in if vals t1 ?i = 0 then wake_z ?i t1 else t1)"
      if "t = upd_sem ?i (\<lambda>p. p\<lparr>semval := c_ushort (vals s1 ?i + ?op)\<rparr>) s1" for t
    proof -
      have t: "t = upd_sem ?i (\<lambda>p. p\<lparr>semval := c_ushort (semval p + ?op)\<rparr>) s1"
        using that by (simp add: upd_sem_def)
      from r nz show ?thesis unfolding sem_try_def Let_def x t
        by (cases "?op > 0") (auto split: if_splits sum.splits)
    qed
    have "vals s1 ?i = vals s ?i" using s1 by (simp add: same_sems_def)
    moreover have "0 \<le> vals s ?i + ?op" if "?op < 0"
      using r that by (auto simp: sem_try_def Let_def split: if_splits)
    moreover from this have "c_ushort (vals s ?i + ?op) = vals s ?i + ?op" if "?op < 0"
      using b that by (intro c_ushort_id) auto
    ultimately show "?op > 0 \<or> c_ushort (vals s1 ?i + ?op) \<le> vals s1 ?i"
      using nz by (cases "?op > 0") auto
  qed
  moreover have "s' = s" if "?op = 0" using r that by (auto simp: sem_try_def Let_def split: if_splits)
  ultimately show ?thesis using w1 wakes_due_trans by (cases "?op = 0") auto
qed

subsection \<open>Lists of operations\<close>

text \<open>The sum of the operations on semaphore \<open>i\<close>, and of those among them to adjust on exit.\<close>

definition op_sum :: "semid_ds \<Rightarrow> nat \<Rightarrow> sembuf list \<Rightarrow> int" where
  "op_sum sp i ops = sum_list (map sem_op (filter (\<lambda>b. sem_base sp + sem_num b = i) ops))"

definition undo_sum :: "int \<Rightarrow> sembuf list \<Rightarrow> int" where
  "undo_sum k ops = sum_list (map sem_op (filter (\<lambda>b. int (sem_num b) = k \<and> sem_flg b AND SEM_UNDO \<noteq> 0) ops))"

lemma op_sum_simps [simp]:
  "op_sum sp i [] = 0"
  "op_sum sp i (b # bs) = (if sem_base sp + sem_num b = i then sem_op b else 0) + op_sum sp i bs"
  "undo_sum k [] = 0"
  "undo_sum k (b # bs) = (if int (sem_num b) = k \<and> sem_flg b AND SEM_UNDO \<noteq> 0 then sem_op b else 0) + undo_sum k bs"
  by (simp_all add: op_sum_def undo_sum_def)

lemma tried_effect:
  assumes "sem_ok s" "tried u sid sp b s s'"
  shows "(\<forall>i. vals s' i = vals s i + op_sum sp i [b]) \<and>
    (\<forall>k. adj (undos s' (p_slot u)) sid k = adj (undos s (p_slot u)) sid k - undo_sum k [b]) \<and>
    (\<forall>j k. j \<noteq> sid \<longrightarrow> adj (undos s' (p_slot u)) j k = adj (undos s (p_slot u)) j k) \<and>
    (\<forall>sl. sl \<noteq> p_slot u \<longrightarrow> undos s' sl = undos s sl)"
proof -
  have "vals s' = (vals s)(sem_base sp + sem_num b := vals s (sem_base sp + sem_num b) + sem_op b)"
    using assms(2) by (simp add: tried_def)
  from fun_cong [OF this] have "\<forall>i. vals s' i = vals s i + op_sum sp i [b]" by simp
  moreover have uok: "undo_ok s" using assms(1) by (simp add: sem_ok_def)
  show ?thesis
  proof (cases "sem_op b \<noteq> 0 \<and> sem_flg b AND SEM_UNDO \<noteq> 0")
    case True
    with assms(2) obtain es where es: "\<bar>sem_op b\<bar> \<le> semaem (seminfo s)"
      "aoe_entries (seminfo s) (sem_op b) sid (int (sem_num b)) (undos s (p_slot u)) = Inr es"
      "undos s' = (undos s)(p_slot u := es)" by (auto simp: tried_def)
    from aoe_entries_ok [OF undo_ok_si [OF uok] undo_ok_tab [OF uok] _ es(1,2)] True
    have "\<forall>i k. adj es i k = adj (undos s (p_slot u)) i k - (if i = sid \<and> k = int (sem_num b) then sem_op b else 0)"
      by blast
    with True es(3) \<open>\<forall>i. vals s' i = _ i\<close> show ?thesis by auto
  next
    case False
    with assms(2) \<open>\<forall>i. vals s' i = _ i\<close> show ?thesis by (auto simp: tried_def)
  qed
qed

lemma sem_all_spec:
  assumes "sem_ok s" "sem_all u sid sp ops s = Some s'"
  shows "sem_ok s' \<and> keeps s s' \<and> wakes_due s s' \<and> (\<forall>i. vals s' i = vals s i + op_sum sp i ops) \<and>
    (\<forall>k. adj (undos s' (p_slot u)) sid k = adj (undos s (p_slot u)) sid k - undo_sum k ops) \<and>
    (\<forall>j k. j \<noteq> sid \<longrightarrow> adj (undos s' (p_slot u)) j k = adj (undos s (p_slot u)) j k) \<and>
    (\<forall>sl. sl \<noteq> p_slot u \<longrightarrow> undos s' sl = undos s sl)"
  using assms
proof (induction ops arbitrary: s)
  case (Cons b ops)
  from Cons.prems(2) obtain s1 where s1: "sem_try u sid sp b s = (OpDone, s1)" "sem_all u sid sp ops s1 = Some s'"
    by (auto split: prod.splits opres.splits)
  from sem_try_spec [OF Cons.prems(1) s1(1)] have t: "sem_ok s1" "keeps s s1" "tried u sid sp b s s1" by auto
  from Cons.IH [OF t(1) s1(2)] tried_effect [OF Cons.prems(1) t(3)]
    keeps_trans [OF t(2)] wakes_due_trans [OF sem_try_wakes [OF Cons.prems(1) s1(1)]]
  show ?case by auto
qed simp

text \<open>How \<open>semop\<close> ends: done with everything, or with everything taken back.\<close>

definition sem_finish :: "user \<Rightarrow> nat \<Rightarrow> sembuf list \<Rightarrow> semst \<Rightarrow> semst" where
  "sem_finish u j ops s = snd (semop_loop u 0 j ops [] s)"

lemma semop_loop_spec:
  assumes "sem_ok s0" "sem_all u sid (sema s0 ! j) dn s0 = Some s" "semop_loop u sid j dn ops s = (r, s')"
  shows "(\<exists>s1. r = SemRet (Inr 0) \<and> sem_all u sid (sema s0 ! j) (dn @ ops) s0 = Some s1 \<and>
      s' = sem_finish u j (dn @ ops) s1) \<or>
    (sem_ok s' \<and> looks u s0 s' \<and> keeps s0 s' \<and> ((\<exists>e. r = SemRet (Inl e)) \<or>
      (\<exists>ch p b q s1 t. r = SemSleep ch \<and> dn @ ops = p @ b # q \<and> sem_all u sid (sema s0 ! j) p s0 = Some s1 \<and>
         sem_try u sid (sema s0 ! j) b s1 = (OpWait ch, s1) \<and> s' = sem_wait ch t)))"
  using assms(2,3)
proof (induction ops arbitrary: dn s)
  case Nil
  then show ?case by (auto simp: sem_finish_def Let_def)
next
  case (Cons b ops)
  let ?sp = "sema s0 ! j"
  note all = sem_all_spec [OF assms(1) Cons.prems(1)]
  then have sp: "sema s ! j = ?sp" and ok: "sem_ok s" and k: "keeps s0 s" by (auto simp: keeps_def)
  obtain x s1 where x: "sem_try u sid ?sp b s = (x, s1)" by fastforce
  show ?case
  proof (cases "x = OpDone")
    case True
    with x Cons.prems(1) have "sem_all u sid ?sp (dn @ [b]) s0 = Some s1" by (simp add: sem_all_append)
    from Cons.IH [OF this] Cons.prems(2) x True sp show ?thesis by (simp add: Let_def)
  next
    case False
    with sem_try_spec [OF ok x] have t: "sem_ok s1" "keeps s s1" "vals s1 = vals s" "undos s1 = undos s"
      "undo_of s (p_slot u) \<noteq> None \<longrightarrow> undo_of s1 (p_slot u) \<noteq> None" by auto
    then have "looks u s s1" by (simp add: looks_def keeps_def)
    note bk = semundo_back [OF assms(1) Cons.prems(1) t(1) this]
    let ?t = "semundo u dn sid ?sp s1"
    have k2: "keeps s0 ?t" using keeps_trans [OF k keeps_trans [OF t(2)]] bk by blast
    show ?thesis
    proof (cases x)
      case (OpFail e)
      with Cons.prems(2) x sp have "r = SemRet (Inl e)" "s' = ?t" by (auto simp: Let_def)
      with bk k2 show ?thesis by auto
    next
      case (OpWait ch)
      with Cons.prems(2) x sp have r: "r = SemSleep ch" "s' = sem_wait ch ?t" by (auto simp: Let_def)
      have "s1 = s" using x OpWait by (auto simp: sem_try_def Let_def split: if_splits prod.splits sum.splits)
      moreover note q = quietD [OF quiet_simps(4) [of ?t ch]]
      have "sem_ok s'" "keeps s0 s'" "looks u s0 s'"
        using bk k2 q keeps_trans [OF k2 q(5)] by (simp_all add: r looks_def)
      ultimately show ?thesis using r x OpWait Cons.prems(1) by blast
    qed (use False in auto)
  qed
qed

subsection \<open>semop\<close>

lemma finish_eq:
  "sem_finish u j ops s = upd_sema j (\<lambda>d. d\<lparr>sem_otime := fst (sem_clock s), sem_ousec := snd (sem_clock s)\<rparr>)
     (fold (\<lambda>b. upd_sem (sem_base (sema s ! j) + sem_num b) (\<lambda>p. p\<lparr>sempid := c_short (p_pid u)\<rparr>)) ops s)"
  by (simp add: sem_finish_def Let_def)

lemma fold_pid:
  "let s' = fold (\<lambda>b. upd_sem (base + sem_num b) (\<lambda>p. p\<lparr>sempid := v\<rparr>)) ops s in
   same_undo s s' \<and> vals s' = vals s \<and> sema s' = sema s \<and> semmap s' = semmap s \<and> sem_woken s' = sem_woken s \<and>
   (\<forall>i. semncnt (sems s' i) = semncnt (sems s i) \<and> semzcnt (sems s' i) = semzcnt (sems s i) \<and>
      sempid (sems s' i) = (if \<exists>b\<in>set ops. base + sem_num b = i then v else sempid (sems s i)))"
proof (induction ops arbitrary: s)
  case (Cons b ops)
  let ?s = "upd_sem (base + sem_num b) (\<lambda>p. p\<lparr>sempid := v\<rparr>) s"
  from Cons.IH [of ?s] show ?case by (auto simp: Let_def same_undo_def fun_eq_iff)
qed (simp add: same_undo_def)

lemma finish_spec:
  "same_undo s (sem_finish u j ops s) \<and> vals (sem_finish u j ops s) = vals s \<and>
   semmap (sem_finish u j ops s) = semmap s \<and> wakes_due s (sem_finish u j ops s) \<and>
   (\<forall>i. sempid (sems (sem_finish u j ops s) i) =
      (if \<exists>b\<in>set ops. sem_base (sema s ! j) + sem_num b = i then c_short (p_pid u) else sempid (sems s i)))"
proof -
  note f = fold_pid [of "sem_base (sema s ! j)" "c_short (p_pid u)" ops s, unfolded Let_def]
  let ?t = "fold (\<lambda>b. upd_sem (sem_base (sema s ! j) + sem_num b) (\<lambda>p. p\<lparr>sempid := c_short (p_pid u)\<rparr>)) ops s"
  have v: "\<And>i. vals ?t i = vals s i" using f by (metis (no_types))
  have "wakes_due s (sem_finish u j ops s)" unfolding wakes_due_def finish_eq upd_sema_def
    using f v by simp
  then show ?thesis using f by (auto simp: finish_eq upd_sema_def same_undo_def)
qed

text \<open>The set a call works on: found by the identifier, or kept across the sleep.\<close>

lemma semop_runs:
  assumes "semop u sid n mv s = (r, s')"
  shows "(\<exists>e. r = SemRet (Inl e) \<and> s' = s) \<or>
    (\<exists>j ops. semconv sid s = Inr j \<and> mv = Inr ops \<and> sem_verify u (sema s ! j) ops = Inr () \<and>
       semop_loop u sid j [] ops s = (r, s'))"
  using assms by (auto simp: semop_def split: sum.splits if_splits)

lemma semop_loop_result:
  assumes ok: "sem_ok s" and r: "semop_loop u sid j [] ops s = (r, s')"
  shows "sem_ok s' \<and> (if r = SemRet (Inr 0)
    then (\<forall>i. vals s' i = vals s i + op_sum (sema s ! j) i ops) \<and>
      (\<forall>k. adj (undos s' (p_slot u)) sid k = adj (undos s (p_slot u)) sid k - undo_sum k ops) \<and>
      (\<forall>i k. i \<noteq> sid \<longrightarrow> adj (undos s' (p_slot u)) i k = adj (undos s (p_slot u)) i k) \<and>
      (\<forall>sl. sl \<noteq> p_slot u \<longrightarrow> undos s' sl = undos s sl) \<and> wakes_due s s' \<and>
      (\<forall>i. sempid (sems s' i) = (if \<exists>b\<in>set ops. sem_base (sema s ! j) + sem_num b = i
         then c_short (p_pid u) else sempid (sems s i)))
    else vals s' = vals s \<and> undos s' = undos s \<and> keeps s s' \<and>
      ((\<exists>e. r = SemRet (Inl e)) \<or> (\<exists>ch. r = SemSleep ch)))"
  using semop_loop_spec [OF ok sem_all.simps(1) r]
proof (elim disjE)
  assume "\<exists>s1. r = SemRet (Inr 0) \<and> sem_all u sid (sema s ! j) ([] @ ops) s = Some s1 \<and>
      s' = sem_finish u j ([] @ ops) s1"
  then obtain s1 where s1: "r = SemRet (Inr 0)" "sem_all u sid (sema s ! j) ops s = Some s1"
    "s' = sem_finish u j ops s1" by auto
  note a = sem_all_spec [OF ok s1(2)] and f = finish_spec [of s1 u j ops]
  have k: "sema s1 = sema s" "\<And>i. sempid (sems s1 i) = sempid (sems s i)" using a by (auto simp: keeps_def)
  have su: "same_undo s1 s'" using f by (simp add: s1(3))
  have v: "vals s' i = vals s1 i" for i using f fun_cong [of "vals s'" "vals s1" i] by (simp add: s1(3))
  have "undo_ok s1" "\<forall>i. 0 \<le> vals s1 i \<and> vals s1 i \<le> semvmx (seminfo s1)" "seminfo s' = seminfo s1"
    using a su by (auto simp: sem_ok_def same_undo_def)
  then have "sem_ok s'" unfolding sem_ok_def v same_undoD(1) [OF su] by simp
  moreover note same_undoD(2) [OF su] v
  ultimately show ?thesis using s1(1) a f k wakes_due_trans [of s s1 s'] by (simp add: s1(3))
next
  assume a: "sem_ok s' \<and> looks u s s' \<and> keeps s s' \<and> ((\<exists>e. r = SemRet (Inl e)) \<or>
      (\<exists>ch p b q s1 t. r = SemSleep ch \<and> [] @ ops = p @ b # q \<and> sem_all u sid (sema s ! j) p s = Some s1 \<and>
         sem_try u sid (sema s ! j) b s1 = (OpWait ch, s1) \<and> s' = sem_wait ch t))"
  then show ?thesis by (auto simp: looks_def)
qed

lemma sem_verify_iff:
  "sem_verify u sp ops = Inr () \<longleftrightarrow> (\<forall>b\<in>set ops. sem_num b < sem_nsems sp \<and>
     ipcaccess u (sem_perm sp) (if sem_op b \<noteq> 0 then SEM_A else SEM_R) = Inr ())"
  by (induction u sp ops rule: sem_verify.induct) (auto split: sum.splits)

lemma semop_failed:
  assumes ok: "sem_ok s" and r: "semop u sid n mv s = (r, s') \<or> semop_resume u sid j ch False mv s = (r, s')"
    and no: "r \<noteq> SemRet (Inr 0)"
  shows "vals s' = vals s \<and> undos s' = undos s \<and> keeps s s' \<and> sem_ok s'"
proof -
  have "s' = s \<or> (\<exists>j ops. semop_loop u sid j [] ops s = (r, s'))"
    using r semop_runs [of u sid n mv s r s'] by (auto simp: semop_resume_def split: sum.splits)
  with semop_loop_result [OF ok] no ok show ?thesis by (auto 0 3)
qed

lemma semop_sleep:
  assumes ok: "sem_ok s" and r: "semop_loop u sid j [] ops s = (SemSleep ch, s')"
  shows "\<exists>p b q i. ops = p @ b # q \<and> i = sem_base (sema s ! j) + sem_num b \<and> sem_flg b AND IPC_NOWAIT = 0 \<and>
    ((ch = NCNT i \<and> vals s i + op_sum (sema s ! j) i p + sem_op b < 0) \<or>
     (ch = ZCNT i \<and> sem_op b = 0 \<and> vals s i + op_sum (sema s ! j) i p \<noteq> 0))"
proof -
  from semop_loop_spec [OF ok sem_all.simps(1) r] obtain p b q s1 where
    p: "ops = p @ b # q" "sem_all u sid (sema s ! j) p s = Some s1"
      "sem_try u sid (sema s ! j) b s1 = (OpWait ch, s1)" by auto
  have "vals s1 i = vals s i + op_sum (sema s ! j) i p" for i using sem_all_spec [OF ok p(2)] by simp
  then show ?thesis using p(1,3)
    by (intro exI [of _ p] exI [of _ b] exI [of _ q] exI [of _ "sem_base (sema s ! j) + sem_num b"])
      (auto simp: sem_try_def Let_def split: if_splits sum.splits prod.splits)
qed

text \<open>Two sets of one semaphore each: the first belongs to user 5, the second to the superuser,
  who lets nobody else near it.\<close>

definition sem_demo :: "semst" where
  "sem_demo = (let p = (\<lambda>o1 m. \<lparr>ip_uid = o1, ip_gid = o1, ip_cuid = o1, ip_cgid = o1, ip_mode = m, ip_seq = 0, ip_key = 0\<rparr>);
     d = (\<lambda>b p. \<lparr>sem_perm = p, sem_base = b, sem_nsems = 1, sem_otime = 0, sem_ousec = 0, sem_ctime = 0, sem_cusec = 0\<rparr>)
   in \<lparr>seminfo = \<lparr>semmap_ents = 5, semmni = 2, semmns = 4, semmnu = 2, semmsl = 4, semopm = 3, semume = 2,
        semvmx = 32767, semaem = 16384\<rparr>,
      sema = [d 0 (p 5 (IPC_ALLOC OR 384)), d 1 (p 0 IPC_ALLOC)],
      sems = (\<lambda>i. \<lparr>semval = 0, sempid = 0, semncnt = 0, semzcnt = 0\<rparr>),
      semmap = \<lparr>mapsize = 2, mapwant = 0, ents = [\<lparr>m_size = 2, m_addr = 3\<rparr>, nullent, nullent, nullent]\<rparr>,
      semu = (\<lambda>i. \<lparr>un_np = None, un_ent = []\<rparr>), undo_of = (\<lambda>sl. None), semunp = None, semfup = Some 0,
      sem_woken = [], sem_clock = (7, 8)\<rparr>)"

abbreviation (input) user5 :: user where
  "user5 \<equiv> \<lparr>u_uid = 5, u_gid = 5, p_pid = 30, p_epid = 30, p_sysid = 0, p_slot = 4\<rparr>"

lemma sem_demo_ok: "sem_ok sem_demo"
  by (auto simp: sem_ok_def sem_demo_def Let_def undo_ok_def si_ok_def undo_rep_def tab_ok_def np_def
      intro!: exI [of _ "[]"] exI [of _ "[0]"])

lemma sem_demo_facts: "semconv 0 sem_demo = Inr 0" "sem_base (sema sem_demo ! 0) = 0"
    "vals sem_demo i = 0" "undos sem_demo sl = []"
  by (simp_all add: semconv_def sem_demo_def Let_def ipc_allocated_def undos_def)

subsection \<open>Properties\<close>

text \<open>C2: \<open>semop\<close> is atomic: unless it returns success, whether it fails or goes to sleep and
  whichever of its operations were already done, every semaphore value and every process's
  adjust-on-exit table are exactly as before the call, and so are the headers, the map and the pids.
  The same holds for each retry after a sleep.\<close>

theorem semop_all_or_nothing:
  assumes "sem_ok s" "semop u sid n mv s = (r, s') \<or> semop_resume u sid j ch False mv s = (r, s')"
    "r \<noteq> SemRet (Inr 0)"
  shows "vals s' = vals s \<and> undos s' = undos s \<and> keeps s s' \<and> sem_ok s'"
  by (rule semop_failed [OF assms])

theorem semop_all_or_nothing_witness:
  "\<exists>s'. semop user5 0 2 (Inr [\<lparr>sem_num = 0, sem_op = 3, sem_flg = SEM_UNDO\<rparr>,
       \<lparr>sem_num = 0, sem_op = -4, sem_flg = SEM_UNDO\<rparr>]) sem_demo = (SemSleep (NCNT 0), s') \<and>
     vals s' 0 = 0 \<and> undos s' 4 = []"
proof -
  let ?ops = "Inr [\<lparr>sem_num = 0, sem_op = 3, sem_flg = SEM_UNDO\<rparr>, \<lparr>sem_num = 0, sem_op = -4, sem_flg = SEM_UNDO\<rparr>]"
  let ?r = "semop user5 0 2 ?ops sem_demo"
  have f: "fst ?r = SemSleep (NCNT 0)"
    by (simp add: semop_def semconv_def sem_demo_def Let_def ipc_allocated_def ipcaccess_def sem_try_def
        semaoe_def undo_struct_def undo_store_def aoe_entries_def upd_semu_def upd_sem_def wake_n_def wake_z_def
        c_ushort_def c_short_def)
  then have "semop user5 0 2 ?ops sem_demo = (SemSleep (NCNT 0), snd ?r)" by (simp add: prod_eq_iff)
  from semop_all_or_nothing [OF sem_demo_ok disjI1 [OF this]]
  have "vals (snd ?r) = vals sem_demo" "undos (snd ?r) = undos sem_demo" by auto
  then have "vals (snd ?r) 0 = 0 \<and> undos (snd ?r) 4 = []"
    by (simp add: fun_eq_iff) (simp add: sem_demo_def Let_def undos_def)
  with f show ?thesis by (intro exI [of _ "snd ?r"]) (simp add: prod_eq_iff)
qed

lemmas sem_eval = semop_def semop_resume_def semconv_def sem_demo_def Let_def ipc_allocated_def ipcaccess_def
  sem_try_def semaoe_def undo_struct_def undo_store_def aoe_entries_def upd_semu_def upd_sem_def wake_n_def
  wake_z_def c_ushort_def c_short_def upd_sema_def undo_unlink_def sem_wait_def



text \<open>C27: \<open>semop\<close> sleeps only when it has to: some operation of the list, without IPC_NOWAIT, finds
  after the operations before it a value too small to decrement (it sleeps for that semaphore to
  grow) or a value that is not the zero it waits for.\<close>

theorem semop_sleeps_only_if_blocked:
  assumes "sem_ok s" "semop u sid n mv s = (SemSleep ch, s')"
  shows "\<exists>j p b q i. semconv sid s = Inr j \<and> mv = Inr (p @ b # q) \<and>
    i = sem_base (sema s ! j) + sem_num b \<and> sem_flg b AND IPC_NOWAIT = 0 \<and>
    ((ch = NCNT i \<and> vals s i + op_sum (sema s ! j) i p + sem_op b < 0) \<or>
     (ch = ZCNT i \<and> sem_op b = 0 \<and> vals s i + op_sum (sema s ! j) i p \<noteq> 0))"
proof -
  from semop_runs [OF assms(2)] obtain j ops where j: "semconv sid s = Inr j" "mv = Inr ops"
    "semop_loop u sid j [] ops s = (SemSleep ch, s')" by auto
  from semop_sleep [OF assms(1) j(3)] j(1,2) show ?thesis by auto
qed

theorem semop_sleeps_only_if_blocked_witness:
  "\<exists>s'. semop user5 0 1 (Inr [\<lparr>sem_num = 0, sem_op = -1, sem_flg = 0\<rparr>]) sem_demo = (SemSleep (NCNT 0), s') \<and>
     vals sem_demo 0 - 1 < 0"
proof -
  let ?r = "semop user5 0 1 (Inr [\<lparr>sem_num = 0, sem_op = -1, sem_flg = 0\<rparr>]) sem_demo"
  have "fst ?r = SemSleep (NCNT 0)" by (simp add: sem_eval)
  then have r: "?r = (SemSleep (NCNT 0), snd ?r)" by (simp add: prod_eq_iff)
  from semop_sleeps_only_if_blocked [OF sem_demo_ok r] have "vals sem_demo 0 - 1 < 0"
    by (auto simp: sem_demo_facts Cons_eq_append_conv)
  with r show ?thesis by blast
qed

text \<open>C13: No wakeup is lost: when \<open>semop\<close> succeeds, at once or after a sleep, the processes counted as
  waiting for a semaphore that has grown are woken, and so are those counted as waiting for one that
  has become zero.\<close>

theorem semop_wakes_waiters:
  assumes "sem_ok s" "semop u sid n mv s = (SemRet (Inr v), s') \<or>
    semop_resume u sid j ch False mv s = (SemRet (Inr v), s')"
  shows "\<exists>new. sem_woken s' = new @ sem_woken s \<and> (\<forall>i.
    (semncnt (sems s i) \<noteq> 0 \<and> vals s i < vals s' i \<longrightarrow> NCNT i \<in> set new) \<and>
    (semzcnt (sems s i) \<noteq> 0 \<and> vals s i \<noteq> 0 \<and> vals s' i = 0 \<longrightarrow> ZCNT i \<in> set new))"
proof -
  from assms(2) semop_runs [of u sid n mv s "SemRet (Inr v)" s'] obtain j ops where
    l: "semop_loop u sid j [] ops s = (SemRet (Inr v), s')"
    by (auto simp: semop_resume_def split: sum.splits)
  from semop_loop_spec [OF assms(1) sem_all.simps(1) l] have "v = 0" by auto
  with semop_loop_result [OF assms(1) l] have "wakes_due s s'" by simp
  then show ?thesis unfolding wakes_due_def by (elim exE conjE, intro exI conjI) (assumption, force)
qed

theorem semop_wakes_waiters_witness:
  "\<exists>s'. semop user5 0 1 (Inr [\<lparr>sem_num = 0, sem_op = 3, sem_flg = 0\<rparr>])
      (snd (semop user5 0 1 (Inr [\<lparr>sem_num = 0, sem_op = -1, sem_flg = 0\<rparr>]) sem_demo)) = (SemRet (Inr 0), s') \<and>
     NCNT 0 \<in> set (sem_woken s')"
proof -
  let ?a = "semop user5 0 1 (Inr [\<lparr>sem_num = 0, sem_op = -1, sem_flg = 0\<rparr>]) sem_demo"
  let ?r = "semop user5 0 1 (Inr [\<lparr>sem_num = 0, sem_op = 3, sem_flg = 0\<rparr>]) (snd ?a)"
  have a: "fst ?a = SemSleep (NCNT 0)" "semncnt (sems (snd ?a) 0) = 1" "vals (snd ?a) 0 = 0"
    by (simp_all add: sem_eval)
  then have "?a = (SemSleep (NCNT 0), snd ?a)" by (simp add: prod_eq_iff)
  then have ok: "sem_ok (snd ?a)" using semop_failed [OF sem_demo_ok disjI1] by blast
  have "fst ?r = SemRet (Inr 0)" "vals (snd ?r) 0 = 3" by (simp_all add: sem_eval)
  then have r: "?r = (SemRet (Inr 0), snd ?r)" "vals (snd ?r) 0 = 3" by (simp_all add: prod_eq_iff)
  from semop_wakes_waiters [OF ok disjI1 [OF r(1)]] a r(2) have "NCNT 0 \<in> set (sem_woken (snd ?r))" by auto
  with r(1) show ?thesis by blast
qed


end
