(* ===== verification/Semsets.thy ===== *)
theory Semsets imports Sem begin

text \<open>
  The life of semaphore sets, io/sem.c: semget, semctl and semexit over the definitions of Sem.
  \<open>sem_sys\<close> is the invariant of the whole facility: the sets in use occupy disjoint ranges of
  \<open>sem[]\<close>, apart from the ranges the resource map holds as free, and free semaphores are zero.
\<close>

unbundle bit_operations_syntax

subsection \<open>semunrm\<close>

text \<open>On a sorted table the loop with its early exits removes exactly the entries of the set with
  numbers from \<open>low\<close> to \<open>high\<close>.\<close>

definition unrm_out :: "int \<Rightarrow> int \<Rightarrow> int \<Rightarrow> undo list \<Rightarrow> undo list" where
  "unrm_out sid low high es = filter (\<lambda>e. \<not> (un_id e = sid \<and> low \<le> un_num e \<and> un_num e \<le> high)) es"

lemma unrm_entries_out:
  "sorted_wrt undo_less es \<Longrightarrow> unrm_entries sid low high es = unrm_out sid low high es"
proof (induction es)
  case (Cons e es)
  have all: "filter (\<lambda>e. \<not> (un_id e = sid \<and> low \<le> un_num e \<and> un_num e \<le> high)) es = es"
    if "sid < un_id e \<or> un_id e = sid \<and> high < un_num e"
  proof (rule filter_True, rule ballI)
    fix x assume "x \<in> set es"
    with Cons.prems have "undo_less e x" by simp
    with that show "\<not> (un_id x = sid \<and> low \<le> un_num x \<and> un_num x \<le> high)" by (auto simp: before_def)
  qed
  show ?case using Cons all by (auto simp: unrm_out_def)
qed (simp add: unrm_out_def)

lemma unrm_out_ok: "tab_ok si es \<Longrightarrow> tab_ok si (unrm_out sid low high es)"
  by (auto simp: tab_ok_def unrm_out_def sorted_wrt_filter intro: order.trans [OF length_filter_le])

text \<open>The walk: behind \<open>dn\<close>, at the structures \<open>rest\<close>.\<close>

lemma unrm_walk_spec:
  assumes "chain (np s) (semunp s) (dn @ rest)" "chain (np s) p rest" "length rest \<le> n"
    "pp = last_opt dn" "\<forall>q\<in>set rest. unrm_entries sid low high (un_ent (semu s q)) = es' q"
  shows "let s' = unrm_walk n sid low high pp p s in
    same_sems s s' \<and> undo_of s' = undo_of s \<and> semfup s' = semfup s \<and>
    chain (np s') (semunp s') (dn @ filter (\<lambda>q. es' q \<noteq> []) rest) \<and>
    (\<forall>q. un_ent (semu s' q) = (if q \<in> set rest then es' q else un_ent (semu s q))) \<and>
    (\<forall>q. q \<notin> set (dn @ rest) \<longrightarrow> np s' q = np s q)"
  using assms
proof (induction rest arbitrary: n p pp dn s)
  case Nil
  then show ?case by (cases n) (auto simp: same_sems_def)
next
  case (Cons q rest)
  from Cons.prems have p: "p = Some q" "chain (np s) (np s q) rest" by auto
  from Cons.prems(3) obtain m where n: "n = Suc m" "length rest \<le> m" by (cases n) auto
  have d: "distinct (dn @ q # rest)" using chain_distinct [OF Cons.prems(1)] .
  let ?s1 = "upd_semu q (\<lambda>x. x\<lparr>un_ent := es' q\<rparr>) s"
  have np1: "np ?s1 = np s" by (simp add: np_def fun_eq_iff)
  have e: "unrm_entries sid low high (un_ent (semu s q)) = es' q" using Cons.prems(5) by simp
  show ?case
  proof (cases "es' q = []")
    case False
    have *: "chain (np ?s1) (semunp ?s1) ((dn @ [q]) @ rest)" "chain (np ?s1) (np s q) rest"
      "\<forall>x\<in>set rest. unrm_entries sid low high (un_ent (semu ?s1 x)) = es' x"
      using Cons.prems(1,5) p(2) d unfolding np1 by auto
    from Cons.IH [OF *(1,2) n(2) _ *(3), of "Some q"] p(1) n(1) False e d np1
    show ?thesis by (auto simp: Let_def np_def same_sems_def)
  next
    case True
    let ?s2 = "upd_semu q (\<lambda>x. x\<lparr>un_np := None\<rparr>)
      (case pp of None \<Rightarrow> ?s1\<lparr>semunp := np s q\<rparr> | Some r \<Rightarrow> upd_semu r (\<lambda>x. x\<lparr>un_np := np s q\<rparr>) ?s1)"
    have 2: "same_sems s ?s2 \<and> undo_of ?s2 = undo_of s \<and> semfup ?s2 = semfup s \<and>
        (\<forall>x. un_ent (semu ?s2 x) = (if x = q then [] else un_ent (semu s x))) \<and>
        (\<forall>x. x \<notin> set (dn @ q # rest) \<longrightarrow> np ?s2 x = np s x) \<and>
        chain (np ?s2) (semunp ?s2) (dn @ rest) \<and> chain (np ?s2) (np s q) rest"
    proof (cases dn rule: rev_cases)
      case Nil
      have "np (upd_semu q (\<lambda>x. x\<lparr>un_np := None\<rparr>) (?s1\<lparr>semunp := np s q\<rparr>)) = (np s)(q := None)"
        by (simp add: np_def fun_eq_iff)
      with Nil Cons.prems(4) p(2) d True show ?thesis by (simp add: same_sems_def seg_upd)
    next
      case (snoc zs r)
      have "np (upd_semu q (\<lambda>x. x\<lparr>un_np := None\<rparr>) (upd_semu r (\<lambda>x. x\<lparr>un_np := np s q\<rparr>) ?s1))
          = (np s)(r := np s q, q := None)" using d snoc by (auto simp: np_def fun_eq_iff)
      moreover have "chain ((np s)(r := np s q)) (semunp s) (zs @ r # rest)"
        using chain_unlink [of "np s" "semunp s" zs r q rest] Cons.prems(1) snoc by simp
      moreover have "chain ((np s)(r := np s q)) (np s q) rest" using p(2) d snoc by (simp add: seg_upd)
      ultimately show ?thesis using snoc Cons.prems(4) d True by (simp add: same_sems_def seg_upd)
    qed
    define s2 where "s2 = ?s2"
    have step: "unrm_walk n sid low high pp p s = unrm_walk m sid low high pp (np s q) s2"
      unfolding s2_def using True e p(1) n(1) by (cases pp) (simp_all add: Let_def np_def)
    from 2 have 2: "same_sems s s2" "undo_of s2 = undo_of s" "semfup s2 = semfup s"
      "\<And>x. un_ent (semu s2 x) = (if x = q then [] else un_ent (semu s x))"
      "\<And>x. x \<notin> set (dn @ q # rest) \<Longrightarrow> np s2 x = np s x"
      "chain (np s2) (semunp s2) (dn @ rest)" "chain (np s2) (np s q) rest"
      unfolding s2_def by blast+
    have "\<forall>x\<in>set rest. unrm_entries sid low high (un_ent (semu s2 x)) = es' x"
      using Cons.prems(5) d by (auto simp: 2(4))
    note IH = Cons.IH [OF 2(6,7) n(2) Cons.prems(4) this, folded step]
    have "same_sems s (unrm_walk n sid low high pp p s)"
      using IH 2(1) by (simp add: Let_def same_sems_def)
    with IH 2(2-5) True d show ?thesis by (auto simp: Let_def)
  qed
qed

lemma semunrm_spec:
  assumes ok: "undo_ok s"
  shows "undo_ok (semunrm sid low high s) \<and> same_sems s (semunrm sid low high s) \<and>
    undo_of (semunrm sid low high s) = undo_of s \<and>
    (\<forall>sl. undos (semunrm sid low high s) sl = unrm_out sid (c_ushort low) (c_ushort high) (undos s sl))"
proof -
  from ok obtain act fr where rep: "undo_rep act fr s" by (auto simp: undo_ok_def)
  let ?out = "unrm_out sid (c_ushort low) (c_ushort high)" and ?s = "semunrm sid low high s"
  have r: "chain (np s) (semunp s) act" "set act \<subseteq> {..<semmnu (seminfo s)}" "\<And>p. tab_ok (seminfo s) (un_ent (semu s p))"
    "\<And>p. p \<in> set act \<longleftrightarrow> un_ent (semu s p) \<noteq> []" using rep by (simp_all add: undo_rep_def)
  have len: "length act \<le> semmnu (seminfo s)" by (rule distinct_bounded_length [OF chain_distinct [OF r(1)] r(2)])
  have out: "\<forall>q\<in>set act. unrm_entries sid (c_ushort low) (c_ushort high) (un_ent (semu s q)) = ?out (un_ent (semu s q))"
    using r(3) by (simp add: unrm_entries_out tab_ok_def)
  note w0 = unrm_walk_spec [of s "[]" act "semunp s", OF _ _ len _ out, of None, folded semunrm_def, unfolded Let_def]
  have w: "same_sems s ?s" "undo_of ?s = undo_of s" "semfup ?s = semfup s"
    "chain (np ?s) (semunp ?s) (filter (\<lambda>q. ?out (un_ent (semu s q)) \<noteq> []) act)"
    "\<And>q. un_ent (semu ?s q) = (if q \<in> set act then ?out (un_ent (semu s q)) else un_ent (semu s q))"
    "\<And>q. q \<notin> set act \<Longrightarrow> np ?s q = np s q"
    using w0 r(1) by auto
  have ent: "un_ent (semu ?s q) = ?out (un_ent (semu s q))" for q
    using r(4) [of q] by (auto simp: w(5) unrm_out_def)
  let ?act = "filter (\<lambda>q. ?out (un_ent (semu s q)) \<noteq> []) act"
  have si: "seminfo ?s = seminfo s" using w(1) by (simp add: same_sems_def)
  have fr: "chain (np s) (semfup s) fr" "set act \<inter> set fr = {}" "set act \<union> set fr \<subseteq> {..<semmnu (seminfo s)}"
    "\<forall>sl up. undo_of s sl = Some up \<longrightarrow> up < semmnu (seminfo s) \<and> up \<notin> set fr \<and>
        (\<forall>sl'. undo_of s sl' = Some up \<longrightarrow> sl' = sl)"
    "\<And>p. p \<in> set act \<Longrightarrow> \<exists>sl. undo_of s sl = Some p" using rep by (simp_all add: undo_rep_def)
  have "undo_rep ?act fr ?s" unfolding undo_rep_def si w(2)
  proof (intro conjI w(4) fr(4) allI ballI)
    have "np ?s x = np s x" if "x \<in> set fr" for x using that fr(2) w(6) by auto
    then show "chain (np ?s) (semfup ?s) fr" using fr(1) seg_cong [of fr "np ?s" "np s"] by (simp add: w(3))
    show "set ?act \<inter> set fr = {}" "set ?act \<union> set fr \<subseteq> {..<semmnu (seminfo s)}" using fr(2,3) by auto
    show "p \<in> set ?act \<longleftrightarrow> un_ent (semu ?s p) \<noteq> []" for p using r(4) [of p] by (auto simp: ent unrm_out_def)
    show "\<exists>sl. undo_of s sl = Some p" if "p \<in> set ?act" for p using that fr(5) by auto
    show "tab_ok (seminfo s) (un_ent (semu ?s p))" for p using r(3) by (simp add: ent unrm_out_ok)
  qed
  moreover have "undos ?s sl = ?out (undos s sl)" for sl
    by (cases "undo_of s sl") (simp_all add: undos_def w(2) ent unrm_out_def)
  ultimately show ?thesis using ok w(1,2) si by (auto simp: undo_ok_def)
qed

subsection \<open>The invariant of the facility\<close>

text \<open>The map hands out units from 1 on: unit \<open>i + 1\<close> is semaphore \<open>i\<close>.\<close>

definition set_units :: "semid_ds \<Rightarrow> nat set" where
  "set_units d = {sem_base d + 1 ..< sem_base d + 1 + sem_nsems d}"

definition sets_ok :: "semid_ds list \<Rightarrow> nat set \<Rightarrow> bool" where
  "sets_ok ds fr \<longleftrightarrow> (\<forall>j<length ds. ipc_allocated (sem_perm (ds ! j)) \<longrightarrow>
     0 < sem_nsems (ds ! j) \<and> sem_nsems (ds ! j) < 65536 \<and> sem_base (ds ! j) + 1 + sem_nsems (ds ! j) < 4294967296 \<and>
     set_units (ds ! j) \<inter> fr = {} \<and>
     (\<forall>k<length ds. k \<noteq> j \<and> ipc_allocated (sem_perm (ds ! k)) \<longrightarrow> set_units (ds ! j) \<inter> set_units (ds ! k) = {}))"

definition sem_sys :: "semst \<Rightarrow> bool" where
  "sem_sys s \<longleftrightarrow> sem_ok s \<and> rm_ok (semmap s) \<and> length (sema s) = semmni (seminfo s) \<and>
     semmsl (seminfo s) < 65536 \<and> sets_ok (sema s) (units (semmap s)) \<and>
     (\<forall>j<length (sema s). 0 \<le> ip_seq (sem_perm (sema s ! j)) \<and>
        ip_seq (sem_perm (sema s ! j)) * int (semmni (seminfo s)) + int j < 2147483648) \<and>
     semmni (seminfo s) < 2147483648 \<and>
     (\<forall>i. Suc i \<in> units (semmap s) \<longrightarrow> vals s i = 0 \<and> sempid (sems s i) = 0)"

lemma sets_ok_update:
  assumes "sets_ok ds fr" "fr' \<subseteq> fr" and d: "ipc_allocated (sem_perm d) \<longrightarrow> 0 < sem_nsems d \<and> sem_nsems d < 65536 \<and>
      sem_base d + 1 + sem_nsems d < 4294967296 \<and> set_units d \<inter> fr' = {} \<and>
      (\<forall>k<length ds. k \<noteq> j \<and> ipc_allocated (sem_perm (ds ! k)) \<longrightarrow> set_units d \<inter> set_units (ds ! k) = {})"
  shows "sets_ok (ds[j := d]) fr'"
  unfolding sets_ok_def
proof (intro allI impI)
  fix i assume i: "i < length (ds[j := d])" "ipc_allocated (sem_perm (ds[j := d] ! i))"
  show "0 < sem_nsems (ds[j := d] ! i) \<and> sem_nsems (ds[j := d] ! i) < 65536 \<and> sem_base (ds[j := d] ! i) + 1 + sem_nsems (ds[j := d] ! i) < 4294967296 \<and>
     set_units (ds[j := d] ! i) \<inter> fr' = {} \<and> (\<forall>k<length (ds[j := d]). k \<noteq> i \<and> ipc_allocated (sem_perm (ds[j := d] ! k)) \<longrightarrow>
       set_units (ds[j := d] ! i) \<inter> set_units (ds[j := d] ! k) = {})"
  proof (cases "i = j")
    case True
    with i d show ?thesis by auto
  next
    case False
    with i have a: "i < length ds" "ipc_allocated (sem_perm (ds ! i))" by auto
    with assms(1) have *: "0 < sem_nsems (ds ! i)" "sem_nsems (ds ! i) < 65536" "sem_base (ds ! i) + 1 + sem_nsems (ds ! i) < 4294967296"
      "set_units (ds ! i) \<inter> fr = {}"
      "\<And>k. k < length ds \<Longrightarrow> k \<noteq> i \<Longrightarrow> ipc_allocated (sem_perm (ds ! k)) \<Longrightarrow> set_units (ds ! i) \<inter> set_units (ds ! k) = {}"
      by (auto simp: sets_ok_def)
    have "set_units (ds ! i) \<inter> fr' = {}" using *(4) assms(2) by blast
    moreover have "set_units (ds ! i) \<inter> set_units (ds[j := d] ! k) = {}"
      if "k < length ds" "k \<noteq> i" "ipc_allocated (sem_perm (ds[j := d] ! k))" for k
    proof (cases "k = j")
      case True
      with that a d False i(1) show ?thesis by (auto simp: Int_commute)
    next
      case False
      with that *(5) [of k] show ?thesis by simp
    qed
    ultimately show ?thesis using * False by auto
  qed
qed

lemma sets_ok_less: "sets_ok ds fr \<Longrightarrow> fr' \<subseteq> fr \<Longrightarrow> sets_ok ds fr'"
  unfolding sets_ok_def by blast

lemma sem_sysD:
  assumes "sem_sys s"
  shows "sem_ok s" "rm_ok (semmap s)" "length (sema s) = semmni (seminfo s)" "semmsl (seminfo s) < 65536"
    "sets_ok (sema s) (units (semmap s))" "0 < semmni (seminfo s)"
    "\<And>j. j < length (sema s) \<Longrightarrow> 0 \<le> ip_seq (sem_perm (sema s ! j)) \<and>
        ip_seq (sem_perm (sema s ! j)) * int (semmni (seminfo s)) + int j < 2147483648"
    "\<And>i. Suc i \<in> units (semmap s) \<Longrightarrow> vals s i = 0 \<and> sempid (sems s i) = 0"
  using assms by (simp_all add: sem_sys_def sem_ok_def undo_ok_def si_ok_def)

lemma sem_sys_set:
  assumes sys: "sem_sys s" and s': "sema s' = (sema s)[j := d]" "same_undo s s'" "sems s' = sems s"
      "rm_ok (semmap s')" "units (semmap s') \<subseteq> units (semmap s)" "j < length (sema s)"
    and d: "0 \<le> ip_seq (sem_perm d)" "ip_seq (sem_perm d) * int (semmni (seminfo s)) + int j < 2147483648"
      "ipc_allocated (sem_perm d) \<longrightarrow> 0 < sem_nsems d \<and> sem_nsems d < 65536 \<and>
      sem_base d + 1 + sem_nsems d < 4294967296 \<and> set_units d \<inter> units (semmap s') = {} \<and>
      (\<forall>k<length (sema s). k \<noteq> j \<and> ipc_allocated (sem_perm (sema s ! k)) \<longrightarrow> set_units d \<inter> set_units (sema s ! k) = {})"
  shows "sem_sys s'"
proof -
  have si: "seminfo s' = seminfo s" using s'(2) by (simp add: same_undo_def)
  have "sem_ok s'" using sem_sysD(1) [OF sys] s'(3) same_undoD(1) [OF s'(2)] si by (simp add: sem_ok_def)
  moreover have "sets_ok (sema s') (units (semmap s'))"
    unfolding s'(1) by (rule sets_ok_update [OF sem_sysD(5) [OF sys] s'(5) d(3)])
  moreover have "\<forall>i<length (sema s'). 0 \<le> ip_seq (sem_perm (sema s' ! i)) \<and>
      ip_seq (sem_perm (sema s' ! i)) * int (semmni (seminfo s')) + int i < 2147483648"
  proof (intro allI impI)
    fix i assume "i < length (sema s')"
    then show "0 \<le> ip_seq (sem_perm (sema s' ! i)) \<and>
      ip_seq (sem_perm (sema s' ! i)) * int (semmni (seminfo s')) + int i < 2147483648"
      using sem_sysD(7) [OF sys, of i] d(1,2) by (cases "i = j") (simp_all add: s'(1) si)
  qed
  ultimately show ?thesis using sys s' si by (auto simp: sem_sys_def)
qed

text \<open>Identifiers: the one \<open>semget\<close> returns for an entry in use is accepted and leads back to it.\<close>

lemma semconv_iff:
  assumes "sem_sys s" "j < length (sema s)" "ipc_allocated (sem_perm (sema s ! j))"
  shows "semconv (ip_seq (sem_perm (sema s ! j)) * int (semmni (seminfo s)) + int j) s = Inr j"
proof -
  let ?q = "ip_seq (sem_perm (sema s ! j))" and ?n = "semmni (seminfo s)"
  from sem_sysD(3,6,7) [OF assms(1)] assms(2) have q: "0 \<le> ?q" "j < ?n" "0 < ?n" by auto
  then have "nat (?q * int ?n + int j) = nat ?q * ?n + j" by (simp add: nat_add_distrib nat_mult_distrib)
  moreover have nn: "\<not> ?q * int ?n + int j < 0" using q by (simp add: not_less)
  ultimately show ?thesis using q assms(3) unfolding semconv_def if_not_P [OF nn] Let_def by simp
qed

lemma semconvD:
  assumes "semconv sid s = Inr j" "sem_sys s"
  shows "j < length (sema s)" "ipc_allocated (sem_perm (sema s ! j))"
    "sid = ip_seq (sem_perm (sema s ! j)) * int (semmni (seminfo s)) + int j"
proof -
  let ?n = "semmni (seminfo s)"
  from assms(1) have *: "0 \<le> sid" "j = nat sid mod ?n" "ipc_allocated (sem_perm (sema s ! j))"
    "int (nat sid div ?n) = ip_seq (sem_perm (sema s ! j))"
    by (auto simp: semconv_def Let_def split: if_splits)
  from sem_sysD(3,6) [OF assms(2)] *(2) show "j < length (sema s)" by simp
  show "ipc_allocated (sem_perm (sema s ! j))" by fact
  have "int (nat sid) = int (nat sid div ?n) * int ?n + int j"
    unfolding *(2) by (metis div_mult_mod_eq of_nat_add of_nat_mult)
  with * show "sid = ip_seq (sem_perm (sema s ! j)) * int ?n + int j" by simp
qed

lemma perms_writeback:
  "j < length ds \<Longrightarrow> map2 (\<lambda>d p. d\<lparr>sem_perm := p\<rparr>) ds ((map sem_perm ds)[j := p]) = ds[j := (ds ! j)\<lparr>sem_perm := p\<rparr>]"
  by (rule nth_equalityI) (auto simp: nth_list_update)

lemma perms_same: "map2 (\<lambda>d p. d\<lparr>sem_perm := p\<rparr>) ds (map sem_perm ds) = ds"
  by (rule nth_equalityI) auto

lemma sema_same: "s\<lparr>sema := sema s\<rparr> = (s::semst)"
  by (cases s) simp

text \<open>The three ways \<open>semget\<close> goes on after \<open>ipcget\<close>.\<close>

lemma semget_cases [consumes 1, case_names error old unfit new]:
  assumes sys: "sem_sys s"
  obtains (error) e where "semget u key nsems flg s = Some (Inl e, s)"
  | (old) j where "j < length (sema s)" "ipc_allocated (sem_perm (sema s ! j))"
      "nsems \<noteq> 0 \<longrightarrow> nsems \<le> int (sem_nsems (sema s ! j))"
      "semget u key nsems flg s = Some (Inr (ip_seq (sem_perm (sema s ! j)) * int (semmni (seminfo s)) + int j), s)"
  | (unfit) j e p where "j < length (sema s)" "\<not> ipc_allocated (sem_perm (sema s ! j))" "\<not> ipc_allocated p" "ip_seq p = ip_seq (sem_perm (sema s ! j))"
      "semget u key nsems flg s = Some (Inl e, s\<lparr>sema := (sema s)[j := (sema s ! j)\<lparr>sem_perm := p\<rparr>]\<rparr>)"
  | (new) j d i mp where "j < length (sema s)" "\<not> ipc_allocated (sem_perm (sema s ! j))"
      "ipc_allocated (sem_perm d)" "ip_seq (sem_perm d) = ip_seq (sem_perm (sema s ! j))" "0 < nsems"
      "nsems \<le> semmsl (seminfo s)" "sem_nsems d = nat nsems" "sem_base d = i - 1" "malloc (semmap s) (nat nsems) = Some (i, mp)" "0 < i"
      "semget u key nsems flg s = Some (Inr (ip_seq (sem_perm d) * int (semmni (seminfo s)) + int j),
         s\<lparr>sema := (sema s)[j := d], semmap := mp\<rparr>)"
proof -
  obtain r ps where g: "ipcget u key flg (map sem_perm (sema s)) = (r, ps)" by fastforce
  note res = ipcget_result [OF g]
  have seq: "c_int (ip_seq p * int (semmni (seminfo s)) + int j) = ip_seq p * int (semmni (seminfo s)) + int j"
    if "j < length (sema s)" "ip_seq p = ip_seq (sem_perm (sema s ! j))" for j p
    using sem_sysD(7) [OF sys that(1)] that(2) by (intro c_int_id) (auto intro: order.trans [of _ 0])
  consider (e) e where "r = Inl e" | (o) j where "r = Inr (j, False)" | (n) j where "r = Inr (j, True)"
    by (metis (full_types) old.sum.exhaust surj_pair)
  then show ?thesis
  proof cases
    case (e e)
    with res g that(1) [of e] show ?thesis by (simp add: semget_def perms_same sema_same)
  next
    case (o j)
    with res have j: "j < length (sema s)" "ps = map sem_perm (sema s)"
      "ipc_allocated (sem_perm (sema s ! j))" by auto
    with g o have eq: "semget u key nsems flg s = (if nsems \<noteq> 0 \<and> int (sem_nsems (sema s ! j)) < nsems
        then Some (Inl EINVAL, s)
        else Some (Inr (c_int (ip_seq (sem_perm (sema s ! j)) * int (semmni (seminfo s)) + int j)), s))"
      by (simp add: semget_def perms_same sema_same Let_def)
    show ?thesis
    proof (cases "nsems \<noteq> 0 \<and> int (sem_nsems (sema s ! j)) < nsems")
      case True
      with eq show ?thesis by (intro that(1)) simp
    next
      case False
      with eq seq [OF j(1) refl] j show ?thesis by (intro that(2)) auto
    qed
  next
    case (n j)
    let ?p = "ipc_init u key flg (sem_perm (sema s ! j))"
    from n res have j: "j < length (sema s)" "\<not> ipc_allocated (sem_perm (sema s ! j))"
      and ps: "ps = (map sem_perm (sema s))[j := ?p]" by auto
    let ?s1 = "s\<lparr>sema := (sema s)[j := (sema s ! j)\<lparr>sem_perm := ?p\<rparr>]\<rparr>"
    let ?d = "(sema s ! j)\<lparr>sem_perm := ?p\<lparr>ip_mode := 0\<rparr>\<rparr>"
    have un: "\<not> ipc_allocated (?p\<lparr>ip_mode := 0\<rparr>)" by (simp add: ipc_allocated_def)
    have drop: "upd_sema j (\<lambda>d. d\<lparr>sem_perm := (sem_perm d)\<lparr>ip_mode := 0\<rparr>\<rparr>) ?s1 = s\<lparr>sema := (sema s)[j := ?d]\<rparr>"
      using j by (simp add: upd_sema_def)
    from sem_sysD(2) [OF sys] rm.alloc_total obtain i mp where m: "malloc (semmap s) (nat nsems) = Some (i, mp)" by blast
    show ?thesis
    proof (cases "nsems \<le> 0 \<or> nsems > semmsl (seminfo s) \<or> i = 0")
      case True
      have "\<exists>e. semget u key nsems flg s = Some (Inl e, s\<lparr>sema := (sema s)[j := ?d]\<rparr>)"
        using True g n j ps m drop by (auto simp: semget_def Let_def perms_writeback)
      then show ?thesis using j un by (elim exE) (rule that(3) [of j "?p\<lparr>ip_mode := 0\<rparr>"], auto)
    next
      case False
      let ?e = "(sema s ! j)\<lparr>sem_perm := ?p, sem_base := i - 1, sem_nsems := nat (c_ushort nsems),
         sem_ctime := fst (sem_clock s), sem_cusec := snd (sem_clock s), sem_otime := 0, sem_ousec := 0\<rparr>"
      have cu: "c_ushort nsems = nsems" using False sem_sysD(4) [OF sys] by (intro c_ushort_id) auto
      have "semget u key nsems flg s = Some (Inr (ip_seq (sem_perm ?e) * int (semmni (seminfo s)) + int j),
         s\<lparr>sema := (sema s)[j := ?e], semmap := mp\<rparr>)"
        using False g n j ps m seq [OF j(1), of ?p] by (simp add: semget_def Let_def perms_writeback upd_sema_def)
      then show ?thesis using False j m cu by (intro that(4) [of j ?e i mp]) auto
    qed
  qed
qed

lemma semget_spec:
  assumes sys: "sem_sys s"
  shows "\<exists>r s'. semget u key nsems flg s = Some (r, s') \<and> sem_sys s' \<and> sems s' = sems s \<and>
    (case r of Inl e \<Rightarrow> units (semmap s') = units (semmap s) \<and>
        (\<forall>j<length (sema s). ipc_allocated (sem_perm (sema s ! j)) \<longrightarrow> sema s' ! j = sema s ! j)
     | Inr sid \<Rightarrow> \<exists>j. semconv sid s' = Inr j \<and> (\<forall>k. k \<noteq> j \<longrightarrow> sema s' ! k = sema s ! k) \<and>
        (if ipc_allocated (sem_perm (sema s ! j)) then s' = s \<and> nsems \<le> int (sem_nsems (sema s ! j))
         else sem_nsems (sema s' ! j) = nat nsems \<and> 0 < nsems \<and>
           set_units (sema s' ! j) \<subseteq> units (semmap s) \<and>
           units (semmap s') = units (semmap s) - set_units (sema s' ! j) \<and>
           (\<forall>i. Suc i \<in> set_units (sema s' ! j) \<longrightarrow> vals s' i = 0 \<and> sempid (sems s' i) = 0)))"
  using sys
proof (cases rule: semget_cases [of s u key nsems flg])
  case (error e)
  with sys show ?thesis by auto
next
  case (old j)
  note c = semconv_iff [OF sys old(1,2)]
  have "nsems \<le> int (sem_nsems (sema s ! j))" using old(3) by (cases "nsems = 0") auto
  with c old(2) sys show ?thesis unfolding old(4) by (auto intro!: exI [of _ j])
next
  case (unfit j e p)
  let ?s = "s\<lparr>sema := (sema s)[j := (sema s ! j)\<lparr>sem_perm := p\<rparr>]\<rparr>"
  have "sem_sys ?s"
    by (rule sem_sys_set [OF sys, of ?s j "(sema s ! j)\<lparr>sem_perm := p\<rparr>"])
      (use unfit(1-4) sem_sysD(2,7) [OF sys] in \<open>simp_all add: same_undo_def\<close>)
  moreover have "sema ?s ! k = sema s ! k" if "ipc_allocated (sem_perm (sema s ! k))" for k
    using that unfit(2) by (cases "k = j") auto
  ultimately show ?thesis using unfit(5) by simp
next
  case (new j d i mp)
  let ?s = "s\<lparr>sema := (sema s)[j := d], semmap := mp\<rparr>"
  note u = rm.alloc_units [OF sem_sysD(2) [OF sys] new(9,10)] and ok = rm.alloc_ok [OF sem_sysD(2) [OF sys] new(9)]
  have d: "set_units d = {i..<i + nat nsems}" "sem_base d + 1 = i" using new(7,8,10) by (simp_all add: set_units_def)
  have lt: "nat nsems < 65536" "0 < nat nsems" using new(5,6) sem_sysD(4) [OF sys] by auto
  have dis: "set_units d \<inter> set_units (sema s ! k) = {}" if "k < length (sema s)" "ipc_allocated (sem_perm (sema s ! k))" for k
    using sem_sysD(5) [OF sys] that u unfolding sets_ok_def d(1) by blast
  have sys': "sem_sys ?s"
  proof (rule sem_sys_set [OF sys, of ?s j])
    show "ipc_allocated (sem_perm d) \<longrightarrow> 0 < sem_nsems d \<and> sem_nsems d < 65536 \<and>
      sem_base d + 1 + sem_nsems d < 4294967296 \<and> set_units d \<inter> units (semmap ?s) = {} \<and>
      (\<forall>k<length (sema s). k \<noteq> j \<and> ipc_allocated (sem_perm (sema s ! k)) \<longrightarrow> set_units d \<inter> set_units (sema s ! k) = {})"
      unfolding d(2) new(7) using dis u lt by (auto simp: d(1))
  qed (use new(1,4) ok u sem_sysD(7) [OF sys] in \<open>auto simp: same_undo_def\<close>)
  have "semconv (ip_seq (sem_perm d) * int (semmni (seminfo s)) + int j) ?s = Inr j"
    using semconv_iff [OF sys', of j] new(1,3) by simp
  moreover have "vals ?s k = 0 \<and> sempid (sems ?s k) = 0" if "Suc k \<in> set_units d" for k
    using sem_sysD(8) [OF sys, of k] that u unfolding d(1) by auto
  ultimately show ?thesis unfolding new(11)
    using sys' new(1,2,5,7) u by (auto simp: d(1) intro!: exI [of _ j])
qed

subsection \<open>Removing a set\<close>

lemma rmid_one:
  "same_undo s (rmid_sem i s) \<and> sema (rmid_sem i s) = sema s \<and> semmap (rmid_sem i s) = semmap s \<and>
   sems (rmid_sem i s) = (sems s)(i := \<lparr>semval = 0, sempid = 0, semncnt = 0, semzcnt = 0\<rparr>) \<and>
   (\<exists>new. sem_woken (rmid_sem i s) = new @ sem_woken s \<and> (semncnt (sems s i) \<noteq> 0 \<longrightarrow> NCNT i \<in> set new) \<and>
      (semzcnt (sems s i) \<noteq> 0 \<longrightarrow> ZCNT i \<in> set new))"
  by (cases "sems s i") (auto simp: rmid_sem_def wake_n_def wake_z_def same_undo_def fun_eq_iff)

lemma rmid_fold:
  "distinct is \<Longrightarrow> let s' = fold rmid_sem is s in
   same_undo s s' \<and> sema s' = sema s \<and> semmap s' = semmap s \<and>
   (\<forall>i. sems s' i = (if i \<in> set is then \<lparr>semval = 0, sempid = 0, semncnt = 0, semzcnt = 0\<rparr> else sems s i)) \<and>
   (\<exists>new. sem_woken s' = new @ sem_woken s \<and> (\<forall>i\<in>set is.
      (semncnt (sems s i) \<noteq> 0 \<longrightarrow> NCNT i \<in> set new) \<and> (semzcnt (sems s i) \<noteq> 0 \<longrightarrow> ZCNT i \<in> set new)))"
proof (induction "is" arbitrary: s)
  case (Cons i ks)
  define s1 where "s1 = rmid_sem i s"
  obtain n1 where 1: "same_undo s s1" "sema s1 = sema s" "semmap s1 = semmap s"
    "sems s1 = (sems s)(i := \<lparr>semval = 0, sempid = 0, semncnt = 0, semzcnt = 0\<rparr>)" "sem_woken s1 = n1 @ sem_woken s"
    "semncnt (sems s i) \<noteq> 0 \<longrightarrow> NCNT i \<in> set n1" "semzcnt (sems s i) \<noteq> 0 \<longrightarrow> ZCNT i \<in> set n1"
    using rmid_one [of s i] unfolding s1_def by blast
  define s2 where "s2 = fold rmid_sem ks s1"
  from Cons.IH [of s1, folded s2_def] Cons.prems obtain n2 where 2: "same_undo s1 s2" "sema s2 = sema s1"
    "semmap s2 = semmap s1" "\<And>k. sems s2 k = (if k \<in> set ks then \<lparr>semval = 0, sempid = 0, semncnt = 0, semzcnt = 0\<rparr> else sems s1 k)"
    "sem_woken s2 = n2 @ sem_woken s1" "\<And>k. k \<in> set ks \<Longrightarrow>
      (semncnt (sems s1 k) \<noteq> 0 \<longrightarrow> NCNT k \<in> set n2) \<and> (semzcnt (sems s1 k) \<noteq> 0 \<longrightarrow> ZCNT k \<in> set n2)"
    by (auto simp: Let_def)
  have "\<exists>new. sem_woken s2 = new @ sem_woken s \<and> (\<forall>k\<in>set (i # ks).
      (semncnt (sems s k) \<noteq> 0 \<longrightarrow> NCNT k \<in> set new) \<and> (semzcnt (sems s k) \<noteq> 0 \<longrightarrow> ZCNT k \<in> set new))"
  proof (intro exI [of _ "n2 @ n1"] conjI ballI)
    show "sem_woken s2 = (n2 @ n1) @ sem_woken s" using 1(5) 2(5) by simp
    fix k assume k: "k \<in> set (i # ks)"
    show "semncnt (sems s k) \<noteq> 0 \<longrightarrow> NCNT k \<in> set (n2 @ n1)" "semzcnt (sems s k) \<noteq> 0 \<longrightarrow> ZCNT k \<in> set (n2 @ n1)"
      using k 1(6,7) 2(6) [of k] 1(4) by (cases "k = i"; auto)+
  qed
  moreover have "fold rmid_sem (i # ks) s = s2" by (simp add: s1_def s2_def)
  ultimately show ?case using 1 2(1-4) unfolding Let_def same_undo_def by auto
qed (simp add: same_undo_def)

lemma sets_ok_drop:
  assumes "sets_ok ds fr" "j < length ds" "ipc_allocated (sem_perm (ds ! j))" "\<not> ipc_allocated (sem_perm d)"
    "fr' \<subseteq> fr \<union> set_units (ds ! j)"
  shows "sets_ok (ds[j := d]) fr'"
  unfolding sets_ok_def
proof (intro allI impI)
  fix i assume i: "i < length (ds[j := d])" "ipc_allocated (sem_perm (ds[j := d] ! i))"
  then have ij: "i \<noteq> j" "i < length ds" "ipc_allocated (sem_perm (ds ! i))"
    using assms(2,4) by (cases "i = j"; simp)+
  with assms(1-3) have "set_units (ds ! i) \<inter> fr = {}" "set_units (ds ! i) \<inter> set_units (ds ! j) = {}"
    by (auto simp: sets_ok_def)
  then have "set_units (ds ! i) \<inter> fr' = {}" using assms(5) by blast
  moreover have "set_units (ds ! i) \<inter> set_units (ds[j := d] ! k) = {}"
    if "k < length ds" "k \<noteq> i" "ipc_allocated (sem_perm (ds[j := d] ! k))" for k
    using assms(1,2,4) that ij by (cases "k = j") (auto simp: sets_ok_def)
  ultimately show "0 < sem_nsems (ds[j := d] ! i) \<and> sem_nsems (ds[j := d] ! i) < 65536 \<and>
     sem_base (ds[j := d] ! i) + 1 + sem_nsems (ds[j := d] ! i) < 4294967296 \<and>
     set_units (ds[j := d] ! i) \<inter> fr' = {} \<and> (\<forall>k<length (ds[j := d]). k \<noteq> i \<and> ipc_allocated (sem_perm (ds[j := d] ! k)) \<longrightarrow>
       set_units (ds[j := d] ! i) \<inter> set_units (ds[j := d] ! k) = {})"
    using ij assms(1) by (auto simp: sets_ok_def)
qed

text \<open>The next sequence number keeps identifiers positive.\<close>

lemma next_seq:
  assumes "0 \<le> q" "q * int n + int j < 2147483648" "j < n" "n < 2147483648"
    "q' = (if c_int (q * int n + int j + int n) < 0 then 0 else c_ushort (q + 1))"
  shows "0 \<le> q' \<and> q' * int n + int j < 2147483648"
proof (cases "q * int n + int j + int n < 2147483648")
  case True
  moreover have "0 \<le> q * int n" using assms(1) by simp
  ultimately have "c_int (q * int n + int j + int n) = q * int n + int j + int n" by (intro c_int_id) linarith+
  then have q': "q' = c_ushort (q + 1)" using assms(5) \<open>0 \<le> q * int n\<close> by (simp add: not_less)
  then have "0 \<le> q'" "q' \<le> q + 1" using assms(1) zmod_le_nonneg_dividend [of "q + 1" 65536]
    by (simp_all add: c_ushort_def)
  then have "q' * int n \<le> (q + 1) * int n" by (intro mult_right_mono) auto
  with True \<open>0 \<le> q'\<close> show ?thesis by (simp add: distrib_right)
next
  case False
  let ?x = "q * int n + int j + int n"
  have "?x < 4294967296" using assms(2,4) by linarith
  with False have "c_int ?x < 0" using c_int_wrap [of ?x] by simp
  with assms show ?thesis by auto
qed

lemma sem_ok_change:
  assumes "undo_ok s'" "\<And>i. 0 \<le> vals s' i \<and> vals s' i \<le> semvmx (seminfo s')" shows "sem_ok s'"
  using assms by (simp add: sem_ok_def)

lemma rmid_spec:
  assumes sys: "sem_sys s" and id: "semconv sid s = Inr j" and own: "sem_owner u (sema s ! j)"
  shows "\<exists>s'. semctl_rmid u sid j s = Some (Inr (CtlVal 0), s') \<and> sem_sys s' \<and> semconv sid s' = Inl EINVAL \<and>
    (\<forall>i. sems s' i = (if Suc i \<in> set_units (sema s ! j)
       then \<lparr>semval = 0, sempid = 0, semncnt = 0, semzcnt = 0\<rparr> else sems s i)) \<and>
    (\<forall>sl. undos s' sl = unrm_out sid 0 (int (sem_nsems (sema s ! j))) (undos s sl)) \<and>
    (\<exists>new. sem_woken s' = new @ sem_woken s \<and> (\<forall>i. Suc i \<in> set_units (sema s ! j) \<longrightarrow>
       (semncnt (sems s i) \<noteq> 0 \<longrightarrow> NCNT i \<in> set new) \<and> (semzcnt (sems s i) \<noteq> 0 \<longrightarrow> ZCNT i \<in> set new))) \<and>
    (units (semmap s') = units (semmap s) \<union> set_units (sema s ! j) \<or>
       mapsize (semmap s) = 0 \<and> semmap s' = semmap s) \<and>
    (\<forall>k. k \<noteq> j \<longrightarrow> sema s' ! k = sema s ! k)"
proof -
  let ?sp = "sema s ! j"
  let ?n = "sem_nsems ?sp" and ?b = "sem_base ?sp" and ?z = "\<lparr>semval = 0, sempid = 0, semncnt = 0, semzcnt = 0\<rparr>"
  note c = semconvD [OF id sys]
  from sem_sysD(5) [OF sys] c(1,2) have sp: "0 < ?n" "?n < 65536" "?b + 1 + ?n < 4294967296"
    "set_units ?sp \<inter> units (semmap s) = {}" by (auto simp: sets_ok_def)
  have mem: "Suc i \<in> set_units ?sp \<longleftrightarrow> i \<in> set [?b..<?b + ?n]" for i by (auto simp: set_units_def)
  define s1 where "s1 = semunrm sid 0 (int ?n) s"
  have uok: "undo_ok s" using sem_sysD(1) [OF sys] by (simp add: sem_ok_def)
  from semunrm_spec [OF uok, of sid 0 "int ?n", folded s1_def] sp(2)
  have 1: "undo_ok s1" "same_sems s s1" "\<And>sl. undos s1 sl = unrm_out sid 0 (int ?n) (undos s sl)"
    by (simp_all add: c_ushort_id)
  define s2 where "s2 = fold rmid_sem [?b..<?b + ?n] s1"
  from rmid_fold [of "[?b..<?b + ?n]" s1, folded s2_def] obtain new where
    2: "same_undo s1 s2" "sema s2 = sema s1" "semmap s2 = semmap s1"
    "\<And>i. sems s2 i = (if Suc i \<in> set_units ?sp then ?z else sems s1 i)" "sem_woken s2 = new @ sem_woken s1"
    "\<And>i. Suc i \<in> set_units ?sp \<Longrightarrow>
      (semncnt (sems s1 i) \<noteq> 0 \<longrightarrow> NCNT i \<in> set new) \<and> (semzcnt (sems s1 i) \<noteq> 0 \<longrightarrow> ZCNT i \<in> set new)"
    unfolding Let_def mem by auto
  have s12: "sems s1 = sems s" "sema s1 = sema s" "semmap s1 = semmap s" "sem_woken s1 = sem_woken s"
    "seminfo s1 = seminfo s" using 1(2) by (simp_all add: same_sems_def)
  have su: "set_units ?sp = {?b + 1..<?b + 1 + ?n}" by (simp add: set_units_def)
  obtain mp w where m: "mfree (semmap s) ?n (?b + 1) = Some (mp, w)" "rm_ok mp"
    "units mp = units (semmap s) \<union> set_units ?sp \<or> mapsize (semmap s) = 0 \<and> mp = semmap s"
    using mfree_contract [of "semmap s" ?n "?b + 1"] sem_sysD(2) [OF sys] sp unfolding su
    by (auto simp: put_back_def)
  let ?q = "if c_int (sid + int (semmni (seminfo s))) < 0 then 0 else c_ushort (ip_seq (sem_perm ?sp) + 1)"
  let ?d = "?sp\<lparr>sem_perm := (sem_perm ?sp)\<lparr>ip_seq := ?q, ip_mode := 0\<rparr>\<rparr>"
  define s3 where "s3 = upd_sema j (\<lambda>d. d\<lparr>sem_perm := (sem_perm d)\<lparr>
      ip_seq := (if c_int (sid + int (semmni (seminfo s))) < 0 then 0 else c_ushort (ip_seq (sem_perm d) + 1)),
      ip_mode := 0\<rparr>\<rparr>) (s2\<lparr>semmap := mp\<rparr>)"
  have r: "semctl_rmid u sid j s = Some (Inr (CtlVal 0), s3)"
    using own m(1) unfolding semctl_rmid_def Let_def s1_def [symmetric] s2_def [symmetric]
    by (simp add: 2(3) s12 s3_def)
  have s3: "sema s3 = (sema s)[j := ?d]" "semmap s3 = mp" "sems s3 = sems s2" "sem_woken s3 = sem_woken s2"
    "same_undo s2 s3" using 2(2) s12 by (auto simp: s3_def upd_sema_def same_undo_def)
  have si: "seminfo s3 = seminfo s" using s3(5) 2(1) s12(5) by (simp add: same_undo_def)
  have un: "\<not> ipc_allocated (sem_perm ?d)" by (simp add: ipc_allocated_def)
  note q = next_seq [of "ip_seq (sem_perm ?sp)" "semmni (seminfo s)" j ?q]
  have q: "0 \<le> ?q \<and> ?q * int (semmni (seminfo s)) + int j < 2147483648"
    using q sem_sysD(7) [OF sys c(1)] sys c(1,3) by (simp add: sem_sys_def)
  have val: "vals s3 i = (if Suc i \<in> set_units ?sp then 0 else vals s i)"
    "sempid (sems s3 i) = (if Suc i \<in> set_units ?sp then 0 else sempid (sems s i))" for i
    by (simp_all add: s3(3) 2(4) s12)
  have "sem_ok s3"
  proof (rule sem_ok_change)
    show "undo_ok s3" using same_undoD(1) [OF s3(5)] same_undoD(1) [OF 2(1)] 1(1) by simp
    show "0 \<le> vals s3 i \<and> vals s3 i \<le> semvmx (seminfo s3)" for i
      using sem_sysD(1) [OF sys] undo_ok_si [OF uok] by (simp add: val si sem_ok_def si_ok_def)
  qed
  moreover have "sets_ok (sema s3) (units (semmap s3))" unfolding s3(1,2)
    by (rule sets_ok_drop [OF sem_sysD(5) [OF sys] c(1,2) un]) (use m(3) in auto)
  moreover have "0 \<le> ip_seq (sem_perm (sema s3 ! k)) \<and>
      ip_seq (sem_perm (sema s3 ! k)) * int (semmni (seminfo s3)) + int k < 2147483648"
    if "k < length (sema s3)" for k
    using that q sem_sysD(7) [OF sys, of k] by (cases "k = j") (simp_all add: s3(1) si)
  moreover have "vals s3 i = 0 \<and> sempid (sems s3 i) = 0" if "Suc i \<in> units (semmap s3)" for i
    using that m(3) sem_sysD(8) [OF sys, of i] by (auto simp: val s3(2))
  ultimately have "sem_sys s3" using sys m(2) by (simp add: sem_sys_def si s3(1,2))
  moreover have "semconv sid s3 = Inl EINVAL"
  proof -
    have "nat sid mod semmni (seminfo s) = j" using id by (auto simp: semconv_def Let_def split: if_splits)
    with un c(1) show ?thesis by (simp add: semconv_def Let_def si s3(1))
  qed
  moreover have "undos s3 = undos s1" using same_undoD(2) [OF s3(5)] same_undoD(2) [OF 2(1)] by simp
  ultimately show ?thesis using r 1(3) 2(4-6) s3(2-4) s12 m(3) by (auto simp: s3(1))
qed

subsection \<open>Process exit\<close>

text \<open>What one entry does to the values: the adjustment is applied if its set still exists and the
  value stays within bounds, and skipped otherwise.\<close>

definition exit_adj :: "semst \<Rightarrow> undo \<Rightarrow> (nat \<Rightarrow> int) \<Rightarrow> nat \<Rightarrow> int" where
  "exit_adj s e v = (case semconv (un_id e) s of Inl _ \<Rightarrow> v | Inr j \<Rightarrow>
     let i = nat (int (sem_base (sema s ! j)) + un_num e); x = v i + un_aoe e
     in if x < 0 \<or> x > semvmx (seminfo s) then v else v(i := x))"

lemma semexit_entry_spec:
  assumes "sem_ok s"
  shows "sem_ok (semexit_entry e s) \<and> vals (semexit_entry e s) = exit_adj s e (vals s) \<and>
    same_undo s (semexit_entry e s) \<and> keeps s (semexit_entry e s)"
proof (cases "semconv (un_id e) s")
  case (Inl x)
  with assms show ?thesis by (simp add: semexit_entry_def exit_adj_def same_undo_def)
next
  case (Inr j)
  define i where "i = nat (int (sem_base (sema s ! j)) + un_num e)"
  define v where "v = vals s i + un_aoe e"
  show ?thesis
  proof (cases "v < 0 \<or> v > semvmx (seminfo s)")
    case True
    with Inr assms show ?thesis
      by (simp add: semexit_entry_def exit_adj_def same_undo_def Let_def i_def v_def)
  next
    case False
    let ?t = "upd_sem i (\<lambda>p. p\<lparr>semval := c_ushort v\<rparr>) s"
    let ?w = "\<lambda>t. if un_aoe e > 0 then wake_n i t else t"
    have e: "semexit_entry e s = ?w (if v = 0 then wake_z i ?t else ?t)"
      using Inr False by (simp add: semexit_entry_def Let_def i_def [symmetric] v_def [symmetric])
    have "quiet r (?w (if v = 0 then wake_z i r else r))" for r
      using quiet_trans [of r "wake_z i r" "wake_n i (wake_z i r)"] by simp
    then have q: "quiet ?t (semexit_entry e s)" unfolding e .
    have p: "sem_ok ?t \<and> keeps s ?t \<and> vals ?t = (vals s)(i := v)" using put_val [OF assms, of v i] False by simp
    have "same_undo s (semexit_entry e s)" using q by (simp add: quiet_def same_undo_def)
    moreover have "exit_adj s e (vals s) = (vals s)(i := v)"
      using Inr False by (simp add: exit_adj_def Let_def i_def [symmetric] v_def [symmetric])
    ultimately show ?thesis using p quietD(1,2,5) [OF q] keeps_trans [of s ?t] by simp
  qed
qed

lemma semexit_entries_spec:
  assumes "sem_ok s"
  shows "sem_ok (foldr semexit_entry es s) \<and> vals (foldr semexit_entry es s) = foldr (exit_adj s) es (vals s) \<and>
    same_undo s (foldr semexit_entry es s) \<and> keeps s (foldr semexit_entry es s)"
proof (induction es)
  case (Cons e es)
  let ?t = "foldr semexit_entry es s"
  from Cons have "seminfo ?t = seminfo s" "sema ?t = sema s" by (auto simp: keeps_def)
  moreover from this have "semconv i ?t = semconv i s" for i by (simp add: semconv_def)
  ultimately have "exit_adj ?t e = exit_adj s e"
    by (intro ext) (simp add: exit_adj_def Let_def split: sum.split)
  with semexit_entry_spec [of ?t e] Cons keeps_trans [of s ?t] show ?case
    by (auto simp: same_undo_def)
qed (simp add: assms same_undo_def)

lemma undo_release:
  assumes rep: "undo_rep act fr s" and up: "undo_of s sl = Some up" "un_ent (semu s up) = []"
    and s': "s' = (upd_semu up (\<lambda>x. x\<lparr>un_np := semfup s\<rparr>) s)\<lparr>semfup := Some up, undo_of := (undo_of s)(sl := None)\<rparr>"
  shows "undo_rep act (up # fr) s' \<and> undos s' = undos s \<and> same_sems s s'"
proof -
  have r: "chain (np s) (semunp s) act" "chain (np s) (semfup s) fr" "set act \<inter> set fr = {}"
    "set act \<union> set fr \<subseteq> {..<semmnu (seminfo s)}" "\<And>p. p \<in> set act \<longleftrightarrow> un_ent (semu s p) \<noteq> []"
    "\<And>k p. undo_of s k = Some p \<Longrightarrow> p < semmnu (seminfo s) \<and> p \<notin> set fr \<and>
        (\<forall>k'. undo_of s k' = Some p \<longrightarrow> k' = k)"
    "\<And>p. p \<in> set act \<Longrightarrow> \<exists>k. undo_of s k = Some p" "\<And>p. tab_ok (seminfo s) (un_ent (semu s p))"
    using rep by (simp_all add: undo_rep_def)
  have n: "up \<notin> set act" "up \<notin> set fr" "up < semmnu (seminfo s)" using up r(5,6) by auto
  have np': "np s' = (np s)(up := semfup s)" by (simp add: s' np_def fun_eq_iff)
  have e: "semunp s' = semunp s" "semfup s' = Some up" "seminfo s' = seminfo s"
    "undo_of s' = (undo_of s)(sl := None)" "\<And>p. un_ent (semu s' p) = un_ent (semu s p)"
    by (simp_all add: s')
  have uniq: "k = sl" if "undo_of s k = Some up" for k using r(6) [OF up(1)] that by blast
  have "undo_rep act (up # fr) s'" unfolding undo_rep_def e
  proof (intro conjI allI ballI impI)
    show "chain (np s') (semunp s) act" using r(1) n unfolding np' by (simp add: seg_upd)
    show "chain (np s') (Some up) (up # fr)" using r(2) n unfolding np' by (simp add: seg_upd)
    show "set act \<inter> set (up # fr) = {}" "set act \<union> set (up # fr) \<subseteq> {..<semmnu (seminfo s)}"
      using r(3,4) n by auto
    show "p \<in> set act \<longleftrightarrow> un_ent (semu s p) \<noteq> []" "tab_ok (seminfo s) (un_ent (semu s p))" for p
      using r(5,8) by auto
    fix k p assume k: "((undo_of s)(sl := None)) k = Some p"
    then have k': "undo_of s k = Some p" "k \<noteq> sl" by (auto split: if_splits)
    then have "p \<noteq> up" using uniq by auto
    then show "p < semmnu (seminfo s)" "p \<notin> set (up # fr)" using r(6) [OF k'(1)] by auto
    show "k'' = k" if "((undo_of s)(sl := None)) k'' = Some p" for k''
      using r(6) [OF k'(1)] that by (auto split: if_splits)
  next
    fix p assume "p \<in> set act"
    with r(7) n(1) obtain k where "undo_of s k = Some p" "p \<noteq> up" by auto
    then show "\<exists>k. ((undo_of s)(sl := None)) k = Some p" using up by (intro exI [of _ k]) auto
  qed
  moreover have "undos s' k = undos s k" for k
    using up by (cases "k = sl"; cases "undo_of s k") (simp_all add: undos_def e)
  ultimately show ?thesis by (auto simp: same_sems_def s')
qed

lemma semexit_spec:
  assumes ok: "sem_ok s"
  shows "sem_ok (semexit u s) \<and> vals (semexit u s) = foldr (exit_adj s) (undos s (p_slot u)) (vals s) \<and>
    keeps s (semexit u s) \<and> undos (semexit u s) = (undos s)(p_slot u := []) \<and> undo_of (semexit u s) (p_slot u) = None"
proof (cases "undo_of s (p_slot u)")
  case None
  then have "undos s (p_slot u) = []" by (simp add: undos_def)
  with None ok show ?thesis by (auto simp: semexit_def fun_eq_iff)
next
  case (Some up)
  let ?sl = "p_slot u"
  define t where "t = foldr semexit_entry (undos s ?sl) s"
  note t = semexit_entries_spec [OF ok, of "undos s ?sl", folded t_def]
  have ent: "undos s ?sl = un_ent (semu s up)" by (rule undos_struct [OF Some])
  have tu: "undo_of t = undo_of s" "undos t = undos s" "undo_ok t" "seminfo t = seminfo s"
    using t same_undoD [of s t] by (auto simp: sem_ok_def same_undo_def)
  then have entt: "un_ent (semu t up) = undos s ?sl" using Some undos_struct [of t ?sl up] by simp
  from tu(3) obtain act fr where rep: "undo_rep act fr t" by (auto simp: undo_ok_def)
  define t1 where "t1 = (if undos s ?sl = [] then t else undo_store up [] t)"
  have t1: "\<exists>act. undo_rep act fr t1" "same_sems t t1" "undo_of t1 = undo_of t" "undos t1 = (undos t)(?sl := [])"
  proof -
    have "tab_ok (seminfo t) []" by (simp add: tab_ok_def)
    from undo_store_spec [OF rep _ this, of ?sl up] Some tu rep entt
    show "\<exists>act. undo_rep act fr t1" "same_sems t t1" "undo_of t1 = undo_of t" "undos t1 = (undos t)(?sl := [])"
      by (auto simp: t1_def same_sems_def)
  qed
  then obtain act1 where rep1: "undo_rep act1 fr t1" by blast
  have e1: "un_ent (semu t1 up) = []" using t1(3,4) tu(1) Some undos_struct [of t1 ?sl up] by simp
  have ex: "semexit u s = (upd_semu up (\<lambda>x. x\<lparr>un_np := semfup t1\<rparr>) t1)\<lparr>semfup := Some up, undo_of := (undo_of t1)(?sl := None)\<rparr>"
  proof (cases "undos s ?sl = []")
    case True
    then show ?thesis using Some ent by (simp add: semexit_def t1_def t_def)
  next
    case False
    define x where "x = undo_unlink up (upd_semu up (\<lambda>x. x\<lparr>un_ent := []\<rparr>) t)"
    have "t1 = upd_semu up (\<lambda>x. x\<lparr>un_np := None\<rparr>) x"
      using False entt by (simp add: t1_def undo_store_def x_def)
    moreover have "semexit u s = (upd_semu up (\<lambda>y. y\<lparr>un_np := semfup x\<rparr>) x)
        \<lparr>semfup := Some up, undo_of := (undo_of x)(?sl := None)\<rparr>"
      using False Some unfolding semexit_def x_def t_def ent by (simp add: Let_def)
    ultimately show ?thesis by (simp add: upd_semu_def)
  qed
  from undo_release [OF rep1 _ e1 ex, of] have
    "undo_ok (semexit u s)" "undos (semexit u s) = undos t1" "same_sems t1 (semexit u s)"
    using Some t1 tu by (auto simp: undo_ok_def same_sems_def)
  moreover from this t1(2) have "sems (semexit u s) = sems t" "seminfo (semexit u s) = seminfo t" "keeps t (semexit u s)"
    by (auto simp: same_sems_def keeps_def)
  ultimately show ?thesis using t t1(4) tu(2) keeps_trans [of s t] by (auto simp: sem_ok_def ex)
qed

subsection \<open>Concrete states\<close>

lemma demo_map_ok: "rm_ok \<lparr>mapsize = 2, mapwant = 0, ents = [\<lparr>m_size = 2, m_addr = 3\<rparr>, nullent, nullent, nullent]\<rparr>"
  unfolding rm_ok_def
  by (rule exI [of _ "[\<lparr>m_size = 2, m_addr = 3\<rparr>]"], rule exI [of _ 2])
    (simp add: rm_rep_def ent_ok_def spare_def numeral_2_eq_2)

lemma demo_units: "units (semmap sem_demo) = {3, 4}"
  by (auto simp: sem_demo_def Let_def units_def live_def ent_units_def)

lemma sem_demo_sys: "sem_sys sem_demo"
proof -
  have "sets_ok (sema sem_demo) {3, 4}"
    by (auto simp: sets_ok_def sem_demo_def Let_def set_units_def less_Suc_eq nth_Cons' numeral_2_eq_2)
  then show ?thesis using sem_demo_ok demo_map_ok unfolding sem_sys_def demo_units
    by (auto simp: sem_demo_def Let_def less_Suc_eq numeral_2_eq_2)
qed

text \<open>The same with the second header unused.\<close>

definition sem_demo1 :: semst where
  "sem_demo1 = sem_demo\<lparr>sema := (sema sem_demo)[1 := (sema sem_demo ! 1)\<lparr>sem_perm :=
     (sem_perm (sema sem_demo ! 1))\<lparr>ip_mode := 0\<rparr>\<rparr>]\<rparr>"

lemma sem_demo1_sys: "sem_sys sem_demo1"
  unfolding sem_demo1_def
  by (rule sem_sys_set [OF sem_demo_sys, of _ 1 "(sema sem_demo ! 1)\<lparr>sem_perm :=
     (sem_perm (sema sem_demo ! 1))\<lparr>ip_mode := 0\<rparr>\<rparr>"])
    (use demo_map_ok in \<open>auto simp: same_undo_def ipc_allocated_def sem_demo_def Let_def\<close>)

subsection \<open>Properties\<close>

text \<open>C14: \<open>semget\<close> always returns, keeps the invariant of the facility and touches no semaphore.  The
  identifier it returns is accepted by \<open>semconv\<close> and leads to one entry; an existing entry is left
  alone and has at least the semaphores asked for; a new one gets a range of free semaphores, apart
  from every other set, with values and pids zero.  When it fails, the free semaphores and all sets
  in use are as before.\<close>

theorem semget_new_set:
  assumes "sem_sys s"
  shows "\<exists>r s'. semget u key nsems flg s = Some (r, s') \<and> sem_sys s' \<and> sems s' = sems s \<and>
    (case r of Inl e \<Rightarrow> units (semmap s') = units (semmap s) \<and>
        (\<forall>j<length (sema s). ipc_allocated (sem_perm (sema s ! j)) \<longrightarrow> sema s' ! j = sema s ! j)
     | Inr sid \<Rightarrow> \<exists>j. semconv sid s' = Inr j \<and> (\<forall>k. k \<noteq> j \<longrightarrow> sema s' ! k = sema s ! k) \<and>
        (if ipc_allocated (sem_perm (sema s ! j)) then s' = s \<and> nsems \<le> int (sem_nsems (sema s ! j))
         else sem_nsems (sema s' ! j) = nat nsems \<and> 0 < nsems \<and>
           set_units (sema s' ! j) \<subseteq> units (semmap s) \<and>
           units (semmap s') = units (semmap s) - set_units (sema s' ! j) \<and>
           (\<forall>i. Suc i \<in> set_units (sema s' ! j) \<longrightarrow> vals s' i = 0 \<and> sempid (sems s' i) = 0)))"
  by (rule semget_spec [OF assms])

theorem semget_new_set_witness:
  "\<exists>s'. semget user5 0 2 384 sem_demo1 = Some (Inr 1, s') \<and> sem_sys s' \<and> semconv 1 s' = Inr 1"
proof -
  have "\<exists>s'. semget user5 0 2 384 sem_demo1 = Some (Inr 1, s')"
    by (simp add: semget_def ipcget_def sem_demo1_def sem_demo_def Let_def ipc_allocated_def malloc_def
        ipc_init_def upd_sema_def c_uint_def c_int_def)
  then obtain s' where s': "semget user5 0 2 384 sem_demo1 = Some (Inr 1, s')" by blast
  from semget_new_set [OF sem_demo1_sys, of user5 0 2 384] s' obtain j where
    j: "sem_sys s'" "semconv 1 s' = Inr j" by auto
  then have "j = 1 mod semmni (seminfo s')" by (auto simp: semconv_def Let_def split: if_splits)
  moreover have "seminfo s' = seminfo sem_demo1" using s'
    by (auto simp: semget_def ipcget_def sem_demo1_def sem_demo_def Let_def ipc_allocated_def malloc_def
        ipc_init_def upd_sema_def c_uint_def c_int_def)
  ultimately show ?thesis using s' j by (simp add: sem_demo1_def sem_demo_def Let_def)
qed

text \<open>C29: Removing a set by its owner always succeeds: its identifier is refused from then on, its
  semaphores are zeroed, everyone counted as waiting on them is woken, the adjustments every process
  held for it are dropped and no others, and its semaphores go back to the free ones (unless the map
  has no slot left to record them).\<close>

theorem semctl_rmid_releases:
  assumes "sem_sys s" "semconv sid s = Inr j" "sem_owner u (sema s ! j)"
  shows "\<exists>s'. semctl u sid 0 a s = Some (Inr (CtlVal 0), s') \<and> sem_sys s' \<and> semconv sid s' = Inl EINVAL \<and>
    (\<forall>i. sems s' i = (if Suc i \<in> set_units (sema s ! j)
       then \<lparr>semval = 0, sempid = 0, semncnt = 0, semzcnt = 0\<rparr> else sems s i)) \<and>
    (\<forall>sl. undos s' sl = unrm_out sid 0 (int (sem_nsems (sema s ! j))) (undos s sl)) \<and>
    (\<exists>new. sem_woken s' = new @ sem_woken s \<and> (\<forall>i. Suc i \<in> set_units (sema s ! j) \<longrightarrow>
       (semncnt (sems s i) \<noteq> 0 \<longrightarrow> NCNT i \<in> set new) \<and> (semzcnt (sems s i) \<noteq> 0 \<longrightarrow> ZCNT i \<in> set new))) \<and>
    (units (semmap s') = units (semmap s) \<union> set_units (sema s ! j) \<or>
       mapsize (semmap s) = 0 \<and> semmap s' = semmap s) \<and>
    (\<forall>k. k \<noteq> j \<longrightarrow> sema s' ! k = sema s ! k)"
  using rmid_spec [OF assms] assms(2) by (simp add: semctl_def)

theorem semctl_rmid_releases_witness:
  "\<exists>a s'. semctl user5 0 0 a sem_demo = Some (Inr (CtlVal 0), s') \<and> semconv 0 s' = Inl EINVAL \<and>
     units (semmap s') = {1, 3, 4}"
proof -
  have o: "sem_owner user5 (sema sem_demo ! 0)" by (simp add: sem_owner_def sem_demo_def Let_def)
  have u: "set_units (sema sem_demo ! 0) = {1}" "mapsize (semmap sem_demo) = 2"
    by (auto simp: set_units_def sem_demo_def Let_def)
  have "\<exists>s'. semctl user5 0 0 a sem_demo = Some (Inr (CtlVal 0), s') \<and> semconv 0 s' = Inl EINVAL \<and>
     units (semmap s') = {1, 3, 4}" for a
    using semctl_rmid_releases [OF sem_demo_sys sem_demo_facts(1) o, of a] u demo_units
    by (auto simp: insert_commute)
  then show ?thesis by blast
qed



end
