(* ===== verification/Strbuf.thy ===== *)
theory Strbuf imports Kbase begin

text \<open>
  STREAMS buffers, the first half of io/stream.c: message blocks, data blocks with reference counts
  and the messages built of them.  Blocks live in heaps indexed by their number, characters in a
  memory \<open>smem\<close> indexed by address.  The lists of event cells (\<open>sefreelist\<close>, \<open>dba_lop\<close>,
  \<open>dba_medp\<close>, \<open>dba_hip\<close>) appear as the lists of their cells.  The spl calls make each routine one
  step; the code under \<open>#ifdef SEX\<close> is not compiled.  \<open>conts\<close> is the walk along \<open>b_cont\<close>, with
  the number of message blocks as fuel.
\<close>

unbundle bit_operations_syntax

record msgb =
  b_next :: "nat option"
  b_prev :: "nat option"
  b_cont :: "nat option"
  b_rptr :: nat
  b_wptr :: nat
  b_datap :: "nat option"

record datab =
  db_freep :: "nat option"
  db_base :: nat
  db_lim :: nat
  db_ref :: nat
  db_type :: int
  db_class :: nat
  db_shared :: nat

record strevent =
  se_func :: nat
  se_arg :: int

record dbalcst =
  dba_cnt :: int
  dba_lo :: int
  dba_med :: int
  dba_lop :: "nat list"
  dba_medp :: "nat list"
  dba_hip :: "nat list"

record alcdat =
  al_use :: int
  al_total :: int
  al_max :: int
  al_fail :: int

record stbuf =
  mblk :: "nat \<Rightarrow> msgb"
  dblk :: "nat \<Rightarrow> datab"
  smem :: "nat \<Rightarrow> 8 word"
  mbfreelist :: "nat option"
  dbfreelist :: "nat \<Rightarrow> nat option"
  dballoc :: "nat \<Rightarrow> dbalcst"
  sevent :: "nat \<Rightarrow> strevent"
  sefreelist :: "nat list"
  sepgcnt :: nat
  maxsepgcnt :: nat
  strbcflag :: bool
  qrunflag :: bool
  nmblock :: nat
  v_nblk :: "nat \<Rightarrow> nat"
  st_mblock :: alcdat
  st_dblock :: alcdat
  st_dblk :: "nat \<Rightarrow> alcdat"

definition NCLASS :: nat where "NCLASS = 12"

datatype bpri = BPRI_LO | BPRI_MED | BPRI_HI

abbreviation (input) M_DATA :: int where "M_DATA \<equiv> 0"
abbreviation (input) M_PROTO :: int where "M_PROTO \<equiv> 1"
abbreviation (input) M_PCPROTO :: int where "M_PCPROTO \<equiv> 131"

definition rbsize :: "nat list" where
  "rbsize = [4, 16, 64, 128, 256, 592, 1104, 2128, 4176, 8272, 16464, 32848]"

definition bsize :: "nat list" where
  "bsize = [4, 16, 64, 100, 200, 300, 600, 1200, 2400, 4800, 9600, 19200]"

definition upd_mb :: "nat \<Rightarrow> (msgb \<Rightarrow> msgb) \<Rightarrow> stbuf \<Rightarrow> stbuf" where
  "upd_mb b f s = s\<lparr>mblk := (mblk s)(b := f (mblk s b))\<rparr>"

definition upd_db :: "nat \<Rightarrow> (datab \<Rightarrow> datab) \<Rightarrow> stbuf \<Rightarrow> stbuf" where
  "upd_db d f s = s\<lparr>dblk := (dblk s)(d := f (dblk s d))\<rparr>"

definition upd_ba :: "nat \<Rightarrow> (dbalcst \<Rightarrow> dbalcst) \<Rightarrow> stbuf \<Rightarrow> stbuf" where
  "upd_ba c f s = s\<lparr>dballoc := (dballoc s)(c := f (dballoc s c))\<rparr>"

text \<open>The data block of a message block.\<close>

definition dbp :: "stbuf \<Rightarrow> nat \<Rightarrow> nat" where
  "dbp s b = the (b_datap (mblk s b))"

definition bumpup :: "alcdat \<Rightarrow> alcdat" where
  "bumpup x = x\<lparr>al_use := al_use x + 1, al_total := al_total x + 1, al_max := max (al_use x + 1) (al_max x)\<rparr>"

definition bumpfail :: "alcdat \<Rightarrow> alcdat" where
  "bumpfail x = x\<lparr>al_fail := al_fail x + 1\<rparr>"

definition bumpdown :: "alcdat \<Rightarrow> alcdat" where
  "bumpdown x = x\<lparr>al_use := al_use x - 1\<rparr>"

definition getclass :: "int \<Rightarrow> nat" where
  "getclass sz = length (takeWhile (\<lambda>r. sz > int r) rbsize)"

definition bcmax :: "stbuf \<Rightarrow> nat \<Rightarrow> bpri \<Rightarrow> int" where
  "bcmax s c pri = (case pri of BPRI_LO \<Rightarrow> dba_lo (dballoc s c) | BPRI_HI \<Rightarrow> int (nmblock s)
     | BPRI_MED \<Rightarrow> dba_med (dballoc s c))"

definition db_avail :: "stbuf \<Rightarrow> nat \<Rightarrow> bpri \<Rightarrow> bool" where
  "db_avail s c pri \<longleftrightarrow> dba_cnt (dballoc s c) < bcmax s c pri \<and> dbfreelist s c \<noteq> None"

definition testb :: "int \<Rightarrow> bpri \<Rightarrow> stbuf \<Rightarrow> bool" where
  "testb sz pri s = (let c = getclass sz in
     if c \<ge> NCLASS then False
     else if db_avail s c pri then True
     else if c = NCLASS - 1 then False else db_avail s (Suc c) pri)"

subsection \<open>Allocation and release\<close>

definition db_fail :: "nat \<Rightarrow> stbuf \<Rightarrow> stbuf" where
  "db_fail c s = s\<lparr>st_dblk := (st_dblk s)(c := bumpfail (st_dblk s c)), st_dblock := bumpfail (st_dblock s)\<rparr>"

text \<open>\<open>allocb\<close> from \<open>gotdp\<close> on, with the data block \<open>d\<close> of class \<open>c\<close>.\<close>

definition gotdp :: "nat \<Rightarrow> nat \<Rightarrow> stbuf \<Rightarrow> nat option \<times> stbuf" where
  "gotdp c d s = (case mbfreelist s of
     None \<Rightarrow> (None, s\<lparr>st_mblock := bumpfail (st_mblock s)\<rparr>)
   | Some b \<Rightarrow>
       (Some b, upd_db d (\<lambda>x. x\<lparr>db_freep := None, db_type := M_DATA, db_ref := 1, db_shared := 0\<rparr>)
         (upd_mb b (\<lambda>x. x\<lparr>b_next := None, b_prev := None, b_cont := None, b_datap := Some d,
              b_rptr := db_base (dblk s d), b_wptr := db_base (dblk s d)\<rparr>)
           (upd_ba c (\<lambda>x. x\<lparr>dba_cnt := dba_cnt x + 1\<rparr>)
             (s\<lparr>dbfreelist := (dbfreelist s)(c := db_freep (dblk s d)), mbfreelist := b_next (mblk s b),
                st_mblock := bumpup (st_mblock s), st_dblock := bumpup (st_dblock s),
                st_dblk := (st_dblk s)(c := bumpup (st_dblk s c))\<rparr>)))))"

definition allocb :: "int \<Rightarrow> bpri \<Rightarrow> stbuf \<Rightarrow> nat option \<times> stbuf" where
  "allocb sz pri s = (let c = getclass sz in
     if c \<ge> NCLASS then (None, s)
     else if db_avail s c pri then gotdp c (the (dbfreelist s c)) s
     else let s1 = db_fail c s in
       if c = NCLASS - 1 then (None, s1)
       else if db_avail s1 (Suc c) pri then gotdp (Suc c) (the (dbfreelist s1 (Suc c))) s1
       else (None, db_fail (Suc c) s1))"

text \<open>A message block goes back to the free list.\<close>

definition mb_release :: "nat \<Rightarrow> stbuf \<Rightarrow> stbuf" where
  "mb_release b s = (upd_mb b (\<lambda>x. x\<lparr>b_next := mbfreelist s\<rparr>) s)\<lparr>mbfreelist := Some b\<rparr>"

definition freeb :: "nat \<Rightarrow> stbuf \<Rightarrow> stbuf" where
  "freeb b s =
     (let d = dbp s b; c = db_class (dblk s d); r = (db_ref (dblk s d) + 255) mod 256;
          s1 = upd_db d (\<lambda>x. x\<lparr>db_ref := r\<rparr>) s;
          s2 = (if r = 0 then
                  let s3 = upd_ba c (\<lambda>x. x\<lparr>dba_cnt := dba_cnt x - 1\<rparr>)
                        ((upd_db d (\<lambda>x. x\<lparr>db_freep := dbfreelist s c\<rparr>) s1)
                          \<lparr>dbfreelist := (dbfreelist s)(c := Some d)\<rparr>);
                      a = dballoc s3 c;
                      s4 = (if \<not> strbcflag s3 \<and> (dba_hip a \<noteq> [] \<or> dba_medp a \<noteq> [] \<and> dba_cnt a < dba_med a \<or>
                              dba_lop a \<noteq> [] \<and> dba_cnt a < dba_lo a)
                            then s3\<lparr>qrunflag := True, strbcflag := True\<rparr> else s3)
                  in s4\<lparr>st_dblock := bumpdown (st_dblock s4), st_dblk := (st_dblk s4)(c := bumpdown (st_dblk s4 c))\<rparr>
                else s1);
          s5 = mb_release b (upd_mb b (\<lambda>x. x\<lparr>b_datap := None\<rparr>) s2)
      in s5\<lparr>st_mblock := bumpdown (st_mblock s5)\<rparr>)"

text \<open>The walk along a message.\<close>

definition conts :: "stbuf \<Rightarrow> nat option \<Rightarrow> nat list" where
  "conts s p = follow (nmblock s) (\<lambda>b. b_cont (mblk s b)) p"

text \<open>\<open>freemsg\<close> reads \<open>b_cont\<close> before it frees a block, and \<open>freeb\<close> does not change it.\<close>

fun freemsg_loop :: "nat \<Rightarrow> nat option \<Rightarrow> stbuf \<Rightarrow> stbuf" where
  "freemsg_loop (Suc n) (Some b) s = freemsg_loop n (b_cont (mblk s b)) (freeb b s)"
| "freemsg_loop _ _ s = s"

definition freemsg :: "nat option \<Rightarrow> stbuf \<Rightarrow> stbuf" where
  "freemsg p s = freemsg_loop (nmblock s) p s"

definition dupb :: "nat \<Rightarrow> stbuf \<Rightarrow> nat option \<times> stbuf" where
  "dupb b s = (case mbfreelist s of
     None \<Rightarrow> (None, s\<lparr>st_mblock := bumpfail (st_mblock s)\<rparr>)
   | Some n \<Rightarrow>
       let s1 = s\<lparr>mbfreelist := b_next (mblk s n), st_mblock := bumpup (st_mblock s)\<rparr>;
           x = mblk s1 b;
           s2 = upd_mb n (\<lambda>y. y\<lparr>b_next := None, b_prev := None, b_cont := None, b_rptr := b_rptr x,
                  b_wptr := b_wptr x, b_datap := b_datap x\<rparr>) s1
       in (Some n, upd_db (dbp s b) (\<lambda>y. y\<lparr>db_ref := (db_ref y + 1) mod 256\<rparr>) s2))"

fun dup_loop :: "(nat \<Rightarrow> stbuf \<Rightarrow> nat option \<times> stbuf) \<Rightarrow> nat \<Rightarrow> nat \<Rightarrow> nat list \<Rightarrow> stbuf \<Rightarrow> nat option \<times> stbuf" where
  "dup_loop dup head nbp [] s = (Some head, s)"
| "dup_loop dup head nbp (c # cs) s = (case dup c s of
     (None, s1) \<Rightarrow> (None, freemsg (Some head) (upd_mb nbp (\<lambda>x. x\<lparr>b_cont := None\<rparr>) s1))
   | (Some n, s1) \<Rightarrow> dup_loop dup head n cs (upd_mb nbp (\<lambda>x. x\<lparr>b_cont := Some n\<rparr>) s1))"

definition dupmsg :: "nat option \<Rightarrow> stbuf \<Rightarrow> nat option \<times> stbuf" where
  "dupmsg p s = (case conts s p of [] \<Rightarrow> (None, s) | b # cs \<Rightarrow>
     (case dupb b s of (None, s1) \<Rightarrow> (None, s1) | (Some n, s1) \<Rightarrow> dup_loop dupb n n cs s1))"

text \<open>\<open>straln\<close> and the word copy of \<open>copyb\<close>.\<close>

definition straln :: "nat \<Rightarrow> nat" where
  "straln a = a - a mod 4"

definition bcopy :: "nat \<Rightarrow> nat \<Rightarrow> nat \<Rightarrow> stbuf \<Rightarrow> stbuf" where
  "bcopy src dst n s = s\<lparr>smem := (\<lambda>a. if dst \<le> a \<and> a < dst + n then smem s (src + (a - dst)) else smem s a)\<rparr>"

definition copyb :: "nat \<Rightarrow> stbuf \<Rightarrow> nat option \<times> stbuf" where
  "copyb b s =
     (let x = mblk s b; dp = dblk s (dbp s b) in
      case allocb (int (db_lim dp) - int (db_base dp)) BPRI_MED s of
        (None, s1) \<Rightarrow> (None, s1)
      | (Some n, s1) \<Rightarrow>
          let nd = dbp s1 n; nb = db_base (dblk s1 nd);
              r = nb + (b_rptr x - db_base dp); w = nb + (b_wptr x - db_base dp);
              s2 = upd_mb n (\<lambda>y. y\<lparr>b_rptr := r, b_wptr := w\<rparr>) (upd_db nd (\<lambda>y. y\<lparr>db_type := db_type dp\<rparr>) s1)
          in (Some n, bcopy (straln (b_rptr x)) (straln r) (straln (w + 3) - straln r) s2))"

definition copymsg :: "nat option \<Rightarrow> stbuf \<Rightarrow> nat option \<times> stbuf" where
  "copymsg p s = (case conts s p of [] \<Rightarrow> (None, s) | b # cs \<Rightarrow>
     (case copyb b s of (None, s1) \<Rightarrow> (None, s1) | (Some n, s1) \<Rightarrow> dup_loop copyb n n cs s1))"

subsection \<open>Messages\<close>

text \<open>\<open>linkb\<close>: the loop ends at the last block of the message.\<close>

definition linkb :: "nat \<Rightarrow> nat \<Rightarrow> stbuf \<Rightarrow> stbuf" where
  "linkb mp b s = upd_mb (last (conts s (Some mp))) (\<lambda>x. x\<lparr>b_cont := Some b\<rparr>) s"

definition unlinkb :: "nat \<Rightarrow> stbuf \<Rightarrow> nat option \<times> stbuf" where
  "unlinkb b s = (b_cont (mblk s b), upd_mb b (\<lambda>x. x\<lparr>b_cont := None\<rparr>) s)"

text \<open>\<open>rmvb\<close>: None is the result -1.\<close>

fun rmvb_loop :: "nat option \<Rightarrow> nat \<Rightarrow> nat option \<Rightarrow> nat list \<Rightarrow> stbuf \<Rightarrow> nat option option \<times> stbuf" where
  "rmvb_loop mp b lastp [] s = (None, s)"
| "rmvb_loop mp b lastp (t # ts) s =
     (if t = b then
        let nx = b_cont (mblk s t);
            s1 = (case lastp of Some l \<Rightarrow> upd_mb l (\<lambda>x. x\<lparr>b_cont := nx\<rparr>) s | None \<Rightarrow> s)
        in (Some (if lastp = None then nx else mp), upd_mb t (\<lambda>x. x\<lparr>b_cont := None\<rparr>) s1)
      else rmvb_loop mp b (Some t) ts s)"

definition rmvb :: "nat option \<Rightarrow> nat \<Rightarrow> stbuf \<Rightarrow> nat option option \<times> stbuf" where
  "rmvb mp b s = rmvb_loop mp b None (conts s mp) s"

definition mb_type :: "stbuf \<Rightarrow> nat \<Rightarrow> int" where
  "mb_type s b = db_type (dblk s (dbp s b))"

definition mb_len :: "stbuf \<Rightarrow> nat \<Rightarrow> int" where
  "mb_len s b = int (b_wptr (mblk s b)) - int (b_rptr (mblk s b))"

text \<open>The blocks at the front of a message that have the type of its first block.\<close>

definition front :: "stbuf \<Rightarrow> nat \<Rightarrow> nat list" where
  "front s mp = takeWhile (\<lambda>b. mb_type s b = mb_type s mp) (conts s (Some mp))"

definition xmsgsize :: "nat \<Rightarrow> stbuf \<Rightarrow> int" where
  "xmsgsize mp s = sum_list (map (mb_len s) (front s mp))"

definition msgdsize :: "nat option \<Rightarrow> stbuf \<Rightarrow> int" where
  "msgdsize mp s = sum_list (map (mb_len s) (filter (\<lambda>b. mb_type s b = M_DATA) (conts s mp)))"

fun adj_head :: "nat list \<Rightarrow> int \<Rightarrow> stbuf \<Rightarrow> stbuf" where
  "adj_head [] len s = s"
| "adj_head (b # bs) len s =
     (if len = 0 then s
      else let n = min (mb_len s b) len
        in adj_head bs (len - n) (upd_mb b (\<lambda>x. x\<lparr>b_rptr := b_rptr x + nat n\<rparr>) s))"

text \<open>One round of the loop from the tail: \<open>save_bp\<close> is the last block with data.\<close>

fun adj_tail :: "nat \<Rightarrow> nat \<Rightarrow> int \<Rightarrow> stbuf \<Rightarrow> stbuf" where
  "adj_tail 0 mp len s = s"
| "adj_tail (Suc k) mp len s =
     (if len = 0 then s
      else case last_opt (filter (\<lambda>b. mb_len s b > 0) (front s mp)) of
          None \<Rightarrow> s
        | Some sb \<Rightarrow> let n = min (mb_len s sb) len
            in adj_tail k mp (len - n) (upd_mb sb (\<lambda>x. x\<lparr>b_wptr := b_wptr x - nat n\<rparr>) s))"

definition adjmsg :: "nat \<Rightarrow> int \<Rightarrow> stbuf \<Rightarrow> bool \<times> stbuf" where
  "adjmsg mp len s =
     (if xmsgsize mp s < \<bar>len\<bar> then (False, s)
      else if len \<ge> 0 then (True, adj_head (conts s (Some mp)) len s)
      else (True, adj_tail (Suc (nmblock s)) mp (- len) s))"

definition str_aligned :: "nat \<Rightarrow> bool" where
  "str_aligned a \<longleftrightarrow> a mod 2 = 0"

text \<open>The copying loop of \<open>pullupmsg\<close>: what is left of the message when it ends.\<close>

definition pull_copy :: "nat \<Rightarrow> nat \<Rightarrow> int \<Rightarrow> stbuf \<Rightarrow> stbuf" where
  "pull_copy new b n s = upd_mb b (\<lambda>x. x\<lparr>b_rptr := b_rptr x + nat n\<rparr>)
     (upd_mb new (\<lambda>x. x\<lparr>b_wptr := b_wptr x + nat n\<rparr>)
       (bcopy (b_rptr (mblk s b)) (b_wptr (mblk s new)) (nat n) s))"

primrec pull_loop :: "nat \<Rightarrow> nat \<Rightarrow> nat \<Rightarrow> nat option \<Rightarrow> int \<Rightarrow> stbuf \<Rightarrow> nat option \<times> stbuf" where
  "pull_loop 0 mp new p len s = (p, s)"
| "pull_loop (Suc k) mp new p len s =
     (case p of None \<Rightarrow> (None, s) | Some b \<Rightarrow>
        if len = 0 then (Some b, s)
        else let n = min (mb_len s b) len; s2 = pull_copy new b n s in
          if b_rptr (mblk s2 b) \<noteq> b_wptr (mblk s2 b) then (Some b, s2)
          else pull_loop k mp new (b_cont (mblk s2 b)) (len - n) (if b \<noteq> mp then freeb b s2 else s2))"

definition pullupmsg :: "nat \<Rightarrow> int \<Rightarrow> stbuf \<Rightarrow> bool \<times> stbuf" where
  "pullupmsg mp len0 s =
     (let x = mblk s mp;
          quick = (if len0 = -1 then b_cont x = None else mb_len s mp \<ge> len0) \<and> str_aligned (b_rptr x);
          len = (if len0 = -1 then xmsgsize mp s else len0)
      in if quick then (True, s)
         else if len0 \<noteq> -1 \<and> xmsgsize mp s < len then (False, s)
         else case mbfreelist s of None \<Rightarrow> (False, s) | Some tmp \<Rightarrow>
           (case allocb len BPRI_MED (s\<lparr>mbfreelist := b_next (mblk s tmp)\<rparr>) of
              (None, s1) \<Rightarrow> (False, mb_release tmp s1)
            | (Some new, s1) \<Rightarrow>
                let s2 = upd_db (dbp s1 new) (\<lambda>y. y\<lparr>db_type := mb_type s1 mp\<rparr>) s1 in
                case pull_loop (Suc (nmblock s)) mp new (Some mp) len s2 of (b, s3) \<Rightarrow>
                  let s4 = upd_mb new (\<lambda>y. y\<lparr>b_datap := None\<rparr>)
                             (s3\<lparr>mblk := (mblk s3)(tmp := mblk s3 mp, mp := mblk s3 new)\<rparr>);
                      s5 = (if b_rptr (mblk s4 tmp) \<noteq> b_wptr (mblk s4 tmp)
                            then upd_mb mp (\<lambda>y. y\<lparr>b_cont := Some tmp\<rparr>) s4
                            else freeb tmp (upd_mb mp (\<lambda>y. y\<lparr>b_cont := b\<rparr>) s4))
                  in (True, mb_release new s5)))"

subsection \<open>Event cells and initialisation\<close>

definition take_cell :: "nat \<Rightarrow> nat list \<Rightarrow> stbuf \<Rightarrow> nat option \<times> stbuf" where
  "take_cell c r s = (Some c, s\<lparr>sefreelist := r, sevent := (sevent s)(c := \<lparr>se_func = 0, se_arg = 0\<rparr>)\<rparr>)"

text \<open>\<open>sealloc\<close>: \<open>pages\<close> are the results of its calls of \<open>sptalloc\<close>, each the cells of a new page;
  None when the calls are used up while it sleeps for memory.\<close>

fun sealloc_page :: "bool \<Rightarrow> nat list option list \<Rightarrow> stbuf \<Rightarrow> (nat option \<times> stbuf) option" where
  "sealloc_page noslp [] s = None"
| "sealloc_page noslp (None # ps) s =
     (if noslp then Some (None, s\<lparr>sepgcnt := sepgcnt s - 1\<rparr>) else sealloc_page noslp ps s)"
| "sealloc_page noslp (Some cells # ps) s =
     (let s1 = s\<lparr>sefreelist := rev cells @ sefreelist s\<rparr> in
      case sefreelist s1 of c # r \<Rightarrow> Some (take_cell c r s1)
      | [] \<Rightarrow> if sepgcnt s1 \<ge> maxsepgcnt s1 then Some (None, s1)
              else sealloc_page noslp ps (s1\<lparr>sepgcnt := Suc (sepgcnt s1)\<rparr>))"

definition sealloc :: "bool \<Rightarrow> nat list option list \<Rightarrow> stbuf \<Rightarrow> (nat option \<times> stbuf) option" where
  "sealloc noslp pages s = (case sefreelist s of c # r \<Rightarrow> Some (take_cell c r s)
     | [] \<Rightarrow> if sepgcnt s \<ge> maxsepgcnt s then Some (None, s)
             else sealloc_page noslp pages (s\<lparr>sepgcnt := Suc (sepgcnt s)\<rparr>))"

definition sefree :: "nat \<Rightarrow> stbuf \<Rightarrow> stbuf" where
  "sefree c s = s\<lparr>sefreelist := c # sefreelist s\<rparr>"

text \<open>\<open>bufcall\<close>: True when the request is queued on the list of its class and priority; \<open>page\<close> is
  what \<open>sptalloc\<close> would return.\<close>

definition bufcall :: "int \<Rightarrow> bpri \<Rightarrow> nat \<Rightarrow> int \<Rightarrow> nat list option \<Rightarrow> stbuf \<Rightarrow> (bool \<times> stbuf) option" where
  "bufcall sz pri fn arg page s =
     (let c = getclass sz in
      if bcmax s c pri = 0 then Some (False, s)
      else if pri = BPRI_HI \<and> v_nblk s c = 0 then Some (False, s)
      else case sealloc True [page] s of None \<Rightarrow> None
        | Some (None, s1) \<Rightarrow> Some (False, s1)
        | Some (Some e, s1) \<Rightarrow>
            Some (True, (upd_ba c (\<lambda>x. case pri of BPRI_HI \<Rightarrow> x\<lparr>dba_hip := dba_hip x @ [e]\<rparr>
                 | BPRI_LO \<Rightarrow> x\<lparr>dba_lop := dba_lop x @ [e]\<rparr> | BPRI_MED \<Rightarrow> x\<lparr>dba_medp := dba_medp x @ [e]\<rparr>) s1)
              \<lparr>sevent := (sevent s1)(e := \<lparr>se_func = fn, se_arg = arg\<rparr>)\<rparr>))"

text \<open>\<open>strinit\<close>: the blocks of a class are numbered and laid out in memory one after the other.\<close>

definition init_dblk :: "nat \<Rightarrow> nat \<times> nat \<times> stbuf \<Rightarrow> nat \<times> nat \<times> stbuf" where
  "init_dblk c = (\<lambda>(d, base, s). (Suc d, base + rbsize ! c,
     (upd_db d (\<lambda>x. x\<lparr>db_class := c, db_base := base, db_lim := base + rbsize ! c, db_freep := dbfreelist s c\<rparr>) s)
       \<lparr>dbfreelist := (dbfreelist s)(c := Some d)\<rparr>))"

definition init_class :: "int \<Rightarrow> int \<Rightarrow> nat \<Rightarrow> nat \<times> nat \<times> stbuf \<Rightarrow> nat \<times> nat \<times> stbuf" where
  "init_class lofrac medfrac c = (\<lambda>(d, base, s).
     (init_dblk c ^^ v_nblk s c) (d, base, (upd_ba c (\<lambda>x. x\<lparr>dba_lo := (int (v_nblk s c) * lofrac) div 100,
        dba_med := (int (v_nblk s c) * medfrac) div 100\<rparr>) s)\<lparr>dbfreelist := (dbfreelist s)(c := None)\<rparr>))"

definition strinit :: "nat \<Rightarrow> int \<Rightarrow> int \<Rightarrow> nat option \<Rightarrow> stbuf \<Rightarrow> stbuf" where
  "strinit nstrevent lofrac medfrac mem s =
     (let s0 = s\<lparr>sefreelist := rev [0..<nstrevent]\<rparr>;
          none = s0\<lparr>dbfreelist := (\<lambda>c. if c < NCLASS then None else dbfreelist s0 c), mbfreelist := None\<rparr>
      in if sum_list (map (\<lambda>c. v_nblk s c * rbsize ! c) [0..<NCLASS]) = 0 then none
         else case mem of None \<Rightarrow> none | Some base \<Rightarrow>
           (case fold (init_class lofrac medfrac) (rev [0..<NCLASS]) (0, base, s0) of (d, b, s1) \<Rightarrow>
              fold (\<lambda>i s. (upd_mb i (\<lambda>x. x\<lparr>b_next := mbfreelist s\<rparr>) s)\<lparr>mbfreelist := Some i\<rparr>)
                [0..<nmblock s] (s1\<lparr>mbfreelist := None\<rparr>)))"

subsection \<open>The buffer pool\<close>

definition mb_nx :: "stbuf \<Rightarrow> nat \<Rightarrow> nat option" where
  "mb_nx s b = b_next (mblk s b)"

definition db_nx :: "stbuf \<Rightarrow> nat \<Rightarrow> nat option" where
  "db_nx s d = db_freep (dblk s d)"

definition datap :: "stbuf \<Rightarrow> nat \<Rightarrow> nat option" where
  "datap s b = b_datap (mblk s b)"

definition ndblk :: "stbuf \<Rightarrow> nat" where
  "ndblk s = sum_list (map (v_nblk s) [0..<NCLASS])"

text \<open>The message blocks that refer to data block \<open>d\<close>.\<close>

definition refs :: "nat \<Rightarrow> (nat \<Rightarrow> nat option) \<Rightarrow> nat \<Rightarrow> nat" where
  "refs n dp d = card {b. b < n \<and> dp b = Some d}"

text \<open>Message blocks are free or refer to a data block; data blocks of a class are on its free list
  exactly when nothing refers to them; \<open>db_ref\<close> counts the references and \<open>dba_cnt\<close> the data
  blocks in use.\<close>

definition sb_rep :: "nat list \<Rightarrow> (nat \<Rightarrow> nat list) \<Rightarrow> stbuf \<Rightarrow> bool" where
  "sb_rep mf df s \<longleftrightarrow>
     chain (mb_nx s) (mbfreelist s) mf \<and> (\<forall>b. b \<in> set mf \<longleftrightarrow> b < nmblock s \<and> datap s b = None) \<and>
     (\<forall>b d. b < nmblock s \<and> datap s b = Some d \<longrightarrow> d < ndblk s) \<and>
     (\<forall>c<NCLASS. chain (db_nx s) (dbfreelist s c) (df c) \<and>
        (\<forall>d. d \<in> set (df c) \<longleftrightarrow> d < ndblk s \<and> db_class (dblk s d) = c \<and> db_ref (dblk s d) = 0) \<and>
        dba_cnt (dballoc s c) = int (card {d. d < ndblk s \<and> db_class (dblk s d) = c \<and> db_ref (dblk s d) \<noteq> 0})) \<and>
     (\<forall>d<ndblk s. db_class (dblk s d) < NCLASS \<and> db_ref (dblk s d) = refs (nmblock s) (datap s) d \<and>
        db_ref (dblk s d) < 256 \<and> db_lim (dblk s d) = db_base (dblk s d) + rbsize ! db_class (dblk s d))"

definition sb_ok :: "stbuf \<Rightarrow> bool" where
  "sb_ok s \<longleftrightarrow> (\<exists>mf df. sb_rep mf df s)"

lemma refs_take:
  assumes "b < n" "dp b = None"
  shows "refs n (dp(b := Some d)) x = (if x = d then Suc (refs n dp x) else refs n dp x)"
proof (cases "x = d")
  case True
  have "{c. c < n \<and> (dp(b := Some d)) c = Some d} = insert b {c. c < n \<and> dp c = Some d}"
    using assms by auto
  then show ?thesis using True assms by (simp add: refs_def)
next
  case False
  then have "{c. c < n \<and> (dp(b := Some d)) c = Some x} = {c. c < n \<and> dp c = Some x}"
    using assms by auto
  with False show ?thesis by (simp add: refs_def)
qed

lemma refs_drop:
  assumes "b < n" "dp b = Some d"
  shows "refs n (dp(b := None)) x = (if x = d then refs n dp x - 1 else refs n dp x)"
proof (cases "x = d")
  case True
  have "{c. c < n \<and> (dp(b := None)) c = Some d} = {c. c < n \<and> dp c = Some d} - {b}" by auto
  then show ?thesis using True assms by (simp add: refs_def card_Diff_singleton)
next
  case False
  then have "{c. c < n \<and> (dp(b := None)) c = Some x} = {c. c < n \<and> dp c = Some x}"
    using assms by auto
  with False show ?thesis by (simp add: refs_def)
qed

lemma refs_pos: "b < n \<Longrightarrow> dp b = Some d \<Longrightarrow> 0 < refs n dp d"
  by (auto simp: refs_def card_gt_0_iff)

text \<open>What a change of the heaps has to show: message block \<open>b\<close> changes hands and data block \<open>d\<close>
  its count.\<close>

lemma sb_rep_change:
  assumes rep: "sb_rep mf df s" and d: "d < ndblk s" "c = db_class (dblk s d)"
    and same: "nmblock s' = nmblock s" "v_nblk s' = v_nblk s"
    and mb: "chain (mb_nx s') (mbfreelist s') mf'" "\<And>x. datap s' x = dp x"
      "\<And>x. x \<in> set mf' \<longleftrightarrow> x < nmblock s \<and> dp x = None"
      "\<And>x e. x < nmblock s \<Longrightarrow> dp x = Some e \<Longrightarrow> e < ndblk s"
      "\<And>x. refs (nmblock s) dp x = (if x = d then r else refs (nmblock s) (datap s) x)"
    and db: "\<And>x. x \<noteq> d \<Longrightarrow> dblk s' x = dblk s x" "db_class (dblk s' d) = c" "db_ref (dblk s' d) = r" "r < 256"
      "db_base (dblk s' d) = db_base (dblk s d)" "db_lim (dblk s' d) = db_lim (dblk s d)"
      "\<And>x. x \<noteq> c \<Longrightarrow> dbfreelist s' x = dbfreelist s x" "\<And>x. x \<noteq> c \<Longrightarrow> dba_cnt (dballoc s' x) = dba_cnt (dballoc s x)"
    and cl: "chain (db_nx s') (dbfreelist s' c) fs" "\<And>x. x \<in> set fs \<longleftrightarrow> (if x = d then r = 0 else x \<in> set (df c))"
      "dba_cnt (dballoc s' c) = dba_cnt (dballoc s c) + (if db_ref (dblk s d) = 0 then if r = 0 then 0 else 1
         else if r = 0 then -1 else 0)"
  shows "sb_rep mf' (df(c := fs)) s'"
proof -
  have n: "ndblk s' = ndblk s" using same(2) by (simp add: ndblk_def)
  have dp: "datap s' = dp" using mb(2) by (rule ext)
  have R: "chain (db_nx s) (dbfreelist s k) (df k)"
    "\<And>x. x \<in> set (df k) \<longleftrightarrow> x < ndblk s \<and> db_class (dblk s x) = k \<and> db_ref (dblk s x) = 0"
    "dba_cnt (dballoc s k) = int (card {x. x < ndblk s \<and> db_class (dblk s x) = k \<and> db_ref (dblk s x) \<noteq> 0})"
    if "k < NCLASS" for k using rep that unfolding sb_rep_def by blast+
  have D: "db_class (dblk s x) < NCLASS" "db_ref (dblk s x) = refs (nmblock s) (datap s) x"
    "db_ref (dblk s x) < 256" "db_lim (dblk s x) = db_base (dblk s x) + rbsize ! db_class (dblk s x)"
    if "x < ndblk s" for x using rep that unfolding sb_rep_def by blast+
  have c: "c < NCLASS" using D(1) [OF d(1)] d(2) by simp
  have cls: "db_class (dblk s' x) = db_class (dblk s x)" for x using db(1,2) d(2) by (cases "x = d") auto
  have ref: "db_ref (dblk s' x) = (if x = d then r else db_ref (dblk s x))" for x using db(1,3) by auto
  show ?thesis unfolding sb_rep_def dp same n
  proof (intro conjI allI impI)
    show "chain (mb_nx s') (mbfreelist s') mf'" by fact
    show "x \<in> set mf' \<longleftrightarrow> x < nmblock s \<and> dp x = None" for x by (rule mb(3))
    show "e < ndblk s" if "x < nmblock s \<and> dp x = Some e" for x e using mb(4) that by blast
    fix k assume k: "k < NCLASS"
    show "chain (db_nx s') (dbfreelist s' k) ((df(c := fs)) k)"
    proof (cases "k = c")
      case False
      then have "d \<notin> set (df k)" using R(2) [OF k, of d] d(2) by auto
      then have "chain (db_nx s') p (df k) = chain (db_nx s) p (df k)" for p
      proof (intro seg_cong)
        fix x assume "x \<in> set (df k)"
        with \<open>d \<notin> set (df k)\<close> have "x \<noteq> d" by auto
        then show "db_nx s' x = db_nx s x" by (simp add: db(1) db_nx_def)
      qed
      with R(1) [OF k] False db(7) show ?thesis by simp
    qed (use cl(1) in simp)
    show "x \<in> set ((df(c := fs)) k) \<longleftrightarrow> x < ndblk s \<and> db_class (dblk s' x) = k \<and> db_ref (dblk s' x) = 0" for x
      using R(2) [OF k, of x] cl(2) [of x] d by (cases "k = c"; cases "x = d") (auto simp: cls ref)
    show "dba_cnt (dballoc s' k) = int (card {x. x < ndblk s \<and> db_class (dblk s' x) = k \<and> db_ref (dblk s' x) \<noteq> 0})"
    proof (cases "k = c")
      case False
      then have "{x. x < ndblk s \<and> db_class (dblk s' x) = k \<and> db_ref (dblk s' x) \<noteq> 0} =
          {x. x < ndblk s \<and> db_class (dblk s x) = k \<and> db_ref (dblk s x) \<noteq> 0}" using d(2) by (auto simp: cls ref)
      with R(3) [OF k] False db(8) show ?thesis by simp
    next
      case True
      let ?U = "{x. x < ndblk s \<and> db_class (dblk s x) = c \<and> db_ref (dblk s x) \<noteq> 0}"
      have "{x. x < ndblk s \<and> db_class (dblk s' x) = c \<and> db_ref (dblk s' x) \<noteq> 0} =
          (if r = 0 then ?U - {d} else insert d ?U)" using d by (auto simp: cls ref)
      moreover have "int (card (if r = 0 then ?U - {d} else insert d ?U)) = int (card ?U) +
          (if d \<notin> ?U then if r = 0 then 0 else 1 else if r = 0 then -1 else 0)"
      proof (cases "d \<in> ?U")
        case True
        then have "0 < card ?U" by (auto simp: card_gt_0_iff)
        with True show ?thesis by (simp add: card_Diff_singleton insert_absorb of_nat_diff)
      next
        case False
        have "finite ?U" by simp
        from card_insert_disjoint [OF this False] Diff_insert0 [OF False, of "{}"] False
        show ?thesis by (simp del: mem_Collect_eq)
      qed
      moreover have "d \<notin> ?U \<longleftrightarrow> db_ref (dblk s d) = 0" using d by simp
      ultimately show ?thesis using True cl(3) R(3) [OF c] by simp
    qed
  next
    fix x assume x: "x < ndblk s"
    show "db_class (dblk s' x) < NCLASS" "db_ref (dblk s' x) = refs (nmblock s) dp x" "db_ref (dblk s' x) < 256"
      using D [OF x] mb(5) [of x] db(4) by (simp_all add: cls ref)
    show "db_lim (dblk s' x) = db_base (dblk s' x) + rbsize ! db_class (dblk s' x)"
      using D(4) [OF x] db(1,5,6) by (cases "x = d") (simp_all add: cls)
  qed
qed

lemma sb_ok_fields [simp]:
  "sb_ok (s\<lparr>st_mblock := a\<rparr>) = sb_ok s" "sb_ok (s\<lparr>st_dblock := a\<rparr>) = sb_ok s"
  "sb_ok (s\<lparr>st_dblk := f\<rparr>) = sb_ok s" "sb_ok (s\<lparr>strbcflag := p\<rparr>) = sb_ok s"
  "sb_ok (s\<lparr>qrunflag := p\<rparr>) = sb_ok s" "sb_ok (s\<lparr>smem := m\<rparr>) = sb_ok s"
  by (simp_all add: sb_ok_def sb_rep_def mb_nx_def [abs_def] db_nx_def [abs_def] datap_def [abs_def] ndblk_def)

lemma db_fail_ok [simp]: "sb_ok (db_fail c s) = sb_ok s"
  by (simp add: db_fail_def)

text \<open>Nothing but the blocks named changes.\<close>

definition only :: "nat \<Rightarrow> nat \<Rightarrow> stbuf \<Rightarrow> stbuf \<Rightarrow> bool" where
  "only b d s s' \<longleftrightarrow> (\<forall>x. x \<noteq> b \<longrightarrow> mblk s' x = mblk s x) \<and> (\<forall>x. x \<noteq> d \<longrightarrow> dblk s' x = dblk s x) \<and>
     nmblock s' = nmblock s \<and> v_nblk s' = v_nblk s \<and> smem s' = smem s"

lemma gotdp_spec:
  assumes ok: "sb_ok s" and c: "c < NCLASS" "dbfreelist s c = Some d"
  shows "if mbfreelist s = None then \<exists>s'. gotdp c d s = (None, s') \<and> sb_ok s' \<and> mblk s' = mblk s \<and> dblk s' = dblk s
    else \<exists>b s'. gotdp c d s = (Some b, s') \<and> sb_ok s' \<and> mbfreelist s = Some b \<and> b < nmblock s \<and>
      datap s b = None \<and> d < ndblk s \<and> db_ref (dblk s d) = 0 \<and> db_class (dblk s' d) = c \<and> only b d s s' \<and>
      mblk s' b = \<lparr>b_next = None, b_prev = None, b_cont = None, b_rptr = db_base (dblk s' d),
         b_wptr = db_base (dblk s' d), b_datap = Some d\<rparr> \<and> db_type (dblk s' d) = M_DATA \<and> db_ref (dblk s' d) = 1 \<and>
      db_lim (dblk s' d) = db_base (dblk s' d) + rbsize ! c"
proof -
  from ok obtain mf df where rep: "sb_rep mf df s" by (auto simp: sb_ok_def)
  show ?thesis
  proof (cases "mbfreelist s")
    case None
    with ok show ?thesis by (simp add: gotdp_def)
  next
    case (Some b)
    let ?s = "snd (gotdp c d s)"
    have g: "gotdp c d s = (Some b, ?s)" using Some by (simp add: gotdp_def)
    have mfr: "chain (mb_nx s) (Some b) mf" "\<And>x. x \<in> set mf \<longleftrightarrow> x < nmblock s \<and> datap s x = None"
      using rep Some unfolding sb_rep_def by (metis, blast)
    then obtain gs where gs: "mf = b # gs" "chain (mb_nx s) (mb_nx s b) gs" by (auto simp: chain_Some)
    have b: "b < nmblock s" "datap s b = None" using mfr(2) [of b] gs(1) by auto
    have dc: "chain (db_nx s) (Some d) (df c)" "\<And>x. x \<in> set (df c) \<longleftrightarrow> x < ndblk s \<and> db_class (dblk s x) = c \<and> db_ref (dblk s x) = 0"
      using rep c unfolding sb_rep_def by (metis, blast)
    then obtain fs where fs: "df c = d # fs" "chain (db_nx s) (db_nx s d) fs" by (auto simp: chain_Some)
    have d: "d < ndblk s" "db_class (dblk s d) = c" "db_ref (dblk s d) = 0" using dc(2) [of d] fs(1) by auto
    have nd: "d \<notin> set fs" "b \<notin> set gs" using chain_distinct [OF dc(1)] chain_distinct [OF mfr(1)] fs gs by auto
    have mn: "mb_nx ?s = (mb_nx s)(b := None)" and dn: "db_nx ?s = (db_nx s)(d := None)"
      using Some by (simp_all add: gotdp_def fun_eq_iff mb_nx_def db_nx_def upd_db_def upd_mb_def upd_ba_def)
    let ?dp = "(datap s)(b := Some d)"
    have rd: "refs (nmblock s) (datap s) d = 0" using rep d unfolding sb_rep_def by metis
    have "sb_rep gs (df(c := fs)) ?s"
    proof (rule sb_rep_change [OF rep d(1) d(2) [symmetric], where dp = ?dp and r = 1])
      show "chain (mb_nx ?s) (mbfreelist ?s) gs" "chain (db_nx ?s) (dbfreelist ?s c) fs"
        using gs(2) fs(2) nd Some unfolding mn dn
        by (simp_all add: seg_upd) (simp_all add: gotdp_def upd_db_def upd_mb_def upd_ba_def mb_nx_def db_nx_def)
      show "x \<in> set gs \<longleftrightarrow> x < nmblock s \<and> ?dp x = None" for x
        using mfr(2) [of x] gs(1) nd(2) by (auto simp: fun_upd_def)
      show "e < ndblk s" if "x < nmblock s" "?dp x = Some e" for x e
        using that d(1) rep unfolding sb_rep_def by (auto split: if_splits)
      show "refs (nmblock s) ?dp x = (if x = d then 1 else refs (nmblock s) (datap s) x)" for x
        using refs_take [of b "nmblock s" "datap s" d x] b rd by auto
      show "x \<in> set fs \<longleftrightarrow> (if x = d then (1::nat) = 0 else x \<in> set (df c))" for x using fs nd by auto
    qed (use Some d(2,3) in \<open>simp_all add: gotdp_def upd_db_def upd_mb_def upd_ba_def datap_def\<close>)
    then have "sb_ok ?s" by (auto simp: sb_ok_def)
    moreover have "db_lim (dblk s d) = db_base (dblk s d) + rbsize ! c" using rep d unfolding sb_rep_def by metis
    ultimately show ?thesis using Some g b d
      by (intro if_not_P [THEN iffD2]) (auto simp: gotdp_def upd_db_def upd_mb_def upd_ba_def only_def)
  qed
qed

lemma only_simps [simp]:
  "nmblock (db_fail c s) = nmblock s" "mblk (db_fail c s) = mblk s" "dblk (db_fail c s) = dblk s"
  "mbfreelist (db_fail c s) = mbfreelist s" "dbfreelist (db_fail c s) = dbfreelist s"
  "dballoc (db_fail c s) = dballoc s" "v_nblk (db_fail c s) = v_nblk s" "smem (db_fail c s) = smem s"
  "db_avail (db_fail c s) k pri = db_avail s k pri" "only b d (db_fail c s) s' = only b d s s'"
  "datap (db_fail c s) = datap s" "ndblk (db_fail c s) = ndblk s"
  by (simp_all add: db_fail_def db_avail_def bcmax_def only_def datap_def [abs_def] ndblk_def split: bpri.split)

lemma length_rbsize: "length rbsize = NCLASS"
  by (simp add: rbsize_def NCLASS_def)

lemma getclass_fits: "getclass sz < NCLASS \<Longrightarrow> sz \<le> int (rbsize ! getclass sz)"
  using nth_length_takeWhile [of "\<lambda>r. sz > int r" rbsize] by (simp add: getclass_def length_rbsize not_less)

lemma rbsize_mono:
  assumes "Suc c < NCLASS"
  shows "rbsize ! c \<le> rbsize ! Suc c"
proof -
  have "sorted rbsize" by (simp add: rbsize_def)
  with assms show ?thesis by (simp add: sorted_iff_nth_Suc length_rbsize)
qed

lemma dec256: "0 < n \<Longrightarrow> n < 256 \<Longrightarrow> (n + 255) mod 256 = n - (1::nat)"
proof -
  assume "0 < n" "n < 256"
  then have "n + 255 = n - 1 + 256" "n - 1 < 256" by simp_all
  then show ?thesis by (simp only: mod_add_self2 mod_less)
qed

lemma freeb_rep:
  assumes ok: "sb_ok s" and b: "b < nmblock s" "datap s b = Some d"
  shows "sb_ok (freeb b s)"
proof -
  from ok obtain mf df where rep: "sb_rep mf df s" by (auto simp: sb_ok_def)
  define c where "c = db_class (dblk s d)"
  let ?s = "freeb b s" let ?dp = "(datap s)(b := None)" let ?r = "db_ref (dblk s d) - 1"
  have dd: "dbp s b = d" using b by (simp add: dbp_def datap_def)
  have d: "d < ndblk s" "db_ref (dblk s d) = refs (nmblock s) (datap s) d" "db_ref (dblk s d) < 256" "c < NCLASS"
    using rep b unfolding sb_rep_def c_def by metis+
  have pos: "0 < db_ref (dblk s d)" using refs_pos [of b "nmblock s" "datap s" d] b d by simp
  have r: "(db_ref (dblk s d) + 255) mod 256 = ?r" using dec256 [OF pos d(3)] .
  have mf: "chain (mb_nx s) (mbfreelist s) mf" "\<And>x. x \<in> set mf \<longleftrightarrow> x < nmblock s \<and> datap s x = None"
    using rep unfolding sb_rep_def by blast+
  have dc: "chain (db_nx s) (dbfreelist s c) (df c)" "\<And>x. x \<in> set (df c) \<longleftrightarrow> x < ndblk s \<and> db_class (dblk s x) = c \<and> db_ref (dblk s x) = 0"
    using rep d(4) unfolding sb_rep_def by blast+
  have bm: "b \<notin> set mf" and dm: "d \<notin> set (df c)" using mf(2) [of b] dc(2) [of d] b pos by auto
  note F = freeb_def Let_def upd_db_def upd_mb_def upd_ba_def mb_release_def dd r c_def [symmetric]
  let ?fs = "if ?r = 0 then d # df c else df c"
  have mn: "mb_nx ?s = (mb_nx s)(b := mbfreelist s)" by (auto simp: fun_eq_iff mb_nx_def F)
  have dn: "db_nx ?s = (if ?r = 0 then (db_nx s)(d := dbfreelist s c) else db_nx s)"
    by (auto simp: fun_eq_iff db_nx_def F)
  have "sb_rep (b # mf) (df(c := ?fs)) ?s"
  proof (rule sb_rep_change [OF rep d(1) c_def, where dp = ?dp and r = ?r])
    show "chain (mb_nx ?s) (mbfreelist ?s) (b # mf)" using mf(1) bm
      unfolding mn by (simp add: seg_upd) (simp add: F)
    show "chain (db_nx ?s) (dbfreelist ?s c) ?fs" using dc(1) dm
      unfolding dn by (simp add: seg_upd) (auto simp: F)
    show "x \<in> set (b # mf) \<longleftrightarrow> x < nmblock s \<and> ?dp x = None" for x using mf(2) [of x] b by auto
    show "e < ndblk s" if "x < nmblock s" "?dp x = Some e" for x e
      using that rep unfolding sb_rep_def by (auto split: if_splits)
    show "refs (nmblock s) ?dp x = (if x = d then ?r else refs (nmblock s) (datap s) x)" for x
      using refs_drop [of b "nmblock s" "datap s" d x] b d(2) by auto
    show "x \<in> set ?fs \<longleftrightarrow> (if x = d then ?r = 0 else x \<in> set (df c))" for x using dm by auto
    show "dba_cnt (dballoc ?s c) = dba_cnt (dballoc s c) + (if db_ref (dblk s d) = 0 then if ?r = 0 then 0 else 1
         else if ?r = 0 then -1 else 0)" using pos by (simp add: F)
    show "?r < 256" using d(3) by simp
  qed (auto simp: F datap_def)
  then show ?thesis by (auto simp: sb_ok_def)
qed

lemma freeb_frame:
  "x \<noteq> b \<Longrightarrow> mblk (freeb b s) x = mblk s x" "b_cont (mblk (freeb b s) x) = b_cont (mblk s x)"
  "db_class (dblk (freeb b s) d) = db_class (dblk s d)" "db_type (dblk (freeb b s) d) = db_type (dblk s d)"
  "nmblock (freeb b s) = nmblock s" "datap (freeb b s) = (datap s)(b := None)" "smem (freeb b s) = smem s"
  by (auto simp: freeb_def Let_def upd_db_def upd_mb_def upd_ba_def mb_release_def datap_def fun_eq_iff)

text \<open>Freeing a well-formed message keeps the pool consistent and touches no other block.\<close>

lemma freemsg_loop_rep:
  "sb_ok s \<Longrightarrow> chain (\<lambda>b. b_cont (mblk s b)) p bs \<Longrightarrow> length bs \<le> n \<Longrightarrow>
   \<forall>b\<in>set bs. b < nmblock s \<and> datap s b \<noteq> None \<Longrightarrow>
   sb_ok (freemsg_loop n p s) \<and> (\<forall>x. x \<notin> set bs \<longrightarrow> mblk (freemsg_loop n p s) x = mblk s x) \<and>
   (\<forall>x. b_cont (mblk (freemsg_loop n p s) x) = b_cont (mblk s x)) \<and>
   (\<forall>d. db_class (dblk (freemsg_loop n p s) d) = db_class (dblk s d) \<and> db_type (dblk (freemsg_loop n p s) d) = db_type (dblk s d)) \<and>
   nmblock (freemsg_loop n p s) = nmblock s \<and> (\<forall>x\<in>set bs. datap (freemsg_loop n p s) x = None)"
proof (induction bs arbitrary: n p s)
  case Nil
  then show ?case by (cases n) simp_all
next
  case (Cons b bs)
  from Cons.prems(3) obtain k where k: "n = Suc k" by (cases n) auto
  have p: "p = Some b" using Cons.prems(2) by simp
  have nb: "b \<notin> set bs" using chain_distinct [OF Cons.prems(2)] by simp
  let ?s = "freeb b s"
  obtain d where d: "b < nmblock s" "datap s b = Some d" using Cons.prems(4) by auto
  have ok: "sb_ok ?s" by (rule freeb_rep [OF Cons.prems(1) d])
  have ch: "chain (\<lambda>b. b_cont (mblk ?s b)) (b_cont (mblk s b)) bs"
    unfolding freeb_frame(2) using Cons.prems(2) by simp
  have use: "\<forall>x\<in>set bs. x < nmblock ?s \<and> datap ?s x \<noteq> None"
    using Cons.prems(4) nb by (auto simp: freeb_frame(5,6))
  let ?t = "freemsg_loop k (b_cont (mblk s b)) ?s"
  have IH: "sb_ok ?t" "\<forall>x. x \<notin> set bs \<longrightarrow> mblk ?t x = mblk ?s x" "\<forall>x. b_cont (mblk ?t x) = b_cont (mblk ?s x)"
    "\<forall>d. db_class (dblk ?t d) = db_class (dblk ?s d) \<and> db_type (dblk ?t d) = db_type (dblk ?s d)"
    "nmblock ?t = nmblock ?s" "\<forall>x\<in>set bs. datap ?t x = None"
    using Cons.IH [OF ok ch _ use, of k] Cons.prems(3) k by simp_all
  have "datap ?t b = None" using IH(2) nb freeb_frame(6) [of b s] by (simp add: datap_def fun_eq_iff)
  with IH show ?case by (simp add: p k freeb_frame)
qed

lemma dupb_rep:
  assumes ok: "sb_ok s" and b: "b < nmblock s" "datap s b = Some d" and few: "db_ref (dblk s d) < 255"
  shows "sb_ok (snd (dupb b s))"
proof (cases "mbfreelist s")
  case None
  with ok show ?thesis by (simp add: dupb_def)
next
  case (Some n)
  from ok obtain mf df where rep: "sb_rep mf df s" by (auto simp: sb_ok_def)
  define c where "c = db_class (dblk s d)"
  let ?s = "snd (dupb b s)" let ?dp = "(datap s)(n := Some d)" let ?r = "Suc (db_ref (dblk s d))"
  have dd: "dbp s b = d" and bd: "b_datap (mblk s b) = Some d" using b by (simp_all add: dbp_def datap_def)
  have d: "d < ndblk s" "db_ref (dblk s d) = refs (nmblock s) (datap s) d" "c < NCLASS"
    using rep b unfolding sb_rep_def c_def by metis+
  have pos: "0 < db_ref (dblk s d)" using refs_pos [of b "nmblock s" "datap s" d] b d by simp
  have r: "?r mod 256 = ?r" using few by simp
  have mf: "chain (mb_nx s) (Some n) mf" "\<And>x. x \<in> set mf \<longleftrightarrow> x < nmblock s \<and> datap s x = None"
    using rep Some unfolding sb_rep_def by (metis, blast)
  then obtain gs where gs: "mf = n # gs" "chain (mb_nx s) (mb_nx s n) gs" by (auto simp: chain_Some)
  have n: "n < nmblock s" "datap s n = None" "n \<notin> set gs"
    using mf(2) [of n] gs(1) chain_distinct [OF mf(1)] by auto
  then have nb: "n \<noteq> b" using b by auto
  have dc: "chain (db_nx s) (dbfreelist s c) (df c)" "\<And>x. x \<in> set (df c) \<longleftrightarrow> x < ndblk s \<and> db_class (dblk s x) = c \<and> db_ref (dblk s x) = 0"
    using rep d(3) unfolding sb_rep_def by blast+
  have dm: "d \<notin> set (df c)" using dc(2) [of d] pos by auto
  note F = dupb_def Some Let_def upd_db_def upd_mb_def dd r Suc_eq_plus1 [symmetric] c_def [symmetric]
  have mn: "mb_nx ?s = (mb_nx s)(n := None)" by (auto simp: fun_eq_iff mb_nx_def F)
  have dn: "db_nx ?s = db_nx s" by (auto simp: fun_eq_iff db_nx_def F)
  have "sb_rep gs (df(c := df c)) ?s"
  proof (rule sb_rep_change [OF rep d(1) c_def, where dp = ?dp and r = ?r])
    show "chain (mb_nx ?s) (mbfreelist ?s) gs" using gs(2) n(3)
      unfolding mn by (simp add: seg_upd) (simp add: F mb_nx_def)
    show "chain (db_nx ?s) (dbfreelist ?s c) (df c)" using dc(1) unfolding dn by (simp add: F)
    show "x \<in> set gs \<longleftrightarrow> x < nmblock s \<and> ?dp x = None" for x using mf(2) [of x] gs(1) n(3) by auto
    show "e < ndblk s" if "x < nmblock s" "?dp x = Some e" for x e
      using that d(1) rep unfolding sb_rep_def by (auto split: if_splits)
    show "refs (nmblock s) ?dp x = (if x = d then ?r else refs (nmblock s) (datap s) x)" for x
      using refs_take [of n "nmblock s" "datap s" d x] n d(2) by auto
    show "x \<in> set (df c) \<longleftrightarrow> (if x = d then ?r = 0 else x \<in> set (df c))" for x using dm by auto
    show "dba_cnt (dballoc ?s c) = dba_cnt (dballoc s c) + (if db_ref (dblk s d) = 0 then if ?r = 0 then 0 else 1
         else if ?r = 0 then -1 else 0)" using pos by (simp add: F)
    show "?r < 256" using few by simp
    show "datap ?s x = ?dp x" for x using nb bd by (simp add: F datap_def)
  qed (simp_all add: F)
  then show ?thesis by (auto simp: sb_ok_def)
qed

text \<open>A pool of two classes of two data blocks and three message blocks; block 0 is in use with
  \<open>abcd\<close>.\<close>

definition pool_ex :: stbuf where
  "pool_ex = \<lparr>mblk = (\<lambda>b. \<lparr>b_next = (if b = 1 then Some 2 else None), b_prev = None, b_cont = None, b_rptr = 0,
       b_wptr = 4, b_datap = (if b = 0 then Some 0 else None)\<rparr>),
     dblk = (\<lambda>d. \<lparr>db_freep = None, db_base = 4 * d, db_lim = 4 * d + rbsize ! (d div 2), db_ref = (if d = 0 then 1 else 0),
       db_type = M_DATA, db_class = d div 2, db_shared = 0\<rparr>),
     smem = (\<lambda>a. of_nat (97 + a)), mbfreelist = Some 1, dbfreelist = (\<lambda>c. if c = 0 then Some 1 else None),
     dballoc = (\<lambda>c. \<lparr>dba_cnt = (if c = 0 then 1 else 0), dba_lo = 2, dba_med = 2, dba_lop = [], dba_medp = [],
       dba_hip = []\<rparr>),
     sevent = (\<lambda>e. \<lparr>se_func = 0, se_arg = 0\<rparr>), sefreelist = [], sepgcnt = 0, maxsepgcnt = 1, strbcflag = False,
     qrunflag = False, nmblock = 3, v_nblk = (\<lambda>c. if c = 0 then 2 else 0),
     st_mblock = \<lparr>al_use = 1, al_total = 1, al_max = 1, al_fail = 0\<rparr>,
     st_dblock = \<lparr>al_use = 1, al_total = 1, al_max = 1, al_fail = 0\<rparr>,
     st_dblk = (\<lambda>c. \<lparr>al_use = 1, al_total = 1, al_max = 1, al_fail = 0\<rparr>)\<rparr>"

lemma pool_ex_sel [simp]:
  "mblk pool_ex b = \<lparr>b_next = (if b = 1 then Some 2 else None), b_prev = None, b_cont = None, b_rptr = 0,
       b_wptr = 4, b_datap = (if b = 0 then Some 0 else None)\<rparr>"
  "dblk pool_ex d = \<lparr>db_freep = None, db_base = 4 * d, db_lim = 4 * d + rbsize ! (d div 2), db_ref = (if d = 0 then 1 else 0),
       db_type = M_DATA, db_class = d div 2, db_shared = 0\<rparr>"
  "mbfreelist pool_ex = Some 1" "dbfreelist pool_ex c = (if c = 0 then Some 1 else None)"
  "dba_cnt (dballoc pool_ex c) = (if c = 0 then 1 else 0)" "dba_med (dballoc pool_ex c) = 2"
  "nmblock pool_ex = 3" "v_nblk pool_ex c = (if c = 0 then 2 else 0)"
  "datap pool_ex b = (if b = 0 then Some 0 else None)" "ndblk pool_ex = 2"
  by (simp_all add: pool_ex_def datap_def ndblk_def NCLASS_def upt_rec)

lemma pool_ex_ok: "sb_ok pool_ex"
proof -
  have "sb_rep [1, 2] (\<lambda>c. if c = 0 then [1] else []) pool_ex"
    unfolding sb_rep_def
  proof (intro conjI allI impI)
    show "chain (mb_nx pool_ex) (mbfreelist pool_ex) [1, 2]" by (simp add: mb_nx_def)
    show "b \<in> set [1, 2] \<longleftrightarrow> b < nmblock pool_ex \<and> datap pool_ex b = None" for b by auto
    show "d < ndblk pool_ex" if "b < nmblock pool_ex \<and> datap pool_ex b = Some d" for b d
      using that by (auto split: if_splits)
    show "chain (db_nx pool_ex) (dbfreelist pool_ex c) (if c = 0 then [1] else [])" for c
      by (simp add: db_nx_def)
    show "d \<in> set (if c = 0 then [1] else []) \<longleftrightarrow>
        d < ndblk pool_ex \<and> db_class (dblk pool_ex d) = c \<and> db_ref (dblk pool_ex d) = 0" for c d by auto
    have "{d. d < 2 \<and> d div 2 = c \<and> (if d = 0 then 1 else 0) \<noteq> (0::nat)} = (if c = 0 then {0} else {})" for c :: nat
      by auto
    then show "dba_cnt (dballoc pool_ex c) =
        int (card {d. d < ndblk pool_ex \<and> db_class (dblk pool_ex d) = c \<and> db_ref (dblk pool_ex d) \<noteq> 0})" for c by simp
    fix d assume d: "d < ndblk pool_ex"
    then have "{b. b < (3::nat) \<and> (if b = 0 then Some 0 else None) = Some d} = (if d = 0 then {0} else {})" by auto
    then show "db_ref (dblk pool_ex d) = refs (nmblock pool_ex) (datap pool_ex) d"
      by (simp add: refs_def)
    show "db_class (dblk pool_ex d) < NCLASS" "db_ref (dblk pool_ex d) < 256" using d by (auto simp: NCLASS_def)
    show "db_lim (dblk pool_ex d) = db_base (dblk pool_ex d) + rbsize ! db_class (dblk pool_ex d)" using d by simp
  qed
  then show ?thesis by (auto simp: sb_ok_def)
qed

text \<open>What a successful allocation hands out, and that a failed one changes no block.\<close>

definition handed :: "int \<Rightarrow> stbuf \<Rightarrow> nat option \<Rightarrow> stbuf \<Rightarrow> bool" where
  "handed sz s p s' \<longleftrightarrow> (case p of None \<Rightarrow> mblk s' = mblk s \<and> dblk s' = dblk s
     | Some b \<Rightarrow> \<exists>d. b < nmblock s \<and> datap s b = None \<and> d < ndblk s \<and> db_ref (dblk s d) = 0 \<and> only b d s s' \<and>
         mblk s' b = \<lparr>b_next = None, b_prev = None, b_cont = None, b_rptr = db_base (dblk s' d),
           b_wptr = db_base (dblk s' d), b_datap = Some d\<rparr> \<and> db_type (dblk s' d) = M_DATA \<and>
         db_ref (dblk s' d) = 1 \<and> int (db_base (dblk s' d)) + sz \<le> int (db_lim (dblk s' d)))"

lemma handed_db_fail [simp]: "handed sz (db_fail c s) p s' = handed sz s p s'"
  by (cases p) (simp_all add: handed_def)

lemma gotdp_handed:
  assumes t: "sb_ok t" "k < NCLASS" "db_avail t k pri" "sz \<le> int (rbsize ! k)"
  shows "\<exists>p s'. gotdp k (the (dbfreelist t k)) t = (p, s') \<and> sb_ok s' \<and> (p \<noteq> None \<longleftrightarrow> mbfreelist t \<noteq> None) \<and>
    handed sz t p s'"
proof -
  from t(3) obtain d where d: "dbfreelist t k = Some d" by (auto simp: db_avail_def)
  show ?thesis
  proof (cases "mbfreelist t")
    case None
    with gotdp_spec [OF t(1,2) d] d show ?thesis by (auto simp: handed_def)
  next
    case (Some b)
    with gotdp_spec [OF t(1,2) d] obtain s' where g: "gotdp k d t = (Some b, s')" "sb_ok s'" "b < nmblock t"
      "datap t b = None" "d < ndblk t" "db_ref (dblk t d) = 0" "only b d t s'"
      "mblk s' b = \<lparr>b_next = None, b_prev = None, b_cont = None, b_rptr = db_base (dblk s' d),
         b_wptr = db_base (dblk s' d), b_datap = Some d\<rparr>" "db_type (dblk s' d) = M_DATA" "db_ref (dblk s' d) = 1"
      "db_lim (dblk s' d) = db_base (dblk s' d) + rbsize ! k" by auto
    with t(4) have "int (db_base (dblk s' d)) + sz \<le> int (db_lim (dblk s' d))" by simp
    with g Some d show ?thesis by (intro exI [of _ "Some b"] exI [of _ s']) (auto simp: handed_def)
  qed
qed

text \<open>C31: In a consistent pool \<open>allocb\<close> succeeds exactly when \<open>testb\<close> says so and a message block is
  free.  It then hands out an unused message block on an unused data block with room for the size
  asked for, empty, of type \<open>M_DATA\<close> and with one reference; every other block is as before.  When it
  fails no block changes.  The pool stays consistent.\<close>

theorem allocb_result:
  assumes ok: "sb_ok s"
  shows "\<exists>p s'. allocb sz pri s = (p, s') \<and> sb_ok s' \<and> (p \<noteq> None \<longleftrightarrow> testb sz pri s \<and> mbfreelist s \<noteq> None) \<and>
    handed sz s p s'"
proof -
  define c where "c = getclass sz"
  show ?thesis
  proof (cases "c < NCLASS")
    case False
    with ok show ?thesis by (simp add: allocb_def testb_def c_def [symmetric] Let_def handed_def)
  next
    case c: True
    then have fit: "sz \<le> int (rbsize ! c)" using getclass_fits c_def by simp
    show ?thesis
    proof (cases "db_avail s c pri")
      case True
      with gotdp_handed [OF ok c True fit] c show ?thesis by (simp add: allocb_def testb_def c_def [symmetric] Let_def)
    next
      case no: False
      show ?thesis
      proof (cases "Suc c < NCLASS \<and> db_avail s (Suc c) pri")
        case True
        then have "sz \<le> int (rbsize ! Suc c)" using fit rbsize_mono [of c] by linarith
        with gotdp_handed [of "db_fail c s" "Suc c" pri sz] True no c ok show ?thesis
          by (simp add: allocb_def testb_def c_def [symmetric] Let_def NCLASS_def)
      next
        case False
        with no c ok show ?thesis
          by (auto simp: allocb_def testb_def c_def [symmetric] Let_def NCLASS_def handed_def)
      qed
    qed
  qed
qed

theorem allocb_result_witness:
  "\<exists>p s'. allocb 3 BPRI_MED pool_ex = (p, s') \<and> sb_ok s' \<and> p = Some 1"
proof -
  have g: "getclass 3 = 0" by (simp add: getclass_def rbsize_def)
  show ?thesis using allocb_result [OF pool_ex_ok, of 3 BPRI_MED]
    by (auto simp: allocb_def g NCLASS_def db_avail_def bcmax_def gotdp_def)
qed

text \<open>C17: Freeing a message block returns it to the free list and keeps the pool consistent; its data
  block becomes free exactly when this was the last reference to it, and no other message block or data
  block is touched.\<close>

theorem freeb_releases:
  assumes "sb_ok s" "b < nmblock s" "datap s b = Some d"
  shows "sb_ok (freeb b s) \<and> mbfreelist (freeb b s) = Some b \<and> datap (freeb b s) b = None \<and>
    only b d s (freeb b s) \<and> refs (nmblock s) (datap (freeb b s)) d = refs (nmblock s) (datap s) d - 1 \<and>
    (dbfreelist (freeb b s) (db_class (dblk s d)) = Some d \<longleftrightarrow> refs (nmblock s) (datap s) d = 1)"
proof -
  from assms(1) obtain mf df where rep: "sb_rep mf df s" by (auto simp: sb_ok_def)
  let ?n = "refs (nmblock s) (datap s) d" let ?c = "db_class (dblk s d)"
  have dd: "dbp s b = d" using assms(3) by (simp add: dbp_def datap_def)
  have d: "d < ndblk s" "db_ref (dblk s d) = ?n" "?n < 256" "?c < NCLASS"
    using rep assms unfolding sb_rep_def by metis+
  have pos: "0 < ?n" using refs_pos [of b "nmblock s" "datap s" d] assms(2,3) by simp
  have r: "(db_ref (dblk s d) + 255) mod 256 = 0 \<longleftrightarrow> ?n = 1" using dec256 [OF pos d(3)] pos d(2) by auto
  have fl: "dbfreelist s ?c \<noteq> Some d"
  proof
    assume "dbfreelist s ?c = Some d"
    moreover have "chain (db_nx s) (dbfreelist s ?c) (df ?c)" using rep d(4) unfolding sb_rep_def by blast
    ultimately have "d \<in> set (df ?c)" by (auto simp: chain_Some)
    then have "db_ref (dblk s d) = 0" using rep d(4) unfolding sb_rep_def by blast
    with pos d(2) show False by simp
  qed
  note F = freeb_def Let_def upd_db_def upd_mb_def upd_ba_def mb_release_def dd
  have dp: "datap (freeb b s) = (datap s)(b := None)" by (auto simp: fun_eq_iff datap_def F)
  have "only b d s (freeb b s)" by (auto simp: only_def F)
  moreover have "dbfreelist (freeb b s) ?c = Some d \<longleftrightarrow> ?n = 1" using fl r by (auto simp: F)
  moreover have "mbfreelist (freeb b s) = Some b" by (simp add: F)
  moreover have "refs (nmblock s) (datap (freeb b s)) d = ?n - 1" unfolding dp
    using refs_drop [of b "nmblock s" "datap s" d d] assms by simp
  ultimately show ?thesis using freeb_rep [OF assms] dp by simp
qed

theorem freeb_releases_witness: "dbfreelist (freeb 0 pool_ex) 0 = Some 0"
proof -
  have "{b. b < 3 \<and> (if b = 0 then Some 0 else None) = Some (0::nat)} = {0::nat}" by auto
  then have "refs 3 (datap pool_ex) 0 = 1" by (simp add: refs_def)
  with freeb_releases [OF pool_ex_ok, of 0 0] show ?thesis by simp
qed

lemma dupb_step:
  assumes "mbfreelist s = Some n" "n \<noteq> b" "datap s b = Some d"
  shows "dupb b s = (Some n, snd (dupb b s))" "datap (snd (dupb b s)) = (datap s)(n := Some d)"
    "mbfreelist (snd (dupb b s)) = b_next (mblk s n)" "nmblock (snd (dupb b s)) = nmblock s"
    "db_ref (dblk (snd (dupb b s)) d) = (db_ref (dblk s d) + 1) mod 256"
    "db_class (dblk (snd (dupb b s)) x) = db_class (dblk s x)" "only n d s (snd (dupb b s))"
    "mblk (snd (dupb b s)) n = (mblk s b)\<lparr>b_next := None, b_prev := None, b_cont := None\<rparr>"
  using assms by (auto simp: dupb_def Let_def upd_mb_def upd_db_def dbp_def datap_def fun_eq_iff only_def)

lemma free_blocks:
  assumes "sb_ok s" "mbfreelist s = Some n"
  shows "n < nmblock s" "datap s n = None" "b_next (mblk s n) = Some m \<Longrightarrow> m \<noteq> n \<and> m < nmblock s \<and> datap s m = None"
proof -
  from assms obtain mf df where rep: "sb_rep mf df s" by (auto simp: sb_ok_def)
  then have c: "chain (mb_nx s) (Some n) mf" and m: "\<And>x. x \<in> set mf \<longleftrightarrow> x < nmblock s \<and> datap s x = None"
    using assms(2) unfolding sb_rep_def by (metis, blast)
  from c obtain gs where gs: "mf = n # gs" "chain (mb_nx s) (b_next (mblk s n)) gs"
    by (auto simp: chain_Some mb_nx_def)
  then show "n < nmblock s" "datap s n = None" using m [of n] by simp_all
  assume "b_next (mblk s n) = Some m"
  with gs(2) have "m \<in> set gs" by (auto simp: chain_Some)
  with gs(1) chain_distinct [OF c] m [of m] show "m \<noteq> n \<and> m < nmblock s \<and> datap s m = None" by auto
qed

text \<open>\<open>dupb\<close> makes a second message block for the same characters of the same data block and counts
  the reference; with fewer than 255 references the pool stays consistent.  It fails only when no message
  block is free.\<close>

theorem dupb_shares:
  assumes "sb_ok s" "b < nmblock s" "datap s b = Some d" "db_ref (dblk s d) < 255"
  shows "sb_ok (snd (dupb b s)) \<and> fst (dupb b s) = mbfreelist s \<and>
    (case mbfreelist s of None \<Rightarrow> mblk (snd (dupb b s)) = mblk s \<and> dblk (snd (dupb b s)) = dblk s
     | Some n \<Rightarrow> datap s n = None \<and> only n d s (snd (dupb b s)) \<and>
         mblk (snd (dupb b s)) n = (mblk s b)\<lparr>b_next := None, b_prev := None, b_cont := None\<rparr> \<and>
         refs (nmblock s) (datap (snd (dupb b s))) d = Suc (refs (nmblock s) (datap s) d))"
proof (cases "mbfreelist s")
  case None
  with assms show ?thesis by (simp add: dupb_def)
next
  case (Some n)
  note n = free_blocks [OF assms(1) Some]
  from n(2) assms(3) have "n \<noteq> b" by auto
  note st = dupb_step [OF Some this assms(3)]
  have "refs (nmblock s) ((datap s)(n := Some d)) d = Suc (refs (nmblock s) (datap s) d)"
    using refs_take [OF n(1), of "datap s" d d] n(2) by simp
  moreover have "fst (dupb b s) = Some n" using Some by (simp add: dupb_def Let_def)
  ultimately show ?thesis using Some st n(2) dupb_rep [OF assms] by simp
qed

theorem dupb_shares_witness: "sb_ok (snd (dupb 0 pool_ex)) \<and> fst (dupb 0 pool_ex) = Some 1"
  using dupb_shares [OF pool_ex_ok, of 0 0] by simp

text \<open>C32: \<open>db_ref\<close> is one byte and \<open>dupb\<close> does not check it.  When a data block with 255 references is
  duplicated the count becomes 0; after one more \<open>dupb\<close>, the first \<open>freeb\<close> puts the data block on the
  free list, from where \<open>allocb\<close> can hand it out, while 256 message blocks still refer to it.\<close>

theorem dupb_ref_wraps:
  assumes "sb_ok s" "b < nmblock s" "datap s b = Some d" "db_ref (dblk s d) = 255"
    and "dupb b s = (Some n, s1)" "dupb b s1 = (Some m, s2)"
  shows "db_ref (dblk s1 d) = 0 \<and> dbfreelist (freeb m s2) (db_class (dblk s d)) = Some d \<and>
    refs (nmblock s) (datap (freeb m s2)) d = 256"
proof -
  from assms(1) have "d < ndblk s" "\<forall>x<ndblk s. db_ref (dblk s x) = refs (nmblock s) (datap s) x"
    using assms(2,3) unfolding sb_ok_def sb_rep_def by blast+
  with assms(4) have r: "refs (nmblock s) (datap s) d = 255" by simp
  have fn: "mbfreelist s = Some n" using assms(5) by (auto simp: dupb_def Let_def split: option.splits)
  note n = free_blocks [OF assms(1) fn]
  from n(2) assms(3) have nb: "n \<noteq> b" by auto
  note S1 = dupb_step [OF fn nb assms(3), unfolded assms(5) snd_conv]
  have fm: "mbfreelist s1 = Some m" using assms(6) by (auto simp: dupb_def Let_def split: option.splits)
  with S1(3) have m: "m \<noteq> n" "m < nmblock s" "datap s m = None" using n(3) by auto
  then have mb: "m \<noteq> b" "datap s1 b = Some d" using assms(3) S1(2) nb by auto
  note S2 = dupb_step [OF fm mb, unfolded assms(6) snd_conv]
  have ref: "db_ref (dblk s2 d) = 1" "db_ref (dblk s1 d) = 0" using S1(5) S2(5) assms(4) by simp_all
  have dm: "datap s2 m = Some d" "dbp s2 m = d" using S2(2) by (simp_all add: dbp_def datap_def fun_eq_iff)
  have "datap (freeb m s2) = (datap s2)(m := None)"
    by (auto simp: fun_eq_iff datap_def freeb_def Let_def upd_db_def upd_mb_def upd_ba_def mb_release_def)
  also have "\<dots> = (datap s)(n := Some d)" using S2(2) S1(2) m by (auto simp: fun_eq_iff)
  finally have "refs (nmblock s) (datap (freeb m s2)) d = 256"
    using refs_take [OF n(1), of "datap s" d d] n(2) r by simp
  moreover have "dbfreelist (freeb m s2) (db_class (dblk s2 d)) = Some d"
    by (simp add: freeb_def Let_def upd_db_def upd_mb_def upd_ba_def mb_release_def dm ref)
  ultimately show ?thesis using ref S2(6) S1(6) by simp
qed

text \<open>A pool whose data block has 255 references, of 257 message blocks.\<close>

definition wrap_ex :: stbuf where
  "wrap_ex = pool_ex\<lparr>mblk := (\<lambda>b. \<lparr>b_next = (if b = 255 then Some 256 else None), b_prev = None, b_cont = None,
       b_rptr = 0, b_wptr = 4, b_datap = (if b < 255 then Some 0 else None)\<rparr>),
     dblk := (\<lambda>d. \<lparr>db_freep = None, db_base = 0, db_lim = 4, db_ref = 255, db_type = M_DATA, db_class = 0, db_shared = 0\<rparr>),
     mbfreelist := Some 255, dbfreelist := (\<lambda>c. None), nmblock := 257, v_nblk := (\<lambda>c. if c = 0 then 1 else 0)\<rparr>"

lemma wrap_ex_sel [simp]:
  "mblk wrap_ex b = \<lparr>b_next = (if b = 255 then Some 256 else None), b_prev = None, b_cont = None,
       b_rptr = 0, b_wptr = 4, b_datap = (if b < 255 then Some 0 else None)\<rparr>"
  "dblk wrap_ex d = \<lparr>db_freep = None, db_base = 0, db_lim = 4, db_ref = 255, db_type = M_DATA, db_class = 0, db_shared = 0\<rparr>"
  "mbfreelist wrap_ex = Some 255" "dbfreelist wrap_ex c = None" "dba_cnt (dballoc wrap_ex c) = (if c = 0 then 1 else 0)"
  "nmblock wrap_ex = 257" "v_nblk wrap_ex c = (if c = 0 then 1 else 0)"
  "datap wrap_ex b = (if b < 255 then Some 0 else None)" "ndblk wrap_ex = 1"
  by (simp_all add: wrap_ex_def pool_ex_def datap_def ndblk_def NCLASS_def upt_rec)

lemma wrap_ex_ok: "sb_ok wrap_ex"
proof -
  have "sb_rep [255, 256] (\<lambda>c. []) wrap_ex"
    unfolding sb_rep_def
  proof (intro conjI allI impI)
    show "chain (mb_nx wrap_ex) (mbfreelist wrap_ex) [255, 256]" by (simp add: mb_nx_def)
    show "b \<in> set [255, 256] \<longleftrightarrow> b < nmblock wrap_ex \<and> datap wrap_ex b = None" for b by auto
    show "d < ndblk wrap_ex" if "b < nmblock wrap_ex \<and> datap wrap_ex b = Some d" for b d
      using that by (auto split: if_splits)
    show "chain (db_nx wrap_ex) (dbfreelist wrap_ex c) []" for c by simp
    show "d \<in> set [] \<longleftrightarrow> d < ndblk wrap_ex \<and> db_class (dblk wrap_ex d) = c \<and> db_ref (dblk wrap_ex d) = 0" for c d by simp
    have "{d. d < Suc 0 \<and> 0 = c} = (if c = 0 then {0} else {})" for c :: nat by auto
    then show "dba_cnt (dballoc wrap_ex c) =
        int (card {d. d < ndblk wrap_ex \<and> db_class (dblk wrap_ex d) = c \<and> db_ref (dblk wrap_ex d) \<noteq> 0})" for c
      by simp
    fix d assume d: "d < ndblk wrap_ex"
    have "{b. b < (257::nat) \<and> (if b < 255 then Some (0::nat) else None) = Some 0} = {..<255}" by auto
    with d show "db_ref (dblk wrap_ex d) = refs (nmblock wrap_ex) (datap wrap_ex) d"
      by (simp add: refs_def)
    show "db_class (dblk wrap_ex d) < NCLASS" "db_ref (dblk wrap_ex d) < 256" by (simp_all add: NCLASS_def)
    show "db_lim (dblk wrap_ex d) = db_base (dblk wrap_ex d) + rbsize ! db_class (dblk wrap_ex d)"
      by (simp add: rbsize_def)
  qed
  then show ?thesis by (auto simp: sb_ok_def)
qed

theorem dupb_ref_wraps_witness:
  "\<exists>m s2. dbfreelist (freeb m s2) 0 = Some 0 \<and> refs 257 (datap (freeb m s2)) 0 = 256"
proof -
  define s1 where "s1 = snd (dupb 0 wrap_ex)"
  have 1: "dupb 0 wrap_ex = (Some 255, s1)" by (simp add: s1_def dupb_def Let_def)
  have "mbfreelist s1 = Some 256" by (simp add: s1_def dupb_def Let_def upd_mb_def upd_db_def)
  then obtain s2 where "dupb 0 s1 = (Some 256, s2)" by (simp add: dupb_def Let_def)
  from dupb_ref_wraps [OF wrap_ex_ok _ _ _ 1 this, of 0] show ?thesis by (intro exI [of _ 256] exI [of _ s2]) simp
qed

subsection \<open>The characters of a message\<close>

definition mb_bytes :: "stbuf \<Rightarrow> nat \<Rightarrow> 8 word list" where
  "mb_bytes s b = map (smem s) [b_rptr (mblk s b)..<b_wptr (mblk s b)]"

definition bytes :: "stbuf \<Rightarrow> nat list \<Rightarrow> 8 word list" where
  "bytes s bs = concat (map (mb_bytes s) bs)"

text \<open>The states that differ only in the read and write pointers of the blocks \<open>bs\<close>, which stay in
  order.\<close>

definition trims :: "nat list \<Rightarrow> stbuf \<Rightarrow> stbuf \<Rightarrow> bool" where
  "trims bs s s' \<longleftrightarrow> (\<exists>m. s' = s\<lparr>mblk := m\<rparr> \<and> (\<forall>b. b \<notin> set bs \<longrightarrow> m b = mblk s b) \<and>
     (\<forall>b. b_cont (m b) = b_cont (mblk s b) \<and> b_datap (m b) = b_datap (mblk s b)) \<and>
     (\<forall>b\<in>set bs. b_rptr (mblk s b) \<le> b_rptr (m b) \<and> b_rptr (m b) \<le> b_wptr (m b) \<and> b_wptr (m b) \<le> b_wptr (mblk s b)))"

lemma trims_refl: "(\<And>b. b \<in> set bs \<Longrightarrow> b_rptr (mblk s b) \<le> b_wptr (mblk s b)) \<Longrightarrow> trims bs s s"
  by (auto simp: trims_def intro: exI [of _ "mblk s"])

lemma trims_Nil [simp]: "trims [] s s"
  by (rule trims_refl) simp

lemma trims_trans:
  assumes "trims bs s t" "trims bs t u"
  shows "trims bs s u"
proof -
  from assms(1) obtain m where m: "t = s\<lparr>mblk := m\<rparr>" "\<And>b. b \<notin> set bs \<Longrightarrow> m b = mblk s b"
    "\<And>b. b_cont (m b) = b_cont (mblk s b) \<and> b_datap (m b) = b_datap (mblk s b)"
    "\<And>b. b \<in> set bs \<Longrightarrow> b_rptr (mblk s b) \<le> b_rptr (m b) \<and> b_wptr (m b) \<le> b_wptr (mblk s b)"
    by (auto simp: trims_def)
  from assms(2) obtain k where k: "u = t\<lparr>mblk := k\<rparr>" "\<And>b. b \<notin> set bs \<Longrightarrow> k b = mblk t b"
    "\<And>b. b_cont (k b) = b_cont (mblk t b) \<and> b_datap (k b) = b_datap (mblk t b)"
    "\<And>b. b \<in> set bs \<Longrightarrow> b_rptr (mblk t b) \<le> b_rptr (k b) \<and> b_rptr (k b) \<le> b_wptr (k b) \<and> b_wptr (k b) \<le> b_wptr (mblk t b)"
    by (auto simp: trims_def)
  show ?thesis unfolding trims_def
  proof (intro exI [of _ k] conjI allI ballI impI)
    show "u = s\<lparr>mblk := k\<rparr>" using m(1) k(1) by simp
    show "k b = mblk s b" if "b \<notin> set bs" for b using k(2) m(1,2) that by simp
    show "b_cont (k b) = b_cont (mblk s b)" "b_datap (k b) = b_datap (mblk s b)" for b using k(3) m(1,3) by simp_all
    fix b assume b: "b \<in> set bs"
    then show "b_rptr (mblk s b) \<le> b_rptr (k b)" "b_rptr (k b) \<le> b_wptr (k b)" "b_wptr (k b) \<le> b_wptr (mblk s b)"
      using k(4) [OF b] m(4) [OF b] m(1) by auto
  qed
qed

lemma trims_conts:
  assumes "trims bs s s'"
  shows "conts s' p = conts s p" "mb_type s' b = mb_type s b" "front s' b = front s b" "nmblock s' = nmblock s"
    "b \<notin> set bs \<Longrightarrow> mb_bytes s' b = mb_bytes s b" "smem s' = smem s"
proof -
  from assms obtain m where m: "s' = s\<lparr>mblk := m\<rparr>" "\<forall>b. b \<notin> set bs \<longrightarrow> m b = mblk s b"
    "\<forall>b. b_cont (m b) = b_cont (mblk s b) \<and> b_datap (m b) = b_datap (mblk s b)" by (auto simp: trims_def)
  then show "conts s' p = conts s p" for p by (simp add: conts_def)
  moreover from m show "mb_type s' b = mb_type s b" for b by (simp add: mb_type_def dbp_def)
  ultimately show "front s' b = front s b" by (simp add: front_def)
  show "nmblock s' = nmblock s" "smem s' = smem s" using m by simp_all
  show "mb_bytes s' b = mb_bytes s b" if "b \<notin> set bs" using m that by (simp add: mb_bytes_def)
qed

lemma trims_one:
  assumes "b_rptr (mblk s b) \<le> b_rptr x" "b_rptr x \<le> b_wptr x" "b_wptr x \<le> b_wptr (mblk s b)" "b \<in> set bs"
    "b_cont x = b_cont (mblk s b)" "b_datap x = b_datap (mblk s b)"
    "\<And>c. c \<in> set bs \<Longrightarrow> b_rptr (mblk s c) \<le> b_wptr (mblk s c)"
  shows "trims bs s (s\<lparr>mblk := (mblk s)(b := x)\<rparr>)"
  using assms by (auto simp: trims_def intro!: exI [of _ "(mblk s)(b := x)"])

lemma trims_mono: "trims bs s s' \<Longrightarrow> set bs \<subseteq> set cs \<Longrightarrow> (\<And>c. c \<in> set cs \<Longrightarrow> b_rptr (mblk s c) \<le> b_wptr (mblk s c)) \<Longrightarrow>
  trims cs s s'"
proof -
  assume a: "trims bs s s'" "set bs \<subseteq> set cs" "\<And>c. c \<in> set cs \<Longrightarrow> b_rptr (mblk s c) \<le> b_wptr (mblk s c)"
  from a(1) obtain m where m: "s' = s\<lparr>mblk := m\<rparr>" "\<forall>b. b \<notin> set bs \<longrightarrow> m b = mblk s b"
    "\<forall>b. b_cont (m b) = b_cont (mblk s b) \<and> b_datap (m b) = b_datap (mblk s b)"
    "\<forall>b\<in>set bs. b_rptr (mblk s b) \<le> b_rptr (m b) \<and> b_rptr (m b) \<le> b_wptr (m b) \<and> b_wptr (m b) \<le> b_wptr (mblk s b)"
    by (auto simp: trims_def)
  have "\<forall>b\<in>set cs. b_rptr (mblk s b) \<le> b_rptr (m b) \<and> b_rptr (m b) \<le> b_wptr (m b) \<and> b_wptr (m b) \<le> b_wptr (mblk s b)"
  proof
    fix b assume "b \<in> set cs"
    then show "b_rptr (mblk s b) \<le> b_rptr (m b) \<and> b_rptr (m b) \<le> b_wptr (m b) \<and> b_wptr (m b) \<le> b_wptr (mblk s b)"
      using m(2,4) a(3) by (cases "b \<in> set bs") auto
  qed
  with m a(2) show "trims cs s s'" unfolding trims_def by (intro exI [of _ m]) auto
qed

lemma mb_len_bytes: "b_rptr (mblk s b) \<le> b_wptr (mblk s b) \<Longrightarrow> mb_len s b = int (length (mb_bytes s b))"
  by (simp add: mb_len_def mb_bytes_def of_nat_diff)

lemma sum_mb_len: "(\<And>b. b \<in> set bs \<Longrightarrow> b_rptr (mblk s b) \<le> b_wptr (mblk s b)) \<Longrightarrow>
  sum_list (map (mb_len s) bs) = int (length (bytes s bs))"
  by (induction bs) (simp_all add: bytes_def mb_len_bytes)

lemma adj_head_bytes:
  assumes "distinct fr" "\<And>b. b \<in> set fr \<Longrightarrow> b_rptr (mblk s b) \<le> b_wptr (mblk s b)"
    "0 \<le> len" "len \<le> int (length (bytes s fr))"
  shows "trims fr s (adj_head (fr @ rest) len s) \<and> bytes (adj_head (fr @ rest) len s) fr = drop (nat len) (bytes s fr)"
  using assms
proof (induction fr arbitrary: len s)
  case Nil
  then have "len = 0" by (simp add: bytes_def)
  with Nil show ?case by (cases rest) (simp_all add: trims_refl bytes_def)
next
  case (Cons b fr)
  show ?case
  proof (cases "len = 0")
    case True
    with trims_refl [of "b # fr" s] Cons.prems(2) show ?thesis by simp
  next
    case False
    define n where "n = min (mb_len s b) len"
    define s1 where "s1 = upd_mb b (\<lambda>x. x\<lparr>b_rptr := b_rptr x + nat n\<rparr>) s"
    have bl: "b_rptr (mblk s b) \<le> b_wptr (mblk s b)" using Cons.prems by simp
    note L = mb_len_bytes [OF bl]
    have n: "0 \<le> n" "n \<le> mb_len s b" "n \<le> len" using L False Cons.prems(3) by (auto simp: n_def)
    have t1: "trims [b] s s1"
      unfolding s1_def upd_mb_def using bl n by (intro trims_one) (auto simp: mb_len_def)
    have fb: "mb_bytes s1 c = mb_bytes s c" if "c \<in> set fr" for c
      using trims_conts(5) [OF t1, of c] that Cons.prems(1) by auto
    then have bfr: "bytes s1 fr = bytes s fr" by (simp add: bytes_def cong: map_cong)
    have b1: "mb_bytes s1 b = drop (nat n) (mb_bytes s b)"
      using n bl by (simp add: mb_bytes_def s1_def upd_mb_def drop_map drop_upt)
    have w1: "b_rptr (mblk s1 c) \<le> b_wptr (mblk s1 c)" if "c \<in> set fr" for c
      using Cons.prems(1,2) that by (auto simp: s1_def upd_mb_def)
    have le: "len - n \<le> int (length (bytes s1 fr))"
      using Cons.prems(4) L unfolding bfr by (auto simp: bytes_def n_def)
    have IH: "trims fr s1 (adj_head (fr @ rest) (len - n) s1) \<and>
        bytes (adj_head (fr @ rest) (len - n) s1) fr = drop (nat (len - n)) (bytes s1 fr)"
      by (rule Cons.IH) (use Cons.prems(1) w1 n le in auto)
    let ?s2 = "adj_head (fr @ rest) (len - n) s1"
    have eq: "adj_head ((b # fr) @ rest) len s = ?s2" using False by (simp add: n_def s1_def Let_def)
    have b2: "mb_bytes ?s2 b = mb_bytes s1 b" using trims_conts(5) [of fr s1 ?s2 b] IH Cons.prems(1) by simp
    have w2: "b_rptr (mblk s1 c) \<le> b_wptr (mblk s1 c)" if "c \<in> set (b # fr)" for c
      using that w1 [of c] bl n by (cases "c = b") (simp_all add: s1_def upd_mb_def mb_len_def)
    have "trims (b # fr) s s1" using trims_mono [OF t1, of "b # fr"] Cons.prems(2) by auto
    moreover have "trims (b # fr) s1 ?s2" using trims_mono [of fr s1 ?s2 "b # fr"] IH w2 by auto
    ultimately have "trims (b # fr) s ?s2" by (rule trims_trans)
    moreover have "bytes ?s2 (b # fr) = drop (nat len) (bytes s (b # fr))"
    proof -
      have "nat len - length (mb_bytes s b) = nat (len - n)" using L n by (auto simp: n_def min_def)
      moreover have "drop (nat n) (mb_bytes s b) = drop (nat len) (mb_bytes s b)"
        using L n by (auto simp: n_def min_def)
      ultimately show ?thesis using IH b1 b2 bfr by (simp add: bytes_def)
    qed
    ultimately show ?thesis unfolding eq by blast
  qed
qed

lemma adj_tail_bytes:
  assumes "front s mp = fr" "distinct fr" "\<And>b. b \<in> set fr \<Longrightarrow> b_rptr (mblk s b) \<le> b_wptr (mblk s b)"
    "0 \<le> len" "len \<le> int (length (bytes s fr))" "length (filter (\<lambda>b. mb_len s b > 0) fr) \<le> k"
  shows "trims fr s (adj_tail k mp len s) \<and>
    bytes (adj_tail k mp len s) fr = take (length (bytes s fr) - nat len) (bytes s fr)"
  using assms
proof (induction k arbitrary: len s)
  case 0
  then have "filter (\<lambda>b. mb_len s b > 0) fr = []" by simp
  then have "\<forall>b\<in>set fr. \<not> mb_len s b > 0" by (simp only: filter_empty_conv)
  then have "\<forall>b\<in>set fr. mb_bytes s b = []" using 0(3) by (auto simp: mb_len_bytes)
  then have "bytes s fr = []" by (simp add: bytes_def)
  with 0 show ?case by (simp add: trims_refl)
next
  case (Suc k)
  let ?P = "\<lambda>b. mb_len s b > 0"
  show ?case
  proof (cases "len = 0")
    case True
    with Suc.prems show ?thesis by (simp add: trims_refl)
  next
    case False
    have "filter ?P fr \<noteq> []"
    proof
      assume "filter ?P fr = []"
      then have "\<forall>b\<in>set fr. mb_bytes s b = []" using Suc.prems(3) by (auto simp: filter_empty_conv mb_len_bytes)
      then have "bytes s fr = []" by (simp add: bytes_def)
      with Suc.prems(4,5) False show False by simp
    qed
    then obtain us b vs where sp: "fr = us @ b # vs" "?P b" "\<And>c. c \<in> set vs \<Longrightarrow> \<not> ?P c"
      using split_list_last_prop [of fr ?P] by (auto simp: filter_empty_conv)
    have b: "b \<in> set fr" "b \<notin> set us" "b \<notin> set vs" using sp(1) Suc.prems(2) by auto
    have lo: "last_opt (filter ?P fr) = Some b"
    proof -
      have "filter ?P vs = []" using sp(3) by (simp add: filter_empty_conv)
      with sp(1,2) show ?thesis by simp
    qed
    define n where "n = min (mb_len s b) len"
    define s1 where "s1 = upd_mb b (\<lambda>x. x\<lparr>b_wptr := b_wptr x - nat n\<rparr>) s"
    have bl: "b_rptr (mblk s b) \<le> b_wptr (mblk s b)" using Suc.prems(3) b by simp
    note L = mb_len_bytes [OF bl]
    have n: "0 \<le> n" "n \<le> mb_len s b" "n \<le> len" using sp(2) Suc.prems(4) by (auto simp: n_def)
    have t1: "trims fr s s1" unfolding s1_def upd_mb_def
      using bl n Suc.prems(3) b by (intro trims_one) (auto simp: mb_len_def)
    have t0: "trims [b] s s1" unfolding s1_def upd_mb_def using bl n by (intro trims_one) (auto simp: mb_len_def)
    have same: "mb_bytes s1 c = mb_bytes s c" if "c \<noteq> b" for c using trims_conts(5) [OF t0, of c] that by simp
    have b1: "mb_bytes s1 b = take (length (mb_bytes s b) - nat n) (mb_bytes s b)"
      using n bl by (simp add: mb_bytes_def s1_def upd_mb_def take_map take_upt mb_len_def)
    have vs: "bytes s vs = []" "bytes s1 vs = []"
    proof -
      have "\<forall>c\<in>set vs. mb_bytes s c = []" using sp(1,3) Suc.prems(3) by (auto simp: mb_len_bytes)
      moreover have "mb_bytes s1 c = mb_bytes s c" if "c \<in> set vs" for c using same [of c] that b(3) by auto
      ultimately show "bytes s vs = []" "bytes s1 vs = []" by (simp_all add: bytes_def)
    qed
    have "mb_bytes s1 c = mb_bytes s c" if "c \<in> set us" for c using same [of c] that b(2) by auto
    then have us: "bytes s1 us = bytes s us" by (simp add: bytes_def cong: map_cong)
    have B: "bytes s fr = bytes s us @ mb_bytes s b" "bytes s1 fr = bytes s us @ mb_bytes s1 b"
      using vs us unfolding sp(1) by (simp_all add: bytes_def)
    have w1: "b_rptr (mblk s1 c) \<le> b_wptr (mblk s1 c)" if "c \<in> set fr" for c
      using that Suc.prems(3) [OF that] bl n by (auto simp: s1_def upd_mb_def mb_len_def)
    have lenb: "int (length (mb_bytes s1 b)) = mb_len s b - n" using b1 L n by simp
    let ?t = "adj_tail k mp (len - n) s1"
    have IH: "trims fr s1 ?t \<and> bytes ?t fr = take (length (bytes s1 fr) - nat (len - n)) (bytes s1 fr)"
    proof (cases "n = len")
      case True
      then have "?t = s1" by (cases k) simp_all
      with True w1 show ?thesis by (simp add: trims_refl)
    next
      case False
      then have nb: "n = mb_len s b" by (auto simp: n_def)
      then have "\<not> mb_len s1 b > 0" using lenb mb_len_bytes [OF w1 [OF b(1)]] by simp
      moreover have "filter (\<lambda>c. mb_len s1 c > 0) us = filter ?P us" "filter (\<lambda>c. mb_len s1 c > 0) vs = filter ?P vs"
        using b by (auto simp: s1_def upd_mb_def mb_len_def intro!: filter_cong)
      ultimately have "length (filter (\<lambda>c. mb_len s1 c > 0) fr) \<le> k" using Suc.prems(6) sp by simp
      moreover have "len - n \<le> int (length (bytes s1 fr))" using Suc.prems(5) B lenb L nb by simp
      ultimately show ?thesis using Suc.IH [of s1 "len - n"] trims_conts(3) [OF t1] Suc.prems(1,2) w1 n by simp
    qed
    have eq: "adj_tail (Suc k) mp len s = ?t" using False lo Suc.prems(1) by (simp add: n_def s1_def Let_def)
    have "take (length (bytes s1 fr) - nat (len - n)) (bytes s1 fr) = take (length (bytes s fr) - nat len) (bytes s fr)"
    proof (cases "n = len")
      case True
      with B b1 L n show ?thesis by simp
    next
      case False
      then have "n = mb_len s b" by (auto simp: n_def)
      with B b1 L n show ?thesis by (simp add: nat_diff_distrib)
    qed
    with trims_trans [OF t1] IH show ?thesis unfolding eq by simp
  qed
qed



end
