(* ===== verification/Strq.thy ===== *)
theory Strq imports Strbuf Dll Prio begin

text \<open>
  STREAMS queues, the second half of io/stream.c: queues of messages with flow control, the run list
  of enabled queues and the scheduler.  Queues are numbered as in the array \<open>queue\<close>, reader before
  writer; \<open>sb\<close> is the buffer pool of theory \<open>Strbuf\<close>.  A flag of \<open>q_flag\<close> is named by its bit number.
  Put and service procedures belong to drivers and modules: \<open>putp\<close>, \<open>srvp\<close> and \<open>evfn\<close> are
  parameters, run by number.
\<close>

record qinit =
  qi_putp :: nat
  qi_srvp :: "nat option"

record queue =
  q_qinfo :: "qinit option"
  q_first :: "nat option"
  q_last :: "nat option"
  q_next :: "nat option"
  q_link :: "nat option"
  q_ptr :: "nat option"
  q_count :: "16 word"
  q_flag :: "16 word"
  q_minpsz :: int
  q_maxpsz :: int
  q_hiwat :: "16 word"
  q_lowat :: "16 word"

abbreviation (input) QENAB :: nat where "QENAB \<equiv> 0"
abbreviation (input) QWANTR :: nat where "QWANTR \<equiv> 1"
abbreviation (input) QWANTW :: nat where "QWANTW \<equiv> 2"
abbreviation (input) QFULL :: nat where "QFULL \<equiv> 3"
abbreviation (input) QREADR :: nat where "QREADR \<equiv> 4"
abbreviation (input) QUSE :: nat where "QUSE \<equiv> 5"
abbreviation (input) QNOENB :: nat where "QNOENB \<equiv> 6"

record strq =
  sb :: stbuf
  queues :: "nat \<Rightarrow> queue"
  qhead :: "nat option"
  qtail :: "nat option"
  queueflag :: bool
  v_nqueue :: nat
  st_queue :: alcdat

definition upd_q :: "nat \<Rightarrow> (queue \<Rightarrow> queue) \<Rightarrow> strq \<Rightarrow> strq" where
  "upd_q q f s = s\<lparr>queues := (queues s)(q := f (queues s q))\<rparr>"

definition upd_b :: "nat \<Rightarrow> (msgb \<Rightarrow> msgb) \<Rightarrow> strq \<Rightarrow> strq" where
  "upd_b b f s = s\<lparr>sb := upd_mb b f (sb s)\<rparr>"

definition has :: "nat \<Rightarrow> strq \<Rightarrow> nat \<Rightarrow> bool" where
  "has k s q = bit (q_flag (queues s q)) k"

definition set_f :: "nat \<Rightarrow> nat \<Rightarrow> strq \<Rightarrow> strq" where
  "set_f k q s = upd_q q (\<lambda>x. x\<lparr>q_flag := set_bit k (q_flag x)\<rparr>) s"

definition clr_f :: "nat \<Rightarrow> nat \<Rightarrow> strq \<Rightarrow> strq" where
  "clr_f k q s = upd_q q (\<lambda>x. x\<lparr>q_flag := unset_bit k (q_flag x)\<rparr>) s"

definition srv :: "strq \<Rightarrow> nat \<Rightarrow> nat option" where
  "srv s q = (case q_qinfo (queues s q) of None \<Rightarrow> None | Some i \<Rightarrow> qi_srvp i)"

definition datamsg :: "int \<Rightarrow> bool" where
  "datamsg t \<longleftrightarrow> t = M_DATA \<or> t = M_PROTO \<or> t = M_PCPROTO"

text \<open>\<open>queueclass\<close>: 0 is QNORM, 128 is QPCTL.\<close>

definition queueclass :: "strq \<Rightarrow> nat \<Rightarrow> int" where
  "queueclass s b = mb_type (sb s) b AND 128"

definition OTHERQ :: "strq \<Rightarrow> nat \<Rightarrow> nat" where
  "OTHERQ s q = (if has QREADR s q then q + 1 else q - 1)"

definition backq :: "nat \<Rightarrow> strq \<Rightarrow> nat option" where
  "backq q s = map_option (OTHERQ s) (q_next (queues s (OTHERQ s q)))"

subsection \<open>Scheduling a queue\<close>

definition qenable :: "nat \<Rightarrow> strq \<Rightarrow> strq" where
  "qenable q s = (if srv s q = None then s
     else if has QENAB s q then s
     else let s1 = set_f QENAB q s;
              s2 = (case qhead s1 of None \<Rightarrow> s1\<lparr>qhead := Some q\<rparr>
                    | Some _ \<Rightarrow> upd_q (the (qtail s1)) (\<lambda>x. x\<lparr>q_link := Some q\<rparr>) s1)
          in upd_q q (\<lambda>x. x\<lparr>q_link := None\<rparr>) (s2\<lparr>qtail := Some q, sb := (sb s2)\<lparr>qrunflag := True\<rparr>\<rparr>))"

text \<open>The nearest back queue with a service procedure; the number of queues is enough fuel for a
  stream.\<close>

primrec back_srv :: "nat \<Rightarrow> nat option \<Rightarrow> strq \<Rightarrow> nat option" where
  "back_srv 0 p s = None"
| "back_srv (Suc n) p s = (case p of None \<Rightarrow> None
     | Some q \<Rightarrow> if srv s q \<noteq> None then Some q else back_srv n (backq q s) s)"

definition back_enable :: "nat \<Rightarrow> strq \<Rightarrow> strq" where
  "back_enable q s = (case back_srv (v_nqueue s) (backq q s) s of None \<Rightarrow> s | Some r \<Rightarrow> qenable r s)"

definition unblock :: "nat \<Rightarrow> strq \<Rightarrow> strq" where
  "unblock q s = (if q_count (queues s q) \<le> q_lowat (queues s q) \<and> has QWANTW s q
     then back_enable q (clr_f QWANTW q s) else s)"

definition canput :: "nat option \<Rightarrow> strq \<Rightarrow> bool \<times> strq" where
  "canput p s = (case p of None \<Rightarrow> (False, s) | Some q0 \<Rightarrow>
     (let fwd = \<lambda>q. if srv s q = None then q_next (queues s q) else None;
          q = last (follow (Suc (v_nqueue s)) fwd (Some q0))
      in if has QFULL s q then (False, set_f QWANTW q s) else (True, s)))"

subsection \<open>Messages on a queue\<close>

definition msg_weight :: "stbuf \<Rightarrow> nat \<Rightarrow> 16 word" where
  "msg_weight s b = sum_list (map (\<lambda>c. of_nat (bsize ! db_class (dblk s (dbp s c)))) (conts s (Some b)))"

definition q_sub :: "nat \<Rightarrow> nat \<Rightarrow> strq \<Rightarrow> strq" where
  "q_sub q b s = (let s1 = upd_q q (\<lambda>x. x\<lparr>q_count := q_count x - msg_weight (sb s) b\<rparr>) s
     in if q_count (queues s1 q) < q_hiwat (queues s1 q) then clr_f QFULL q s1 else s1)"

definition q_add :: "nat \<Rightarrow> nat \<Rightarrow> strq \<Rightarrow> strq" where
  "q_add q b s = (let s1 = upd_q q (\<lambda>x. x\<lparr>q_count := q_count x + msg_weight (sb s) b\<rparr>) s
     in if q_count (queues s1 q) \<ge> q_hiwat (queues s1 q) then set_f QFULL q s1 else s1)"

definition getq :: "nat \<Rightarrow> strq \<Rightarrow> nat option \<times> strq" where
  "getq q s =
     (let p = q_first (queues s q);
          s1 = (case p of None \<Rightarrow> set_f QWANTR q s
                | Some b \<Rightarrow>
                    let nx = b_next (mblk (sb s) b);
                        s2 = upd_q q (\<lambda>x. x\<lparr>q_first := nx\<rparr>) s;
                        s3 = (case nx of None \<Rightarrow> upd_q q (\<lambda>x. x\<lparr>q_last := None\<rparr>) s2
                              | Some c \<Rightarrow> upd_b c (\<lambda>x. x\<lparr>b_prev := None\<rparr>) s2)
                    in upd_b b (\<lambda>x. x\<lparr>b_next := None, b_prev := None\<rparr>) (clr_f QWANTR q (q_sub q b s3)))
      in (p, unblock q s1))"

definition rmvq :: "nat \<Rightarrow> nat \<Rightarrow> strq \<Rightarrow> strq" where
  "rmvq q b s =
     (let nx = b_next (mblk (sb s) b); pv = b_prev (mblk (sb s) b);
          s1 = (case pv of Some p \<Rightarrow> upd_b p (\<lambda>x. x\<lparr>b_next := nx\<rparr>) s
                | None \<Rightarrow> upd_q q (\<lambda>x. x\<lparr>q_first := nx\<rparr>) s);
          s2 = (case nx of Some n \<Rightarrow> upd_b n (\<lambda>x. x\<lparr>b_prev := pv\<rparr>) s1
                | None \<Rightarrow> upd_q q (\<lambda>x. x\<lparr>q_last := pv\<rparr>) s1)
      in unblock q (q_sub q b (upd_b b (\<lambda>x. x\<lparr>b_next := None, b_prev := None\<rparr>) s2)))"

definition q_msgs :: "nat \<Rightarrow> strq \<Rightarrow> nat list" where
  "q_msgs q s = follow (nmblock (sb s)) (mb_nx (sb s)) (q_first (queues s q))"

text \<open>After a message is put on: the end of \<open>putq\<close> and \<open>putbq\<close>.\<close>

definition put_enable :: "nat \<Rightarrow> nat \<Rightarrow> strq \<Rightarrow> strq" where
  "put_enable q b s = (if queueclass s b > 0 \<or> \<not> has QNOENB s q \<and> has QWANTR s q then qenable q s else s)"

text \<open>The loop of \<open>putq\<close> stops at the first message of a lower class; the last one is.\<close>

definition putq :: "nat \<Rightarrow> nat \<Rightarrow> strq \<Rightarrow> strq" where
  "putq q b s =
     (let mcls = queueclass s b; f = q_first (queues s q); l = q_last (queues s q);
          s1 = (if f = None \<or> mcls \<le> queueclass s (the l) then
                  upd_q q (\<lambda>x. x\<lparr>q_last := Some b\<rparr>) (upd_b b (\<lambda>x. x\<lparr>b_next := None\<rparr>)
                    (if f \<noteq> None then upd_b b (\<lambda>x. x\<lparr>b_prev := l\<rparr>) (upd_b (the l) (\<lambda>x. x\<lparr>b_next := Some b\<rparr>) s)
                     else upd_b b (\<lambda>x. x\<lparr>b_prev := None\<rparr>) (upd_q q (\<lambda>x. x\<lparr>q_first := Some b\<rparr>) s)))
                else case find (\<lambda>x. queueclass s x < mcls) (q_msgs q s) of None \<Rightarrow> s
                  | Some n \<Rightarrow>
                      let pv = b_prev (mblk (sb s) n);
                          s2 = upd_b b (\<lambda>x. x\<lparr>b_next := Some n, b_prev := pv\<rparr>) s;
                          s3 = (case pv of Some p \<Rightarrow> upd_b p (\<lambda>x. x\<lparr>b_next := Some b\<rparr>) s2
                                | None \<Rightarrow> upd_q q (\<lambda>x. x\<lparr>q_first := Some b\<rparr>) s2)
                      in upd_b n (\<lambda>x. x\<lparr>b_prev := Some b\<rparr>) s3)
      in put_enable q b (q_add q b s1))"

definition putbq :: "nat \<Rightarrow> nat \<Rightarrow> strq \<Rightarrow> strq" where
  "putbq q b s =
     (let mcls = queueclass s b; f = q_first (queues s q);
          s1 = (if f = None \<or> mcls \<ge> queueclass s (the f) then
                  let s2 = upd_b b (\<lambda>x. x\<lparr>b_next := f, b_prev := None\<rparr>) s;
                      s3 = (case f of Some n \<Rightarrow> upd_b n (\<lambda>x. x\<lparr>b_prev := Some b\<rparr>) s2
                            | None \<Rightarrow> upd_q q (\<lambda>x. x\<lparr>q_last := Some b\<rparr>) s2)
                  in upd_q q (\<lambda>x. x\<lparr>q_first := Some b\<rparr>) s3
                else case find (\<lambda>x. case b_next (mblk (sb s) x) of None \<Rightarrow> True | Some y \<Rightarrow> \<not> queueclass s y > mcls)
                       (q_msgs q s) of None \<Rightarrow> s
                  | Some n \<Rightarrow>
                      let nx = b_next (mblk (sb s) n);
                          s2 = upd_b b (\<lambda>x. x\<lparr>b_next := nx\<rparr>) s;
                          s3 = (case nx of Some c \<Rightarrow> upd_b c (\<lambda>x. x\<lparr>b_prev := Some b\<rparr>) s2
                                | None \<Rightarrow> upd_q q (\<lambda>x. x\<lparr>q_last := Some b\<rparr>) s2)
                      in upd_b b (\<lambda>x. x\<lparr>b_prev := Some n\<rparr>) (upd_b n (\<lambda>x. x\<lparr>b_next := Some b\<rparr>) s3))
      in put_enable q b (q_add q b s1))"

definition insq :: "nat \<Rightarrow> nat option \<Rightarrow> nat \<Rightarrow> strq \<Rightarrow> strq" where
  "insq q emp b s =
     (let s0 = upd_b b (\<lambda>x. x\<lparr>b_next := emp\<rparr>) s;
          s1 = (case emp of
             Some e \<Rightarrow>
               let pv = b_prev (mblk (sb s0) e); s2 = upd_b b (\<lambda>x. x\<lparr>b_prev := pv\<rparr>) s0;
                   s3 = (case pv of Some p \<Rightarrow> upd_b p (\<lambda>x. x\<lparr>b_next := Some b\<rparr>) s2
                         | None \<Rightarrow> upd_q q (\<lambda>x. x\<lparr>q_first := Some b\<rparr>) s2)
               in upd_b e (\<lambda>x. x\<lparr>b_prev := Some b\<rparr>) s3
           | None \<Rightarrow>
               let l = q_last (queues s0 q); s2 = upd_b b (\<lambda>x. x\<lparr>b_prev := l\<rparr>) s0;
                   s3 = (case l of Some p \<Rightarrow> upd_b p (\<lambda>x. x\<lparr>b_next := Some b\<rparr>) s2
                         | None \<Rightarrow> upd_q q (\<lambda>x. x\<lparr>q_first := Some b\<rparr>) s2)
               in upd_q q (\<lambda>x. x\<lparr>q_last := Some b\<rparr>) s3);
          s4 = q_add q b s1
      in if \<not> has QNOENB s4 q \<and> has QWANTR s4 q then qenable q s4 else s4)"

text \<open>\<open>flushq\<close>: the loop reads the successor of a message before it frees it or puts it back.\<close>

fun flush_loop :: "nat \<Rightarrow> nat option \<Rightarrow> nat \<Rightarrow> bool \<Rightarrow> strq \<Rightarrow> strq" where
  "flush_loop (Suc n) (Some b) q all s =
     flush_loop n (b_next (mblk (sb s) b)) q all
       (if \<not> all \<and> \<not> datamsg (mb_type (sb s) b) then putq q b s else s\<lparr>sb := freemsg (Some b) (sb s)\<rparr>)"
| "flush_loop _ _ q all s = s"

definition flushq :: "nat \<Rightarrow> bool \<Rightarrow> strq \<Rightarrow> strq" where
  "flushq q all s =
     (let wantw = has QWANTW s q; p = q_first (queues s q);
          s1 = clr_f QWANTW q (clr_f QFULL q (upd_q q (\<lambda>x. x\<lparr>q_first := None, q_last := None, q_count := 0\<rparr>) s));
          s2 = flush_loop (nmblock (sb s)) p q all s1
      in if q_count (queues s2 q) \<le> q_lowat (queues s2 q) \<and> wantw then back_enable q s2 else s2)"

definition qsize :: "nat \<Rightarrow> strq \<Rightarrow> nat" where
  "qsize q s = length (q_msgs q s)"

subsection \<open>Put procedures, queues and modules\<close>

text \<open>Calling the put procedure of a queue.\<close>

definition call_put :: "(nat \<Rightarrow> nat \<Rightarrow> nat \<Rightarrow> strq \<Rightarrow> strq) \<Rightarrow> nat \<Rightarrow> nat \<Rightarrow> strq \<Rightarrow> strq" where
  "call_put putp q b s = (case q_qinfo (queues s q) of None \<Rightarrow> s | Some i \<Rightarrow> putp (qi_putp i) q b s)"

definition putctl :: "(nat \<Rightarrow> nat \<Rightarrow> nat \<Rightarrow> strq \<Rightarrow> strq) \<Rightarrow> nat \<Rightarrow> int \<Rightarrow> strq \<Rightarrow> bool \<times> strq" where
  "putctl putp q type s = (if datamsg type then (False, s)
     else case allocb 0 BPRI_HI (sb s) of
       (None, t) \<Rightarrow> (False, s\<lparr>sb := t\<rparr>)
     | (Some b, t) \<Rightarrow> (True, call_put putp q b
          (s\<lparr>sb := upd_db (dbp t b) (\<lambda>x. x\<lparr>db_type := type mod 256\<rparr>) t\<rparr>)))"

definition putctl1 :: "(nat \<Rightarrow> nat \<Rightarrow> nat \<Rightarrow> strq \<Rightarrow> strq) \<Rightarrow> nat \<Rightarrow> int \<Rightarrow> 8 word \<Rightarrow> strq \<Rightarrow> bool \<times> strq" where
  "putctl1 putp q type param s = (if datamsg type then (False, s)
     else case allocb 1 BPRI_HI (sb s) of
       (None, t) \<Rightarrow> (False, s\<lparr>sb := t\<rparr>)
     | (Some b, t) \<Rightarrow>
         let t1 = upd_db (dbp t b) (\<lambda>x. x\<lparr>db_type := type mod 256\<rparr>) t;
             t2 = t1\<lparr>smem := (smem t1)(b_wptr (mblk t1 b) := param)\<rparr>;
             t3 = upd_mb b (\<lambda>x. x\<lparr>b_wptr := Suc (b_wptr x)\<rparr>) t2
         in (True, call_put putp q b (s\<lparr>sb := t3\<rparr>)))"

definition qreply :: "(nat \<Rightarrow> nat \<Rightarrow> nat \<Rightarrow> strq \<Rightarrow> strq) \<Rightarrow> nat \<Rightarrow> nat \<Rightarrow> strq \<Rightarrow> strq" where
  "qreply putp q b s = (case q_next (queues s (OTHERQ s q)) of None \<Rightarrow> s | Some n \<Rightarrow> call_put putp n b s)"

definition zero_queue :: "bool \<Rightarrow> queue" where
  "zero_queue reader = \<lparr>q_qinfo = None, q_first = None, q_last = None, q_next = None, q_link = None, q_ptr = None,
     q_count = 0, q_flag = (if reader then set_bit QREADR (set_bit QUSE 0) else set_bit QUSE 0), q_minpsz = 0,
     q_maxpsz = 0, q_hiwat = 0, q_lowat = 0\<rparr>"

definition allocq :: "strq \<Rightarrow> nat option \<times> strq" where
  "allocq s = (case find (\<lambda>q. \<not> has QUSE s q) (map (\<lambda>i. 2 * i) [0..<(v_nqueue s + 1) div 2]) of
     None \<Rightarrow> (None, s\<lparr>st_queue := bumpfail (st_queue s)\<rparr>)
   | Some q \<Rightarrow> (Some q, s\<lparr>queues := (queues s)(q := zero_queue True, q + 1 := zero_queue False),
                          st_queue := bumpup (st_queue s)\<rparr>))"

text \<open>\<open>findmod\<close>: the characters 0 to FMNAMESZ of two names are compared up to a NUL.\<close>

fun same_name :: "nat \<Rightarrow> (nat \<Rightarrow> 8 word) \<Rightarrow> (nat \<Rightarrow> 8 word) \<Rightarrow> nat \<Rightarrow> bool" where
  "same_name 0 f n j = False"
| "same_name (Suc k) f n j = (if f j \<noteq> n j then False else if n j = 0 then True else same_name k f n (Suc j))"

definition findmod :: "(nat \<Rightarrow> nat \<Rightarrow> 8 word) \<Rightarrow> nat \<Rightarrow> (nat \<Rightarrow> 8 word) \<Rightarrow> nat option" where
  "findmod fmodsw fmodcnt name = find (\<lambda>i. same_name 9 (fmodsw i) name 0) [0..<fmodcnt]"

subsection \<open>The scheduler\<close>

definition ev_list :: "bpri \<Rightarrow> dbalcst \<Rightarrow> nat list" where
  "ev_list pri a = (case pri of BPRI_HI \<Rightarrow> dba_hip a | BPRI_MED \<Rightarrow> dba_medp a | BPRI_LO \<Rightarrow> dba_lop a)"

definition ev_rest :: "bpri \<Rightarrow> nat list \<Rightarrow> dbalcst \<Rightarrow> dbalcst" where
  "ev_rest pri r a = (case pri of BPRI_HI \<Rightarrow> a\<lparr>dba_hip := r\<rparr> | BPRI_MED \<Rightarrow> a\<lparr>dba_medp := r\<rparr> | BPRI_LO \<Rightarrow> a\<lparr>dba_lop := r\<rparr>)"

text \<open>One of the three loops of \<open>queuerun\<close> over the requests of \<open>bufcall\<close> for class \<open>c\<close>: at most
  \<open>count\<close> of them run; the number run so far is carried along.\<close>

primrec ev_loop :: "(nat \<Rightarrow> int \<Rightarrow> strq \<Rightarrow> strq) \<Rightarrow> bpri \<Rightarrow> nat \<Rightarrow> nat \<Rightarrow> int \<Rightarrow> strq \<Rightarrow> int \<times> strq" where
  "ev_loop evfn pri c 0 tot s = (tot, s)"
| "ev_loop evfn pri c (Suc cnt) tot s =
     (case ev_list pri (dballoc (sb s) c) of [] \<Rightarrow> (tot, s)
      | e # r \<Rightarrow>
          if mbfreelist (sb s) = None then (tot, s)
          else let s1 = s\<lparr>sb := upd_ba c (ev_rest pri r) (sb s)\<rparr>;
                   s2 = evfn (se_func (sevent (sb s1) e)) (se_arg (sevent (sb s1) e)) s1
               in ev_loop evfn pri c cnt (tot + 1) (s2\<lparr>sb := sefree e (sb s2)\<rparr>))"

definition ev_class :: "(nat \<Rightarrow> int \<Rightarrow> strq \<Rightarrow> strq) \<Rightarrow> nat \<Rightarrow> strq \<Rightarrow> strq" where
  "ev_class evfn c s =
     (let a = dballoc (sb s) c in
      case ev_loop evfn BPRI_HI c (nat (int (v_nblk (sb s) c) - dba_cnt a)) 0 s of (t1, s1) \<Rightarrow>
        let a1 = dballoc (sb s1) c in
        case ev_loop evfn BPRI_MED c (nat (dba_med a1 - dba_cnt a1 - t1)) t1 s1 of (t2, s2) \<Rightarrow>
          let a2 = dballoc (sb s2) c in
          snd (ev_loop evfn BPRI_LO c (nat (dba_lo a2 - dba_cnt a2 - t2)) t2 s2))"

text \<open>The loop over the run list, with fuel: a service procedure can enable queues again.\<close>

primrec srv_loop :: "(nat \<Rightarrow> nat \<Rightarrow> strq \<Rightarrow> strq) \<Rightarrow> nat \<Rightarrow> strq \<Rightarrow> strq option" where
  "srv_loop srvp 0 s = (if qhead s = None then Some s else None)"
| "srv_loop srvp (Suc n) s = (case qhead s of None \<Rightarrow> Some s
     | Some q \<Rightarrow>
         let l = q_link (queues s q);
             s1 = clr_f QENAB q (if l = None then s\<lparr>qhead := None, qtail := None\<rparr> else s\<lparr>qhead := l\<rparr>)
         in srv_loop srvp n (case srv s1 q of None \<Rightarrow> s1 | Some f \<Rightarrow> srvp f q s1))"

primrec queuerun :: "nat \<Rightarrow> nat \<Rightarrow> (nat \<Rightarrow> int \<Rightarrow> strq \<Rightarrow> strq) \<Rightarrow> (nat \<Rightarrow> nat \<Rightarrow> strq \<Rightarrow> strq) \<Rightarrow> strq \<Rightarrow> strq option" where
  "queuerun 0 n evfn srvp s = None"
| "queuerun (Suc m) n evfn srvp s =
     (let s1 = (if strbcflag (sb s) then fold (ev_class evfn) (rev [0..<NCLASS]) (s\<lparr>sb := (sb s)\<lparr>strbcflag := False\<rparr>\<rparr>)
                else s)
      in case srv_loop srvp n s1 of None \<Rightarrow> None
         | Some s2 \<Rightarrow> if strbcflag (sb s2) then queuerun m n evfn srvp s2
                      else Some (s2\<lparr>sb := (sb s2)\<lparr>qrunflag := False\<rparr>\<rparr>))"

definition runqueues :: "nat \<Rightarrow> nat \<Rightarrow> (nat \<Rightarrow> int \<Rightarrow> strq \<Rightarrow> strq) \<Rightarrow> (nat \<Rightarrow> nat \<Rightarrow> strq \<Rightarrow> strq) \<Rightarrow> strq \<Rightarrow> strq option" where
  "runqueues m n evfn srvp s = (if qrunflag (sb s) \<and> \<not> queueflag s
     then map_option (\<lambda>t. t\<lparr>queueflag := False\<rparr>) (queuerun m n evfn srvp (s\<lparr>queueflag := True\<rparr>))
     else Some s)"

subsection \<open>What the steps touch\<close>

definition mb_pv :: "stbuf \<Rightarrow> nat \<Rightarrow> nat option" where
  "mb_pv s b = b_prev (mblk s b)"

lemma q_upd_simps [simp]:
  "queues (upd_q q f s) r = (if r = q then f (queues s q) else queues s r)"
  "sb (upd_q q f s) = sb s" "qhead (upd_q q f s) = qhead s" "qtail (upd_q q f s) = qtail s"
  "v_nqueue (upd_q q f s) = v_nqueue s" "queueflag (upd_q q f s) = queueflag s"
  "queues (upd_b b g s) = queues s" "qhead (upd_b b g s) = qhead s" "qtail (upd_b b g s) = qtail s"
  "v_nqueue (upd_b b g s) = v_nqueue s" "queueflag (upd_b b g s) = queueflag s"
  "mblk (sb (upd_b b g s)) x = (if x = b then g (mblk (sb s) b) else mblk (sb s) x)"
  "dblk (sb (upd_b b g s)) = dblk (sb s)" "nmblock (sb (upd_b b g s)) = nmblock (sb s)"
  "qrunflag (sb (upd_b b g s)) = qrunflag (sb s)"
  by (simp_all add: upd_q_def upd_b_def upd_mb_def)

lemma flag_simps [simp]:
  "queues (set_f k q s) r = (if r = q then (queues s q)\<lparr>q_flag := set_bit k (q_flag (queues s q))\<rparr> else queues s r)"
  "queues (clr_f k q s) r = (if r = q then (queues s q)\<lparr>q_flag := unset_bit k (q_flag (queues s q))\<rparr> else queues s r)"
  "sb (set_f k q s) = sb s" "qhead (set_f k q s) = qhead s" "qtail (set_f k q s) = qtail s"
  "v_nqueue (set_f k q s) = v_nqueue s" "sb (clr_f k q s) = sb s" "qhead (clr_f k q s) = qhead s"
  "qtail (clr_f k q s) = qtail s" "v_nqueue (clr_f k q s) = v_nqueue s"
  by (simp_all add: set_f_def clr_f_def)

lemma has_simps [simp]:
  "k < 16 \<Longrightarrow> has j (set_f k q s) r = (j = k \<and> r = q \<or> has j s r)"
  "has j (clr_f k q s) r = (\<not> (j = k \<and> r = q) \<and> has j s r)"
  "has j (upd_b b g s) r = has j s r"
  by (auto simp: has_def bit_set_bit_iff bit_unset_bit_iff)

lemma has_upd_q [simp]: "q_flag (f (queues s q)) = q_flag (queues s q) \<Longrightarrow> has j (upd_q q f s) r = has j s r"
  by (simp add: has_def)

text \<open>The parts of a queue that scheduling leaves alone, and the steps that touch only the links of
  messages.\<close>

definition qsame :: "queue \<Rightarrow> queue \<Rightarrow> bool" where
  "qsame x y \<longleftrightarrow> q_qinfo x = q_qinfo y \<and> q_first x = q_first y \<and> q_last x = q_last y \<and> q_next x = q_next y \<and>
     q_count x = q_count y \<and> q_hiwat x = q_hiwat y \<and> q_lowat x = q_lowat y"

definition sched :: "strq \<Rightarrow> strq \<Rightarrow> bool" where
  "sched s s' \<longleftrightarrow> (\<exists>r. sb s' = (sb s)\<lparr>qrunflag := r\<rparr>) \<and> (\<forall>q. qsame (queues s' q) (queues s q)) \<and>
     v_nqueue s' = v_nqueue s \<and> (\<forall>q k. k \<noteq> QENAB \<longrightarrow> has k s' q = has k s q)"

lemma sched_refl [simp]: "sched s s"
  by (auto simp: sched_def qsame_def intro: exI [of _ "qrunflag (sb s)"])

lemma sched_qenable [simp]: "sched s (qenable q s)"
proof (cases "srv s q = None \<or> has QENAB s q")
  case True
  then have "qenable q s = s" by (auto simp: qenable_def)
  then show ?thesis by simp
next
  case False
  then show ?thesis
    by (auto simp: qenable_def Let_def sched_def qsame_def has_def bit_set_bit_iff split: option.splits
        intro: exI [of _ True])
qed

lemma sched_back_enable [simp]: "sched s (back_enable q s)"
  by (simp add: back_enable_def split: option.split)

definition relinked :: "stbuf \<Rightarrow> stbuf \<Rightarrow> bool" where
  "relinked t t' \<longleftrightarrow> nmblock t' = nmblock t \<and> dblk t' = dblk t \<and> smem t' = smem t \<and> mbfreelist t' = mbfreelist t \<and>
     dbfreelist t' = dbfreelist t \<and> dballoc t' = dballoc t \<and> v_nblk t' = v_nblk t \<and>
     (\<forall>b. b_cont (mblk t' b) = b_cont (mblk t b) \<and> b_datap (mblk t' b) = b_datap (mblk t b) \<and>
        b_rptr (mblk t' b) = b_rptr (mblk t b) \<and> b_wptr (mblk t' b) = b_wptr (mblk t b))"

lemma relinked_refl [simp]: "relinked t t"
  by (simp add: relinked_def)

lemma relinked_trans: "relinked t u \<Longrightarrow> relinked u v \<Longrightarrow> relinked t v"
  by (simp add: relinked_def)

lemma relinked_upd_b:
  assumes "\<And>x. b_cont (g x) = b_cont x" "\<And>x. b_datap (g x) = b_datap x" "\<And>x. b_rptr (g x) = b_rptr x"
    "\<And>x. b_wptr (g x) = b_wptr x" "relinked t (sb s)"
  shows "relinked t (sb (upd_b b g s))"
  using assms by (simp add: relinked_def upd_b_def upd_mb_def)

lemma relinked_same:
  assumes "relinked t t'"
  shows "msg_weight t' = msg_weight t" "mb_type t' = mb_type t" "conts t' p = conts t p"
    "mb_bytes t' b = mb_bytes t b"
proof -
  have "(\<lambda>b. b_cont (mblk t' b)) = (\<lambda>b. b_cont (mblk t b))" using assms by (simp add: relinked_def)
  then have c: "conts t' p = conts t p" for p using assms by (simp add: conts_def relinked_def)
  then show "conts t' p = conts t p" .
  have d: "dbp t' b = dbp t b" for b using assms by (simp add: dbp_def relinked_def)
  then show "mb_type t' = mb_type t" using assms by (simp add: mb_type_def relinked_def fun_eq_iff)
  show "msg_weight t' = msg_weight t" using assms c d by (simp add: msg_weight_def relinked_def fun_eq_iff)
  show "mb_bytes t' b = mb_bytes t b" using assms by (simp add: mb_bytes_def relinked_def)
qed

lemma relinked_sched: "sched s s' \<Longrightarrow> relinked (sb s) (sb s')"
  by (auto simp: sched_def relinked_def)

lemma q_add_simps [simp]:
  "sb (q_add q b s) = sb s" "qhead (q_add q b s) = qhead s" "qtail (q_add q b s) = qtail s"
  "v_nqueue (q_add q b s) = v_nqueue s" "q_first (queues (q_add q b s) r) = q_first (queues s r)"
  "q_last (queues (q_add q b s) r) = q_last (queues s r)" "q_link (queues (q_add q b s) r) = q_link (queues s r)"
  "q_next (queues (q_add q b s) r) = q_next (queues s r)" "q_qinfo (queues (q_add q b s) r) = q_qinfo (queues s r)"
  "q_hiwat (queues (q_add q b s) r) = q_hiwat (queues s r)" "q_lowat (queues (q_add q b s) r) = q_lowat (queues s r)"
  "q_count (queues (q_add q b s) r) = (if r = q then q_count (queues s q) + msg_weight (sb s) b else q_count (queues s r))"
  "k \<noteq> QFULL \<Longrightarrow> has k (q_add q b s) r = has k s r"
  "has QFULL (q_add q b s) r = (has QFULL s r \<or> r = q \<and> q_count (queues s q) + msg_weight (sb s) b \<ge> q_hiwat (queues s q))"
  by (simp_all add: q_add_def Let_def) auto

lemma q_sub_simps [simp]:
  "sb (q_sub q b s) = sb s" "qhead (q_sub q b s) = qhead s" "qtail (q_sub q b s) = qtail s"
  "v_nqueue (q_sub q b s) = v_nqueue s" "q_first (queues (q_sub q b s) r) = q_first (queues s r)"
  "q_last (queues (q_sub q b s) r) = q_last (queues s r)" "q_link (queues (q_sub q b s) r) = q_link (queues s r)"
  "q_next (queues (q_sub q b s) r) = q_next (queues s r)" "q_qinfo (queues (q_sub q b s) r) = q_qinfo (queues s r)"
  "q_hiwat (queues (q_sub q b s) r) = q_hiwat (queues s r)" "q_lowat (queues (q_sub q b s) r) = q_lowat (queues s r)"
  "q_count (queues (q_sub q b s) r) = (if r = q then q_count (queues s q) - msg_weight (sb s) b else q_count (queues s r))"
  "k \<noteq> QFULL \<Longrightarrow> has k (q_sub q b s) r = has k s r"
  "has QFULL (q_sub q b s) r = (has QFULL s r \<and> \<not> (r = q \<and> q_count (queues s q) - msg_weight (sb s) b < q_hiwat (queues s q)))"
  by (simp_all add: q_sub_def Let_def) auto

subsection \<open>The invariant of the queues\<close>

text \<open>\<open>qs q\<close> are the messages on queue \<open>q\<close>; \<open>q_count\<close> is their weight, in 16 bits; no message is on
  two queues.\<close>

definition q_rep :: "(nat \<Rightarrow> nat list) \<Rightarrow> strq \<Rightarrow> bool" where
  "q_rep qs s \<longleftrightarrow> (\<forall>q<v_nqueue s.
     dll (mb_nx (sb s)) (mb_pv (sb s)) (q_first (queues s q)) (q_last (queues s q)) (qs q) \<and>
     set (qs q) \<subseteq> {..<nmblock (sb s)} \<and> q_count (queues s q) = sum_list (map (msg_weight (sb s)) (qs q)) \<and>
     (\<forall>r<v_nqueue s. r \<noteq> q \<longrightarrow> set (qs q) \<inter> set (qs r) = {}))"

text \<open>\<open>rl\<close> is the run list: the queues with \<open>QENAB\<close>, each once.\<close>

definition run_rep :: "nat list \<Rightarrow> strq \<Rightarrow> bool" where
  "run_rep rl s \<longleftrightarrow> chain (\<lambda>q. q_link (queues s q)) (qhead s) rl \<and> qtail s = last_opt rl \<and>
     (\<forall>q. has QENAB s q \<longleftrightarrow> q \<in> set rl) \<and> (\<forall>q\<in>set rl. srv s q \<noteq> None)"

lemma q_repD:
  assumes "q_rep qs s" "q < v_nqueue s"
  shows "dll (mb_nx (sb s)) (mb_pv (sb s)) (q_first (queues s q)) (q_last (queues s q)) (qs q)"
    "set (qs q) \<subseteq> {..<nmblock (sb s)}" "q_count (queues s q) = sum_list (map (msg_weight (sb s)) (qs q))"
    "r < v_nqueue s \<Longrightarrow> r \<noteq> q \<Longrightarrow> set (qs q) \<inter> set (qs r) = {}"
    "q_first (queues s q) = hd_opt (qs q)" "q_last (queues s q) = last_opt (qs q)" "q_msgs q s = qs q"
proof -
  from assms show r: "dll (mb_nx (sb s)) (mb_pv (sb s)) (q_first (queues s q)) (q_last (queues s q)) (qs q)"
    "set (qs q) \<subseteq> {..<nmblock (sb s)}" "q_count (queues s q) = sum_list (map (msg_weight (sb s)) (qs q))"
    "r < v_nqueue s \<Longrightarrow> r \<noteq> q \<Longrightarrow> set (qs q) \<inter> set (qs r) = {}"
    unfolding q_rep_def by blast+
  then show "q_first (queues s q) = hd_opt (qs q)" "q_last (queues s q) = last_opt (qs q)" by (auto dest: dll_ends)
  have "length (qs q) \<le> nmblock (sb s)" using r(2) dll_distinct [OF r(1)] by (rule distinct_bounded_length [rotated])
  then show "q_msgs q s = qs q" unfolding q_msgs_def using r(1) by (auto simp: dll_def intro!: follow_chain)
qed

text \<open>What a step on queue \<open>q\<close> has to show.\<close>

lemma q_rep_change:
  assumes rep: "q_rep qs s" and q: "q < v_nqueue s" and nq: "v_nqueue s' = v_nqueue s" and l: "relinked (sb s) (sb s')"
    and other: "\<And>r. r < v_nqueue s \<Longrightarrow> r \<noteq> q \<Longrightarrow> q_first (queues s' r) = q_first (queues s r) \<and> q_last (queues s' r) = q_last (queues s r) \<and>
        q_count (queues s' r) = q_count (queues s r)"
      "\<And>r x. r < v_nqueue s \<Longrightarrow> r \<noteq> q \<Longrightarrow> x \<in> set (qs r) \<Longrightarrow> mb_nx (sb s') x = mb_nx (sb s) x \<and> mb_pv (sb s') x = mb_pv (sb s) x"
    and new: "dll (mb_nx (sb s')) (mb_pv (sb s')) (q_first (queues s' q)) (q_last (queues s' q)) xs"
      "set xs \<subseteq> {..<nmblock (sb s)}" "\<And>r. r < v_nqueue s \<Longrightarrow> r \<noteq> q \<Longrightarrow> set xs \<inter> set (qs r) = {}"
      "q_count (queues s' q) = sum_list (map (msg_weight (sb s)) xs)"
  shows "q_rep (qs(q := xs)) s'"
  unfolding q_rep_def nq
proof (intro allI impI conjI)
  note W = relinked_same(1) [OF l]
  have n: "nmblock (sb s') = nmblock (sb s)" using l by (simp add: relinked_def)
  fix r assume r: "r < v_nqueue s"
  note R = q_repD [OF rep r]
  show "dll (mb_nx (sb s')) (mb_pv (sb s')) (q_first (queues s' r)) (q_last (queues s' r)) ((qs(q := xs)) r)"
  proof (cases "r = q")
    case False
    have "dll (mb_nx (sb s)) (mb_pv (sb s)) f l' (qs r) = dll (mb_nx (sb s')) (mb_pv (sb s')) f l' (qs r)" for f l'
      by (rule dll_cong) (use other(2) [OF r False] in auto)
    with R(1) other(1) [OF r False] False show ?thesis by simp
  qed (use new in simp)
  show "set ((qs(q := xs)) r) \<subseteq> {..<nmblock (sb s')}" using R(2) new(2) n by auto
  show "q_count (queues s' r) = sum_list (map (msg_weight (sb s')) ((qs(q := xs)) r))"
    using R(3) other(1) [OF r] new(4) W by (cases "r = q") simp_all
  show "set ((qs(q := xs)) r) \<inter> set ((qs(q := xs)) k) = {}" if "k < v_nqueue s" "k \<noteq> r" for k
    using new(3) [of r] new(3) [of k] R(4) [of k] r that by (cases "r = q"; cases "k = q") auto
qed

lemma q_rep_sched: "sched s s' \<Longrightarrow> q_rep qs s \<Longrightarrow> q_rep qs s'"
proof -
  assume s: "sched s s'" and rep: "q_rep qs s"
  note W = relinked_same(1) [OF relinked_sched [OF s]]
  have "mb_nx (sb s') = mb_nx (sb s)" "mb_pv (sb s') = mb_pv (sb s)" "nmblock (sb s') = nmblock (sb s)"
    using s by (auto simp: sched_def fun_eq_iff mb_nx_def mb_pv_def)
  moreover have "v_nqueue s' = v_nqueue s" "q_first (queues s' q) = q_first (queues s q)"
    "q_last (queues s' q) = q_last (queues s q)" "q_count (queues s' q) = q_count (queues s q)" for q
    using s by (auto simp: sched_def qsame_def)
  ultimately show "q_rep qs s'" using rep W unfolding q_rep_def by simp
qed

lemma srv_simps [simp]:
  "srv (upd_b b g s) r = srv s r" "srv (set_f k q s) r = srv s r" "srv (clr_f k q s) r = srv s r"
  "srv (q_add q b s) r = srv s r" "srv (q_sub q b s) r = srv s r"
  by (simp_all add: srv_def)

lemma srv_upd_q [simp]: "q_qinfo (f (queues s q)) = q_qinfo (queues s q) \<Longrightarrow> srv (upd_q q f s) r = srv s r"
  by (simp add: srv_def)

lemma srv_sched: "sched s s' \<Longrightarrow> srv s' r = srv s r"
  by (simp add: srv_def sched_def qsame_def)

lemma q_rep_cong:
  assumes "\<And>q. q_first (queues s' q) = q_first (queues s q)" "\<And>q. q_last (queues s' q) = q_last (queues s q)"
    "\<And>q. q_count (queues s' q) = q_count (queues s q)" "sb s' = sb s" "v_nqueue s' = v_nqueue s"
  shows "q_rep qs s' = q_rep qs s"
  unfolding q_rep_def assms by simp

lemma q_rep_flags [simp]:
  "q_rep qs (set_f k q s) = q_rep qs s" "q_rep qs (clr_f k q s) = q_rep qs s"
  by (rule q_rep_cong; simp)+

lemma run_rep_cong:
  assumes "\<And>q. q_link (queues s' q) = q_link (queues s q)" "qhead s' = qhead s" "qtail s' = qtail s"
    "\<And>q. has QENAB s' q = has QENAB s q" "\<And>q. srv s' q = srv s q"
  shows "run_rep rl s' = run_rep rl s"
  unfolding run_rep_def assms by simp

lemma qenable_run:
  assumes rep: "run_rep rl s"
  shows "run_rep (if srv s q \<noteq> None \<and> q \<notin> set rl then rl @ [q] else rl) (qenable q s)"
proof (cases "srv s q \<noteq> None \<and> q \<notin> set rl")
  case False
  with rep show ?thesis by (auto simp: run_rep_def qenable_def)
next
  case True
  let ?nx = "\<lambda>q. q_link (queues s q)"
  have R: "chain ?nx (qhead s) rl" "qtail s = last_opt rl" "\<And>q. has QENAB s q \<longleftrightarrow> q \<in> set rl"
    using rep unfolding run_rep_def by blast+
  let ?s = "qenable q s"
  from True R(3) have go: "srv s q \<noteq> None" "\<not> has QENAB s q" by simp_all
  have srv: "srv ?s r = srv s r" for r by (rule srv_sched) simp
  have ena: "has QENAB ?s r \<longleftrightarrow> r = q \<or> r \<in> set rl" for r
    using go R(3) by (auto simp: qenable_def Let_def has_def bit_set_bit_iff split: option.split)
  have tl: "qtail ?s = Some q" using go by (auto simp: qenable_def Let_def)
  have "chain (\<lambda>q. q_link (queues ?s q)) (qhead ?s) (rl @ [q])"
  proof (cases rl rule: rev_cases)
    case Nil
    with R(1) go show ?thesis by (simp add: qenable_def Let_def)
  next
    case (snoc xs l)
    from chain_hd [OF R(1)] snoc obtain h where h: "qhead s = Some h" by (cases xs) auto
    have "chain (?nx(l := Some q, q := None)) (qhead s) (xs @ [l, q])"
      by (rule chain_snoc_upd) (use R(1) snoc True chain_distinct [OF R(1)] in auto)
    moreover have "(\<lambda>q. q_link (queues ?s q)) = ?nx(l := Some q, q := None)" "qhead ?s = qhead s"
      using go R(2) snoc h by (auto simp: qenable_def Let_def fun_eq_iff)
    ultimately show ?thesis using snoc by simp
  qed
  moreover have "\<forall>r\<in>set rl. srv s r \<noteq> None" using rep by (simp add: run_rep_def)
  ultimately show ?thesis using True ena tl srv by (auto simp: run_rep_def)
qed

text \<open>The queue that \<open>unblock\<close> enables, as a list.\<close>

definition back_list :: "nat \<Rightarrow> strq \<Rightarrow> nat list" where
  "back_list q s = (case back_srv (v_nqueue s) (backq q s) s of None \<Rightarrow> [] | Some r \<Rightarrow> [r])"

definition wakes :: "nat \<Rightarrow> strq \<Rightarrow> nat list" where
  "wakes q s = (if q_count (queues s q) \<le> q_lowat (queues s q) \<and> has QWANTW s q then back_list q s else [])"

lemma backq_cong:
  assumes "\<And>q. q_next (queues s' q) = q_next (queues s q)" "\<And>q. has QREADR s' q = has QREADR s q"
  shows "backq q s' = backq q s"
proof -
  have "OTHERQ s' = OTHERQ s" by (simp add: OTHERQ_def fun_eq_iff assms)
  then show ?thesis by (simp add: backq_def assms)
qed

lemma back_srv_cong:
  assumes "\<And>q. q_next (queues s' q) = q_next (queues s q)" "\<And>q. has QREADR s' q = has QREADR s q"
    "\<And>q. srv s' q = srv s q"
  shows "back_srv n p s' = back_srv n p s"
proof (induction n arbitrary: p)
  case (Suc n)
  have "backq q s' = backq q s" for q by (rule backq_cong) (simp_all add: assms)
  with Suc show ?case by (simp add: assms split: option.split)
qed simp

lemma back_list_cong:
  assumes "\<And>q. q_next (queues s' q) = q_next (queues s q)" "\<And>q. has QREADR s' q = has QREADR s q"
    "\<And>q. srv s' q = srv s q" "v_nqueue s' = v_nqueue s"
  shows "back_list q s' = back_list q s"
  unfolding back_list_def assms(4) backq_cong [OF assms(1,2)] back_srv_cong [OF assms(1-3)] by simp

lemma back_srv_Some: "back_srv n p s = Some r \<Longrightarrow> srv s r \<noteq> None"
  by (induction n arbitrary: p) (auto split: option.splits if_splits)

lemma unblock_rep:
  assumes "run_rep rl s"
  shows "run_rep (rl @ filter (\<lambda>r. r \<notin> set rl) (wakes q s)) (unblock q s)"
    "q_rep qs s \<Longrightarrow> q_rep qs (unblock q s)" "relinked (sb s) (sb (unblock q s))"
    "\<not> (q_count (queues (unblock q s) q) \<le> q_lowat (queues (unblock q s) q) \<and> has QWANTW (unblock q s) q)"
    "k \<noteq> QENAB \<Longrightarrow> k \<noteq> QWANTW \<Longrightarrow> has k (unblock q s) r = has k s r"
    "v_nqueue (unblock q s) = v_nqueue s" "q_count (queues (unblock q s) r) = q_count (queues s r)"
    "mblk (sb (unblock q s)) = mblk (sb s)"
proof -
  let ?s = "clr_f QWANTW q s"
  have cong: "run_rep rl ?s" using assms by (subst run_rep_cong [of _ s]) simp_all
  have bs: "back_srv n p ?s = back_srv n p s" "backq q ?s = backq q s" for n p
    by (rule back_srv_cong, simp_all) (rule backq_cong, simp_all)
  have S: "sched ?s (back_enable q ?s)" by simp
  show "run_rep (rl @ filter (\<lambda>r. r \<notin> set rl) (wakes q s)) (unblock q s)"
  proof (cases "q_count (queues s q) \<le> q_lowat (queues s q) \<and> has QWANTW s q")
    case True
    show ?thesis
    proof (cases "back_srv (v_nqueue s) (backq q s) s")
      case None
      with True cong show ?thesis by (simp add: unblock_def wakes_def back_list_def back_enable_def bs)
    next
      case (Some r)
      then have "unblock q s = qenable r ?s" "wakes q s = [r]" "srv ?s r \<noteq> None"
        using True back_srv_Some [OF Some] by (simp_all add: unblock_def wakes_def back_list_def back_enable_def bs)
      with qenable_run [OF cong, of r] show ?thesis by (cases "r \<in> set rl") simp_all
    qed
  next
    case False
    then have "unblock q s = s" "wakes q s = []" unfolding unblock_def wakes_def by (simp_all only: if_False)
    with assms show ?thesis by simp
  qed
  show "q_rep qs (unblock q s)" if "q_rep qs s" using that q_rep_sched [OF S] by (simp add: unblock_def)
  show "relinked (sb s) (sb (unblock q s))" using relinked_sched [OF S] by (simp add: unblock_def)
  show "\<not> (q_count (queues (unblock q s) q) \<le> q_lowat (queues (unblock q s) q) \<and> has QWANTW (unblock q s) q)"
    using S by (auto simp: unblock_def sched_def)
  show "has k (unblock q s) r = has k s r" if "k \<noteq> QENAB" "k \<noteq> QWANTW"
    using S that by (auto simp: unblock_def sched_def)
  show "v_nqueue (unblock q s) = v_nqueue s" "q_count (queues (unblock q s) r) = q_count (queues s r)"
    "mblk (sb (unblock q s)) = mblk (sb s)"
    using S by (auto simp: unblock_def sched_def qsame_def)
qed

subsection \<open>Taking messages off a queue\<close>

text \<open>\<open>s1\<close> is \<open>s\<close> with message \<open>b\<close> unlinked from queue \<open>q\<close> and its weight subtracted.\<close>

lemma unlinked_rep:
  assumes rep: "q_rep qs s" and q: "q < v_nqueue s" and spl: "qs q = us @ b # vs" and nq: "v_nqueue s1 = v_nqueue s"
    and l: "relinked (sb s) (sb s1)"
    and mb: "\<And>x. x \<noteq> b \<Longrightarrow> mb_nx (sb s1) x = (if last_opt us = Some x then hd_opt vs else mb_nx (sb s) x)"
      "\<And>x. x \<noteq> b \<Longrightarrow> mb_pv (sb s1) x = (if hd_opt vs = Some x then last_opt us else mb_pv (sb s) x)"
    and qq: "q_first (queues s1 q) = (if us = [] then hd_opt vs else q_first (queues s q))"
      "q_last (queues s1 q) = (if vs = [] then last_opt us else q_last (queues s q))"
      "q_count (queues s1 q) = q_count (queues s q) - msg_weight (sb s) b"
      "\<And>r. r \<noteq> q \<Longrightarrow> q_first (queues s1 r) = q_first (queues s r) \<and> q_last (queues s1 r) = q_last (queues s r) \<and>
        q_count (queues s1 r) = q_count (queues s r)"
  shows "q_rep (qs(q := us @ vs)) s1"
proof (rule q_rep_change [OF rep q nq l])
  note Q = q_repD [OF rep q]
  have d: "b \<notin> set (us @ vs)" using dll_distinct [OF Q(1)] spl by auto
  show "q_first (queues s1 r) = q_first (queues s r) \<and> q_last (queues s1 r) = q_last (queues s r) \<and>
        q_count (queues s1 r) = q_count (queues s r)" if "r \<noteq> q" for r using qq(4) [OF that] .
  show "mb_nx (sb s1) x = mb_nx (sb s) x \<and> mb_pv (sb s1) x = mb_pv (sb s) x"
    if r: "r < v_nqueue s" "r \<noteq> q" "x \<in> set (qs r)" for r x
  proof -
    have "x \<notin> set (qs q)" using Q(4) [OF r(1,2)] r(3) by auto
    then have "x \<noteq> b" "last_opt us \<noteq> Some x" "hd_opt vs \<noteq> Some x" using spl by (auto dest: last_opt_mem hd_opt_mem)
    then show ?thesis using mb by simp
  qed
  show "dll (mb_nx (sb s1)) (mb_pv (sb s1)) (q_first (queues s1 q)) (q_last (queues s1 q)) (us @ vs)"
    by (rule dll_remove [OF Q(1) [unfolded spl] _ _ qq(1,2)]; rule mb) (use d in auto)
  show "set (us @ vs) \<subseteq> {..<nmblock (sb s)}" using Q(2) spl by auto
  show "set (us @ vs) \<inter> set (qs r) = {}" if "r < v_nqueue s" "r \<noteq> q" for r using Q(4) [OF that] spl by auto
  show "q_count (queues s1 q) = sum_list (map (msg_weight (sb s)) (us @ vs))" using Q(3) spl qq(3) by simp
qed

lemma getq_rep:
  assumes rep: "q_rep qs s" and run: "run_rep rl s" and q: "q < v_nqueue s"
  shows "let (p, s') = getq q s; low = q_count (queues s' q) \<le> q_lowat (queues s q);
      ws = (if low \<and> has QWANTW s q then back_list q s else []) in
    p = hd_opt (qs q) \<and> q_rep (qs(q := tl (qs q))) s' \<and> run_rep (rl @ filter (\<lambda>r. r \<notin> set rl) ws) s' \<and>
    relinked (sb s) (sb s') \<and> (has QWANTR s' q \<longleftrightarrow> qs q = []) \<and> (low \<longrightarrow> \<not> has QWANTW s' q) \<and>
    (has QFULL s' q \<longleftrightarrow> has QFULL s q \<and> (qs q = [] \<or> q_count (queues s' q) \<ge> q_hiwat (queues s q))) \<and>
    (\<forall>b. p = Some b \<longrightarrow> b_next (mblk (sb s') b) = None \<and> b_prev (mblk (sb s') b) = None)"
proof -
  note Q = q_repD [OF rep q]
  obtain s1 where s1: "getq q s = (hd_opt (qs q), unblock q s1)" "q_rep (qs(q := tl (qs q))) s1"
    "relinked (sb s) (sb s1)" "\<And>r. q_link (queues s1 r) = q_link (queues s r)" "qhead s1 = qhead s" "qtail s1 = qtail s"
    "\<And>k r. k \<noteq> QWANTR \<Longrightarrow> k \<noteq> QFULL \<Longrightarrow> has k s1 r = has k s r" "\<And>r. srv s1 r = srv s r" "v_nqueue s1 = v_nqueue s"
    "\<And>r. q_next (queues s1 r) = q_next (queues s r)" "has QWANTR s1 q \<longleftrightarrow> qs q = []"
    "q_lowat (queues s1 q) = q_lowat (queues s q)"
    "has QFULL s1 q \<longleftrightarrow> has QFULL s q \<and> (qs q = [] \<or> q_count (queues s1 q) \<ge> q_hiwat (queues s q))"
    "\<And>b. hd_opt (qs q) = Some b \<Longrightarrow> b_next (mblk (sb s1) b) = None \<and> b_prev (mblk (sb s1) b) = None"
  proof (cases "qs q")
    case Nil
    have "q_rep (qs(q := tl (qs q))) (set_f QWANTR q s)" using rep Nil by (simp add: fun_upd_idem)
    with Nil Q(5) that [of "set_f QWANTR q s"] show thesis by (simp add: getq_def)
  next
    case (Cons b ms)
    have nx: "b_next (mblk (sb s) b) = hd_opt ms" using dll_next(1) [of _ _ _ _ "[]" b ms] Q(1) Cons by (simp add: mb_nx_def)
    define s3 where "s3 = (case hd_opt ms of None \<Rightarrow> upd_q q (\<lambda>x. x\<lparr>q_last := None\<rparr>) (upd_q q (\<lambda>x. x\<lparr>q_first := hd_opt ms\<rparr>) s)
       | Some c \<Rightarrow> upd_b c (\<lambda>x. x\<lparr>b_prev := None\<rparr>) (upd_q q (\<lambda>x. x\<lparr>q_first := hd_opt ms\<rparr>) s))"
    define s1 where "s1 = upd_b b (\<lambda>x. x\<lparr>b_next := None, b_prev := None\<rparr>) (clr_f QWANTR q (q_sub q b s3))"
    have get: "getq q s = (Some b, unblock q s1)" using Q(5) Cons nx by (simp add: getq_def Let_def s1_def s3_def)
    have rl3: "relinked (sb s) (sb s3)" unfolding s3_def
      by (cases ms) (auto intro!: relinked_upd_b)
    have w: "msg_weight (sb s3) b = msg_weight (sb s) b" using relinked_same(1) [OF rl3] by simp
    note F = s1_def s3_def w
    have rl: "relinked (sb s) (sb s1)" unfolding s1_def by (rule relinked_upd_b) (use rl3 in simp_all)
    have "q_rep (qs(q := [] @ ms)) s1"
      by (rule unlinked_rep [OF rep q, where b = b]) (use Cons rl w Q in
        \<open>auto simp: F mb_nx_def mb_pv_def hd_opt_def last_opt_def split: list.split\<close>)
    then show thesis using get Cons rl w by (intro that [of s1])
      (auto simp: F hd_opt_def split: list.split)
  qed
  have run1: "run_rep rl s1" using run by (subst run_rep_cong [of _ s]) (simp_all add: s1)
  have bl: "back_list q s1 = back_list q s" by (rule back_list_cong) (simp_all add: s1)
  note U = unblock_rep [OF run1, where q = q]
  have "wakes q s1 = (if q_count (queues (unblock q s1) q) \<le> q_lowat (queues s q) \<and> has QWANTW s q then back_list q s else [])"
    using U(7) s1 bl by (simp add: wakes_def)
  moreover have "q_lowat (queues (unblock q s1) q) = q_lowat (queues s q)"
    using s1(12) sched_back_enable [of "clr_f QWANTW q s1" q] by (auto simp: unblock_def sched_def qsame_def)
  ultimately show ?thesis using s1 U relinked_trans [OF s1(3) U(3)] by (simp add: Let_def)
qed

text \<open>C34: \<open>getq\<close> takes the first message off a queue, keeps the queues consistent and marks an empty queue
  with \<open>QWANTR\<close>; \<open>QFULL\<close> goes off below the high water mark.  When the count is down to the low water mark
  a writer that waits is not forgotten: \<open>QWANTW\<close> is cleared and the nearest back queue with a service
  procedure is put on the run list, unless it is on it.\<close>

theorem getq_takes_head:
  assumes "q_rep qs s" and "run_rep rl s" and "q < v_nqueue s"
  shows "let (p, s') = getq q s; low = q_count (queues s' q) \<le> q_lowat (queues s q);
      ws = (if low \<and> has QWANTW s q then back_list q s else []) in
    p = hd_opt (qs q) \<and> q_rep (qs(q := tl (qs q))) s' \<and> run_rep (rl @ filter (\<lambda>r. r \<notin> set rl) ws) s' \<and>
    relinked (sb s) (sb s') \<and> (has QWANTR s' q \<longleftrightarrow> qs q = []) \<and> (low \<longrightarrow> \<not> has QWANTW s' q) \<and>
    (has QFULL s' q \<longleftrightarrow> has QFULL s q \<and> (qs q = [] \<or> q_count (queues s' q) \<ge> q_hiwat (queues s q))) \<and>
    (\<forall>b. p = Some b \<longrightarrow> b_next (mblk (sb s') b) = None \<and> b_prev (mblk (sb s') b) = None)"
  using assms by (rule getq_rep)

text \<open>\<open>rmvq\<close> takes the given message out of the middle of a queue and leaves the others in order, with
  the same flow control as \<open>getq\<close>.\<close>

theorem rmvq_removes:
  assumes rep: "q_rep qs s" and run: "run_rep rl s" and q: "q < v_nqueue s" and spl: "qs q = us @ b # vs"
  shows "let s' = rmvq q b s; low = q_count (queues s' q) \<le> q_lowat (queues s q);
      ws = (if low \<and> has QWANTW s q then back_list q s else []) in
    q_rep (qs(q := us @ vs)) s' \<and> run_rep (rl @ filter (\<lambda>r. r \<notin> set rl) ws) s' \<and> relinked (sb s) (sb s') \<and>
    (low \<longrightarrow> \<not> has QWANTW s' q) \<and>
    (has QFULL s' q \<longleftrightarrow> has QFULL s q \<and> q_count (queues s' q) \<ge> q_hiwat (queues s q)) \<and>
    b_next (mblk (sb s') b) = None \<and> b_prev (mblk (sb s') b) = None"
proof -
  note Q = q_repD [OF rep q]
  have N: "b_next (mblk (sb s) b) = hd_opt vs" "b_prev (mblk (sb s) b) = last_opt us"
    using dll_next [of _ _ _ _ us b vs] Q(1) spl by (simp_all add: mb_nx_def mb_pv_def)
  have d: "distinct (us @ b # vs)" using dll_distinct [OF Q(1)] spl by simp
  define s2 where "s2 = (case last_opt us of Some p \<Rightarrow> upd_b p (\<lambda>x. x\<lparr>b_next := hd_opt vs\<rparr>) s
     | None \<Rightarrow> upd_q q (\<lambda>x. x\<lparr>q_first := hd_opt vs\<rparr>) s)"
  define s3 where "s3 = (case hd_opt vs of Some n \<Rightarrow> upd_b n (\<lambda>x. x\<lparr>b_prev := last_opt us\<rparr>) s2
     | None \<Rightarrow> upd_q q (\<lambda>x. x\<lparr>q_last := last_opt us\<rparr>) s2)"
  define s1 where "s1 = q_sub q b (upd_b b (\<lambda>x. x\<lparr>b_next := None, b_prev := None\<rparr>) s3)"
  have eq: "rmvq q b s = unblock q s1" unfolding rmvq_def Let_def N s1_def s3_def s2_def ..
  have r2: "relinked (sb s) (sb s2)" unfolding s2_def by (cases "last_opt us") (auto intro!: relinked_upd_b)
  have r3: "relinked (sb s) (sb s3)" unfolding s3_def using r2 by (cases "hd_opt vs") (auto intro!: relinked_upd_b)
  have r1: "relinked (sb s) (sb (upd_b b (\<lambda>x. x\<lparr>b_next := None, b_prev := None\<rparr>) s3))"
    by (rule relinked_upd_b) (use r3 in simp_all)
  note W = fun_cong [OF relinked_same(1) [OF r1], of b]
  have lu: "last_opt us \<noteq> Some b" "hd_opt vs \<noteq> Some b" using d by (auto dest: last_opt_mem hd_opt_mem)
  have "q_rep (qs(q := us @ vs)) s1"
    by (rule unlinked_rep [OF rep q spl]) (use lu r1 W Q(5,6) spl in
      \<open>auto simp: s1_def s2_def s3_def mb_nx_def mb_pv_def split: option.split\<close>)
  moreover have S: "qhead s1 = qhead s" "qtail s1 = qtail s" "\<And>r. q_link (queues s1 r) = q_link (queues s r)"
    "\<And>k r. k \<noteq> QFULL \<Longrightarrow> has k s1 r = has k s r" "\<And>r. srv s1 r = srv s r" "v_nqueue s1 = v_nqueue s"
    "\<And>r. q_next (queues s1 r) = q_next (queues s r)" "q_lowat (queues s1 q) = q_lowat (queues s q)"
    "q_hiwat (queues s1 q) = q_hiwat (queues s q)" "relinked (sb s) (sb s1)"
    "b_next (mblk (sb s1) b) = None" "b_prev (mblk (sb s1) b) = None"
    "has QFULL s1 q \<longleftrightarrow> has QFULL s q \<and> q_count (queues s1 q) \<ge> q_hiwat (queues s q)"
    using r1 by (auto simp: s1_def s2_def s3_def split: option.split)
  moreover have run1: "run_rep rl s1" using run by (subst run_rep_cong [of _ s]) (simp_all add: S)
  moreover have bl: "back_list q s1 = back_list q s" by (rule back_list_cong) (simp_all add: S)
  moreover note U = unblock_rep [OF run1, where q = q]
  moreover have "wakes q s1 = (if q_count (queues (unblock q s1) q) \<le> q_lowat (queues s q) \<and> has QWANTW s q then back_list q s else [])"
    using U(7) S bl by (simp add: wakes_def)
  moreover have "q_lowat (queues (unblock q s1) q) = q_lowat (queues s q)"
    using S(8) sched_back_enable [of "clr_f QWANTW q s1" q] by (auto simp: unblock_def sched_def qsame_def)
  ultimately show ?thesis using relinked_trans [OF S(10) U(3)] by (simp add: Let_def eq)
qed

subsection \<open>Putting messages on a queue\<close>

text \<open>\<open>s1\<close> is \<open>s\<close> with message \<open>b\<close> linked in; \<open>q_add\<close> then counts it.\<close>

lemma linked_rep:
  assumes rep: "q_rep qs s" and q: "q < v_nqueue s" and spl: "qs q = us @ vs" and nq: "v_nqueue s1 = v_nqueue s"
    and l: "relinked (sb s) (sb s1)" and b: "b < nmblock (sb s)" "\<forall>r<v_nqueue s. b \<notin> set (qs r)"
    and mb: "\<And>x. x \<noteq> b \<Longrightarrow> mb_nx (sb s1) x = (if last_opt us = Some x then Some b else mb_nx (sb s) x)"
      "\<And>x. x \<noteq> b \<Longrightarrow> mb_pv (sb s1) x = (if hd_opt vs = Some x then Some b else mb_pv (sb s) x)"
      "mb_nx (sb s1) b = hd_opt vs" "mb_pv (sb s1) b = last_opt us"
    and qq: "q_first (queues s1 q) = (if us = [] then Some b else q_first (queues s q))"
      "q_last (queues s1 q) = (if vs = [] then Some b else q_last (queues s q))"
      "q_count (queues s1 q) = q_count (queues s q)"
      "\<And>r. r \<noteq> q \<Longrightarrow> q_first (queues s1 r) = q_first (queues s r) \<and> q_last (queues s1 r) = q_last (queues s r) \<and>
        q_count (queues s1 r) = q_count (queues s r)"
  shows "q_rep (qs(q := us @ b # vs)) (q_add q b s1)"
proof (rule q_rep_change [OF rep q])
  note Q = q_repD [OF rep q]
  have d: "b \<notin> set (us @ vs)" using b(2) q spl by auto
  show "v_nqueue (q_add q b s1) = v_nqueue s" "relinked (sb s) (sb (q_add q b s1))" using nq l by simp_all
  show "q_first (queues (q_add q b s1) r) = q_first (queues s r) \<and> q_last (queues (q_add q b s1) r) = q_last (queues s r) \<and>
        q_count (queues (q_add q b s1) r) = q_count (queues s r)" if "r \<noteq> q" for r using qq(4) [OF that] that by simp
  show "mb_nx (sb (q_add q b s1)) x = mb_nx (sb s) x \<and> mb_pv (sb (q_add q b s1)) x = mb_pv (sb s) x"
    if r: "r < v_nqueue s" "r \<noteq> q" "x \<in> set (qs r)" for r x
  proof -
    have "x \<notin> set (qs q)" "x \<noteq> b" using Q(4) [OF r(1,2)] r(3) b(2) r(1) by auto
    then have "x \<noteq> b" "last_opt us \<noteq> Some x" "hd_opt vs \<noteq> Some x" using spl by (auto dest: last_opt_mem hd_opt_mem)
    then show ?thesis using mb by simp
  qed
  show "dll (mb_nx (sb (q_add q b s1))) (mb_pv (sb (q_add q b s1))) (q_first (queues (q_add q b s1) q))
     (q_last (queues (q_add q b s1) q)) (us @ b # vs)"
    unfolding q_add_simps
  proof (rule dll_insert [OF Q(1) [unfolded spl] d])
    fix x assume "x \<in> set (us @ vs)"
    then have x: "x \<noteq> b" using d by auto
    show "mb_nx (sb s1) x = (if last_opt us = Some x then Some b else mb_nx (sb s) x)"
      "mb_pv (sb s1) x = (if hd_opt vs = Some x then Some b else mb_pv (sb s) x)" by (rule mb; rule x)+
  qed (rule mb qq)+
  show "set (us @ b # vs) \<subseteq> {..<nmblock (sb s)}" using Q(2) spl b(1) by auto
  show "set (us @ b # vs) \<inter> set (qs r) = {}" if "r < v_nqueue s" "r \<noteq> q" for r using Q(4) [OF that] spl b(2) that by auto
  show "q_count (queues (q_add q b s1) q) = sum_list (map (msg_weight (sb s)) (us @ b # vs))"
    using Q(3) spl qq(3) relinked_same(1) [OF l] by (simp add: algebra_simps)
qed

text \<open>What a step that puts a message on does besides: count, flags and run list.\<close>

definition put_done :: "nat \<Rightarrow> strq \<Rightarrow> strq \<Rightarrow> bool" where
  "put_done q s s1 \<longleftrightarrow> relinked (sb s) (sb s1) \<and> qhead s1 = qhead s \<and> qtail s1 = qtail s \<and> v_nqueue s1 = v_nqueue s \<and>
     (\<forall>r. q_link (queues s1 r) = q_link (queues s r) \<and> srv s1 r = srv s r) \<and> (\<forall>k r. has k s1 r = has k s r) \<and>
     q_hiwat (queues s1 q) = q_hiwat (queues s q) \<and> q_lowat (queues s1 q) = q_lowat (queues s q)"

lemma put_done_run:
  assumes run: "run_rep rl s" and d: "put_done q s s1"
  shows "run_rep rl (q_add q b s1)"
    "run_rep (rl @ filter (\<lambda>r. r \<notin> set rl) (if c \<and> srv s q \<noteq> None then [q] else []))
       (if c then qenable q (q_add q b s1) else q_add q b s1)"
proof -
  show *: "run_rep rl (q_add q b s1)" using run
    by (subst run_rep_cong [of _ s]) (use d in \<open>simp_all add: put_done_def\<close>)
  have "srv (q_add q b s1) q = srv s q" using d by (simp add: put_done_def)
  then show "run_rep (rl @ filter (\<lambda>r. r \<notin> set rl) (if c \<and> srv s q \<noteq> None then [q] else []))
       (if c then qenable q (q_add q b s1) else q_add q b s1)"
    using qenable_run [OF *, of q] * by (cases "c \<and> srv s q \<noteq> None"; cases "q \<in> set rl") auto
qed

lemma queueclass_relinked: "relinked (sb s) (sb s') \<Longrightarrow> queueclass s' b = queueclass s b"
  by (simp add: queueclass_def relinked_same(2))

lemma put_done_upd_b: "put_done q s t \<Longrightarrow> (\<And>x. b_cont (g x) = b_cont x) \<Longrightarrow> (\<And>x. b_datap (g x) = b_datap x) \<Longrightarrow>
   (\<And>x. b_rptr (g x) = b_rptr x) \<Longrightarrow> (\<And>x. b_wptr (g x) = b_wptr x) \<Longrightarrow> put_done q s (upd_b b g t)"
  by (simp add: put_done_def relinked_upd_b)

lemma put_done_upd_q:
  "put_done q s t \<Longrightarrow> put_done q s (upd_q r (\<lambda>x. x\<lparr>q_first := p\<rparr>) t)"
  "put_done q s t \<Longrightarrow> put_done q s (upd_q r (\<lambda>x. x\<lparr>q_last := p\<rparr>) t)"
  by (auto simp: put_done_def)

lemma put_done_refl: "put_done q s s"
  by (simp add: put_done_def)

lemmas put_steps = put_done_upd_b put_done_upd_q put_done_refl

text \<open>The end of a put: \<open>s1\<close> is the state with \<open>b\<close> linked into queue \<open>q\<close>.\<close>

lemma put_finish:
  assumes run: "run_rep rl s" and d: "put_done q s s1" and rep: "q_rep qs' (q_add q b s1)"
    and s': "s' = (if c then qenable q (q_add q b s1) else q_add q b s1)"
  shows "q_rep qs' s' \<and> run_rep (rl @ filter (\<lambda>r. r \<notin> set rl) (if c \<and> srv s q \<noteq> None then [q] else [])) s' \<and>
    relinked (sb s) (sb s') \<and> (has QFULL s' q \<longleftrightarrow> has QFULL s q \<or> q_count (queues s' q) \<ge> q_hiwat (queues s q))"
proof -
  have sc: "sched (q_add q b s1) s'" by (simp add: s')
  have "relinked (sb s) (sb s')" using relinked_sched [OF sc] d relinked_trans by (auto simp: put_done_def)
  moreover have "q_rep qs' s'" by (rule q_rep_sched [OF sc rep])
  moreover have "run_rep (rl @ filter (\<lambda>r. r \<notin> set rl) (if c \<and> srv s q \<noteq> None then [q] else [])) s'"
    unfolding s' by (rule put_done_run(2) [OF run d])
  moreover have "has QFULL s' q = has QFULL (q_add q b s1) q" "q_count (queues s' q) = q_count (queues (q_add q b s1) q)"
    using sc by (auto simp: sched_def qsame_def)
  ultimately show ?thesis using d by (simp add: put_done_def)
qed

definition put_wakes :: "nat \<Rightarrow> nat \<Rightarrow> strq \<Rightarrow> nat list" where
  "put_wakes q b s = (if (queueclass s b > 0 \<or> \<not> has QNOENB s q \<and> has QWANTR s q) \<and> srv s q \<noteq> None then [q] else [])"

lemma put_enable_eq:
  assumes "put_done q s s1"
  shows "put_enable q b (q_add q b s1) =
    (if queueclass s b > 0 \<or> \<not> has QNOENB s q \<and> has QWANTR s q then qenable q (q_add q b s1) else q_add q b s1)"
  using assms queueclass_relinked [of s "q_add q b s1" b] by (simp add: put_enable_def put_done_def)

lemma putq_rep:
  assumes rep: "q_rep qs s" and run: "run_rep rl s" and q: "q < v_nqueue s"
    and b: "b < nmblock (sb s)" "\<forall>r<v_nqueue s. b \<notin> set (qs r)"
  shows "let s' = putq q b s in q_rep (qs(q := enq (queueclass s) b (qs q))) s' \<and>
    run_rep (rl @ filter (\<lambda>r. r \<notin> set rl) (put_wakes q b s)) s' \<and> relinked (sb s) (sb s') \<and>
    (has QFULL s' q \<longleftrightarrow> has QFULL s q \<or> q_count (queues s' q) \<ge> q_hiwat (queues s q))"
proof -
  note Q = q_repD [OF rep q]
  have bq: "b \<notin> set (qs q)" using b(2) q by blast
  have "\<exists>us vs s1. enq (queueclass s) b (qs q) = us @ b # vs \<and> put_done q s s1 \<and>
      putq q b s = put_enable q b (q_add q b s1) \<and> q_rep (qs(q := us @ b # vs)) (q_add q b s1)"
  proof (cases "qs q = [] \<or> queueclass s b \<le> queueclass s (last (qs q))")
    case True
    let ?l = "last_opt (qs q)"
    define s1 where "s1 = upd_q q (\<lambda>x. x\<lparr>q_last := Some b\<rparr>) (upd_b b (\<lambda>x. x\<lparr>b_next := None\<rparr>)
      (if hd_opt (qs q) \<noteq> None then upd_b b (\<lambda>x. x\<lparr>b_prev := ?l\<rparr>) (upd_b (the ?l) (\<lambda>x. x\<lparr>b_next := Some b\<rparr>) s)
       else upd_b b (\<lambda>x. x\<lparr>b_prev := None\<rparr>) (upd_q q (\<lambda>x. x\<lparr>q_first := Some b\<rparr>) s)))"
    have c: "hd_opt (qs q) = None \<or> queueclass s b \<le> queueclass s (the ?l)"
      using True by (auto simp: last_opt_def)
    then have eq: "putq q b s = put_enable q b (q_add q b s1)"
      unfolding putq_def Let_def Q(5,6) s1_def by (simp only: if_True)
    have d: "put_done q s s1" unfolding s1_def by (cases "hd_opt (qs q) = None") (simp_all add: put_steps)
    then have "relinked (sb s) (sb s1)" by (simp add: put_done_def)
    have "q_rep (qs(q := qs q @ b # [])) (q_add q b s1)"
      by (rule linked_rep [OF rep q _ _ \<open>relinked (sb s) (sb s1)\<close> b])
        (use b q Q(5,6) in \<open>auto simp: s1_def mb_nx_def mb_pv_def last_opt_def\<close>)
    moreover have "enq (queueclass s) b (qs q) = qs q @ b # []" using True by (simp add: enq_def)
    ultimately show ?thesis using d eq by (intro exI [of _ "qs q"] exI [of _ "[]"] exI [of _ s1]) simp
  next
    case False
    let ?P = "\<lambda>x. queueclass s x < queueclass s b"
    have "last (qs q) \<in> set (qs q)" "?P (last (qs q))" using False by simp_all
    then have "find ?P (qs q) \<noteq> None" unfolding find_None_iff by blast
    then obtain n where n: "find ?P (qs q) = Some n" by auto
    from find_split [OF n] obtain us vs where spl: "qs q = us @ n # vs" "?P n" "\<And>y. y \<in> set us \<Longrightarrow> \<not> ?P y" by metis
    then have tw: "takeWhile (\<lambda>x. queueclass s x \<ge> queueclass s b) (qs q) = us"
        "dropWhile (\<lambda>x. queueclass s x \<ge> queueclass s b) (qs q) = n # vs"
      by (simp_all add: takeWhile_append2 dropWhile_append2 not_less)
    have e: "enq (queueclass s) b (qs q) = us @ b # n # vs" using False tw by (simp add: enq_def)
    have pv: "b_prev (mblk (sb s) n) = last_opt us" using dll_next(2) [of _ _ _ _ us n vs] Q(1) spl by (simp add: mb_pv_def)
    define s3 where "s3 = (case last_opt us of Some p \<Rightarrow> upd_b p (\<lambda>x. x\<lparr>b_next := Some b\<rparr>)
        (upd_b b (\<lambda>x. x\<lparr>b_next := Some n, b_prev := last_opt us\<rparr>) s)
      | None \<Rightarrow> upd_q q (\<lambda>x. x\<lparr>q_first := Some b\<rparr>) (upd_b b (\<lambda>x. x\<lparr>b_next := Some n, b_prev := last_opt us\<rparr>) s))"
    define s1 where "s1 = upd_b n (\<lambda>x. x\<lparr>b_prev := Some b\<rparr>) s3"
    have c: "\<not> (hd_opt (qs q) = None \<or> queueclass s b \<le> queueclass s (the (last_opt (qs q))))"
      using False by (auto simp: last_opt_def)
    then have eq: "putq q b s = put_enable q b (q_add q b s1)"
      unfolding putq_def Let_def Q(5-7) s1_def s3_def n by (simp only: if_False option.case pv)
    have "put_done q s s3" unfolding s3_def by (cases "last_opt us") (simp_all add: put_steps)
    then have d: "put_done q s s1" unfolding s1_def by (simp add: put_steps)
    then have r: "relinked (sb s) (sb s1)" by (simp add: put_done_def)
    have nb: "n \<noteq> b" "last_opt us \<noteq> Some b" "last_opt us \<noteq> Some n"
      using bq spl dll_distinct [OF Q(1)] by (auto dest: last_opt_mem)
    have "q_rep (qs(q := us @ b # n # vs)) (q_add q b s1)"
      by (rule linked_rep [OF rep q spl(1) _ r b])
        (use nb Q(5,6) spl(1) in \<open>auto simp: s1_def s3_def mb_nx_def mb_pv_def split: option.split\<close>)
    with e eq d show ?thesis by (intro exI [of _ us] exI [of _ "n # vs"] exI [of _ s1]) simp
  qed
  then obtain us vs s1 where s1: "enq (queueclass s) b (qs q) = us @ b # vs" "put_done q s s1"
    "putq q b s = put_enable q b (q_add q b s1)" "q_rep (qs(q := us @ b # vs)) (q_add q b s1)" by blast
  from put_finish [OF run s1(2) s1(4) s1(3) [unfolded put_enable_eq [OF s1(2)]]] s1(1)
  show ?thesis unfolding Let_def put_wakes_def by simp
qed

text \<open>\<open>putq\<close> puts a message on a queue behind the messages of its class and above, before those of a
  lower class; it counts its weight, sets \<open>QFULL\<close> at the high water mark and puts the queue on the run list
  when the message has priority or the queue waits for one and may be enabled, unless it is on it.\<close>

theorem putq_inserts:
  assumes "q_rep qs s" "run_rep rl s" "q < v_nqueue s" "b < nmblock (sb s)" "\<forall>r<v_nqueue s. b \<notin> set (qs r)"
  shows "let s' = putq q b s in q_rep (qs(q := enq (queueclass s) b (qs q))) s' \<and>
    run_rep (rl @ filter (\<lambda>r. r \<notin> set rl) (put_wakes q b s)) s' \<and> relinked (sb s) (sb s') \<and>
    (has QFULL s' q \<longleftrightarrow> has QFULL s q \<or> q_count (queues s' q) \<ge> q_hiwat (queues s q))"
  using assms by (rule putq_rep)

lemma putbq_first:
  assumes rep: "q_rep qs s" and run: "run_rep rl s" and q: "q < v_nqueue s"
    and b: "b < nmblock (sb s)" "\<forall>r<v_nqueue s. b \<notin> set (qs r)"
    and True: "qs q = [] \<or> queueclass s b \<ge> queueclass s (hd (qs q))"
  shows "\<exists>us vs s1. enq_front (queueclass s) b (qs q) = us @ b # vs \<and> put_done q s s1 \<and>
      putbq q b s = put_enable q b (q_add q b s1) \<and> q_rep (qs(q := us @ b # vs)) (q_add q b s1)"
proof -
  note Q = q_repD [OF rep q]
  have bq: "b \<notin> set (qs q)" using b(2) q by blast
  let ?s2 = "upd_b b (\<lambda>x. x\<lparr>b_next := hd_opt (qs q), b_prev := None\<rparr>) s"
  define s3 where "s3 = (case hd_opt (qs q) of Some n \<Rightarrow> upd_b n (\<lambda>x. x\<lparr>b_prev := Some b\<rparr>) ?s2
    | None \<Rightarrow> upd_q q (\<lambda>x. x\<lparr>q_last := Some b\<rparr>) ?s2)"
  define s1 where "s1 = upd_q q (\<lambda>x. x\<lparr>q_first := Some b\<rparr>) s3"
  have c: "hd_opt (qs q) = None \<or> queueclass s b \<ge> queueclass s (the (hd_opt (qs q)))"
    using True by (cases "qs q") auto
  then have eq: "putbq q b s = put_enable q b (q_add q b s1)"
    unfolding putbq_def Let_def Q(5) s1_def s3_def by (simp only: if_True)
  have "put_done q s s3" unfolding s3_def by (cases "hd_opt (qs q)") (simp_all add: put_steps)
  then have d: "put_done q s s1" unfolding s1_def by (simp add: put_steps)
  then have r: "relinked (sb s) (sb s1)" by (simp add: put_done_def)
  have nb: "hd_opt (qs q) \<noteq> Some b" using b(2) q by (auto dest: hd_opt_mem)
  have "q_rep (qs(q := [] @ b # qs q)) (q_add q b s1)"
    by (rule linked_rep [OF rep q _ _ r b])
      (use nb Q(5,6) in \<open>auto simp: s1_def s3_def mb_nx_def mb_pv_def split: option.split\<close>)
  moreover have "enq_front (queueclass s) b (qs q) = [] @ b # qs q" using True by (cases "qs q") (auto simp: enq_front_def)
  ultimately show ?thesis using d eq by (intro exI [of _ "[]"] exI [of _ "qs q"] exI [of _ s1]) simp
qed

lemma putbq_after:
  assumes rep: "q_rep qs s" and run: "run_rep rl s" and q: "q < v_nqueue s"
    and b: "b < nmblock (sb s)" "\<forall>r<v_nqueue s. b \<notin> set (qs r)"
    and False: "\<not> (qs q = [] \<or> queueclass s b \<ge> queueclass s (hd (qs q)))"
  shows "\<exists>us vs s1. enq_front (queueclass s) b (qs q) = us @ b # vs \<and> put_done q s s1 \<and>
      putbq q b s = put_enable q b (q_add q b s1) \<and> q_rep (qs(q := us @ b # vs)) (q_add q b s1)"
proof -
  note Q = q_repD [OF rep q]
  have bq: "b \<notin> set (qs q)" using b(2) q by blast
  let ?P = "\<lambda>x. case b_next (mblk (sb s) x) of None \<Rightarrow> True | Some y \<Rightarrow> \<not> queueclass s y > queueclass s b"
  let ?R = "\<lambda>x. queueclass s x > queueclass s b"
  define us where "us = takeWhile ?R (qs q)"
  define vs where "vs = dropWhile ?R (qs q)"
  have uv: "qs q = us @ vs" by (simp add: us_def vs_def)
  have "us \<noteq> []" using False by (cases "qs q") (simp_all add: us_def)
  then obtain ws n where us: "us = ws @ [n]" by (cases us rule: rev_cases) auto
  have nx: "b_next (mblk (sb s) n) = hd_opt vs"
    using dll_next(1) [of _ _ _ _ ws n vs] Q(1) uv us by (simp add: mb_nx_def)
  have fd: "find ?P (qs q) = Some n"
    using find_stop [of "mb_nx (sb s)" _ "qs q" ?R ws n] Q(1) us by (auto simp: dll_def mb_nx_def us_def)
  have e: "enq_front (queueclass s) b (qs q) = us @ b # vs" by (simp add: enq_front_def us_def vs_def)
  define s3 where "s3 = (case hd_opt vs of Some c \<Rightarrow> upd_b c (\<lambda>x. x\<lparr>b_prev := Some b\<rparr>) (upd_b b (\<lambda>x. x\<lparr>b_next := hd_opt vs\<rparr>) s)
    | None \<Rightarrow> upd_q q (\<lambda>x. x\<lparr>q_last := Some b\<rparr>) (upd_b b (\<lambda>x. x\<lparr>b_next := hd_opt vs\<rparr>) s))"
  define s1 where "s1 = upd_b b (\<lambda>x. x\<lparr>b_prev := Some n\<rparr>) (upd_b n (\<lambda>x. x\<lparr>b_next := Some b\<rparr>) s3)"
  have c: "\<not> (hd_opt (qs q) = None \<or> queueclass s b \<ge> queueclass s (the (hd_opt (qs q))))"
    using False by (cases "qs q") auto
  then have eq: "putbq q b s = put_enable q b (q_add q b s1)"
    unfolding putbq_def Let_def Q(5,7) s1_def s3_def fd by (simp only: if_False option.case nx)
  have "put_done q s s3" unfolding s3_def by (cases "hd_opt vs") (simp_all add: put_steps)
  then have d: "put_done q s s1" unfolding s1_def by (simp add: put_steps)
  then have r: "relinked (sb s) (sb s1)" by (simp add: put_done_def)
  have nb: "n \<noteq> b" "hd_opt vs \<noteq> Some b" "hd_opt vs \<noteq> Some n" "last_opt us = Some n"
    using bq uv us dll_distinct [OF Q(1)] by (auto dest: hd_opt_mem)
  have "q_rep (qs(q := us @ b # vs)) (q_add q b s1)"
    by (rule linked_rep [OF rep q uv _ r b])
      (use nb Q(5,6) uv us in \<open>auto simp: s1_def s3_def mb_nx_def mb_pv_def split: option.split\<close>)
  with e eq d show ?thesis by (intro exI [of _ us] exI [of _ vs] exI [of _ s1]) simp
qed

text \<open>\<open>putbq\<close> puts a message back in front of the messages of its class and below, behind those of a
  higher class, with the same counting and enabling as \<open>putq\<close>.\<close>

theorem putbq_inserts:
  assumes rep: "q_rep qs s" and run: "run_rep rl s" and q: "q < v_nqueue s"
    and b: "b < nmblock (sb s)" "\<forall>r<v_nqueue s. b \<notin> set (qs r)"
  shows "let s' = putbq q b s in q_rep (qs(q := enq_front (queueclass s) b (qs q))) s' \<and>
    run_rep (rl @ filter (\<lambda>r. r \<notin> set rl) (put_wakes q b s)) s' \<and> relinked (sb s) (sb s') \<and>
    (has QFULL s' q \<longleftrightarrow> has QFULL s q \<or> q_count (queues s' q) \<ge> q_hiwat (queues s q))"
proof -
  obtain us vs s1 where s1: "enq_front (queueclass s) b (qs q) = us @ b # vs" "put_done q s s1"
    "putbq q b s = put_enable q b (q_add q b s1)" "q_rep (qs(q := us @ b # vs)) (q_add q b s1)" using putbq_first [OF rep run q b] putbq_after [OF rep run q b] by blast
  from put_finish [OF run s1(2) s1(4) s1(3) [unfolded put_enable_eq [OF s1(2)]]] s1(1)
  show ?thesis unfolding Let_def put_wakes_def by simp
qed

text \<open>\<open>insq\<close> puts a message directly before the given one, or at the end for NULL, whatever its class.\<close>

theorem insq_inserts:
  assumes rep: "q_rep qs s" and run: "run_rep rl s" and q: "q < v_nqueue s" and spl: "qs q = us @ vs"
    and b: "b < nmblock (sb s)" "\<forall>r<v_nqueue s. b \<notin> set (qs r)"
  shows "let s' = insq q (hd_opt vs) b s in q_rep (qs(q := us @ b # vs)) s' \<and>
    run_rep (rl @ filter (\<lambda>r. r \<notin> set rl) (if (\<not> has QNOENB s q \<and> has QWANTR s q) \<and> srv s q \<noteq> None then [q] else [])) s' \<and>
    relinked (sb s) (sb s') \<and> (has QFULL s' q \<longleftrightarrow> has QFULL s q \<or> q_count (queues s' q) \<ge> q_hiwat (queues s q))"
proof -
  note Q = q_repD [OF rep q]
  have bq: "b \<notin> set (qs q)" using b(2) q by blast
  have pv: "b_prev (mblk (sb s) e) = last_opt us" "e \<noteq> b" if "hd_opt vs = Some e" for e
  proof -
    from that obtain ws where "vs = e # ws" by (cases vs) auto
    with dll_next(2) [of _ _ _ _ us e ws] Q(1) spl bq show "b_prev (mblk (sb s) e) = last_opt us" "e \<noteq> b"
      by (auto simp: mb_pv_def)
  qed
  define s0 where "s0 = upd_b b (\<lambda>x. x\<lparr>b_next := hd_opt vs\<rparr>) s"
  define s2 where "s2 = upd_b b (\<lambda>x. x\<lparr>b_prev := last_opt us\<rparr>) s0"
  define s3 where "s3 = (case last_opt us of Some p \<Rightarrow> upd_b p (\<lambda>x. x\<lparr>b_next := Some b\<rparr>) s2
      | None \<Rightarrow> upd_q q (\<lambda>x. x\<lparr>q_first := Some b\<rparr>) s2)"
  define s1 where "s1 = (case hd_opt vs of Some e \<Rightarrow> upd_b e (\<lambda>x. x\<lparr>b_prev := Some b\<rparr>) s3
      | None \<Rightarrow> upd_q q (\<lambda>x. x\<lparr>q_last := Some b\<rparr>) s3)"
  define s4 where "s4 = q_add q b s1"
  have l: "q_last (queues s0 q) = last_opt us" if "hd_opt vs = None" using that Q(6) spl by (simp add: s0_def)
  have pv0: "b_prev (mblk (sb s0) e) = last_opt us" if "hd_opt vs = Some e" for e using pv [OF that] by (simp add: s0_def)
  have eq: "insq q (hd_opt vs) b s = (if \<not> has QNOENB s4 q \<and> has QWANTR s4 q then qenable q s4 else s4)"
  proof (cases "hd_opt vs")
    case None
    show ?thesis unfolding insq_def Let_def s0_def [symmetric] s4_def s1_def s3_def s2_def
      unfolding None option.case l [OF None] ..
  next
    case (Some e)
    show ?thesis unfolding insq_def Let_def s0_def [symmetric] s4_def s1_def s3_def s2_def
      unfolding Some option.case pv0 [OF Some] ..
  qed
  have "put_done q s s0" "put_done q s s2" unfolding s0_def s2_def by (simp_all add: put_steps)
  then have "put_done q s s3" unfolding s3_def by (cases "last_opt us") (simp_all add: put_steps)
  then have d: "put_done q s s1" unfolding s1_def by (cases "hd_opt vs") (simp_all add: put_steps)
  then have r: "relinked (sb s) (sb s1)" by (simp add: put_done_def)
  have nb: "hd_opt vs \<noteq> Some b" "last_opt us \<noteq> Some b" "\<And>x. last_opt us = Some x \<Longrightarrow> hd_opt vs \<noteq> Some x"
    using bq spl dll_distinct [OF Q(1)] by (auto dest!: last_opt_mem hd_opt_mem)
  have rep1: "q_rep (qs(q := us @ b # vs)) (q_add q b s1)"
    by (rule linked_rep [OF rep q spl _ r b]) (use nb Q(5,6) spl in
      \<open>auto simp: s1_def s3_def s2_def s0_def mb_nx_def mb_pv_def split: option.split\<close>)
  have f: "has QNOENB s4 q = has QNOENB s q" "has QWANTR s4 q = has QWANTR s q"
    using d by (simp_all add: s4_def put_done_def)
  show ?thesis unfolding Let_def by (rule put_finish [OF run d rep1 eq [unfolded f, unfolded s4_def]])
qed

subsection \<open>A queue as a queue by class\<close>

definition pq_inv :: "nat \<Rightarrow> (nat \<Rightarrow> int) \<Rightarrow> strq \<Rightarrow> bool" where
  "pq_inv q pr s \<longleftrightarrow> q < v_nqueue s \<and> (\<exists>qs rl. q_rep qs s \<and> run_rep rl s) \<and> (\<forall>b. queueclass s b = pr b)"

definition pq_ready :: "nat \<Rightarrow> strq \<Rightarrow> bool" where
  "pq_ready b s \<longleftrightarrow> b < nmblock (sb s) \<and> (\<forall>r<v_nqueue s. b \<notin> set (q_msgs r s))"

lemma putq_nqueue [simp]: "v_nqueue (putq q b s) = v_nqueue s"
proof -
  have "v_nqueue (put_enable q b t) = v_nqueue t" for t
    using sched_qenable [of t q] by (simp add: put_enable_def sched_def)
  then show ?thesis by (simp add: putq_def Let_def split: option.split)
qed

lemma pq_putq:
  assumes inv: "pq_inv q pr s" and e: "pq_ready e s"
  shows "pq_inv q pr (putq q e s) \<and> q_msgs q (putq q e s) = enq pr e (q_msgs q s) \<and>
    (\<forall>f. pq_ready f s \<and> f \<noteq> e \<longrightarrow> pq_ready f (putq q e s))"
proof -
  from inv obtain qs rl where s: "q < v_nqueue s" "q_rep qs s" "run_rep rl s" "queueclass s = pr"
    by (auto simp: pq_inv_def)
  have m: "q_msgs r s = qs r" if "r < v_nqueue s" for r using q_repD(7) [OF s(2) that] .
  have fr: "e < nmblock (sb s)" "\<forall>r<v_nqueue s. e \<notin> set (qs r)" using e m by (auto simp: pq_ready_def)
  let ?s = "putq q e s" let ?qs = "qs(q := enq pr e (qs q))"
  have p: "q_rep ?qs ?s" "run_rep (rl @ filter (\<lambda>r. r \<notin> set rl) (put_wakes q e s)) ?s" "relinked (sb s) (sb ?s)"
    using putq_rep [OF s(2,3,1) fr] s(4) by (simp_all add: Let_def)
  have nq: "v_nqueue ?s = v_nqueue s" by simp
  have m': "q_msgs r ?s = ?qs r" if "r < v_nqueue s" for r using q_repD(7) [OF p(1), of r] that nq by simp
  have "pq_inv q pr ?s"
    unfolding pq_inv_def nq using s(1,4) p(1,2) queueclass_relinked [OF p(3)] by auto
  moreover have "pq_ready f ?s" if "pq_ready f s" "f \<noteq> e" for f
    using that m m' p(3) s(1) by (auto simp: pq_ready_def nq relinked_def)
  ultimately show ?thesis using m m' s(1) by simp
qed

lemma getq_nqueue [simp]: "v_nqueue (snd (getq q s)) = v_nqueue s"
proof -
  have "v_nqueue (unblock q t) = v_nqueue t" for t
    using sched_back_enable [of "clr_f QWANTW q t" q] by (simp add: unblock_def sched_def)
  then show ?thesis by (simp add: getq_def Let_def split: option.split)
qed

lemma pq_getq:
  assumes inv: "pq_inv q pr s" and c: "q_msgs q s = e # es"
  shows "\<exists>s'. getq q s = (Some e, s') \<and> pq_inv q pr s' \<and> q_msgs q s' = es"
proof -
  from inv obtain qs rl where s: "q < v_nqueue s" "q_rep qs s" "run_rep rl s" "queueclass s = pr"
    by (auto simp: pq_inv_def)
  have m: "qs q = e # es" using q_repD(7) [OF s(2,1)] c by simp
  obtain p s' where g: "getq q s = (p, s')" by (cases "getq q s")
  with getq_rep [OF s(2,3,1)] m have r: "p = Some e" "q_rep (qs(q := es)) s'" "\<exists>rl. run_rep rl s'" "relinked (sb s) (sb s')"
    by (auto simp: Let_def)
  have nq: "v_nqueue s' = v_nqueue s" using getq_nqueue [of q s] g by simp
  then have "pq_inv q pr s'" unfolding pq_inv_def using s(1,4) r(2,3) queueclass_relinked [OF r(4)] by auto
  moreover have "q_msgs q s' = es" using q_repD(7) [OF r(2), of q] s(1) nq by simp
  ultimately show ?thesis using g r(1) by simp
qed

interpretation pq: prio_queue "pq_inv q pr" "q_msgs q" pq_ready pr "putq q" "getq q" for q pr
  by unfold_locales (rule pq_putq pq_getq; assumption)+

text \<open>C18: Messages put on an empty queue come back from \<open>getq\<close> stably sorted by class: priority messages
  first, and in each class in the order they were put.\<close>

theorem putq_getq_sorted:
  assumes "q_rep qs s" "run_rep rl s" "q < v_nqueue s" "qs q = []"
    and "distinct bs" "\<forall>b\<in>set bs. b < nmblock (sb s) \<and> (\<forall>r<v_nqueue s. b \<notin> set (qs r))"
  shows "\<exists>s'. get_all (getq q) (length bs) (fold (putq q) bs s) = (sort_key (\<lambda>b. - queueclass s b) bs, s') \<and>
    q_msgs q s' = []"
proof -
  have m: "q_msgs r s = qs r" if "r < v_nqueue s" for r using q_repD(7) [OF assms(1) that] .
  have "pq_inv q (queueclass s) s" using assms(1-3) by (auto simp: pq_inv_def)
  moreover have "\<forall>b\<in>set bs. pq_ready b s" using assms(6) m by (auto simp: pq_ready_def)
  moreover have "q_msgs q s = []" using m [OF assms(3)] assms(4) by simp
  ultimately have "\<exists>s'. get_all (getq q) (length bs) (fold (putq q) bs s) = (sort_key (\<lambda>b. - queueclass s b) bs, s') \<and>
      pq_inv q (queueclass s) s' \<and> q_msgs q s' = []" using pq.put_get_sorted assms(5) by blast
  then show ?thesis by blast
qed

subsection \<open>Running the queues\<close>

text \<open>Taking a queue off the run list and running its service procedure.\<close>

definition serve :: "(nat \<Rightarrow> nat \<Rightarrow> strq \<Rightarrow> strq) \<Rightarrow> nat \<Rightarrow> strq \<Rightarrow> strq" where
  "serve srvp q s = (let s1 = clr_f QENAB q (if q_link (queues s q) = None then s\<lparr>qhead := None, qtail := None\<rparr>
       else s\<lparr>qhead := q_link (queues s q)\<rparr>)
     in case srv s1 q of None \<Rightarrow> s1 | Some f \<Rightarrow> srvp f q s1)"

definition quiet :: "strq \<Rightarrow> strq \<Rightarrow> bool" where
  "quiet s s' \<longleftrightarrow> qhead s' = qhead s \<and> qtail s' = qtail s \<and> strbcflag (sb s') = strbcflag (sb s) \<and>
     (\<forall>r. q_link (queues s' r) = q_link (queues s r) \<and> has QENAB s' r = has QENAB s r \<and> srv s' r = srv s r)"

lemma serve_run:
  assumes run: "run_rep (q # rl) s" and quiet: "\<And>f q s. quiet s (srvp f q s)"
  shows "run_rep rl (serve srvp q s)" "strbcflag (sb (serve srvp q s)) = strbcflag (sb s)"
proof -
  define s1 where "s1 = clr_f QENAB q (if q_link (queues s q) = None then s\<lparr>qhead := None, qtail := None\<rparr>
       else s\<lparr>qhead := q_link (queues s q)\<rparr>)"
  have R: "chain (\<lambda>q. q_link (queues s q)) (qhead s) (q # rl)" "qtail s = last_opt (q # rl)"
    "\<And>r. has QENAB s r \<longleftrightarrow> r \<in> set (q # rl)" "\<And>r. r \<in> set (q # rl) \<Longrightarrow> srv s r \<noteq> None"
    using run unfolding run_rep_def by blast+
  have d: "q \<notin> set rl" using chain_distinct [OF R(1)] by simp
  have c: "chain (\<lambda>q. q_link (queues s q)) (q_link (queues s q)) rl" using R(1) by simp
  have e: "q_link (queues s q) = None \<longleftrightarrow> rl = []" using chain_hd [OF c] by simp
  have l: "(\<lambda>r. q_link (queues s1 r)) = (\<lambda>r. q_link (queues s r))" by (auto simp: s1_def fun_eq_iff)
  have srv1: "srv s1 r = srv s r" for r unfolding s1_def by (simp add: srv_def)
  have h: "has QENAB s1 r \<longleftrightarrow> r \<in> set rl" for r
    using R(3) [of r] d by (auto simp: s1_def has_def bit_unset_bit_iff)
  have "run_rep rl s1" unfolding run_rep_def l
  proof (intro conjI allI ballI)
    show "chain (\<lambda>r. q_link (queues s r)) (qhead s1) rl" using c e by (auto simp: s1_def)
    show "qtail s1 = last_opt rl" using R(2) e by (auto simp: s1_def last_opt_Cons)
  qed (use h srv1 R(4) in auto)
  moreover have "serve srvp q s = (case srv s1 q of None \<Rightarrow> s1 | Some f \<Rightarrow> srvp f q s1)"
    by (simp add: serve_def s1_def [symmetric] Let_def)
  moreover have "strbcflag (sb s1) = strbcflag (sb s)" by (simp add: s1_def)
  moreover have "run_rep rl (srvp f q s1) = run_rep rl s1" for f
    using quiet [of s1 f q] by (intro run_rep_cong) (auto simp: quiet_def)
  ultimately show "run_rep rl (serve srvp q s)" "strbcflag (sb (serve srvp q s)) = strbcflag (sb s)"
    using quiet [of s1 _ q] by (auto simp: quiet_def split: option.split)
qed

lemma srv_loop_serves:
  assumes quiet: "\<And>f q s. quiet s (srvp f q s)"
  shows "run_rep rl s \<Longrightarrow> length rl \<le> n \<Longrightarrow> srv_loop srvp n s = Some (fold (serve srvp) rl s) \<and>
    run_rep [] (fold (serve srvp) rl s) \<and> strbcflag (sb (fold (serve srvp) rl s)) = strbcflag (sb s)"
proof (induction rl arbitrary: n s)
  case Nil
  then have "qhead s = None" by (simp add: run_rep_def)
  with Nil show ?case by (cases n) simp_all
next
  case (Cons q rl)
  then obtain k where k: "n = Suc k" by (cases n) auto
  have h: "qhead s = Some q" using Cons.prems(1) by (simp add: run_rep_def)
  note S = serve_run [OF Cons.prems(1) quiet]
  have "srv_loop srvp n s = srv_loop srvp k (serve srvp q s)" using h by (simp add: k serve_def Let_def)
  with Cons.IH [OF S(1), of k] Cons.prems(2) S(2) k show ?case by simp
qed

text \<open>C19: When no buffer request is pending and the service procedures enable no queue, \<open>queuerun\<close> returns:
  it serves the queues of the run list, each once, in the order they were enabled, and leaves the run list
  empty, no queue marked and the scheduler's flag off.\<close>

theorem queuerun_serves_all:
  assumes "run_rep rl s" "\<not> strbcflag (sb s)" "\<And>f q s. quiet s (srvp f q s)" "length rl \<le> n"
  shows "let t = fold (serve srvp) rl s; s' = t\<lparr>sb := (sb t)\<lparr>qrunflag := False\<rparr>\<rparr> in
    queuerun (Suc m) n evfn srvp s = Some s' \<and> run_rep [] s' \<and> (\<forall>q. \<not> has QENAB s' q)"
proof -
  let ?t = "fold (serve srvp) rl s"
  let ?s = "?t\<lparr>sb := (sb ?t)\<lparr>qrunflag := False\<rparr>\<rparr>"
  have s: "srv_loop srvp n s = Some ?t" "run_rep [] ?t" "\<not> strbcflag (sb ?t)"
    using srv_loop_serves [OF assms(3,1,4)] assms(2) by simp_all
  have "run_rep [] ?s" using s(2) by (subst run_rep_cong [of _ ?t]) (simp_all add: has_def srv_def)
  with s assms(2) show ?thesis by (simp add: Let_def run_rep_def)
qed

subsection \<open>Flushing a queue\<close>

definition good_msg :: "stbuf \<Rightarrow> nat \<Rightarrow> bool" where
  "good_msg t b \<longleftrightarrow> (\<exists>bs. chain (\<lambda>b. b_cont (mblk t b)) (Some b) bs \<and> length bs \<le> nmblock t \<and>
     (\<forall>x\<in>set bs. x < nmblock t \<and> datap t x \<noteq> None))"

definition blocks :: "stbuf \<Rightarrow> nat \<Rightarrow> nat set" where
  "blocks t b = set (conts t (Some b))"

text \<open>The messages \<open>M\<close> are well formed and share no message block, in a consistent pool.\<close>

definition pool_msgs :: "nat set \<Rightarrow> stbuf \<Rightarrow> bool" where
  "pool_msgs M t \<longleftrightarrow> sb_ok t \<and> (\<forall>b\<in>M. good_msg t b) \<and> (\<forall>b\<in>M. \<forall>c\<in>M. b \<noteq> c \<longrightarrow> blocks t b \<inter> blocks t c = {})"

lemma good_conts:
  assumes "good_msg t b"
  shows "chain (\<lambda>b. b_cont (mblk t b)) (Some b) (conts t (Some b))" "length (conts t (Some b)) \<le> nmblock t"
    "\<forall>x\<in>blocks t b. x < nmblock t \<and> datap t x \<noteq> None" "b \<in> blocks t b"
proof -
  from assms obtain bs where bs: "chain (\<lambda>b. b_cont (mblk t b)) (Some b) bs" "length bs \<le> nmblock t"
    "\<forall>x\<in>set bs. x < nmblock t \<and> datap t x \<noteq> None" by (auto simp: good_msg_def)
  then have c: "conts t (Some b) = bs" by (simp add: conts_def follow_chain)
  with bs show "chain (\<lambda>b. b_cont (mblk t b)) (Some b) (conts t (Some b))" "length (conts t (Some b)) \<le> nmblock t"
    "\<forall>x\<in>blocks t b. x < nmblock t \<and> datap t x \<noteq> None" by (simp_all add: blocks_def)
  show "b \<in> blocks t b" using bs(1) c by (auto simp: blocks_def chain_Some)
qed

lemma good_msg_relinked:
  assumes "relinked t t'" shows "good_msg t' b = good_msg t b" "blocks t' b = blocks t b"
proof -
  have "(\<lambda>b. b_cont (mblk t' b)) = (\<lambda>b. b_cont (mblk t b))" "nmblock t' = nmblock t" "datap t' = datap t"
    using assms by (simp_all add: relinked_def datap_def fun_eq_iff)
  then show "good_msg t' b = good_msg t b" by (simp add: good_msg_def)
  show "blocks t' b = blocks t b" using relinked_same(3) [OF assms] by (simp add: blocks_def)
qed

lemma freemsg_rep:
  assumes ok: "sb_ok t" and g: "good_msg t b"
  shows "sb_ok (freemsg (Some b) t)" "conts (freemsg (Some b) t) p = conts t p" "nmblock (freemsg (Some b) t) = nmblock t"
    "x \<notin> blocks t b \<Longrightarrow> mblk (freemsg (Some b) t) x = mblk t x" "x \<in> blocks t b \<Longrightarrow> datap (freemsg (Some b) t) x = None"
    "good_msg t c \<Longrightarrow> blocks t b \<inter> blocks t c = {} \<Longrightarrow> good_msg (freemsg (Some b) t) c \<and>
       msg_weight (freemsg (Some b) t) c = msg_weight t c \<and> mb_type (freemsg (Some b) t) c = mb_type t c"
proof -
  let ?t = "freemsg (Some b) t"
  note G = good_conts [OF g]
  have use: "\<forall>x\<in>set (conts t (Some b)). x < nmblock t \<and> datap t x \<noteq> None" using G(3) by (simp add: blocks_def)
  note F = freemsg_loop_rep [OF ok G(1,2) use, folded freemsg_def]
  show "sb_ok ?t" "nmblock ?t = nmblock t" using F by simp_all
  show x: "mblk ?t x = mblk t x" if "x \<notin> blocks t b" for x using F that by (simp add: blocks_def)
  show "datap ?t x = None" if "x \<in> blocks t b" using F that by (simp add: blocks_def)
  have "(\<lambda>b. b_cont (mblk ?t b)) = (\<lambda>b. b_cont (mblk t b))" using F by (simp add: fun_eq_iff)
  then show conts: "conts ?t p = conts t p" for p using F by (simp add: conts_def)
  assume c: "good_msg t c" "blocks t b \<inter> blocks t c = {}"
  note C = good_conts [OF c(1)]
  have same: "mblk ?t y = mblk t y" if "y \<in> blocks t c" for y using x [of y] c(2) that by auto
  then have dp: "datap ?t y = datap t y" "dbp ?t y = dbp t y" if "y \<in> blocks t c" for y
    using that by (simp_all add: datap_def dbp_def)
  have "good_msg ?t c" unfolding good_msg_def
  proof (intro exI [of _ "conts t (Some c)"] conjI)
    show "chain (\<lambda>b. b_cont (mblk ?t b)) (Some c) (conts t (Some c))" using C(1) F by simp
    show "length (conts t (Some c)) \<le> nmblock ?t" using C(2) F by simp
    show "\<forall>x\<in>set (conts t (Some c)). x < nmblock ?t \<and> datap ?t x \<noteq> None"
      using C(3) F dp(1) by (simp add: blocks_def)
  qed
  moreover have "map (\<lambda>y. of_nat (bsize ! db_class (dblk ?t (dbp ?t y)))) (conts t (Some c)) =
      map (\<lambda>y. of_nat (bsize ! db_class (dblk t (dbp t y)))) (conts t (Some c))"
    using F dp(2) by (simp add: blocks_def)
  then have "msg_weight ?t c = msg_weight t c" unfolding msg_weight_def conts by (rule arg_cong)
  moreover have "mb_type ?t c = mb_type t c" using F dp(2) [OF C(4)] by (simp add: mb_type_def)
  ultimately show "good_msg ?t c \<and> msg_weight ?t c = msg_weight t c \<and> mb_type ?t c = mb_type t c" by blast
qed

lemma sched_mblk: "sched s s' \<Longrightarrow> mblk (sb s') = mblk (sb s)"
  by (auto simp: sched_def)

lemma putq_frame:
  assumes rep: "q_rep qs s" and q: "q < v_nqueue s" and x: "x \<notin> set (qs q)" "x \<noteq> b"
  shows "mblk (sb (putq q b s)) x = mblk (sb s) x"
proof -
  note Q = q_repD [OF rep q]
  have pe: "mblk (sb (put_enable q b (q_add q b t))) = mblk (sb t)" for t
    using sched_mblk [of "q_add q b t" "qenable q (q_add q b t)"] by (simp add: put_enable_def)
  have l: "the (q_last (queues s q)) \<noteq> x" if "q_first (queues s q) \<noteq> None"
    using that Q(5,6) x(1) by (auto simp: last_opt_def)
  have n: "n \<noteq> x" "b_prev (mblk (sb s) n) \<noteq> Some x" if "find P (q_msgs q s) = Some n" for P n
  proof -
    from find_split [OF that [unfolded Q(7)]] obtain us vs where spl: "qs q = us @ n # vs" by metis
    have "b_prev (mblk (sb s) n) = last_opt us" using dll_next(2) [OF Q(1) [unfolded spl]] by (simp add: mb_pv_def)
    with spl x(1) show "n \<noteq> x" "b_prev (mblk (sb s) n) \<noteq> Some x" by (auto dest: last_opt_mem)
  qed
  show ?thesis unfolding putq_def Let_def pe using l n x(2)
    by (auto split: option.split)
qed

lemma q_rep_freed:
  assumes rep: "q_rep qs s" and ok: "sb_ok (sb s)" and g: "good_msg (sb s) b"
    and others: "\<And>r x. r < v_nqueue s \<Longrightarrow> x \<in> set (qs r) \<Longrightarrow> good_msg (sb s) x \<and> blocks (sb s) b \<inter> blocks (sb s) x = {}"
  shows "q_rep qs (s\<lparr>sb := freemsg (Some b) (sb s)\<rparr>)"
  unfolding q_rep_def
proof (intro allI impI)
  let ?t = "freemsg (Some b) (sb s)"
  note F = freemsg_rep [OF ok g]
  fix q assume "q < v_nqueue (s\<lparr>sb := ?t\<rparr>)"
  then have q: "q < v_nqueue s" by simp
  note Q = q_repD [OF rep q]
  have same: "mblk ?t x = mblk (sb s) x" "msg_weight ?t x = msg_weight (sb s) x" if "x \<in> set (qs q)" for x
  proof -
    note o = others [OF q that]
    have "x \<notin> blocks (sb s) b" using o good_conts(4) [of "sb s" x] by blast
    then show "mblk ?t x = mblk (sb s) x" by (rule F(4))
    show "msg_weight ?t x = msg_weight (sb s) x" using F(6) o by blast
  qed
  have "dll (mb_nx (sb s)) (mb_pv (sb s)) f l (qs q) = dll (mb_nx ?t) (mb_pv ?t) f l (qs q)" for f l
    by (rule dll_cong) (simp_all add: mb_nx_def mb_pv_def same(1))
  moreover have w: "sum_list (map (msg_weight ?t) (qs q)) = sum_list (map (msg_weight (sb s)) (qs q))"
    using same(2) by (simp cong: map_cong)
  ultimately show "dll (mb_nx (sb (s\<lparr>sb := ?t\<rparr>))) (mb_pv (sb (s\<lparr>sb := ?t\<rparr>))) (q_first (queues (s\<lparr>sb := ?t\<rparr>) q))
      (q_last (queues (s\<lparr>sb := ?t\<rparr>) q)) (qs q) \<and> set (qs q) \<subseteq> {..<nmblock (sb (s\<lparr>sb := ?t\<rparr>))} \<and>
     q_count (queues (s\<lparr>sb := ?t\<rparr>) q) = sum_list (map (msg_weight (sb (s\<lparr>sb := ?t\<rparr>))) (qs q)) \<and>
     (\<forall>r<v_nqueue (s\<lparr>sb := ?t\<rparr>). r \<noteq> q \<longrightarrow> set (qs q) \<inter> set (qs r) = {})"
    using Q(1-4) F(3) by simp
qed

lemma sb_ok_relinked:
  assumes l: "relinked t t'" and ok: "sb_ok t"
    and free: "\<And>x. x < nmblock t \<Longrightarrow> datap t x = None \<Longrightarrow> mblk t' x = mblk t x"
  shows "sb_ok t'"
proof -
  from ok obtain mf df where rep: "sb_rep mf df t" by (auto simp: sb_ok_def)
  have e: "nmblock t' = nmblock t" "dblk t' = dblk t" "mbfreelist t' = mbfreelist t" "dbfreelist t' = dbfreelist t"
    "dballoc t' = dballoc t" "v_nblk t' = v_nblk t" "datap t' = datap t"
    using l by (simp_all add: relinked_def datap_def fun_eq_iff)
  have c: "chain (mb_nx t) p mf = chain (mb_nx t') p mf" for p
  proof (rule seg_cong)
    fix x assume "x \<in> set mf"
    then have "x < nmblock t" "datap t x = None" using rep unfolding sb_rep_def by blast+
    then show "mb_nx t x = mb_nx t' x" using free by (simp add: mb_nx_def)
  qed
  have n: "db_nx t' = db_nx t" "ndblk t' = ndblk t" using e by (simp_all add: db_nx_def [abs_def] ndblk_def)
  have "sb_rep mf df t'" using rep unfolding sb_rep_def e n c .
  then show ?thesis by (auto simp: sb_ok_def)
qed

lemma flush_loop_rep:
  assumes "q_rep qs s" "run_rep rl s" "q < v_nqueue s" "chain (mb_nx (sb s)) p ms" "length ms \<le> n"
    and "\<forall>b\<in>set ms. b < nmblock (sb s) \<and> (\<forall>r<v_nqueue s. b \<notin> set (qs r))"
    and "pool_msgs (set ms \<union> (\<Union>r<v_nqueue s. set (qs r))) (sb s)"
    and "\<forall>b\<in>set ms \<union> set (qs q). queueclass s b = cls b" "\<forall>b\<in>set ms. keep b \<longleftrightarrow> \<not> all \<and> \<not> datamsg (mb_type (sb s) b)"
  shows "\<exists>rl' s'. flush_loop n p q all s = s' \<and> q_rep (qs(q := fold (enq cls) (filter keep ms) (qs q))) s' \<and>
    run_rep rl' s' \<and> sb_ok (sb s') \<and> v_nqueue s' = v_nqueue s \<and>
    (\<forall>b\<in>set ms. \<not> keep b \<longrightarrow> (\<forall>x\<in>blocks (sb s) b. datap (sb s') x = None)) \<and>
    (\<forall>x. datap (sb s) x = None \<longrightarrow> datap (sb s') x = None)"
  using assms
proof (induction ms arbitrary: n p s qs rl)
  case Nil
  then show ?case by (cases n) (auto simp: fun_upd_idem pool_msgs_def)
next
  case (Cons b ms)
  note rep = Cons.prems(1) and run = Cons.prems(2) and q = Cons.prems(3) and new = Cons.prems(6) and W = Cons.prems(7)
    and cls = Cons.prems(8) and keep = Cons.prems(9)
  from Cons.prems(5) obtain k where k: "n = Suc k" by (cases n) auto
  have p: "p = Some b" "chain (mb_nx (sb s)) (mb_nx (sb s) b) ms" using Cons.prems(4) by auto
  have d: "b \<notin> set ms" using chain_distinct [OF Cons.prems(4)] by simp
  note Q = q_repD [OF rep q]
  have kb: "keep b \<longleftrightarrow> \<not> all \<and> \<not> datamsg (mb_type (sb s) b)" using keep by simp
  show ?case
  proof (cases "keep b")
    case True
    let ?s = "putq q b s" let ?qs = "qs(q := enq (queueclass s) b (qs q))"
    have b: "b < nmblock (sb s)" "\<forall>r<v_nqueue s. b \<notin> set (qs r)" using new by auto
    have P: "q_rep ?qs ?s" "run_rep (rl @ filter (\<lambda>r. r \<notin> set rl) (put_wakes q b s)) ?s" "relinked (sb s) (sb ?s)"
      using putq_rep [OF rep run q b] by (simp_all add: Let_def)
    have e: "enq (queueclass s) b (qs q) = enq cls b (qs q)" by (rule enq_cong) (use cls in auto)
    have frame: "mblk (sb ?s) x = mblk (sb s) x" if "x \<noteq> b" "x \<notin> set (qs q)" for x
      by (rule putq_frame [OF rep q that(2,1)])
    have old: "mb_nx (sb s) x = mb_nx (sb ?s) x" if "x \<in> set ms" for x
    proof -
      have "x \<noteq> b" "x \<notin> set (qs q)" using that d new q by auto
      then show ?thesis using frame by (simp add: mb_nx_def)
    qed
    have n: "nmblock (sb ?s) = nmblock (sb s)" "datap (sb ?s) = datap (sb s)"
      using P(3) by (simp_all add: relinked_def datap_def fun_eq_iff)
    have M: "set ms \<union> (\<Union>r<v_nqueue s. set (?qs r)) = set (b # ms) \<union> (\<Union>r<v_nqueue s. set (qs r))"
      using q by (auto split: if_splits)
    have inuse: "datap (sb s) x \<noteq> None" if "x \<in> set (b # ms) \<union> (\<Union>r<v_nqueue s. set (qs r))" for x
    proof -
      have "good_msg (sb s) x" using W that by (auto simp: pool_msgs_def)
      then show ?thesis using good_conts(3,4) by blast
    qed
    have "sb_ok (sb ?s)"
    proof (rule sb_ok_relinked [OF P(3)])
      show "sb_ok (sb s)" using W by (simp add: pool_msgs_def)
      fix x assume "datap (sb s) x = None"
      with inuse [of x] q have "x \<noteq> b" "x \<notin> set (qs q)" by auto
      then show "mblk (sb ?s) x = mblk (sb s) x" by (rule frame)
    qed
    then have W': "pool_msgs (set ms \<union> (\<Union>r<v_nqueue s. set (?qs r))) (sb ?s)"
      unfolding M using W good_msg_relinked [OF P(3)] by (simp add: pool_msgs_def)
    have "\<exists>rl' s'. flush_loop k (mb_nx (sb s) b) q all ?s = s' \<and>
      q_rep (?qs(q := fold (enq cls) (filter keep ms) (?qs q))) s' \<and> run_rep rl' s' \<and> sb_ok (sb s') \<and>
      v_nqueue s' = v_nqueue ?s \<and> (\<forall>b\<in>set ms. \<not> keep b \<longrightarrow> (\<forall>x\<in>blocks (sb ?s) b. datap (sb s') x = None)) \<and>
      (\<forall>x. datap (sb ?s) x = None \<longrightarrow> datap (sb s') x = None)"
    proof (rule Cons.IH [OF P(1,2)])
      show "q < v_nqueue ?s" using q by simp
      show "chain (mb_nx (sb ?s)) (mb_nx (sb s) b) ms" using p(2) seg_cong [of ms "mb_nx (sb s)" "mb_nx (sb ?s)"] old by blast
      show "length ms \<le> k" using Cons.prems(5) k by simp
      show "\<forall>c\<in>set ms. c < nmblock (sb ?s) \<and> (\<forall>r<v_nqueue ?s. c \<notin> set (?qs r))" using new n d q by auto
      show "pool_msgs (set ms \<union> (\<Union>r<v_nqueue ?s. set (?qs r))) (sb ?s)" using W' by simp
      show "\<forall>c\<in>set ms \<union> set (?qs q). queueclass ?s c = cls c" using cls queueclass_relinked [OF P(3)] by auto
      show "\<forall>c\<in>set ms. keep c \<longleftrightarrow> \<not> all \<and> \<not> datamsg (mb_type (sb ?s) c)" using keep relinked_same(2) [OF P(3)] by simp
    qed
    moreover have "flush_loop n p q all s = flush_loop k (mb_nx (sb s) b) q all ?s"
      using True kb by (simp add: k p(1) mb_nx_def)
    ultimately obtain rl' s' where S: "flush_loop n p q all s = s'" "run_rep rl' s'" "sb_ok (sb s')" "v_nqueue s' = v_nqueue s"
      "q_rep (?qs(q := fold (enq cls) (filter keep ms) (?qs q))) s'"
      "\<forall>c\<in>set ms. \<not> keep c \<longrightarrow> (\<forall>x\<in>blocks (sb s) c. datap (sb s') x = None)"
      "\<forall>x. datap (sb s) x = None \<longrightarrow> datap (sb s') x = None"
      using n(2) good_msg_relinked(2) [OF P(3)] by auto
    have f: "fold (enq cls) (filter keep (b # ms)) (qs q) = fold (enq cls) (filter keep ms) (?qs q)" using True e by simp
    have r: "\<forall>c\<in>set (b # ms). \<not> keep c \<longrightarrow> (\<forall>x\<in>blocks (sb s) c. datap (sb s') x = None)" using S(6) True by simp
    have "q_rep (qs(q := fold (enq cls) (filter keep (b # ms)) (qs q))) s'"
      unfolding f using S(5) unfolding fun_upd_upd .
    then show ?thesis using S(1-4,7) r by (intro exI [of _ rl'] exI [of _ s'] conjI)
  next
    case False
    let ?t = "freemsg (Some b) (sb s)" let ?s = "s\<lparr>sb := ?t\<rparr>"
    have ok: "sb_ok (sb s)" and g: "good_msg (sb s) b" using W by (simp_all add: pool_msgs_def)
    note F = freemsg_rep [OF ok g]
    have oth: "good_msg (sb s) x \<and> blocks (sb s) b \<inter> blocks (sb s) x = {}"
      if "x \<in> set ms \<union> (\<Union>r<v_nqueue s. set (qs r))" for x
    proof -
      let ?M = "set (b # ms) \<union> (\<Union>r<v_nqueue s. set (qs r))"
      have "b \<noteq> x" "x \<in> ?M" "b \<in> ?M" using that d new by auto
      moreover have "\<forall>b\<in>?M. good_msg (sb s) b" "\<forall>b\<in>?M. \<forall>c\<in>?M. b \<noteq> c \<longrightarrow> blocks (sb s) b \<inter> blocks (sb s) c = {}"
        using W unfolding pool_msgs_def by blast+
      ultimately show ?thesis by metis
    qed
    have keepx: "good_msg ?t x \<and> msg_weight ?t x = msg_weight (sb s) x \<and> mb_type ?t x = mb_type (sb s) x"
      "mblk ?t x = mblk (sb s) x" if "x \<in> set ms \<union> (\<Union>r<v_nqueue s. set (qs r))" for x
      using F(6) [of x] F(4) [of x] oth [OF that] good_conts(4) [of "sb s" x] by blast+
    have rep': "q_rep qs ?s" by (rule q_rep_freed [OF rep ok g oth]) auto
    have run': "run_rep rl ?s" using run by (subst run_rep_cong [of _ s]) (simp_all add: has_def srv_def)
    have bl: "blocks ?t c = blocks (sb s) c" for c using F(2) by (simp add: blocks_def)
    have "pool_msgs (set ms \<union> (\<Union>r<v_nqueue s. set (qs r))) ?t"
      unfolding pool_msgs_def bl using F(1) keepx(1) W by (auto simp: pool_msgs_def)
    then have IH: "\<exists>rl' s'. flush_loop k (mb_nx (sb s) b) q all ?s = s' \<and>
      q_rep (qs(q := fold (enq cls) (filter keep ms) (qs q))) s' \<and> run_rep rl' s' \<and> sb_ok (sb s') \<and>
      v_nqueue s' = v_nqueue ?s \<and> (\<forall>b\<in>set ms. \<not> keep b \<longrightarrow> (\<forall>x\<in>blocks (sb ?s) b. datap (sb s') x = None)) \<and>
      (\<forall>x. datap (sb ?s) x = None \<longrightarrow> datap (sb s') x = None)"
    proof (intro Cons.IH [OF rep' run'])
      show "q < v_nqueue ?s" using q by simp
      have "mb_nx (sb s) x = mb_nx (sb ?s) x" if "x \<in> set ms" for x using keepx(2) [of x] that by (simp add: mb_nx_def)
      then show "chain (mb_nx (sb ?s)) (mb_nx (sb s) b) ms"
        using p(2) seg_cong [of ms "mb_nx (sb s)" "mb_nx (sb ?s)"] by blast
      show "length ms \<le> k" using Cons.prems(5) k by simp
      show "\<forall>c\<in>set ms. c < nmblock (sb ?s) \<and> (\<forall>r<v_nqueue ?s. c \<notin> set (qs r))" using new F(3) by simp
      show "\<forall>c\<in>set ms \<union> set (qs q). queueclass ?s c = cls c"
      proof
        fix c assume c: "c \<in> set ms \<union> set (qs q)"
        then have "c \<in> set ms \<union> (\<Union>r<v_nqueue s. set (qs r))" using q by auto
        from keepx(1) [OF this] cls c show "queueclass ?s c = cls c" by (auto simp: queueclass_def)
      qed
      show "\<forall>c\<in>set ms. keep c \<longleftrightarrow> \<not> all \<and> \<not> datamsg (mb_type (sb ?s) c)" using keep keepx(1) by simp
    qed simp
    have m: "datap ?t x = None" if "datap (sb s) x = None" for x
      using that F(4,5) by (cases "x \<in> blocks (sb s) b") (simp_all add: datap_def)
    moreover have "flush_loop n p q all s = flush_loop k (mb_nx (sb s) b) q all ?s"
      using False kb by (auto simp: k p(1) mb_nx_def)
    moreover have "datap ?t x = None" if "x \<in> blocks (sb s) b" for x using F(5) that .
    ultimately obtain rl' s' where S: "flush_loop n p q all s = s'" "run_rep rl' s'" "sb_ok (sb s')" "v_nqueue s' = v_nqueue s"
      "q_rep (qs(q := fold (enq cls) (filter keep ms) (qs q))) s'"
      "\<forall>c\<in>set (b # ms). \<not> keep c \<longrightarrow> (\<forall>x\<in>blocks (sb s) c. datap (sb s') x = None)"
      "\<forall>x. datap (sb s) x = None \<longrightarrow> datap (sb s') x = None"
      using IH bl by auto
    have f: "filter keep (b # ms) = filter keep ms" using False by simp
    show ?thesis unfolding f using S by (intro exI [of _ rl'] exI [of _ s'] conjI)
  qed
qed

text \<open>C35: \<open>flushq\<close> frees every message of the queue when \<open>all\<close> is set and keeps the messages that are not
  data otherwise, by class and in order.  All message blocks of the freed messages are free afterwards and
  the buffer pool and the queues are consistent.  A waiting writer is looked for as in \<open>getq\<close>.\<close>

theorem flushq_flushes:
  assumes rep: "q_rep qs s" and run: "run_rep rl s" and q: "q < v_nqueue s"
    and W: "pool_msgs (\<Union>r<v_nqueue s. set (qs r)) (sb s)"
  shows "let s' = flushq q all s; keep = (\<lambda>b. \<not> all \<and> \<not> datamsg (mb_type (sb s) b)) in
    q_rep (qs(q := fold (enq (queueclass s)) (filter keep (qs q)) [])) s' \<and> (\<exists>rl'. run_rep rl' s') \<and> sb_ok (sb s') \<and>
    (\<forall>b\<in>set (qs q). \<not> keep b \<longrightarrow> (\<forall>x\<in>blocks (sb s) b. datap (sb s') x = None))"
proof -
  note Q = q_repD [OF rep q]
  let ?keep = "\<lambda>b. \<not> all \<and> \<not> datamsg (mb_type (sb s) b)" let ?qs = "qs(q := [])"
  define s1 where "s1 = clr_f QWANTW q (clr_f QFULL q (upd_q q (\<lambda>x. x\<lparr>q_first := None, q_last := None, q_count := 0\<rparr>) s))"
  have sb1: "sb s1 = sb s" "v_nqueue s1 = v_nqueue s" by (simp_all add: s1_def)
  have rep1: "q_rep ?qs s1"
    by (rule q_rep_change [OF rep q]) (simp_all add: s1_def)
  have run1: "run_rep rl s1" using run by (subst run_rep_cong [of _ s]) (simp_all add: s1_def)
  have cls: "queueclass s1 = queueclass s" by (simp add: fun_eq_iff queueclass_def sb1)
  have len: "length (qs q) \<le> nmblock (sb s)" using Q(2) dll_distinct [OF Q(1)] by (rule distinct_bounded_length [rotated])
  have "\<exists>rl' s'. flush_loop (nmblock (sb s)) (q_first (queues s q)) q all s1 = s' \<and>
      q_rep (?qs(q := fold (enq (queueclass s)) (filter ?keep (qs q)) (?qs q))) s' \<and> run_rep rl' s' \<and> sb_ok (sb s') \<and>
      v_nqueue s' = v_nqueue s1 \<and> (\<forall>b\<in>set (qs q). \<not> ?keep b \<longrightarrow> (\<forall>x\<in>blocks (sb s1) b. datap (sb s') x = None)) \<and>
      (\<forall>x. datap (sb s1) x = None \<longrightarrow> datap (sb s') x = None)"
  proof (rule flush_loop_rep [OF rep1 run1])
    show "q < v_nqueue s1" "length (qs q) \<le> nmblock (sb s)" using q len sb1 by simp_all
    show "chain (mb_nx (sb s1)) (q_first (queues s q)) (qs q)" using Q(1) by (simp add: sb1 dll_def)
    show "\<forall>b\<in>set (qs q). b < nmblock (sb s1) \<and> (\<forall>r<v_nqueue s1. b \<notin> set (?qs r))"
      using Q(2,4) by (auto simp: sb1)
    have "set (qs q) \<union> (\<Union>r<v_nqueue s1. set (?qs r)) = (\<Union>r<v_nqueue s. set (qs r))"
      using q by (auto simp: sb1 split: if_splits)
    then show "pool_msgs (set (qs q) \<union> (\<Union>r<v_nqueue s1. set (?qs r))) (sb s1)" using W by (simp add: sb1)
  qed (simp_all add: cls sb1)
  then obtain rl' s2 where s2: "flush_loop (nmblock (sb s)) (q_first (queues s q)) q all s1 = s2"
    "q_rep (?qs(q := fold (enq (queueclass s)) (filter ?keep (qs q)) [])) s2" "run_rep rl' s2" "sb_ok (sb s2)"
    "\<forall>b\<in>set (qs q). \<not> ?keep b \<longrightarrow> (\<forall>x\<in>blocks (sb s) b. datap (sb s2) x = None)" unfolding sb1 by auto
  define s' where "s' = flushq q all s"
  have eq: "s' = s2 \<or> s' = back_enable q s2" by (auto simp: s'_def flushq_def Let_def s1_def [symmetric] sb1 s2(1))
  have sc: "sched s2 s'" using eq by auto
  moreover have "\<exists>rl. run_rep rl (qenable r s2)" for r using qenable_run [OF s2(3)] by blast
  then have "\<exists>rl'. run_rep rl' s'" using eq s2(3) by (auto simp: back_enable_def split: option.splits)
  moreover have "sb_ok (sb s')" "datap (sb s') = datap (sb s2)" using sc s2(4) by (auto simp: sched_def datap_def)
  ultimately show ?thesis using q_rep_sched [OF sc s2(2)] s2(5) unfolding s'_def [symmetric] Let_def by simp
qed

subsection \<open>Instances\<close>

text \<open>A queue pair: empty, with three messages in hand of which message 1 has priority; and with the
  message of \<open>pool_ex\<close> on the writer.\<close>

definition queue_ex :: "nat option \<Rightarrow> queue" where
  "queue_ex p = \<lparr>q_qinfo = Some \<lparr>qi_putp = 0, qi_srvp = Some 1\<rparr>, q_first = p, q_last = p, q_next = None, q_link = None,
     q_ptr = None, q_count = (if p = None then 0 else 4), q_flag = 0, q_minpsz = 0, q_maxpsz = 0, q_hiwat = 8, q_lowat = 2\<rparr>"

definition strq_e :: strq where
  "strq_e = \<lparr>sb = pool_ex\<lparr>mblk := (\<lambda>b. \<lparr>b_next = None, b_prev = None, b_cont = None, b_rptr = 0, b_wptr = 4, b_datap = Some b\<rparr>),
       dblk := (\<lambda>d. (dblk pool_ex 0)\<lparr>db_type := if d = 1 then 129 else 0\<rparr>)\<rparr>,
     queues = (\<lambda>q. queue_ex None), qhead = None, qtail = None, queueflag = False, v_nqueue = 2,
     st_queue = \<lparr>al_use = 0, al_total = 0, al_max = 0, al_fail = 0\<rparr>\<rparr>"

definition strq_f :: strq where
  "strq_f = \<lparr>sb = pool_ex, queues = (\<lambda>q. queue_ex (if q = 1 then Some 0 else None)), qhead = None, qtail = None,
     queueflag = False, v_nqueue = 2, st_queue = \<lparr>al_use = 0, al_total = 0, al_max = 0, al_fail = 0\<rparr>\<rparr>"

definition strq_f_msgs :: "nat \<Rightarrow> nat list" where
  "strq_f_msgs q = (if q = 1 then [0] else [])"

lemma ex_flags [simp]: "\<not> has k strq_e q" "\<not> has k strq_f q"
  by (simp_all add: has_def strq_e_def strq_f_def queue_ex_def)

lemma ex_simps [simp]:
  "v_nqueue strq_e = 2" "v_nqueue strq_f = 2" "sb strq_f = pool_ex" "nmblock (sb strq_e) = 3" "srv strq_e q = Some 1"
  "srv strq_f q = Some 1" "qhead strq_f = None" "qhead strq_e = None"
  by (simp_all add: strq_e_def strq_f_def srv_def queue_ex_def)

lemma strq_e_rep: "q_rep (\<lambda>q. []) strq_e" "run_rep [] strq_e"
  by (simp_all add: q_rep_def run_rep_def) (simp_all add: strq_e_def queue_ex_def)

lemma pool_conts: "conts pool_ex (Some b) = [b]"
  by (simp add: conts_def numeral_eq_Suc)

lemma strq_f_rep: "q_rep strq_f_msgs strq_f" "run_rep [] strq_f"
proof -
  have w: "msg_weight pool_ex 0 = 4" by (simp add: msg_weight_def pool_conts dbp_def bsize_def)
  have d: "dll (mb_nx pool_ex) (mb_pv pool_ex) (Some 0) (Some 0) [0]" by (simp add: dll_def mb_nx_def mb_pv_def)
  show "q_rep strq_f_msgs strq_f" unfolding q_rep_def strq_f_msgs_def
    using w d by (auto simp: strq_f_def queue_ex_def)
  show "run_rep [] strq_f" by (simp add: run_rep_def strq_f_def queue_ex_def has_def)
qed

lemma strq_e_class: "queueclass strq_e b = (if b = 1 then 128 else 0)"
  by (simp add: queueclass_def mb_type_def strq_e_def dbp_def)

lemma strq_f_msgs_1: "strq_f_msgs 1 = [0]" "strq_f_msgs(1 := []) = (\<lambda>q. [])"
  by (simp_all add: fun_eq_iff strq_f_msgs_def)

theorem getq_takes_head_witness: "fst (getq 1 strq_f) = Some 0 \<and> q_rep (\<lambda>q. []) (snd (getq 1 strq_f))"
  using getq_takes_head [OF strq_f_rep, of 1]
  by (simp add: Let_def split_beta strq_f_msgs_1 del: One_nat_def)

theorem rmvq_removes_witness: "q_rep (\<lambda>q. []) (rmvq 1 0 strq_f)"
  using rmvq_removes [OF strq_f_rep, of 1 "[]" 0 "[]"] by (simp add: Let_def strq_f_msgs_1 del: One_nat_def)

theorem putq_inserts_witness: "q_rep ((\<lambda>q. [])(0 := [1])) (putq 0 1 strq_e) \<and> run_rep [0] (putq 0 1 strq_e)"
  using putq_inserts [OF strq_e_rep, of 0 1] by (simp add: Let_def enq_def put_wakes_def strq_e_class)

theorem putbq_inserts_witness: "q_rep ((\<lambda>q. [])(0 := [2])) (putbq 0 2 strq_e)"
  using putbq_inserts [OF strq_e_rep, of 0 2] by (simp add: Let_def enq_front_def)

theorem insq_inserts_witness: "q_rep ((\<lambda>q. [])(0 := [2])) (insq 0 None 2 strq_e)"
  using insq_inserts [OF strq_e_rep, of 0 "[]" "[]" 2] by (simp add: Let_def)

theorem putq_getq_sorted_witness: "\<exists>s'. get_all (getq 0) 3 (fold (putq 0) [0, 1, 2] strq_e) = ([1, 0, 2], s')"
proof -
  have e: "sort_key (\<lambda>b. - queueclass strq_e b) [0, 1, 2] = [1, 0, 2]" "length [0, 1, 2::nat] = 3"
    by (simp_all add: strq_e_class)
  have "\<exists>s'. get_all (getq 0) (length [0, 1, 2::nat]) (fold (putq 0) [0, 1, 2] strq_e) =
      (sort_key (\<lambda>b. - queueclass strq_e b) [0, 1, 2], s') \<and> q_msgs 0 s' = []"
    by (rule putq_getq_sorted [OF strq_e_rep]) simp_all
  then show ?thesis unfolding e by blast
qed

theorem queuerun_serves_all_witness:
  "\<exists>s'. queuerun 1 1 (\<lambda>f x s. s) (\<lambda>f q s. s) (qenable 1 strq_f) = Some s' \<and> run_rep [] s'"
proof -
  have "run_rep [1] (qenable 1 strq_f)" using qenable_run [OF strq_f_rep(2), of 1] by simp
  moreover have "\<not> strbcflag (sb (qenable 1 strq_f))" using sched_qenable [of strq_f 1]
    by (auto simp: sched_def pool_ex_def)
  ultimately show ?thesis using queuerun_serves_all [of "[1]" "qenable 1 strq_f" "\<lambda>f q s. s" 1 0 "\<lambda>f x s. s"]
    by (auto simp: quiet_def Let_def)
qed

theorem flushq_flushes_witness: "datap (sb (flushq 1 True strq_f)) 0 = None"
proof -
  have "good_msg pool_ex 0" unfolding good_msg_def by (rule exI [of _ "[0]"]) simp
  moreover have "(\<Union>r<2. set (strq_f_msgs r)) = {0}" by (auto simp: strq_f_msgs_def)
  ultimately have "pool_msgs (\<Union>r<v_nqueue strq_f. set (strq_f_msgs r)) (sb strq_f)"
    using pool_ex_ok by (simp add: pool_msgs_def)
  from flushq_flushes [OF strq_f_rep _ this, of 1 True] show ?thesis
    by (simp add: Let_def strq_f_msgs_def blocks_def pool_conts)
qed

end
