(* ===== verification/Flock.thy ===== *)
theory Flock imports Dll begin

unbundle bit_operations_syntax

text \<open>
  Record locks: os/flock.c.  The table \<open>flox\<close> of lock records is a heap indexed by record number; a
  record is on the free list \<open>frlock\<close>, on the list of sleeping locks \<open>sleeplcks\<close> or on the lock list of
  an inode, all doubly linked without a pointer to the last record.  The union \<open>stat\<close> is two fields, and
  clearing \<open>wakeflg\<close> clears both.  \<open>l_end\<close> is \<open>l_len\<close>.  The semaphores are no operations on a single
  processor; \<open>fl_woken\<close> collects the records whose sleepers are woken.
\<close>

record flock =
  l_type :: int
  l_whence :: int
  l_start :: int
  l_end :: int
  l_pid :: int
  l_sysid :: int

record filock =
  fset :: flock
  wakeflg :: int
  blk_pid :: int
  blk_sysid :: int
  fprev :: "nat option"
  fnext :: "nat option"

record flckinfo =
  recs :: nat
  reccnt :: int
  recovf :: int
  rectot :: int

record flst =
  flox :: "nat \<Rightarrow> filock"
  frlock :: "nat option"
  sleeplcks :: "nat option"
  i_filocks :: "nat \<Rightarrow> nat option"
  flinfo :: flckinfo
  fl_woken :: "nat list"

text \<open>The list a head pointer belongs to: \<open>&sleeplcks\<close> or \<open>&ip->i_filocks\<close>.\<close>

datatype lck_list = Sleeping | Ino nat

abbreviation (input) F_RDLCK :: int where "F_RDLCK \<equiv> 1"
abbreviation (input) F_WRLCK :: int where "F_WRLCK \<equiv> 2"
abbreviation (input) F_UNLCK :: int where "F_UNLCK \<equiv> 3"

definition MAXEND :: int where "MAXEND = 2147483647"

abbreviation (input) S_BEFORE :: nat where "S_BEFORE \<equiv> 8"
abbreviation (input) S_START :: nat where "S_START \<equiv> 16"
abbreviation (input) S_MIDDLE :: nat where "S_MIDDLE \<equiv> 24"
abbreviation (input) S_END :: nat where "S_END \<equiv> 32"
abbreviation (input) S_AFTER :: nat where "S_AFTER \<equiv> 40"
abbreviation (input) E_BEFORE :: nat where "E_BEFORE \<equiv> 1"
abbreviation (input) E_START :: nat where "E_START \<equiv> 2"
abbreviation (input) E_MIDDLE :: nat where "E_MIDDLE \<equiv> 3"
abbreviation (input) E_END :: nat where "E_END \<equiv> 4"
abbreviation (input) E_AFTER :: nat where "E_AFTER \<equiv> 5"

definition head :: "lck_list \<Rightarrow> flst \<Rightarrow> nat option" where
  "head l s = (case l of Sleeping \<Rightarrow> sleeplcks s | Ino i \<Rightarrow> i_filocks s i)"

definition set_head :: "lck_list \<Rightarrow> nat option \<Rightarrow> flst \<Rightarrow> flst" where
  "set_head l p s = (case l of Sleeping \<Rightarrow> s\<lparr>sleeplcks := p\<rparr> | Ino i \<Rightarrow> s\<lparr>i_filocks := (i_filocks s)(i := p)\<rparr>)"

definition upd_fl :: "nat \<Rightarrow> (filock \<Rightarrow> filock) \<Rightarrow> flst \<Rightarrow> flst" where
  "upd_fl f g s = s\<lparr>flox := (flox s)(f := g (flox s f))\<rparr>"

definition upd_opt :: "nat option \<Rightarrow> (filock \<Rightarrow> filock) \<Rightarrow> flst \<Rightarrow> flst" where
  "upd_opt p g s = (case p of None \<Rightarrow> s | Some f \<Rightarrow> upd_fl f g s)"

definition WAKEUP :: "nat \<Rightarrow> flst \<Rightarrow> flst" where
  "WAKEUP f s = (if wakeflg (flox s f) \<noteq> 0
     then upd_fl f (\<lambda>x. x\<lparr>wakeflg := 0, blk_pid := 0, blk_sysid := 0\<rparr>) (s\<lparr>fl_woken := fl_woken s @ [f]\<rparr>) else s)"

text \<open>Putting a record on the free list, as \<open>flckinit\<close> and \<open>delflck\<close> do.\<close>

definition free_rec :: "nat \<Rightarrow> flst \<Rightarrow> flst" where
  "free_rec f s = (case frlock s of
     None \<Rightarrow> (upd_fl f (\<lambda>x. x\<lparr>fnext := None, fprev := None\<rparr>) s)\<lparr>frlock := Some f\<rparr>
   | Some h \<Rightarrow> (upd_fl h (\<lambda>x. x\<lparr>fprev := Some f\<rparr>) (upd_fl f (\<lambda>x. x\<lparr>fnext := Some h, fprev := None\<rparr>) s))\<lparr>frlock := Some f\<rparr>)"

definition flckinit :: "flst \<Rightarrow> flst" where
  "flckinit s = fold free_rec [0..<recs (flinfo s)] s"

definition insflck :: "user \<Rightarrow> lck_list \<Rightarrow> flock \<Rightarrow> nat option \<Rightarrow> flst \<Rightarrow> nat option \<times> flst" where
  "insflck u l d fl s = (case frlock s of
     None \<Rightarrow> (None, s\<lparr>flinfo := (flinfo s)\<lparr>recovf := recovf (flinfo s) + 1\<rparr>\<rparr>)
   | Some n \<Rightarrow>
       let s1 = s\<lparr>flinfo := (flinfo s)\<lparr>reccnt := reccnt (flinfo s) + 1, rectot := rectot (flinfo s) + 1\<rparr>,
                  frlock := fnext (flox s n)\<rparr>;
           s2 = upd_opt (frlock s1) (\<lambda>x. x\<lparr>fprev := None\<rparr>) s1;
           s3 = upd_fl n (\<lambda>x. x\<lparr>fset := d\<lparr>l_pid := p_epid u, l_sysid := p_sysid u\<rparr>, wakeflg := 0, blk_pid := 0,
                  blk_sysid := 0\<rparr>) s2;
           s4 = (case fl of
                   None \<Rightarrow> let h = head l s3 in
                     set_head l (Some n) (upd_opt h (\<lambda>x. x\<lparr>fprev := Some n\<rparr>) (upd_fl n (\<lambda>x. x\<lparr>fnext := h\<rparr>) s3))
                 | Some f \<Rightarrow> let h = fnext (flox s3 f) in
                     upd_fl f (\<lambda>x. x\<lparr>fnext := Some n\<rparr>)
                       (upd_opt h (\<lambda>x. x\<lparr>fprev := Some n\<rparr>) (upd_fl n (\<lambda>x. x\<lparr>fnext := h\<rparr>) s3)))
       in (Some n, upd_fl n (\<lambda>x. x\<lparr>fprev := fl\<rparr>) s4))"

definition delflck :: "lck_list \<Rightarrow> nat \<Rightarrow> flst \<Rightarrow> flst" where
  "delflck l f s =
     (let nx = fnext (flox s f); pv = fprev (flox s f);
          s1 = (case pv of Some p \<Rightarrow> upd_fl p (\<lambda>x. x\<lparr>fnext := nx\<rparr>) s | None \<Rightarrow> set_head l nx s);
          s2 = WAKEUP f (upd_opt nx (\<lambda>x. x\<lparr>fprev := pv\<rparr>) s1)
      in free_rec f (s2\<lparr>flinfo := (flinfo s2)\<lparr>reccnt := reccnt (flinfo s2) - 1\<rparr>\<rparr>))"

definition regflck :: "flock \<Rightarrow> flock \<Rightarrow> nat" where
  "regflck ld f =
     (if l_start ld > l_start f \<and> l_start ld - 1 = l_end f then S_END + E_AFTER
      else if l_start ld > l_start f \<and> l_start ld > l_end f then S_AFTER + E_AFTER
      else (if l_start ld > l_start f then S_MIDDLE else if l_start ld = l_start f then S_START else S_BEFORE) +
        (if l_end ld < l_end f then
           if l_end ld = l_start f - 1 then E_START else if l_end ld < l_start f then E_BEFORE else E_MIDDLE
         else if l_end ld = l_end f then E_END else E_AFTER))"

definition own :: "user \<Rightarrow> flock \<Rightarrow> bool" where
  "own u f \<longleftrightarrow> l_pid f = p_epid u \<and> l_sysid f = p_sysid u"

text \<open>The last record, from \<open>cur\<close> on, that starts below \<open>bound\<close>.\<close>

primrec last_below :: "nat \<Rightarrow> int \<Rightarrow> nat option \<Rightarrow> nat option \<Rightarrow> flst \<Rightarrow> nat option" where
  "last_below 0 bound cur p s = cur"
| "last_below (Suc n) bound cur p s = (case p of None \<Rightarrow> cur
     | Some f \<Rightarrow> if l_start (fset (flox s f)) < bound then last_below n bound (Some f) (fnext (flox s f)) s else cur)"

text \<open>One case of the switch of \<open>flckadj\<close>: it returns, or goes on with \<open>nflp\<close>, \<open>insrtp\<close> and \<open>*ld\<close>.\<close>

datatype fl_step = Ret "errno option" | Go "nat option" "nat option" flock

definition fl_shrink :: "flock \<Rightarrow> nat \<Rightarrow> flst \<Rightarrow> flst" where
  "fl_shrink ld f s = WAKEUP f (upd_fl f (\<lambda>x. x\<lparr>fset := (fset x)\<lparr>l_end := l_start ld - 1\<rparr>\<rparr>) s)"

definition fl_split :: "user \<Rightarrow> lck_list \<Rightarrow> flock \<Rightarrow> nat \<Rightarrow> flst \<Rightarrow> nat option \<times> flst" where
  "fl_split u l ld f s = (let td = (fset (flox s f))\<lparr>l_start := l_end ld + 1\<rparr>
     in insflck u l td (last_below (recs (flinfo s)) (l_start td) (Some f) (Some f) s) s)"

definition flck_case :: "user \<Rightarrow> lck_list \<Rightarrow> nat \<Rightarrow> nat option \<Rightarrow> flock \<Rightarrow> flst \<Rightarrow> fl_step \<times> flst" where
  "flck_case u l f insrtp ld s =
     (let g = fset (flox s f); nx = fnext (flox s f); pv = fprev (flox s f); rt = regflck ld g; same = (l_type ld = l_type g) in
      if rt = S_BEFORE + E_BEFORE then (Go None insrtp ld, s)
      else if rt = S_BEFORE + E_START then
        if same then (Go None insrtp (ld\<lparr>l_end := l_end g\<rparr>), delflck l f s) else (Go None insrtp ld, s)
      else if rt = S_START + E_END \<and> same then (Ret None, s)
      else if rt = S_START + E_END \<or> rt = S_START + E_AFTER then (Go nx pv ld, delflck l f s)
      else if rt = S_BEFORE + E_END \<or> rt = S_BEFORE + E_AFTER then
        (Go (if rt = S_BEFORE + E_END \<and> same then None else nx) insrtp ld, delflck l f s)
      else if (rt = S_START + E_MIDDLE \<or> rt = S_MIDDLE + E_MIDDLE) \<and> same then (Ret None, s)
      else if rt = S_START + E_MIDDLE \<or> rt = S_MIDDLE + E_MIDDLE \<or> rt = S_BEFORE + E_MIDDLE then
        let ins1 = (if rt = S_START + E_MIDDLE then pv else insrtp);
            ld1 = (if same then ld\<lparr>l_end := l_end g\<rparr> else ld) in
        case (if same then (Some f, s) else fl_split u l ld f s) of
          (None, s1) \<Rightarrow> (Ret (Some ENOLCK), s1)
        | (Some _, s1) \<Rightarrow>
            if rt = S_MIDDLE + E_MIDDLE then (Go None (Some f) ld1, fl_shrink ld1 f s1)
            else (Go None ins1 ld1, delflck l f s1)
      else if rt = S_MIDDLE + E_END then
        if same then (Ret None, s) else (Go nx (Some f) ld, fl_shrink ld f s)
      else if rt = S_MIDDLE + E_AFTER then
        if same then (Go nx pv (ld\<lparr>l_start := l_start g\<rparr>), delflck l f s) else (Go nx (Some f) ld, fl_shrink ld f s)
      else if rt = S_END + E_AFTER then
        if same then (Go nx pv (ld\<lparr>l_start := l_start g\<rparr>), delflck l f s) else (Go nx insrtp ld, s)
      else if rt = S_AFTER + E_AFTER then (Go nx (Some f) ld, s)
      else (Go nx insrtp ld, s))"

definition fl_finish :: "user \<Rightarrow> lck_list \<Rightarrow> nat option \<Rightarrow> flock \<Rightarrow> flst \<Rightarrow> errno option \<times> flock \<times> flst" where
  "fl_finish u l insrtp ld s =
     (if l_type ld \<noteq> F_UNLCK then
        case insflck u l ld (last_below (recs (flinfo s)) (l_start ld) insrtp insrtp s) s of
          (None, s1) \<Rightarrow> (Some ENOLCK, ld, s1)
        | (Some _, s1) \<Rightarrow> (None, ld, s1)
      else (None, ld, s))"

text \<open>The loop of \<open>flckadj\<close>, at most once for every record; the result has the changed \<open>*ld\<close>.\<close>

primrec fl_loop :: "nat \<Rightarrow> user \<Rightarrow> lck_list \<Rightarrow> nat option \<Rightarrow> nat option \<Rightarrow> flock \<Rightarrow> flst \<Rightarrow> errno option \<times> flock \<times> flst" where
  "fl_loop 0 u l p insrtp ld s = fl_finish u l insrtp ld s"
| "fl_loop (Suc n) u l p insrtp ld s = (case p of None \<Rightarrow> fl_finish u l insrtp ld s
     | Some f \<Rightarrow>
         if own u (fset (flox s f)) then
           (case flck_case u l f insrtp ld s of (Ret r, s1) \<Rightarrow> (r, ld, s1) | (Go p1 ins1 ld1, s1) \<Rightarrow> fl_loop n u l p1 ins1 ld1 s1)
         else fl_loop n u l (fnext (flox s f)) insrtp ld s)"

definition flckadj :: "user \<Rightarrow> lck_list \<Rightarrow> nat option \<Rightarrow> flock \<Rightarrow> flst \<Rightarrow> errno option \<times> flock \<times> flst" where
  "flckadj u l insrtp ld s =
     fl_loop (recs (flinfo s)) u l (if insrtp = None then head l s else insrtp) insrtp ld s"

subsection \<open>Finding a lock in the way\<close>

text \<open>Another owner's lock \<open>f\<close> that reaches the request.\<close>

definition excludes :: "flock \<Rightarrow> flock \<Rightarrow> bool" where
  "excludes f ld \<longleftrightarrow> l_start ld \<le> l_end f \<and> (l_type f = F_WRLCK \<or> l_type f = F_RDLCK \<and> l_type ld = F_WRLCK)"

text \<open>The first loop of \<open>blocked\<close>: the lock found, \<open>*insrt\<close>, and what the second loop starts from.\<close>

fun blk_before :: "user \<Rightarrow> flock \<Rightarrow> flst \<Rightarrow> nat list \<Rightarrow> nat option \<Rightarrow> nat option \<times> nat option \<times> nat list" where
  "blk_before u ld s [] ins = (None, ins, [])"
| "blk_before u ld s (f # fs) ins =
     (let g = fset (flox s f) in
      if l_start g < l_start ld then
        if own u g then if l_start ld - 1 \<le> l_end g then (None, Some f, f # fs) else blk_before u ld s fs (Some f)
        else if excludes g ld then (Some f, Some f, []) else blk_before u ld s fs (Some f)
      else (None, ins, f # fs))"

fun blk_rest :: "user \<Rightarrow> flock \<Rightarrow> flst \<Rightarrow> nat list \<Rightarrow> nat option" where
  "blk_rest u ld s [] = None"
| "blk_rest u ld s (f # fs) =
     (let g = fset (flox s f) in
      if l_end ld < l_start g then None
      else if excludes g ld \<and> \<not> own u g then Some f else blk_rest u ld s fs)"

definition lk_list :: "nat option \<Rightarrow> flst \<Rightarrow> nat list" where
  "lk_list p s = follow (recs (flinfo s)) (\<lambda>f. fnext (flox s f)) p"

definition blocked :: "user \<Rightarrow> nat option \<Rightarrow> flock \<Rightarrow> flst \<Rightarrow> nat option \<times> nat option" where
  "blocked u p ld s = (case blk_before u ld s (lk_list p s) None of
     (Some f, ins, _) \<Rightarrow> (Some f, ins) | (None, ins, fs) \<Rightarrow> (blk_rest u ld s fs, ins))"

text \<open>\<open>deadflck\<close>, with fuel; None means that it does not return.\<close>

primrec dead_loop :: "nat \<Rightarrow> user \<Rightarrow> int \<Rightarrow> int \<Rightarrow> flst \<Rightarrow> bool option" where
  "dead_loop 0 u pid sysid s = None"
| "dead_loop (Suc n) u pid sysid s =
     (if pid = p_epid u \<and> sysid = p_sysid u then Some True
      else case find (\<lambda>f. pid = l_pid (fset (flox s f)) \<and> sysid = l_sysid (fset (flox s f))) (lk_list (sleeplcks s) s) of
          None \<Rightarrow> Some False
        | Some f \<Rightarrow> dead_loop n u (blk_pid (flox s f)) (blk_sysid (flox s f)) s)"

definition deadflck :: "user \<Rightarrow> nat \<Rightarrow> flst \<Rightarrow> bool option" where
  "deadflck u f s = dead_loop (Suc (recs (flinfo s))) u (c_short (l_pid (fset (flox s f)))) (l_sysid (fset (flox s f))) s"

subsection \<open>The system call\<close>

definition convoff :: "int \<Rightarrow> flock \<Rightarrow> int \<Rightarrow> int \<Rightarrow> errno option \<times> flock" where
  "convoff isize ld whence offset =
     (if l_whence ld \<notin> {0, 1, 2} then (Some EINVAL, ld)
      else let st = (if l_whence ld = 1 then c_int (l_start ld + offset)
                     else if l_whence ld = 2 then c_int (l_start ld + isize) else l_start ld);
               ld1 = ld\<lparr>l_start := st\<rparr>
        in if st < 0 then (Some EINVAL, ld1)
           else if whence = 1 then (None, ld1\<lparr>l_start := c_int (st - offset), l_whence := whence\<rparr>)
           else if whence = 2 then (None, ld1\<lparr>l_start := c_int (st - isize), l_whence := whence\<rparr>)
           else if whence \<noteq> 0 then (Some EINVAL, ld1)
           else (None, ld1\<lparr>l_whence := whence\<rparr>))"

definition SETFLCK :: "int \<Rightarrow> bool" where "SETFLCK cmd \<longleftrightarrow> cmd AND 2 \<noteq> 0"
definition SLPFLCK :: "int \<Rightarrow> bool" where "SLPFLCK cmd \<longleftrightarrow> cmd AND 4 \<noteq> 0"

text \<open>The checks and conversions in front of the loop of \<open>reclock\<close>.\<close>

definition reclock_prep :: "int \<Rightarrow> bool \<Rightarrow> bool \<Rightarrow> int \<Rightarrow> int \<Rightarrow> flock \<Rightarrow> errno option \<times> flock" where
  "reclock_prep cmd fread fwrite isize offset ld =
     (if SETFLCK cmd \<and> (l_type ld = F_RDLCK \<and> \<not> fread \<or> l_type ld = F_WRLCK \<and> \<not> fwrite) then (Some EBADF, ld)
      else case convoff isize ld 0 offset of
          (Some e, ld1) \<Rightarrow> (Some e, ld1)
        | (None, ld1) \<Rightarrow>
            if l_end ld1 < 0 then (Some EINVAL, ld1)
            else let ld2 = ld1\<lparr>l_end := if l_end ld1 = 0 then MAXEND else c_int (l_end ld1 + (l_start ld1 - 1))\<rparr>
              in if l_start ld2 > l_end ld2 then (Some EINVAL, ld2) else (None, ld2))"

text \<open>One round of the loop: it ends with a result, sleeps on the lock found with the sleeping lock it
  entered, or never comes back from \<open>deadflck\<close>.  \<open>srv\<close>: the process serves a remote read or write.\<close>

datatype rl_res = RlDone "errno option" flock | RlSleep nat nat | RlLoop

definition reclock_try :: "user \<Rightarrow> int \<Rightarrow> bool \<Rightarrow> nat \<Rightarrow> flock \<Rightarrow> flst \<Rightarrow> rl_res \<times> flst" where
  "reclock_try u cmd srv i ld s =
     (if l_type ld = F_RDLCK \<or> l_type ld = F_WRLCK then
        (case blocked u (i_filocks s i) ld s of
           (None, ins) \<Rightarrow>
             if SETFLCK cmd then case flckadj u (Ino i) ins ld s of (e, ld1, s1) \<Rightarrow> (RlDone e ld1, s1)
             else (RlDone None (ld\<lparr>l_type := F_UNLCK\<rparr>), s)
         | (Some found, ins) \<Rightarrow>
             if SLPFLCK cmd then
               (case deadflck u found s of
                  None \<Rightarrow> (RlLoop, s)
                | Some True \<Rightarrow> (RlDone (Some EDEADLK) ld, s)
                | Some False \<Rightarrow>
                    (case insflck u Sleeping ld None s of
                       (None, s1) \<Rightarrow> (RlDone (Some ENOLCK) ld, s1)
                     | (Some sf, s1) \<Rightarrow>
                         if srv then (RlDone (Some EBUSY) ld, delflck Sleeping sf s1)
                         else (RlSleep found sf,
                           upd_fl sf (\<lambda>x. x\<lparr>blk_pid := c_short (l_pid (fset (flox s1 found))),
                                blk_sysid := l_sysid (fset (flox s1 found))\<rparr>)
                             (upd_fl found (\<lambda>x. x\<lparr>wakeflg := wakeflg x + 1\<rparr>) s1))))
             else if SETFLCK cmd then (RlDone (Some EAGAIN) ld, s)
             else (RlDone None (fset (flox s found)), s))
      else if l_type ld = F_UNLCK then
        (if SETFLCK cmd then case flckadj u (Ino i) (i_filocks s i) ld s of (e, ld1, s1) \<Rightarrow> (RlDone e ld1, s1)
         else (RlDone None ld, s))
      else (RlDone (Some EINVAL) ld, s))"

text \<open>Back from the sleep: \<open>intr\<close> when a signal ended it.\<close>

definition reclock_awake :: "user \<Rightarrow> int \<Rightarrow> bool \<Rightarrow> nat \<Rightarrow> flock \<Rightarrow> bool \<Rightarrow> nat \<Rightarrow> flst \<Rightarrow> rl_res \<times> flst" where
  "reclock_awake u cmd srv i ld intr sf s =
     (let s1 = delflck Sleeping sf (upd_fl sf (\<lambda>x. x\<lparr>wakeflg := 0, blk_pid := 0, blk_sysid := 0\<rparr>) s)
      in if intr then (RlDone (Some EINTR) ld, s1) else reclock_try u cmd srv i ld s1)"

text \<open>After the loop: \<open>l_len\<close> and \<open>l_whence\<close> are restored; the result of \<open>convoff\<close> is ignored.\<close>

definition reclock_end :: "int \<Rightarrow> int \<Rightarrow> int \<Rightarrow> flock \<Rightarrow> flock" where
  "reclock_end isize whence offset ld =
     snd (convoff isize (ld\<lparr>l_end := if l_end ld = MAXEND then 0 else c_int (l_end ld - (l_start ld - 1))\<rparr>) whence offset)"

definition reclock :: "user \<Rightarrow> int \<Rightarrow> bool \<Rightarrow> bool \<Rightarrow> bool \<Rightarrow> nat \<Rightarrow> int \<Rightarrow> int \<Rightarrow> flock \<Rightarrow> flst \<Rightarrow> rl_res \<times> flst" where
  "reclock u cmd fread fwrite srv i isize offset ld s =
     (case reclock_prep cmd fread fwrite isize offset ld of
        (Some e, ld1) \<Rightarrow> (RlDone (Some e) ld1, s)
      | (None, ld1) \<Rightarrow> (case reclock_try u cmd srv i ld1 s of
            (RlDone e ld2, s1) \<Rightarrow> (RlDone e (reclock_end isize (l_whence ld) offset ld2), s1)
          | (r, s1) \<Rightarrow> (r, s1)))"

definition cleanlocks :: "user \<Rightarrow> bool \<Rightarrow> nat \<Rightarrow> flst \<Rightarrow> flst" where
  "cleanlocks u ign_pid i s =
     fold (\<lambda>f s. if (l_pid (fset (flox s f)) = p_epid u \<or> ign_pid) \<and> l_sysid (fset (flox s f)) = p_sysid u
        then delflck (Ino i) f s else s) (lk_list (i_filocks s i) s) s"

subsection \<open>The lists of records\<close>

definition fl_nx :: "flst \<Rightarrow> nat \<Rightarrow> nat option" where "fl_nx s f = fnext (flox s f)"
definition fl_pv :: "flst \<Rightarrow> nat \<Rightarrow> nat option" where "fl_pv s f = fprev (flox s f)"
definition lk :: "flst \<Rightarrow> nat \<Rightarrow> flock" where "lk s f = fset (flox s f)"

text \<open>\<open>ls\<close> are the lists of locks, \<open>fs\<close> the free list; every record is on exactly one.\<close>

definition fl_rep :: "(lck_list \<Rightarrow> nat list) \<Rightarrow> nat list \<Rightarrow> flst \<Rightarrow> bool" where
  "fl_rep ls fs s \<longleftrightarrow>
     (\<forall>l. dll (fl_nx s) (fl_pv s) (head l s) (last_opt (ls l)) (ls l)) \<and>
     dll (fl_nx s) (fl_pv s) (frlock s) (last_opt fs) fs \<and>
     (\<forall>l. set (ls l) \<inter> set fs = {}) \<and> (\<forall>l m. l \<noteq> m \<longrightarrow> set (ls l) \<inter> set (ls m) = {}) \<and>
     set fs \<union> (\<Union>l. set (ls l)) = {..<recs (flinfo s)}"

lemma upd_fl_simps [simp]:
  "flox (upd_fl f g s) x = (if x = f then g (flox s f) else flox s x)" "frlock (upd_fl f g s) = frlock s"
  "head l (upd_fl f g s) = head l s" "flinfo (upd_fl f g s) = flinfo s" "sleeplcks (upd_fl f g s) = sleeplcks s"
  "i_filocks (upd_fl f g s) = i_filocks s"
  by (simp_all add: upd_fl_def head_def split: lck_list.split)

lemma upd_opt_simps [simp]:
  "flox (upd_opt p g s) x = (if p = Some x then g (flox s x) else flox s x)" "frlock (upd_opt p g s) = frlock s"
  "head l (upd_opt p g s) = head l s" "flinfo (upd_opt p g s) = flinfo s"
  by (auto simp: upd_opt_def split: option.split)

lemma set_head_simps [simp]:
  "flox (set_head l p s) = flox s" "frlock (set_head l p s) = frlock s" "flinfo (set_head l p s) = flinfo s"
  "head m (set_head l p s) = (if m = l then p else head m s)"
  by (auto simp: set_head_def head_def split: lck_list.split)

lemma head_simps [simp]:
  "head l (s\<lparr>frlock := p\<rparr>) = head l s" "head l (s\<lparr>flinfo := i\<rparr>) = head l s" "head l (s\<lparr>fl_woken := w\<rparr>) = head l s"
  by (simp_all add: head_def split: lck_list.split)

lemma WAKEUP_simps [simp]:
  "fnext (flox (WAKEUP f s) x) = fnext (flox s x)" "fprev (flox (WAKEUP f s) x) = fprev (flox s x)"
  "lk (WAKEUP f s) x = lk s x" "frlock (WAKEUP f s) = frlock s" "head l (WAKEUP f s) = head l s" "flinfo (WAKEUP f s) = flinfo s"
  by (simp_all add: WAKEUP_def lk_def)

lemma free_rec_simps [simp]:
  "fnext (flox (free_rec f s) x) = (if x = f then frlock s else fnext (flox s x))"
  "frlock (free_rec f s) = Some f" "head l (free_rec f s) = head l s" "flinfo (free_rec f s) = flinfo s"
  "lk (free_rec f s) x = lk s x"
  "frlock s \<noteq> Some f \<Longrightarrow> fprev (flox (free_rec f s) x) =
     (if x = f then None else if frlock s = Some x then Some f else fprev (flox s x))"
  by (auto simp: free_rec_def lk_def split: option.split)

lemma fl_repD:
  assumes "fl_rep ls fs s"
  shows "dll (fl_nx s) (fl_pv s) (head l s) (last_opt (ls l)) (ls l)" "dll (fl_nx s) (fl_pv s) (frlock s) (last_opt fs) fs"
    "set (ls l) \<inter> set fs = {}" "l \<noteq> m \<Longrightarrow> set (ls l) \<inter> set (ls m) = {}"
    "set fs \<union> (\<Union>l. set (ls l)) = {..<recs (flinfo s)}" "head l s = hd_opt (ls l)" "frlock s = hd_opt fs"
    "distinct (ls l)" "distinct fs" "lk_list (head l s) s = ls l"
proof -
  show r: "dll (fl_nx s) (fl_pv s) (head l s) (last_opt (ls l)) (ls l)" "dll (fl_nx s) (fl_pv s) (frlock s) (last_opt fs) fs"
    "set (ls l) \<inter> set fs = {}" "l \<noteq> m \<Longrightarrow> set (ls l) \<inter> set (ls m) = {}"
    "set fs \<union> (\<Union>l. set (ls l)) = {..<recs (flinfo s)}"
    using assms unfolding fl_rep_def by blast+
  then show "head l s = hd_opt (ls l)" "frlock s = hd_opt fs" "distinct (ls l)" "distinct fs"
    by (auto dest: dll_ends dll_distinct)
  have "length (ls l) \<le> recs (flinfo s)" using r(5) dll_distinct [OF r(1)] by (intro distinct_bounded_length) auto
  then show "lk_list (head l s) s = ls l"
    unfolding lk_list_def using r(1) by (intro follow_chain) (auto simp: dll_def fl_nx_def [abs_def])
qed

lemma UN_split: "(\<Union>m. set ((ls(l := xs)) m)) = set xs \<union> (\<Union>m\<in>- {l}. set (ls m))"
  "(\<Union>m. set (ls m)) = set (ls l) \<union> (\<Union>m\<in>- {l}. set (ls m))"
  by (auto split: if_splits)

lemma insflck_none: "fl_rep ls [] s \<Longrightarrow> fst (insflck u l d p s) = None \<and> flox (snd (insflck u l d p s)) = flox s \<and>
  fl_rep ls [] (snd (insflck u l d p s))"
  using fl_repD(7) [of ls "[]" s] by (simp add: insflck_def fl_rep_def fl_nx_def [abs_def] fl_pv_def [abs_def])

lemma insflck_rep:
  assumes rep: "fl_rep ls (n # fs) s" and spl: "ls l = us @ vs" and p: "p = last_opt us"
  shows "\<exists>s'. insflck u l d p s = (Some n, s') \<and> fl_rep (ls(l := us @ n # vs)) fs s' \<and>
    lk s' = (lk s)(n := d\<lparr>l_pid := p_epid u, l_sysid := p_sysid u\<rparr>) \<and> recs (flinfo s') = recs (flinfo s) \<and>
    wakeflg (flox s' n) = 0"
proof -
  note R = fl_repD [OF rep]
  obtain s' where ins: "insflck u l d p s = (Some n, s')" using R(7) by (simp add: insflck_def Let_def)
  have nx0: "fnext (flox s n) = hd_opt fs" using dll_next(1) [of _ _ _ _ "[]" n fs] R(2) by (simp add: fl_nx_def)
  have nl: "n \<notin> set (ls m)" for m using R(3) [of m] by auto
  have nus: "n \<notin> set us" "n \<notin> set vs" "last_opt us \<noteq> Some n" "hd_opt vs \<noteq> Some n"
    using nl [of l] spl by (auto dest: last_opt_mem hd_opt_mem)
  have nfs: "n \<notin> set fs" "hd_opt fs \<noteq> Some n" using R(9) by (auto dest: hd_opt_mem)
  have dj: "hd_opt fs \<noteq> Some x" if "x \<in> set (ls m)" for x m using R(3) [of m] that by (auto dest!: hd_opt_mem)
  have nxf: "fnext (flox s f) = hd_opt vs" if "last_opt us = Some f" for f
  proof -
    from that obtain ws where "us = ws @ [f]" by (auto simp: last_opt_Some)
    then show ?thesis using dll_next(1) [of _ _ _ _ ws f vs] R(1) [of l] spl by (simp add: fl_nx_def)
  qed
  have hl: "head l s = hd_opt (us @ vs)" using R(6) [of l] spl by simp
  have ufs: "hd_opt fs \<noteq> last_opt us" if "us \<noteq> []" using that dj [of "last us" l] spl by (auto simp: last_opt_def)
  have vfs: "hd_opt vs \<noteq> Some x" if "hd_opt fs = Some x" for x
    using dj [of x l] that spl by (auto dest: hd_opt_mem)
  define s3 where "s3 = upd_fl n (\<lambda>x. x\<lparr>fset := d\<lparr>l_pid := p_epid u, l_sysid := p_sysid u\<rparr>, wakeflg := 0, blk_pid := 0,
      blk_sysid := 0\<rparr>) (upd_opt (hd_opt fs) (\<lambda>x. x\<lparr>fprev := None\<rparr>) (s\<lparr>flinfo := (flinfo s)\<lparr>reccnt := reccnt (flinfo s) + 1,
      rectot := rectot (flinfo s) + 1\<rparr>, frlock := hd_opt fs\<rparr>))"
  define s4 where "s4 = (case p of
     None \<Rightarrow> set_head l (Some n) (upd_opt (hd_opt vs) (\<lambda>x. x\<lparr>fprev := Some n\<rparr>) (upd_fl n (\<lambda>x. x\<lparr>fnext := hd_opt vs\<rparr>) s3))
   | Some f \<Rightarrow> upd_fl f (\<lambda>x. x\<lparr>fnext := Some n\<rparr>)
       (upd_opt (hd_opt vs) (\<lambda>x. x\<lparr>fprev := Some n\<rparr>) (upd_fl n (\<lambda>x. x\<lparr>fnext := hd_opt vs\<rparr>) s3)))"
  have S3: "fnext (flox s3 x) = fnext (flox s x)" "fprev (flox s3 x) = (if hd_opt fs = Some x then None else fprev (flox s x))"
    "lk s3 x = (if x = n then d\<lparr>l_pid := p_epid u, l_sysid := p_sysid u\<rparr> else lk s x)" "frlock s3 = hd_opt fs"
    "head m s3 = head m s" "recs (flinfo s3) = recs (flinfo s)" "wakeflg (flox s3 n) = 0" for x m
    by (simp_all add: s3_def lk_def)
  have heads: "head l s3 = hd_opt vs" if "p = None" using that hl p S3(5) [of l] by simp
  have nxs: "fnext (flox s3 f) = hd_opt vs" if "p = Some f" for f using that nxf p S3(1) [of f] by simp
  have frl: "frlock s = Some n" using R(7) by simp
  have s': "s' = upd_fl n (\<lambda>x. x\<lparr>fprev := p\<rparr>) s4"
  proof -
    have f1: "frlock (s\<lparr>flinfo := i, frlock := x\<rparr>) = x" for i x by simp
    have "insflck u l d p s = (Some n, upd_fl n (\<lambda>x. x\<lparr>fprev := p\<rparr>) (case p of
        None \<Rightarrow> set_head l (Some n) (upd_opt (head l s3) (\<lambda>x. x\<lparr>fprev := Some n\<rparr>) (upd_fl n (\<lambda>x. x\<lparr>fnext := head l s3\<rparr>) s3))
      | Some f \<Rightarrow> upd_fl f (\<lambda>x. x\<lparr>fnext := Some n\<rparr>) (upd_opt (fnext (flox s3 f)) (\<lambda>x. x\<lparr>fprev := Some n\<rparr>)
          (upd_fl n (\<lambda>x. x\<lparr>fnext := fnext (flox s3 f)\<rparr>) s3))))"
      unfolding insflck_def frl option.case Let_def nx0 f1 s3_def ..
    moreover have "\<dots> = (Some n, upd_fl n (\<lambda>x. x\<lparr>fprev := p\<rparr>) s4)"
      by (cases p) (simp_all only: option.case s4_def heads nxs)
    ultimately show ?thesis using ins by simp
  qed
  have S4: "fnext (flox s4 x) = (if p = Some x then Some n else if x = n then hd_opt vs else fnext (flox s x))"
    "fprev (flox s4 x) = (if hd_opt vs = Some x then Some n else if hd_opt fs = Some x then None else fprev (flox s x))"
    "lk s4 x = lk s3 x" "frlock s4 = hd_opt fs" "recs (flinfo s4) = recs (flinfo s)" "wakeflg (flox s4 n) = 0" for x
  proof (goal_cases)
    case 1 show ?case by (cases p) (auto simp: s4_def S3)
  next
    case 2 show ?case by (cases p) (auto simp: s4_def S3)
  next
    case 3 show ?case by (cases p) (auto simp: s4_def lk_def)
  next
    case 4 show ?case by (cases p) (auto simp: s4_def S3)
  next
    case 5 show ?case by (cases p) (auto simp: s4_def S3)
  next
    case 6 show ?case by (cases p) (auto simp: s4_def S3)
  qed
  have S4h: "head m s4 = (if m = l \<and> p = None then Some n else head m s)" for m
    by (cases p) (simp_all add: s4_def S3)
  have NX: "fl_nx s' x = (if x = n then hd_opt vs else if last_opt us = Some x then Some n else fl_nx s x)"
    and PV: "fl_pv s' x = (if x = n then last_opt us else if hd_opt vs = Some x then Some n
       else if hd_opt fs = Some x then None else fl_pv s x)" for x
    using nus S4(1,2) [of x] p by (auto simp: s' fl_nx_def fl_pv_def)
  have HD: "head m s' = (if m = l \<and> us = [] then Some n else head m s)" and FR: "frlock s' = hd_opt fs"
    and RC: "recs (flinfo s') = recs (flinfo s)" and WK: "wakeflg (flox s' n) = 0" for m
    using S4(4-6) S4h [of m] p by (simp_all add: s')
  have LK: "lk s' = (lk s)(n := d\<lparr>l_pid := p_epid u, l_sysid := p_sysid u\<rparr>)"
  proof
    fix x
    have "lk s' x = lk s4 x" by (simp add: s' lk_def)
    then show "lk s' x = ((lk s)(n := d\<lparr>l_pid := p_epid u, l_sysid := p_sysid u\<rparr>)) x" using S3(3) S4(3) by simp
  qed
  have "fl_rep (ls(l := us @ n # vs)) fs s'" unfolding fl_rep_def RC
  proof (intro conjI allI impI)
    fix m
    show "dll (fl_nx s') (fl_pv s') (head m s') (last_opt ((ls(l := us @ n # vs)) m)) ((ls(l := us @ n # vs)) m)"
    proof (cases "m = l")
      case True
      have "dll (fl_nx s') (fl_pv s') (head l s') (if vs = [] then Some n else last_opt (us @ vs)) (us @ n # vs)"
      proof (rule dll_insert [OF R(1) [of l, unfolded spl]])
        fix x assume "x \<in> set (us @ vs)"
        then have "x \<noteq> n" "hd_opt fs \<noteq> Some x" using nus dj [of x l] spl by auto
        then show "fl_nx s' x = (if last_opt us = Some x then Some n else fl_nx s x)"
          "fl_pv s' x = (if hd_opt vs = Some x then Some n else fl_pv s x)" by (simp_all add: NX PV)
      qed (use nus in \<open>simp_all add: NX PV HD\<close>)
      moreover have "(if vs = [] then Some n else last_opt (us @ vs)) = last_opt (us @ n # vs)" by (simp add: last_opt_def)
      ultimately show ?thesis using True by simp
    next
      case False
      have "dll (fl_nx s) (fl_pv s) p q (ls m) = dll (fl_nx s') (fl_pv s') p q (ls m)" for p q
      proof (rule dll_cong)
        fix x assume x: "x \<in> set (ls m)"
        then have "x \<noteq> n" "x \<notin> set us" "x \<notin> set vs" using nl R(4) [OF False] spl by auto
        then have "last_opt us \<noteq> Some x" "hd_opt vs \<noteq> Some x" "x \<noteq> n" by (auto dest: last_opt_mem hd_opt_mem)
        then show "fl_nx s x = fl_nx s' x" "fl_pv s x = fl_pv s' x" using dj [OF x] by (simp_all add: NX PV)
      qed
      with R(1) [of m] False show ?thesis by (simp add: HD)
    qed
    show "set ((ls(l := us @ n # vs)) m) \<inter> set fs = {}" using R(3) [of m] R(3) [of l] spl nfs by (auto split: if_splits)
    show "set ((ls(l := us @ n # vs)) m) \<inter> set ((ls(l := us @ n # vs)) k) = {}" if "m \<noteq> k" for k
      using R(4) [OF that] that spl nl by (auto split: if_splits)
  next
    have "dll (fl_nx s') (fl_pv s') (hd_opt fs) (last_opt fs) ([] @ fs)"
    proof (rule dll_remove [of "fl_nx s" "fl_pv s" "frlock s" "last_opt (n # fs)" "[]" n])
      show "dll (fl_nx s) (fl_pv s) (frlock s) (last_opt (n # fs)) ([] @ n # fs)" using R(2) by simp
      fix x assume x: "x \<in> set ([] @ fs)"
      then have "x \<notin> set (us @ vs)" using R(3) [of l] spl by auto
      then have "last_opt us \<noteq> Some x" "hd_opt vs \<noteq> Some x" "x \<noteq> n" using nfs x by (auto dest: last_opt_mem hd_opt_mem)
      then show "fl_nx s' x = (if last_opt [] = Some x then hd_opt fs else fl_nx s x)"
        "fl_pv s' x = (if hd_opt fs = Some x then last_opt [] else fl_pv s x)" by (simp_all add: NX PV)
    qed (simp_all add: last_opt_Cons)
    then show "dll (fl_nx s') (fl_pv s') (frlock s') (last_opt fs) fs" by (simp add: FR)
    have "set (n # fs) \<union> (\<Union>m. set (ls m)) = set fs \<union> (\<Union>m. set ((ls(l := us @ n # vs)) m))"
      unfolding UN_split(1) unfolding UN_split(2) [of ls l] using spl by auto
    with R(5) show "set fs \<union> (\<Union>m. set ((ls(l := us @ n # vs)) m)) = {..<recs (flinfo s)}" by simp
  qed
  with ins LK RC WK show ?thesis by blast
qed

lemma delflck_rep:
  assumes rep: "fl_rep ls fs s" and spl: "ls l = us @ f # vs"
  shows "fl_rep (ls(l := us @ vs)) (f # fs) (delflck l f s) \<and> lk (delflck l f s) = lk s \<and>
    recs (flinfo (delflck l f s)) = recs (flinfo s)"
proof -
  note R = fl_repD [OF rep]
  let ?s = "delflck l f s"
  have nx: "fnext (flox s f) = hd_opt vs" "fprev (flox s f) = last_opt us"
    using dll_next [of _ _ _ _ us f vs] R(1) [of l] spl by (simp_all add: fl_nx_def fl_pv_def)
  have d: "f \<notin> set us" "f \<notin> set vs" "last_opt us \<noteq> Some f" "hd_opt vs \<noteq> Some f"
    using R(8) [of l] spl by (auto dest: last_opt_mem hd_opt_mem)
  have ff: "f \<notin> set fs" "hd_opt fs \<noteq> Some f" using R(3) [of l] spl by (auto dest: hd_opt_mem)
  define s1 where "s1 = (case last_opt us of Some p \<Rightarrow> upd_fl p (\<lambda>x. x\<lparr>fnext := hd_opt vs\<rparr>) s | None \<Rightarrow> set_head l (hd_opt vs) s)"
  define s2 where "s2 = WAKEUP f (upd_opt (hd_opt vs) (\<lambda>x. x\<lparr>fprev := last_opt us\<rparr>) s1)"
  define s3 where "s3 = s2\<lparr>flinfo := (flinfo s2)\<lparr>reccnt := reccnt (flinfo s2) - 1\<rparr>\<rparr>"
  have S1: "fnext (flox s1 x) = (if last_opt us = Some x then hd_opt vs else fnext (flox s x))" "fprev (flox s1 x) = fprev (flox s x)"
    "lk s1 x = lk s x" "frlock s1 = frlock s" "flinfo s1 = flinfo s" "head m s1 = (if m = l \<and> us = [] then hd_opt vs else head m s)" for x m
    by (auto simp: s1_def lk_def split: option.split)
  have S3: "fnext (flox s3 x) = (if last_opt us = Some x then hd_opt vs else fnext (flox s x))"
    "fprev (flox s3 x) = (if hd_opt vs = Some x then last_opt us else fprev (flox s x))"
    "lk s3 x = lk s x" "frlock s3 = frlock s" "head m s3 = (if m = l \<and> us = [] then hd_opt vs else head m s)"
    "recs (flinfo s3) = recs (flinfo s)" for x m
  proof -
    have "lk s3 x = lk s2 x" "fnext (flox s3 x) = fnext (flox s2 x)" "fprev (flox s3 x) = fprev (flox s2 x)"
      "frlock s3 = frlock s2" "head m s3 = head m s2" "recs (flinfo s3) = recs (flinfo s2)"
      by (simp_all add: s3_def lk_def)
    moreover have "lk (upd_opt p (\<lambda>x. x\<lparr>fprev := q\<rparr>) s1) x = lk s1 x" for p q by (simp add: lk_def)
    ultimately show "fnext (flox s3 x) = (if last_opt us = Some x then hd_opt vs else fnext (flox s x))"
      "fprev (flox s3 x) = (if hd_opt vs = Some x then last_opt us else fprev (flox s x))"
      "lk s3 x = lk s x" "frlock s3 = frlock s" "head m s3 = (if m = l \<and> us = [] then hd_opt vs else head m s)"
      "recs (flinfo s3) = recs (flinfo s)" using S1 by (simp_all add: s2_def)
  qed
  have eq: "?s = free_rec f s3" unfolding delflck_def Let_def nx s3_def s2_def s1_def ..
  have fr3: "frlock s3 \<noteq> Some f" using S3(4) R(7) ff by simp
  have NX: "fl_nx ?s x = (if x = f then hd_opt fs else if last_opt us = Some x then hd_opt vs else fl_nx s x)"
    and PV: "fl_pv ?s x = (if x = f then None else if hd_opt fs = Some x then Some f
       else if hd_opt vs = Some x then last_opt us else fl_pv s x)"
    and HD: "head m ?s = (if m = l \<and> us = [] then hd_opt vs else head m s)" and FR: "frlock ?s = Some f"
    and LK: "lk ?s = lk s" and RC: "recs (flinfo ?s) = recs (flinfo s)" for x m
    using fr3 S3 R(7) by (simp_all add: eq fl_nx_def fl_pv_def fun_eq_iff)
  have dj: "hd_opt fs \<noteq> Some x" if "x \<in> set (ls m)" for x m using R(3) [of m] that by (auto dest!: hd_opt_mem)
  have "fl_rep (ls(l := us @ vs)) (f # fs) ?s" unfolding fl_rep_def RC
  proof (intro conjI allI impI)
    fix m
    show "dll (fl_nx ?s) (fl_pv ?s) (head m ?s) (last_opt ((ls(l := us @ vs)) m)) ((ls(l := us @ vs)) m)"
    proof (cases "m = l")
      case True
      have "dll (fl_nx ?s) (fl_pv ?s) (head l ?s) (last_opt (us @ vs)) (us @ vs)"
      proof (rule dll_remove [OF R(1) [of l, unfolded spl]])
        fix x assume "x \<in> set (us @ vs)"
        then have "x \<noteq> f" "hd_opt fs \<noteq> Some x" using d dj [of x l] spl by auto
        then show "fl_nx ?s x = (if last_opt us = Some x then hd_opt vs else fl_nx s x)"
          "fl_pv ?s x = (if hd_opt vs = Some x then last_opt us else fl_pv s x)" by (simp_all add: NX PV)
      qed (simp_all add: HD last_opt_def)
      with True show ?thesis by simp
    next
      case False
      have "dll (fl_nx s) (fl_pv s) p q (ls m) = dll (fl_nx ?s) (fl_pv ?s) p q (ls m)" for p q
      proof (rule dll_cong)
        fix x assume x: "x \<in> set (ls m)"
        then have "x \<noteq> f" "x \<notin> set us" "x \<notin> set vs" using R(4) [OF False] spl by auto
        then have "last_opt us \<noteq> Some x" "hd_opt vs \<noteq> Some x" "x \<noteq> f" by (auto dest: last_opt_mem hd_opt_mem)
        then show "fl_nx s x = fl_nx ?s x" "fl_pv s x = fl_pv ?s x" using dj [OF x] by (simp_all add: NX PV)
      qed
      with R(1) [of m] False show ?thesis by (simp add: HD)
    qed
    show "set ((ls(l := us @ vs)) m) \<inter> set (f # fs) = {}"
    proof (cases "m = l")
      case True
      with R(3) [of l] spl d show ?thesis by auto
    next
      case False
      with R(3) [of m] R(4) [OF False] spl show ?thesis by auto
    qed
    show "set ((ls(l := us @ vs)) m) \<inter> set ((ls(l := us @ vs)) k) = {}" if "m \<noteq> k" for k
      using R(4) [OF that] that spl by (auto split: if_splits)
  next
    have "dll (fl_nx ?s) (fl_pv ?s) (Some f) (last_opt (f # fs)) ([] @ f # fs)"
    proof (rule dll_insert [of "fl_nx s" "fl_pv s" "frlock s" "last_opt fs" "[]" fs])
      show "dll (fl_nx s) (fl_pv s) (frlock s) (last_opt fs) ([] @ fs)" using R(2) by simp
      fix x assume x: "x \<in> set ([] @ fs)"
      then have "x \<notin> set (us @ vs)" "x \<noteq> f" using R(3) [of l] spl ff by auto
      then have "last_opt us \<noteq> Some x" "hd_opt vs \<noteq> Some x" "x \<noteq> f" by (auto dest: last_opt_mem hd_opt_mem)
      then show "fl_nx ?s x = (if last_opt [] = Some x then Some f else fl_nx s x)"
        "fl_pv ?s x = (if hd_opt fs = Some x then Some f else fl_pv s x)" by (simp_all add: NX PV)
    qed (use ff in \<open>simp_all add: NX PV last_opt_def\<close>)
    then show "dll (fl_nx ?s) (fl_pv ?s) (frlock ?s) (last_opt (f # fs)) (f # fs)" by (simp add: FR)
    have "set (f # fs) \<union> (\<Union>m. set ((ls(l := us @ vs)) m)) = set fs \<union> (\<Union>m. set (ls m))"
      unfolding UN_split(1) unfolding UN_split(2) [of ls l] using spl by auto
    with R(5) show "set (f # fs) \<union> (\<Union>m. set ((ls(l := us @ vs)) m)) = {..<recs (flinfo s)}" by simp
  qed
  with LK RC show ?thesis by blast
qed

lemma fl_shrink_rep:
  assumes "fl_rep ls fs s"
  shows "fl_rep ls fs (fl_shrink ld f s) \<and> lk (fl_shrink ld f s) = (lk s)(f := (lk s f)\<lparr>l_end := l_start ld - 1\<rparr>) \<and>
    recs (flinfo (fl_shrink ld f s)) = recs (flinfo s)"
proof -
  have "fl_nx (fl_shrink ld f s) = fl_nx s" "fl_pv (fl_shrink ld f s) = fl_pv s" "head l (fl_shrink ld f s) = head l s"
    "frlock (fl_shrink ld f s) = frlock s" "flinfo (fl_shrink ld f s) = flinfo s" for l
    by (simp_all add: fl_shrink_def fl_nx_def fl_pv_def fun_eq_iff)
  moreover have "lk (fl_shrink ld f s) = (lk s)(f := (lk s f)\<lparr>l_end := l_start ld - 1\<rparr>)"
    by (simp add: fl_shrink_def fun_eq_iff) (simp add: lk_def)
  ultimately show ?thesis using assms by (simp add: fl_rep_def)
qed

subsection \<open>Where a lock goes\<close>

definition fl_sorted :: "flst \<Rightarrow> nat list \<Rightarrow> bool" where
  "fl_sorted s xs \<longleftrightarrow> sorted (map (\<lambda>f. l_start (lk s f)) xs)"

lemma fl_sorted_append: "fl_sorted s (xs @ ys) \<longleftrightarrow> fl_sorted s xs \<and> fl_sorted s ys \<and>
    (\<forall>x\<in>set xs. \<forall>y\<in>set ys. l_start (lk s x) \<le> l_start (lk s y))"
  by (auto simp: fl_sorted_def sorted_append)

lemma fl_sorted_Cons: "fl_sorted s (x # ys) \<longleftrightarrow> (\<forall>y\<in>set ys. l_start (lk s x) \<le> l_start (lk s y)) \<and> fl_sorted s ys"
  by (auto simp: fl_sorted_def)

lemma fl_sorted_cong: "(\<And>x. x \<in> set xs \<Longrightarrow> l_start (lk s' x) = l_start (lk s x)) \<Longrightarrow> fl_sorted s' xs = fl_sorted s xs"
  unfolding fl_sorted_def by (metis (mono_tags, lifting) map_eq_conv)

lemma last_below_walk:
  "chain (fl_nx s) p vs \<Longrightarrow> length vs \<le> n \<Longrightarrow> last_below n bound cur p s =
     (if takeWhile (\<lambda>f. l_start (lk s f) < bound) vs = [] then cur
      else last_opt (takeWhile (\<lambda>f. l_start (lk s f) < bound) vs))"
proof (induction vs arbitrary: n cur p)
  case Nil
  then show ?case by (cases n) simp_all
next
  case (Cons v vs)
  then obtain k where k: "n = Suc k" by (cases n) auto
  from Cons.prems have "chain (fl_nx s) (fl_nx s v) vs" "length vs \<le> k" "p = Some v" by (simp_all add: k)
  with Cons.IH [of "fl_nx s v" k "Some v"] show ?case
    by (auto simp: k lk_def fl_nx_def [abs_def] last_opt_def)
qed

lemma insert_point:
  assumes rep: "fl_rep ls fs s" and srt: "fl_sorted s (ls l)"
    and ins: "ins = None \<and> (\<forall>x\<in>set (ls l). bound \<le> l_start (lk s x)) \<or>
      (\<exists>f\<in>set (ls l). ins = Some f \<and> l_start (lk s f) \<le> bound)"
  shows "\<exists>us vs. ls l = us @ vs \<and> last_below (recs (flinfo s)) bound ins ins s = last_opt us \<and>
    (\<forall>x\<in>set us. l_start (lk s x) \<le> bound) \<and> (\<forall>x\<in>set vs. bound \<le> l_start (lk s x))"
  using ins
proof (elim disjE bexE conjE)
  assume "ins = None" "\<forall>x\<in>set (ls l). bound \<le> l_start (lk s x)"
  moreover have "last_below n bound None None s = None" for n by (cases n) simp_all
  ultimately show ?thesis by (intro exI [of _ "[]"] exI [of _ "ls l"]) simp
next
  fix f assume f: "f \<in> set (ls l)" "ins = Some f" "l_start (lk s f) \<le> bound"
  note R = fl_repD [OF rep]
  let ?P = "\<lambda>f. l_start (lk s f) < bound"
  from f(1) obtain as bs where ab: "ls l = as @ f # bs" by (meson split_list)
  have "chain (fl_nx s) (Some f) (f # bs)" using R(1) [of l] ab by (auto simp: dll_def seg_append)
  moreover have "length (ls l) \<le> recs (flinfo s)" using R(5,8) by (intro distinct_bounded_length) auto
  then have "length (f # bs) \<le> recs (flinfo s)" using ab by simp
  ultimately have w: "last_below (recs (flinfo s)) bound ins ins s =
    (if takeWhile ?P (f # bs) = [] then Some f else last_opt (takeWhile ?P (f # bs)))"
    unfolding f(2) by (rule last_below_walk)
  have sa: "\<forall>x\<in>set as. l_start (lk s x) \<le> l_start (lk s f)" "\<forall>x\<in>set bs. l_start (lk s f) \<le> l_start (lk s x)"
    "fl_sorted s bs" using srt unfolding ab fl_sorted_append fl_sorted_Cons by auto
  show ?thesis
  proof (cases "?P f")
    case False
    with f(3) have "l_start (lk s f) = bound" by simp
    with w sa ab False show ?thesis by (intro exI [of _ "as @ [f]"] exI [of _ bs]) auto
  next
    case True
    let ?t = "takeWhile ?P bs" let ?d = "dropWhile ?P bs"
    have "bound \<le> l_start (lk s x)" if "x \<in> set ?d" for x
    proof (cases ?d)
      case (Cons y ys)
      then have "\<not> ?P y" using hd_dropWhile [of ?P bs] by auto
      moreover have "fl_sorted s (?t @ ?d)" using sa(3) by simp
      then have "fl_sorted s (y # ys)" unfolding fl_sorted_append Cons by blast
      then have "x = y \<or> l_start (lk s y) \<le> l_start (lk s x)" using that Cons by (auto simp: fl_sorted_Cons)
      ultimately show ?thesis by auto
    next
      case Nil
      from that [unfolded Nil] show ?thesis by simp
    qed
    moreover have "l_start (lk s x) \<le> bound" if "x \<in> set ?t" for x using set_takeWhileD [OF that] by simp
    moreover have "last_opt (as @ f # ?t) = last_opt (f # ?t)" by (simp add: last_opt_def)
    moreover have "\<forall>x\<in>set as. l_start (lk s x) \<le> bound" using sa(1) f(3) by force
    ultimately show ?thesis using w True ab f(3) by (intro exI [of _ "as @ f # ?t"] exI [of _ ?d]) auto
  qed
qed

subsection \<open>The bytes an owner holds\<close>

definition covers :: "user \<Rightarrow> flst \<Rightarrow> nat list \<Rightarrow> int \<Rightarrow> int \<Rightarrow> bool" where
  "covers u s xs t x \<longleftrightarrow> (\<exists>f\<in>set xs. own u (lk s f) \<and> l_type (lk s f) = t \<and> l_start (lk s f) \<le> x \<and> x \<le> l_end (lk s f))"

definition foreign :: "user \<Rightarrow> flst \<Rightarrow> nat list \<Rightarrow> flock list" where
  "foreign u s xs = map (lk s) (filter (\<lambda>f. \<not> own u (lk s f)) xs)"

lemma foreign_append: "foreign u s (xs @ ys) = foreign u s xs @ foreign u s ys"
  by (simp add: foreign_def)

lemma foreign_own: "own u (lk s n) \<Longrightarrow> foreign u s (n # vs) = foreign u s vs"
  by (simp add: foreign_def)

lemma foreign_cong:
  "(\<And>x. x \<in> set xs \<Longrightarrow> lk s' x = lk s x \<or> own u (lk s' x) \<and> own u (lk s x)) \<Longrightarrow> foreign u s' xs = foreign u s xs"
proof (induction xs)
  case (Cons x xs)
  then have "foreign u s' xs = foreign u s xs" "lk s' x = lk s x \<or> own u (lk s' x) \<and> own u (lk s x)" by simp_all
  then show ?case by (auto simp: foreign_def)
qed (simp add: foreign_def)

text \<open>A lock list: sorted by start, no empty locks, and the locks of the caller do not overlap.\<close>

definition lk_wf :: "user \<Rightarrow> flst \<Rightarrow> nat list \<Rightarrow> bool" where
  "lk_wf u s xs \<longleftrightarrow> fl_sorted s xs \<and> (\<forall>f\<in>set xs. l_start (lk s f) \<le> l_end (lk s f) \<and> l_type (lk s f) \<noteq> F_UNLCK) \<and>
     (\<forall>f\<in>set xs. \<forall>g\<in>set xs. f \<noteq> g \<and> own u (lk s f) \<and> own u (lk s g) \<longrightarrow>
        l_end (lk s f) < l_start (lk s g) \<or> l_end (lk s g) < l_start (lk s f))"

text \<open>The state during \<open>flckadj\<close> for a request of type \<open>t\<close> for \<open>a\<close> to \<open>b\<close>, which has become \<open>ld\<close>: the
  locks outside of \<open>ld\<close> are as in the beginning (\<open>C0\<close>, \<open>O0\<close>, \<open>M0\<close>), and what \<open>ld\<close> has gained was held
  with type \<open>t\<close>.\<close>

definition fl_inv :: "user \<Rightarrow> lck_list \<Rightarrow> int \<Rightarrow> int \<Rightarrow> (int \<Rightarrow> int \<Rightarrow> bool) \<Rightarrow> flock list \<Rightarrow> (lck_list \<Rightarrow> flock list) \<Rightarrow>
    (lck_list \<Rightarrow> nat list) \<Rightarrow> nat list \<Rightarrow> flst \<Rightarrow> flock \<Rightarrow> bool" where
  "fl_inv u l a b C0 O0 M0 ls fs s ld \<longleftrightarrow> fl_rep ls fs s \<and> lk_wf u s (ls l) \<and> l_start ld \<le> a \<and> a \<le> b \<and> b \<le> l_end ld \<and>
     (\<forall>t x. \<not> (l_start ld \<le> x \<and> x \<le> l_end ld) \<longrightarrow> covers u s (ls l) t x = C0 t x) \<and>
     (\<forall>t x. l_start ld \<le> x \<and> x \<le> l_end ld \<and> \<not> (a \<le> x \<and> x \<le> b) \<longrightarrow> C0 t x = (t = l_type ld)) \<and>
     (l_type ld = F_UNLCK \<longrightarrow> l_start ld = a \<and> l_end ld = b) \<and>
     foreign u s (ls l) = O0 \<and> (\<forall>m. m \<noteq> l \<longrightarrow> map (lk s) (ls m) = M0 m)"

definition fl_done :: "user \<Rightarrow> lck_list \<Rightarrow> int \<Rightarrow> int \<Rightarrow> int \<Rightarrow> (int \<Rightarrow> int \<Rightarrow> bool) \<Rightarrow> flock list \<Rightarrow> (lck_list \<Rightarrow> flock list) \<Rightarrow>
    flst \<Rightarrow> bool" where
  "fl_done u l ty a b C0 O0 M0 s \<longleftrightarrow> (\<exists>ls fs. fl_rep ls fs s \<and> lk_wf u s (ls l) \<and>
     (\<forall>t x. covers u s (ls l) t x = (if a \<le> x \<and> x \<le> b then t = ty \<and> ty \<noteq> F_UNLCK else C0 t x)) \<and>
     foreign u s (ls l) = O0 \<and> (\<forall>m. m \<noteq> l \<longrightarrow> map (lk s) (ls m) = M0 m))"

definition ins_ok :: "flst \<Rightarrow> nat list \<Rightarrow> nat list \<Rightarrow> nat option \<Rightarrow> flock \<Rightarrow> bool" where
  "ins_ok s pre xs ins ld \<longleftrightarrow> l_type ld = F_UNLCK \<or> ins = None \<and> (\<forall>x\<in>set xs. l_start ld \<le> l_start (lk s x)) \<or>
     (\<exists>f\<in>set pre. ins = Some f \<and> l_start (lk s f) \<le> l_start ld)"

text \<open>The end: nothing of the caller overlaps \<open>ld\<close> any more.\<close>

lemma fl_finish_done:
  assumes inv: "fl_inv u l a b C0 O0 M0 ls fs s ld" and ins: "ins_ok s (ls l) (ls l) ins ld"
    and apart: "\<forall>f\<in>set (ls l). own u (lk s f) \<longrightarrow> l_end (lk s f) < l_start ld \<or> l_end ld < l_start (lk s f)"
    and room: "fs \<noteq> []"
  shows "\<exists>s' ld'. fl_finish u l ins ld s = (None, ld', s') \<and> fl_done u l (l_type ld) a b C0 O0 M0 s'"
proof -
  have I: "fl_rep ls fs s" "lk_wf u s (ls l)" "foreign u s (ls l) = O0" "\<forall>m. m \<noteq> l \<longrightarrow> map (lk s) (ls m) = M0 m"
    "l_start ld \<le> a" "a \<le> b" "b \<le> l_end ld" "l_type ld = F_UNLCK \<Longrightarrow> l_start ld = a \<and> l_end ld = b"
    "\<And>t x. \<not> (l_start ld \<le> x \<and> x \<le> l_end ld) \<Longrightarrow> covers u s (ls l) t x = C0 t x"
    "\<And>t x. l_start ld \<le> x \<and> x \<le> l_end ld \<and> \<not> (a \<le> x \<and> x \<le> b) \<Longrightarrow> C0 t x = (t = l_type ld)"
    using inv unfolding fl_inv_def by blast+
  have none: "\<not> covers u s (ls l) t x" if "l_start ld \<le> x \<and> x \<le> l_end ld" for t x
    using apart that unfolding covers_def by fastforce
  show ?thesis
  proof (cases "l_type ld = F_UNLCK")
    case True
    have "covers u s (ls l) t x = (if a \<le> x \<and> x \<le> b then t = l_type ld \<and> l_type ld \<noteq> F_UNLCK else C0 t x)" for t x
      using I(8) [OF True] I(9) [of x t] none [of x t] True by auto
    then show ?thesis using I(1-4) True unfolding fl_finish_def fl_done_def by auto
  next
    case False
    from room obtain n gs where fs: "fs = n # gs" by (cases fs) auto
    have "ins = None \<and> (\<forall>x\<in>set (ls l). l_start ld \<le> l_start (lk s x)) \<or>
      (\<exists>f\<in>set (ls l). ins = Some f \<and> l_start (lk s f) \<le> l_start ld)" using ins False by (auto simp: ins_ok_def)
    from insert_point [OF I(1) _ this] I(2) obtain us vs where uv: "ls l = us @ vs"
      "last_below (recs (flinfo s)) (l_start ld) ins ins s = last_opt us"
      "\<forall>x\<in>set us. l_start (lk s x) \<le> l_start ld" "\<forall>x\<in>set vs. l_start ld \<le> l_start (lk s x)"
      by (auto simp: lk_wf_def)
    let ?d = "ld\<lparr>l_pid := p_epid u, l_sysid := p_sysid u\<rparr>"
    from insflck_rep [OF I(1) [unfolded fs] uv(1) uv(2), of u ld] obtain s' where s':
      "insflck u l ld (last_below (recs (flinfo s)) (l_start ld) ins ins s) s = (Some n, s')"
      "fl_rep (ls(l := us @ n # vs)) gs s'" "lk s' = (lk s)(n := ?d)" by blast
    have nl: "n \<notin> set (ls m)" for m using fl_repD(3) [OF I(1), of m] fs by auto
    have n: "n \<notin> set us" "n \<notin> set vs" using nl [of l] uv(1) by auto
    have same: "lk s' x = lk s x" if "x \<in> set us \<union> set vs" for x using that n s'(3) by auto
    have srt: "fl_sorted s' (us @ n # vs)"
    proof -
      have "fl_sorted s (us @ vs)" using I(2) uv(1) by (simp add: lk_wf_def)
      moreover have "fl_sorted s' us = fl_sorted s us" "fl_sorted s' vs = fl_sorted s vs"
        by (rule fl_sorted_cong, simp add: same)+
      ultimately show ?thesis using uv(3,4) same s'(3) unfolding fl_sorted_append fl_sorted_Cons by auto
    qed
    have wf: "lk_wf u s' (us @ n # vs)" unfolding lk_wf_def
    proof (intro conjI ballI impI)
      show "fl_sorted s' (us @ n # vs)" by (rule srt)
      have old: "\<forall>f\<in>set us \<union> set vs. l_start (lk s f) \<le> l_end (lk s f) \<and> l_type (lk s f) \<noteq> F_UNLCK"
        using I(2) uv(1) by (simp add: lk_wf_def)
      show "l_start (lk s' f) \<le> l_end (lk s' f)" "l_type (lk s' f) \<noteq> F_UNLCK" if "f \<in> set (us @ n # vs)" for f
        using that old same I(5-7) s'(3) False by (cases "f = n"; auto)+
      fix f g assume f: "f \<in> set (us @ n # vs)" and g: "g \<in> set (us @ n # vs)" and o: "f \<noteq> g \<and> own u (lk s' f) \<and> own u (lk s' g)"
      have ap: "l_end (lk s h) < l_start ld \<or> l_end ld < l_start (lk s h)" if "h \<in> set (us @ n # vs)" "h \<noteq> n" "own u (lk s' h)" for h
        using that apart uv(1) same [of h] by auto
      show "l_end (lk s' f) < l_start (lk s' g) \<or> l_end (lk s' g) < l_start (lk s' f)"
      proof (cases "f = n \<or> g = n")
        case True
        with o ap [OF f] ap [OF g] same f g s'(3) show ?thesis by auto
      next
        case False
        then have "f \<in> set (ls l)" "g \<in> set (ls l)" "lk s' f = lk s f" "lk s' g = lk s g" using f g uv(1) s'(3) by auto
        with o I(2) show ?thesis unfolding lk_wf_def by simp
      qed
    qed
    have "own u ?d" by (simp add: own_def)
    then have cov: "covers u s' (us @ n # vs) t x = (covers u s (ls l) t x \<or> t = l_type ld \<and> l_start ld \<le> x \<and> x \<le> l_end ld)" for t x
      unfolding covers_def uv(1) using same s'(3) n by auto
    have "covers u s' (us @ n # vs) t x = (if a \<le> x \<and> x \<le> b then t = l_type ld \<and> l_type ld \<noteq> F_UNLCK else C0 t x)" for t x
      unfolding cov using I(5-7) I(9) [of x t] I(10) [of x t] none [of x t] False by auto
    moreover have "foreign u s' (us @ n # vs) = O0"
    proof -
      have "own u (lk s' n)" using s'(3) \<open>own u ?d\<close> by simp
      moreover have "foreign u s' us = foreign u s us" "foreign u s' vs = foreign u s vs"
        by (rule foreign_cong, simp add: same)+
      ultimately show ?thesis using I(3) uv(1) by (simp add: foreign_append foreign_own)
    qed
    moreover have "map (lk s') (ls m) = M0 m" if "m \<noteq> l" for m
    proof -
      have "map (lk s') (ls m) = map (lk s) (ls m)" using nl [of m] s'(3) by (auto intro!: map_cong)
      with I(4) that show ?thesis by simp
    qed
    ultimately have "fl_done u l (l_type ld) a b C0 O0 M0 s'" unfolding fl_done_def using s'(2) wf I(4)
      by (intro exI [of _ "ls(l := us @ n # vs)"] exI [of _ gs]) auto
    with False s'(1) show ?thesis by (simp add: fl_finish_def)
  qed
qed

subsection \<open>The steps of \<open>flckadj\<close>\<close>

lemma lk_wf_around:
  assumes wf: "lk_wf u s (us @ f # vs)" and d: "distinct (us @ f # vs)" and o: "own u (lk s f)" "own u (lk s g)"
  shows "g \<in> set vs \<Longrightarrow> l_end (lk s f) < l_start (lk s g)" "g \<in> set us \<Longrightarrow> l_end (lk s g) < l_start (lk s f)"
proof -
  have W: "l_start (lk s f) \<le> l_end (lk s f)" "\<And>h. h \<in> set us \<union> set vs \<Longrightarrow> l_start (lk s h) \<le> l_end (lk s h)"
    "\<And>h. h \<in> set us \<Longrightarrow> l_start (lk s h) \<le> l_start (lk s f)" "\<And>h. h \<in> set vs \<Longrightarrow> l_start (lk s f) \<le> l_start (lk s h)"
    "\<And>h. h \<in> set us \<union> set vs \<Longrightarrow> f \<noteq> h \<Longrightarrow> own u (lk s h) \<Longrightarrow>
       l_end (lk s f) < l_start (lk s h) \<or> l_end (lk s h) < l_start (lk s f)"
    using wf o(1) unfolding lk_wf_def fl_sorted_append fl_sorted_Cons by auto
  show "l_end (lk s f) < l_start (lk s g)" if "g \<in> set vs" using that d o(2) W(2) [of g] W(4) [of g] W(5) [of g] by auto
  show "l_end (lk s g) < l_start (lk s f)" if "g \<in> set us"
    using that d o(2) W(1) W(3) [of g] W(5) [of g] by auto
qed

lemma lk_wf_drop: "lk_wf u s (us @ f # vs) \<Longrightarrow> lk_wf u s (us @ vs)"
  unfolding lk_wf_def fl_sorted_append fl_sorted_Cons by auto

lemma lk_wf_lk: "lk s' = lk s \<Longrightarrow> lk_wf u s' xs = lk_wf u s xs" "lk s' = lk s \<Longrightarrow> covers u s' xs = covers u s xs"
  "lk s' = lk s \<Longrightarrow> foreign u s' xs = foreign u s xs"
  by (simp_all add: lk_wf_def fl_sorted_def covers_def [abs_def] foreign_def)

lemma covers_here:
  assumes wf: "lk_wf u s xs" and f: "f \<in> set xs" "own u (lk s f)" and x: "l_start (lk s f) \<le> x" "x \<le> l_end (lk s f)"
  shows "covers u s xs t x \<longleftrightarrow> t = l_type (lk s f)"
proof
  assume "covers u s xs t x"
  then obtain g where g: "g \<in> set xs" "own u (lk s g)" "l_type (lk s g) = t" "l_start (lk s g) \<le> x" "x \<le> l_end (lk s g)"
    by (auto simp: covers_def)
  have "f = g"
  proof (rule ccontr)
    assume "f \<noteq> g"
    with wf f g have "l_end (lk s f) < l_start (lk s g) \<or> l_end (lk s g) < l_start (lk s f)" by (simp add: lk_wf_def)
    with x g(4,5) show False by linarith
  qed
  with g(3) show "t = l_type (lk s f)" by simp
qed (use f x in \<open>auto simp: covers_def\<close>)

lemma covers_drop:
  "\<not> (l_start (lk s f) \<le> x \<and> x \<le> l_end (lk s f)) \<Longrightarrow> covers u s (us @ vs) t x = covers u s (us @ f # vs) t x"
  by (auto simp: covers_def)

lemma fl_invD:
  assumes "fl_inv u l a b C0 O0 M0 ls fs s ld"
  shows "fl_rep ls fs s" "lk_wf u s (ls l)" "l_start ld \<le> a" "a \<le> b" "b \<le> l_end ld"
    "\<not> (l_start ld \<le> x \<and> x \<le> l_end ld) \<Longrightarrow> covers u s (ls l) t x = C0 t x"
    "l_start ld \<le> x \<and> x \<le> l_end ld \<Longrightarrow> \<not> (a \<le> x \<and> x \<le> b) \<Longrightarrow> C0 t x = (t = l_type ld)"
    "l_type ld = F_UNLCK \<Longrightarrow> l_start ld = a \<and> l_end ld = b" "foreign u s (ls l) = O0" "m \<noteq> l \<Longrightarrow> map (lk s) (ls m) = M0 m"
    "distinct (ls l)" "set (ls l) \<inter> set fs = {}"
  using assms fl_repD(3,8) [of ls fs s l] unfolding fl_inv_def by blast+

lemma fl_inv_del:
  assumes inv: "fl_inv u l a b C0 O0 M0 ls fs s ld" and spl: "ls l = us @ f # vs" and o: "own u (lk s f)"
    and ld': "l_type ld' = l_type ld" "l_start ld' \<le> l_start ld" "l_end ld \<le> l_end ld'"
      "l_start ld' \<le> l_start (lk s f)" "l_end (lk s f) \<le> l_end ld'"
      "\<And>x. l_start ld' \<le> x \<Longrightarrow> x \<le> l_end ld' \<Longrightarrow> l_start ld \<le> x \<and> x \<le> l_end ld \<or>
         l_type (lk s f) = l_type ld \<and> l_start (lk s f) \<le> x \<and> x \<le> l_end (lk s f)"
  shows "fl_inv u l a b C0 O0 M0 (ls(l := us @ vs)) (f # fs) (delflck l f s) ld' \<and> lk (delflck l f s) = lk s"
proof -
  note I = fl_invD [OF inv]
  let ?s = "delflck l f s"
  have D: "fl_rep (ls(l := us @ vs)) (f # fs) ?s" "lk ?s = lk s" using delflck_rep [OF I(1) spl] by blast+
  note E = lk_wf_lk [OF D(2)]
  have fU: "l_type (lk s f) \<noteq> F_UNLCK" using I(2) spl by (simp add: lk_wf_def)
  have out: "covers u ?s (us @ vs) t x = C0 t x" if x: "\<not> (l_start ld' \<le> x \<and> x \<le> l_end ld')" for t x
  proof -
    have "\<not> (l_start (lk s f) \<le> x \<and> x \<le> l_end (lk s f))" "\<not> (l_start ld \<le> x \<and> x \<le> l_end ld)" using x ld' by linarith+
    then show ?thesis using covers_drop [of s f x u us vs t] I(6) [of x t] spl E(2) by simp
  qed
  have gain: "C0 t x = (t = l_type ld')" if x: "l_start ld' \<le> x" "x \<le> l_end ld'" "\<not> (a \<le> x \<and> x \<le> b)" for t x
  proof (cases "l_start ld \<le> x \<and> x \<le> l_end ld")
    case True
    with I(7) [of x t] x(3) ld'(1) show ?thesis by simp
  next
    case False
    with ld'(6) [OF x(1,2)] have "l_type (lk s f) = l_type ld" "l_start (lk s f) \<le> x" "x \<le> l_end (lk s f)" by blast+
    with covers_here [OF I(2) _ o, of x t] I(6) [OF False, of t] spl ld'(1) show ?thesis by simp
  qed
  have un: "l_start ld' = a \<and> l_end ld' = b" if "l_type ld' = F_UNLCK"
  proof -
    have t: "l_type ld = F_UNLCK" "l_type (lk s f) \<noteq> l_type ld" using that ld'(1) fU by simp_all
    have "l_start ld' \<le> l_end ld'" using I(3-5) ld'(2,3) by linarith
    then have "l_start ld \<le> l_start ld'" "l_end ld' \<le> l_end ld" using ld'(6) [of "l_start ld'"] ld'(6) [of "l_end ld'"] t(2) by auto
    with I(8) [OF t(1)] ld'(2,3) show ?thesis by linarith
  qed
  have "foreign u s (us @ vs) = foreign u s (us @ f # vs)" using o by (simp add: foreign_append foreign_own)
  then have fo: "foreign u ?s (us @ vs) = O0" using I(9) spl E(3) by simp
  have "lk_wf u ?s (us @ vs)" using lk_wf_drop [of u s us f vs] I(2) spl E(1) by simp
  then have "fl_inv u l a b C0 O0 M0 (ls(l := us @ vs)) (f # fs) ?s ld'"
    unfolding fl_inv_def using D out gain un fo I(3-5,10) ld'(2,3) by auto
  with D(2) show ?thesis by blast
qed

lemma fl_inv_shrink:
  assumes inv: "fl_inv u l a b C0 O0 M0 ls fs s ld" and spl: "ls l = us @ f # vs" and o: "own u (lk s f)"
    and f: "l_start (lk s f) < l_start ld" "l_start ld \<le> l_end (lk s f)" "l_end (lk s f) \<le> l_end ld"
  shows "fl_inv u l a b C0 O0 M0 ls fs (fl_shrink ld f s) ld \<and>
    lk (fl_shrink ld f s) = (lk s)(f := (lk s f)\<lparr>l_end := l_start ld - 1\<rparr>)"
proof -
  note I = fl_invD [OF inv]
  let ?s = "fl_shrink ld f s" let ?g = "(lk s f)\<lparr>l_end := l_start ld - 1\<rparr>"
  have D: "fl_rep ls fs ?s" "lk ?s = (lk s)(f := ?g)" using fl_shrink_rep [OF I(1)] by blast+
  have og: "own u ?g" using o by (simp add: own_def)
  have ow: "own u (lk ?s x) = own u (lk s x)" "l_start (lk ?s x) = l_start (lk s x)" "l_type (lk ?s x) = l_type (lk s x)"
    "l_end (lk ?s x) \<le> l_end (lk s x)" for x using D(2) o og f by auto
  have srt: "fl_sorted ?s (ls l)" using I(2) fl_sorted_cong [of "ls l" ?s s] ow(2) by (simp add: lk_wf_def)
  have "lk_wf u ?s (ls l)" unfolding lk_wf_def
  proof (intro conjI ballI impI)
    show "fl_sorted ?s (ls l)" by (rule srt)
    show "l_type (lk ?s x) \<noteq> F_UNLCK" if "x \<in> set (ls l)" for x using I(2) that ow by (simp add: lk_wf_def)
    show "l_start (lk ?s x) \<le> l_end (lk ?s x)" if "x \<in> set (ls l)" for x
    proof (cases "x = f")
      case True
      with D(2) f(1) show ?thesis by simp
    next
      case False
      with D(2) I(2) that show ?thesis by (simp add: lk_wf_def)
    qed
    fix x y assume x: "x \<in> set (ls l)" and y: "y \<in> set (ls l)" and n: "x \<noteq> y \<and> own u (lk ?s x) \<and> own u (lk ?s y)"
    have "l_end (lk s x) < l_start (lk s y) \<or> l_end (lk s y) < l_start (lk s x)"
      using I(2) x y n ow(1) unfolding lk_wf_def by simp
    then show "l_end (lk ?s x) < l_start (lk ?s y) \<or> l_end (lk ?s y) < l_start (lk ?s x)"
      using ow(2,4) [of x] ow(2,4) [of y] by linarith
  qed
  moreover have "covers u ?s (ls l) t x = C0 t x" if x: "\<not> (l_start ld \<le> x \<and> x \<le> l_end ld)" for t x
  proof -
    have "l_start (lk ?s h) \<le> x \<and> x \<le> l_end (lk ?s h) \<longleftrightarrow> l_start (lk s h) \<le> x \<and> x \<le> l_end (lk s h)" for h
      using D(2) f x by (cases "h = f") auto
    then have "covers u ?s (ls l) t x = covers u s (ls l) t x" unfolding covers_def using ow(1,3) by simp
    with I(6) [OF x] show ?thesis by simp
  qed
  moreover have "foreign u ?s (ls l) = O0" using I(9) foreign_cong [of "ls l" s ?s u] D(2) ow(1) o
    by (metis fun_upd_other)
  moreover have "map (lk ?s) (ls m) = M0 m" if m: "m \<noteq> l" for m
  proof -
    have "f \<notin> set (ls m)" using fl_repD(4) [OF I(1) m] spl by auto
    then have "map (lk ?s) (ls m) = map (lk s) (ls m)" using D(2) by (auto intro!: map_cong)
    with I(10) [OF m] show ?thesis by simp
  qed
  ultimately show ?thesis using D I(3-5) I(7) I(8) unfolding fl_inv_def by blast
qed

text \<open>Cutting an own lock in two behind \<open>ld\<close>: the new piece is in its place, and \<open>f\<close> may end with \<open>ld\<close>.\<close>

lemma fl_rep_fset: "fl_rep ls fs (upd_fl f (\<lambda>x. x\<lparr>fset := h x\<rparr>) s) = fl_rep ls fs s"
proof -
  let ?s = "upd_fl f (\<lambda>x. x\<lparr>fset := h x\<rparr>) s"
  have "fl_nx ?s = fl_nx s" "fl_pv ?s = fl_pv s" by (simp_all add: fl_nx_def fl_pv_def fun_eq_iff)
  then show ?thesis by (simp add: fl_rep_def)
qed

definition fl_cut :: "int \<Rightarrow> nat \<Rightarrow> flst \<Rightarrow> flst" where
  "fl_cut e f = upd_fl f (\<lambda>x. x\<lparr>fset := (fset x)\<lparr>l_end := e\<rparr>\<rparr>)"

lemma lk_cut: "lk (fl_cut e f s) = (lk s)(f := (lk s f)\<lparr>l_end := e\<rparr>)"
  by (rule ext) (simp add: fl_cut_def lk_def)

lemma fl_inv_split:
  assumes inv: "fl_inv u l a b C0 O0 M0 ls (n # gs) s ld" and f: "f \<in> set (ls l)" and o: "own u (lk s f)"
    and e: "l_start (lk s f) \<le> l_end ld" "l_end ld < l_end (lk s f)"
  shows "\<exists>us vs s1. ls l = us @ vs \<and> f \<in> set us \<and> fl_split u l ld f s = (Some n, s1) \<and>
    fl_inv u l a b C0 O0 M0 (ls(l := us @ n # vs)) gs (fl_cut (l_end ld) f s1) ld \<and>
    lk (fl_cut (l_end ld) f s1) =
      (lk s)(n := (lk s f)\<lparr>l_start := l_end ld + 1\<rparr>, f := (lk s f)\<lparr>l_end := l_end ld\<rparr>)"
proof -
  note I = fl_invD [OF inv]
  let ?td = "(lk s f)\<lparr>l_start := l_end ld + 1\<rparr>"
  have td: "?td\<lparr>l_pid := p_epid u, l_sysid := p_sysid u\<rparr> = ?td" using o by (simp add: own_def)
  have "l_start (lk s f) \<le> l_end ld + 1" using e(1) by simp
  with f have "Some f = None \<and> (\<forall>x\<in>set (ls l). l_end ld + 1 \<le> l_start (lk s x)) \<or>
      (\<exists>g\<in>set (ls l). Some f = Some g \<and> l_start (lk s g) \<le> l_end ld + 1)" by blast
  from insert_point [OF I(1) _ this] I(2) obtain us vs where uv: "ls l = us @ vs"
    "last_below (recs (flinfo s)) (l_end ld + 1) (Some f) (Some f) s = last_opt us"
    "\<forall>x\<in>set us. l_start (lk s x) \<le> l_end ld + 1" "\<forall>x\<in>set vs. l_end ld + 1 \<le> l_start (lk s x)"
    by (auto simp: lk_wf_def)
  have fu: "f \<in> set us" "f \<notin> set vs" using f uv(1,4) e(1) by auto
  from insflck_rep [OF I(1) uv(1) uv(2), of u ?td] obtain s1 where s1:
    "insflck u l ?td (last_below (recs (flinfo s)) (l_end ld + 1) (Some f) (Some f) s) s = (Some n, s1)"
    "fl_rep (ls(l := us @ n # vs)) gs s1" "lk s1 = (lk s)(n := ?td)" unfolding td by blast
  have sp: "fl_split u l ld f s = (Some n, s1)" using s1(1) by (simp add: fl_split_def lk_def)
  let ?s = "fl_cut (l_end ld) f s1" let ?xs = "us @ n # vs"
  have nl: "n \<notin> set (ls m)" for m using fl_repD(3) [OF I(1), of m] by auto
  have n: "n \<notin> set us" "n \<notin> set vs" "n \<noteq> f" using nl [of l] f uv(1) by auto
  have lks: "lk ?s x = ((lk s)(n := ?td, f := (lk s f)\<lparr>l_end := l_end ld\<rparr>)) x" for x
    using n(3) unfolding lk_cut s1(3) by simp
  have rep: "fl_rep (ls(l := ?xs)) gs ?s" using s1(2) by (simp add: fl_cut_def fl_rep_fset)
  have ow: "own u (lk ?s x) = own u (lk s x)" "l_type (lk ?s x) = l_type (lk s x)" "l_start (lk ?s x) = l_start (lk s x)"
    "l_end (lk ?s x) \<le> l_end (lk s x)" if "x \<noteq> n" for x using lks [of x] o e(2) that by (auto simp: own_def)
  have srt: "fl_sorted ?s ?xs"
  proof -
    have "fl_sorted s (us @ vs)" using I(2) uv(1) by (simp add: lk_wf_def)
    moreover have "fl_sorted ?s us = fl_sorted s us" "fl_sorted ?s vs = fl_sorted s vs"
      by (rule fl_sorted_cong, metis n(1,2) ow(3))+
    moreover have "l_start (lk ?s x) = l_start (lk s x)" if "x \<in> set us \<union> set vs" for x
      using that n by (intro ow(3)) auto
    moreover have "l_start (lk ?s n) = l_end ld + 1" using lks [of n] n(3) by simp
    ultimately show ?thesis using uv(3,4) unfolding fl_sorted_append fl_sorted_Cons by auto
  qed
  have W: "l_start (lk s x) \<le> l_end (lk s x)" "l_type (lk s x) \<noteq> F_UNLCK" if "x \<in> set us \<union> set vs" for x
    using I(2) that uv(1) by (auto simp: lk_wf_def)
  have D: "l_end (lk s x) < l_start (lk s y) \<or> l_end (lk s y) < l_start (lk s x)"
    if "x \<in> set us \<union> set vs" "y \<in> set us \<union> set vs" "x \<noteq> y" "own u (lk s x)" "own u (lk s y)" for x y
    using I(2) that unfolding lk_wf_def uv(1) set_append by blast
  have nn: "lk ?s n = ?td" "lk ?s f = (lk s f)\<lparr>l_end := l_end ld\<rparr>" using lks [of n] lks [of f] n(3) by simp_all
  have ap: "l_end (lk ?s g) < l_end ld + 1 \<or> l_end (lk s f) < l_start (lk ?s g)"
    if g: "g \<in> set us \<union> set vs" "own u (lk ?s g)" for g
  proof (cases "g = f")
    case True
    with nn show ?thesis by simp
  next
    case False
    then have "g \<noteq> n" "f \<in> set us \<union> set vs" using g n fu by auto
    with D [of g f] g ow [of g] o False e show ?thesis by fastforce
  qed
  have wf: "lk_wf u ?s ?xs" unfolding lk_wf_def
  proof (intro conjI ballI impI)
    show "fl_sorted ?s ?xs" by (rule srt)
    show "l_type (lk ?s x) \<noteq> F_UNLCK" if "x \<in> set ?xs" for x
      using that W(2) [of x] W(2) [of f] ow(2) [of x] nn fu by (cases "x = n") auto
    show "l_start (lk ?s x) \<le> l_end (lk ?s x)" if "x \<in> set ?xs" for x
      using that W(1) [of x] lks [of x] nn e by (cases "x = n"; cases "x = f") auto
    fix x y assume x: "x \<in> set ?xs" and y: "y \<in> set ?xs" and o2: "x \<noteq> y \<and> own u (lk ?s x) \<and> own u (lk ?s y)"
    show "l_end (lk ?s x) < l_start (lk ?s y) \<or> l_end (lk ?s y) < l_start (lk ?s x)"
    proof (cases "x = n \<or> y = n")
      case True
      then show ?thesis using x y o2 ap [of x] ap [of y] nn(1) by auto
    next
      case False
      then have "l_end (lk s x) < l_start (lk s y) \<or> l_end (lk s y) < l_start (lk s x)"
        using D [of x y] x y o2 ow(1) by auto
      with False ow(3,4) [of x] ow(3,4) [of y] show ?thesis by linarith
    qed
  qed
  have cov: "covers u ?s ?xs t x = covers u s (ls l) t x" for t x
  proof -
    have "covers u ?s ?xs t x \<longleftrightarrow> l_type (lk s f) = t \<and> l_end ld + 1 \<le> x \<and> x \<le> l_end (lk s f) \<or>
        l_type (lk s f) = t \<and> l_start (lk s f) \<le> x \<and> x \<le> l_end ld \<or> (\<exists>g\<in>set (ls l) - {f}. own u (lk s g) \<and>
          l_type (lk s g) = t \<and> l_start (lk s g) \<le> x \<and> x \<le> l_end (lk s g))"
    proof -
      let ?P = "\<lambda>s g. own u (lk s g) \<and> l_type (lk s g) = t \<and> l_start (lk s g) \<le> x \<and> x \<le> l_end (lk s g)"
      have "set ?xs = insert n (insert f (set (ls l) - {f}))" using uv(1) fu by auto
      then have "covers u ?s ?xs t x \<longleftrightarrow> ?P ?s n \<or> ?P ?s f \<or> (\<exists>g\<in>set (ls l) - {f}. ?P ?s g)"
        unfolding covers_def by (simp only: bex_simps)
      moreover have "(\<exists>g\<in>set (ls l) - {f}. ?P ?s g) = (\<exists>g\<in>set (ls l) - {f}. ?P s g)"
      proof (rule bex_cong [OF refl])
        fix g assume "g \<in> set (ls l) - {f}"
        then have "lk ?s g = lk s g" using lks [of g] nl [of l] by auto
        then show "?P ?s g = ?P s g" by simp
      qed
      ultimately show ?thesis using nn o by (simp add: own_def)
    qed
    also have "\<dots> = covers u s (ls l) t x" unfolding covers_def using f o e by auto
    finally show ?thesis .
  qed
  have fo: "foreign u ?s ?xs = foreign u s (ls l)"
  proof -
    have "own u (lk ?s n)" using nn o by (simp add: own_def)
    moreover have "foreign u ?s us = foreign u s us" "foreign u ?s vs = foreign u s vs"
      by (rule foreign_cong; metis lks n(1,2) ow(1) o fun_upd_apply)+
    ultimately show ?thesis using uv(1) by (simp add: foreign_append foreign_own)
  qed
  have oth: "map (lk ?s) (ls m) = map (lk s) (ls m)" if "m \<noteq> l" for m
    using nl [of m] fl_repD(4) [OF I(1) that] f lks by (intro map_cong) auto
  have "fl_inv u l a b C0 O0 M0 (ls(l := ?xs)) gs ?s ld"
    unfolding fl_inv_def using rep wf I(3-10) cov fo oth by auto
  with uv(1) fu(1) sp lks show ?thesis by (intro exI [of _ us] exI [of _ vs] exI [of _ s1]) (auto simp: fun_eq_iff)
qed

text \<open>What a case of the switch leaves to the rest of the loop: the records \<open>pre\<close> are done with, and the
  scan ends or goes on with \<open>rest\<close>.\<close>

definition fl_ready :: "user \<Rightarrow> lck_list \<Rightarrow> int \<Rightarrow> int \<Rightarrow> (int \<Rightarrow> int \<Rightarrow> bool) \<Rightarrow> flock list \<Rightarrow> (lck_list \<Rightarrow> flock list) \<Rightarrow>
    int \<Rightarrow> nat \<Rightarrow> nat option \<Rightarrow> nat option \<Rightarrow> flock \<Rightarrow> flst \<Rightarrow> bool" where
  "fl_ready u l a b C0 O0 M0 t k p ins ld s \<longleftrightarrow> (\<exists>ls fs pre rest. fl_inv u l a b C0 O0 M0 ls fs s ld \<and>
     ls l = pre @ rest \<and> l_type ld = t \<and> fs \<noteq> [] \<and>
     (ins_ok s pre (ls l) ins ld \<or> ins = hd_opt rest \<and> ins \<noteq> None \<and> l_start (lk s (the ins)) < l_start ld) \<and>
     (\<forall>f\<in>set pre. own u (lk s f) \<longrightarrow> l_end (lk s f) < l_start ld) \<and>
     (if p = None then \<forall>f\<in>set rest. own u (lk s f) \<longrightarrow> l_end ld < l_start (lk s f)
      else p = hd_opt rest \<and> length rest \<le> k \<and> 2 \<le> length fs))"

text \<open>The scan is at \<open>f\<close>.\<close>

definition fl_at :: "user \<Rightarrow> lck_list \<Rightarrow> int \<Rightarrow> int \<Rightarrow> (int \<Rightarrow> int \<Rightarrow> bool) \<Rightarrow> flock list \<Rightarrow> (lck_list \<Rightarrow> flock list) \<Rightarrow>
    (lck_list \<Rightarrow> nat list) \<Rightarrow> nat list \<Rightarrow> nat list \<Rightarrow> nat \<Rightarrow> nat list \<Rightarrow> nat option \<Rightarrow> flock \<Rightarrow> flst \<Rightarrow> bool" where
  "fl_at u l a b C0 O0 M0 ls fs pre f ms ins ld s \<longleftrightarrow> fl_inv u l a b C0 O0 M0 ls fs s ld \<and> ls l = pre @ f # ms \<and>
     (ins_ok s pre (ls l) ins ld \<or> ins = Some f \<and> l_start (lk s f) < l_start ld) \<and> 2 \<le> length fs \<and> own u (lk s f) \<and>
     (\<forall>g\<in>set pre. own u (lk s g) \<longrightarrow> l_end (lk s g) < l_start ld)"

lemma fl_atD:
  assumes "fl_at u l a b C0 O0 M0 ls fs pre f ms ins ld s"
  shows "fl_inv u l a b C0 O0 M0 ls fs s ld" "ls l = pre @ f # ms"
    "ins_ok s pre (ls l) ins ld \<or> ins = Some f \<and> l_start (lk s f) < l_start ld" "2 \<le> length fs" "own u (lk s f)"
    "g \<in> set pre \<Longrightarrow> own u (lk s g) \<Longrightarrow> l_end (lk s g) < l_start ld"
    "g \<in> set ms \<Longrightarrow> own u (lk s g) \<Longrightarrow> l_end (lk s f) < l_start (lk s g)"
    "g \<in> set pre \<Longrightarrow> own u (lk s g) \<Longrightarrow> l_end (lk s g) < l_start (lk s f)"
    "l_start (lk s f) \<le> l_end (lk s f)" "l_start ld \<le> l_end ld" "fl_nx s f = hd_opt ms" "fl_pv s f = last_opt pre"
    "g \<in> set ms \<Longrightarrow> l_start (lk s f) \<le> l_start (lk s g)" "g \<in> set pre \<Longrightarrow> l_start (lk s g) \<le> l_start (lk s f)"
proof -
  show A: "fl_inv u l a b C0 O0 M0 ls fs s ld" "ls l = pre @ f # ms"
    "ins_ok s pre (ls l) ins ld \<or> ins = Some f \<and> l_start (lk s f) < l_start ld" "2 \<le> length fs" "own u (lk s f)"
    "g \<in> set pre \<Longrightarrow> own u (lk s g) \<Longrightarrow> l_end (lk s g) < l_start ld"
    using assms by (auto simp: fl_at_def)
  note I = fl_invD [OF A(1)]
  have W: "lk_wf u s (pre @ f # ms)" "distinct (pre @ f # ms)" using I(2,11) A(2) by simp_all
  show "g \<in> set ms \<Longrightarrow> own u (lk s g) \<Longrightarrow> l_end (lk s f) < l_start (lk s g)"
    "g \<in> set pre \<Longrightarrow> own u (lk s g) \<Longrightarrow> l_end (lk s g) < l_start (lk s f)"
    using lk_wf_around [OF W A(5)] by blast+
  show "l_start (lk s f) \<le> l_end (lk s f)" "l_start ld \<le> l_end ld" using W(1) I(3-5) by (simp_all add: lk_wf_def)
  have "dll (fl_nx s) (fl_pv s) (head l s) (last_opt (ls l)) (pre @ f # ms)" using fl_repD(1) [OF I(1), of l] A(2) by simp
  from dll_next [OF this] show "fl_nx s f = hd_opt ms" "fl_pv s f = last_opt pre" by simp_all
  show "g \<in> set ms \<Longrightarrow> l_start (lk s f) \<le> l_start (lk s g)" "g \<in> set pre \<Longrightarrow> l_start (lk s g) \<le> l_start (lk s f)"
    using W(1) unfolding lk_wf_def fl_sorted_append fl_sorted_Cons by auto
qed

lemma ins_ok_lk:
  "lk s' = lk s \<Longrightarrow> ins_ok s pre xs ins ld \<Longrightarrow> set ys \<subseteq> set xs \<Longrightarrow> l_type ld' = l_type ld \<Longrightarrow> l_start ld' = l_start ld \<Longrightarrow>
    ins_ok s' pre ys ins ld'"
  unfolding ins_ok_def by auto

text \<open>Going on behind a lock of the caller that stays.\<close>

lemma fl_keep:
  assumes at: "fl_at u l a b C0 O0 M0 ls fs pre f ms ins ld s"
    and c: "p = None \<and> l_end ld < l_start (lk s f) \<and> ins' = ins \<or>
      p = hd_opt ms \<and> l_end (lk s f) < l_start ld \<and> (ins' = ins \<or> ins' = Some f)"
  shows "fl_ready u l a b C0 O0 M0 (l_type ld) (length ms) p ins' ld s"
proof -
  note A = fl_atD [OF at]
  have ne: "fs \<noteq> []" using A(4) by auto
  from c consider "p = None" "l_end ld < l_start (lk s f)" "ins' = ins" |
    "p = hd_opt ms" "l_end (lk s f) < l_start ld" "ins' = ins \<or> ins' = Some f" by blast
  then show ?thesis
  proof cases
    case 1
    then show ?thesis unfolding fl_ready_def using A(1-3,6) ne A(13)
      by (intro exI [of _ ls] exI [of _ fs] exI [of _ pre] exI [of _ "f # ms"]) fastforce
  next
    case p: 2
    have "ins_ok s (pre @ [f]) (ls l) ins' ld"
      using p A(3) A(9) by (auto simp: ins_ok_def)
    then show ?thesis unfolding fl_ready_def using A(1-4,6) p ne
      by (intro exI [of _ ls] exI [of _ fs] exI [of _ "pre @ [f]"] exI [of _ ms]) (auto simp: hd_opt_None)
  qed
qed

text \<open>Deleting a lock of the caller.\<close>

lemma fl_drop:
  assumes at: "fl_at u l a b C0 O0 M0 ls fs pre f ms ins ld s"
    and ld': "l_type ld' = l_type ld" "l_start ld' \<le> l_start ld" "l_end ld \<le> l_end ld'"
      "l_start ld' \<le> l_start (lk s f)" "l_end (lk s f) \<le> l_end ld'"
      "\<And>x. l_start ld' \<le> x \<Longrightarrow> x \<le> l_end ld' \<Longrightarrow> l_start ld \<le> x \<and> x \<le> l_end ld \<or>
         l_type (lk s f) = l_type ld \<and> l_start (lk s f) \<le> x \<and> x \<le> l_end (lk s f)"
    and c: "p = hd_opt ms \<or> p = None \<and> l_end ld' = l_end (lk s f)"
    and i: "l_start ld' = l_start ld \<and> l_start ld < l_start (lk s f) \<and> ins' = ins \<or> l_start ld' = l_start (lk s f) \<and> ins' = last_opt pre"
  shows "fl_ready u l a b C0 O0 M0 (l_type ld) (length ms) p ins' ld' (delflck l f s)"
proof -
  note A = fl_atD [OF at]
  let ?s = "delflck l f s"
  have I: "fl_inv u l a b C0 O0 M0 (ls(l := pre @ ms)) (f # fs) ?s ld'" and L: "lk ?s = lk s"
    using fl_inv_del [OF A(1,2,5) ld'] by blast+
  have ins: "ins_ok ?s pre (pre @ ms) ins' ld'" using i
  proof (elim disjE conjE)
    assume e: "l_start ld' = l_start ld" "l_start ld < l_start (lk s f)" "ins' = ins"
    with A(3) have "ins_ok s pre (ls l) ins ld" by auto
    moreover have "set (pre @ ms) \<subseteq> set (ls l)" using A(2) by auto
    ultimately show ?thesis using ins_ok_lk [OF L, of pre "ls l" ins ld "pre @ ms" ld'] ld'(1) e by simp
  next
    assume e: "l_start ld' = l_start (lk s f)" "ins' = last_opt pre"
    show ?thesis
    proof (cases "pre = []")
      case True
      with e A(13) L show ?thesis by (auto simp: ins_ok_def)
    next
      case False
      with e A(14) [of "last pre"] L show ?thesis by (auto simp: ins_ok_def last_opt_def)
    qed
  qed
  have pr: "l_end (lk ?s g) < l_start ld'" if "g \<in> set pre" "own u (lk ?s g)" for g
    using i A(6) [of g] A(8) [of g] that L by auto
  have "l_end (lk s f) < l_start (lk s g)" if "g \<in> set ms" "own u (lk s g)" for g using A(7) that by blast
  then have "if p = None then \<forall>g\<in>set ms. own u (lk ?s g) \<longrightarrow> l_end ld' < l_start (lk ?s g)
      else p = hd_opt ms \<and> length ms \<le> length ms \<and> 2 \<le> length (f # fs)"
    using c L A(4) by (cases ms) auto
  with I ins pr ld'(1) show ?thesis unfolding fl_ready_def
    by (intro exI [of _ "ls(l := pre @ ms)"] exI [of _ "f # fs"] exI [of _ pre] exI [of _ ms]) simp
qed

text \<open>Shrinking one.\<close>

lemma fl_short:
  assumes at: "fl_at u l a b C0 O0 M0 ls fs pre f ms ins ld s"
    and f: "l_start (lk s f) < l_start ld" "l_start ld \<le> l_end (lk s f)" "l_end (lk s f) \<le> l_end ld"
  shows "fl_ready u l a b C0 O0 M0 (l_type ld) (length ms) (hd_opt ms) (Some f) ld (fl_shrink ld f s)"
proof -
  note A = fl_atD [OF at]
  let ?s = "fl_shrink ld f s"
  have I: "fl_inv u l a b C0 O0 M0 ls fs ?s ld" and L: "lk ?s = (lk s)(f := (lk s f)\<lparr>l_end := l_start ld - 1\<rparr>)"
    using fl_inv_shrink [OF A(1,2,5) f] by blast+
  have d: "distinct (pre @ f # ms)" using fl_invD(11) [OF A(1)] A(2) by simp
  have "l_end (lk ?s g) < l_start ld" if "g \<in> set (pre @ [f])" "own u (lk ?s g)" for g
    using that A(6) [of g] L by (auto split: if_splits)
  moreover have "ins_ok ?s (pre @ [f]) (ls l) (Some f) ld" using L f(1) by (simp add: ins_ok_def)
  moreover have "hd_opt ms = None \<Longrightarrow> ms = []" by (cases ms) auto
  ultimately show ?thesis unfolding fl_ready_def using I A(2,4)
    by (intro exI [of _ ls] exI [of _ fs] exI [of _ "pre @ [f]"] exI [of _ ms]) auto
qed

text \<open>Cutting one in two.\<close>

lemma fl_inv_cong:
  assumes "fl_inv u l a b C0 O0 M0 ls fs s ld" "fl_rep ls fs s'" "\<And>m x. x \<in> set (ls m) \<Longrightarrow> lk s' x = lk s x"
  shows "fl_inv u l a b C0 O0 M0 ls fs s' ld"
proof -
  have "fl_sorted s' (ls l) = fl_sorted s (ls l)" by (rule fl_sorted_cong) (simp add: assms(3))
  then have "lk_wf u s' (ls l) = lk_wf u s (ls l)" by (simp add: lk_wf_def assms(3) cong: ball_cong)
  moreover have "covers u s' (ls l) t x = covers u s (ls l) t x" for t x
    by (simp add: covers_def assms(3) cong: bex_cong)
  moreover have "foreign u s' (ls l) = foreign u s (ls l)" by (rule foreign_cong) (simp add: assms(3))
  moreover have "\<forall>m. map (lk s') (ls m) = map (lk s) (ls m)" by (simp add: assms(3))
  ultimately show ?thesis using assms(1,2) unfolding fl_inv_def by (elim conjE, intro conjI) (simp_all only: simp_thms)
qed

lemma fl_shrink_cut: "fl_shrink ld f (fl_cut e f s) = fl_shrink ld f s"
  by (simp add: fl_shrink_def fl_cut_def upd_fl_def)

lemma split_same:
  assumes "distinct (pre @ f # ms)" "pre @ f # ms = us @ vs" "f \<in> set us"
  shows "\<exists>us2. us = pre @ f # us2 \<and> ms = us2 @ vs"
proof -
  from assms(2) obtain ws where "pre = us @ ws \<and> ws @ f # ms = vs \<or> pre @ ws = us \<and> f # ms = ws @ vs"
    by (auto simp: append_eq_append_conv2)
  with assms(1,3) show ?thesis by (cases ws) auto
qed

lemma fl_divide:
  assumes at: "fl_at u l a b C0 O0 M0 ls fs pre f ms ins ld s"
    and e: "l_start (lk s f) \<le> l_end ld" "l_end ld < l_end (lk s f)"
  shows "\<exists>n s1. fl_split u l ld f s = (Some n, s1) \<and>
    (l_start (lk s f) < l_start ld \<longrightarrow> fl_ready u l a b C0 O0 M0 (l_type ld) k None (Some f) ld (fl_shrink ld f s1)) \<and>
    (l_start ld \<le> l_start (lk s f) \<and> (ins' = ins \<or> l_start ld = l_start (lk s f) \<and> ins' = last_opt pre) \<longrightarrow>
      fl_ready u l a b C0 O0 M0 (l_type ld) k None ins' ld (delflck l f s1))"
proof -
  note A = fl_atD [OF at]
  from A(4) obtain n gs where fs: "fs = n # gs" and gs: "gs \<noteq> []" by (cases fs; cases "tl fs") auto
  have d: "distinct (pre @ f # ms)" "n \<notin> set (pre @ f # ms)" using fl_invD(11,12) [OF A(1)] A(2) fs by auto
  have "f \<in> set (ls l)" using A(2) by simp
  from fl_inv_split [OF A(1) [unfolded fs] this A(5) e] obtain us vs s1 where uv: "ls l = us @ vs" "f \<in> set us"
    and sp: "fl_split u l ld f s = (Some n, s1)"
    and J: "fl_inv u l a b C0 O0 M0 (ls(l := us @ n # vs)) gs (fl_cut (l_end ld) f s1) ld"
    and L: "lk (fl_cut (l_end ld) f s1) = (lk s)(n := (lk s f)\<lparr>l_start := l_end ld + 1\<rparr>, f := (lk s f)\<lparr>l_end := l_end ld\<rparr>)"
    by blast
  let ?c = "fl_cut (l_end ld) f s1"
  from split_same [OF d(1) _ uv(2), of vs] A(2) uv(1) obtain us2 where us: "us = pre @ f # us2" "ms = us2 @ vs" by auto
  have sp2: "(ls(l := us @ n # vs)) l = pre @ f # (us2 @ n # vs)" using us by simp
  have oc: "own u (lk ?c f)" "lk ?c f = (lk s f)\<lparr>l_end := l_end ld\<rparr>" using L A(5) by (simp_all add: own_def)
  have after: "l_end ld < l_start (lk ?c g)" if g: "g \<in> set (us2 @ n # vs)" "own u (lk ?c g)" for g
  proof (cases "g = n")
    case True
    with L d show ?thesis by auto
  next
    case False
    then have "g \<in> set ms" "g \<noteq> f" using g us d by auto
    with A(7) [of g] g(2) L False e(2) show ?thesis by auto
  qed
  have before: "lk ?c g = lk s g" if "g \<in> set pre" for g using L d that by auto
  have short: "fl_ready u l a b C0 O0 M0 (l_type ld) k None (Some f) ld (fl_shrink ld f s1)"
    if lt: "l_start (lk s f) < l_start ld"
  proof -
    have "l_start (lk ?c f) < l_start ld" "l_start ld \<le> l_end (lk ?c f)" "l_end (lk ?c f) \<le> l_end ld"
      using oc lt A(10) by simp_all
    from fl_inv_shrink [OF J sp2 oc(1) this] have
      S: "fl_inv u l a b C0 O0 M0 (ls(l := us @ n # vs)) gs (fl_shrink ld f s1) ld"
      "lk (fl_shrink ld f s1) = (lk ?c)(f := (lk ?c f)\<lparr>l_end := l_start ld - 1\<rparr>)" unfolding fl_shrink_cut by blast+
    have "l_end (lk (fl_shrink ld f s1) g) < l_start ld" if "g \<in> set (pre @ [f])" "own u (lk (fl_shrink ld f s1) g)" for g
      using that S(2) A(6) [of g] before [of g] by (auto split: if_splits)
    moreover have "l_end ld < l_start (lk (fl_shrink ld f s1) g)"
      if g: "g \<in> set (us2 @ n # vs)" "own u (lk (fl_shrink ld f s1) g)" for g
    proof -
      have "g \<noteq> f" using g(1) d us by auto
      with g S(2) after [of g] show ?thesis by simp
    qed
    moreover have "ins_ok (fl_shrink ld f s1) (pre @ [f]) xs (Some f) ld" for xs using S(2) oc lt by (simp add: ins_ok_def)
    ultimately show ?thesis unfolding fl_ready_def using S(1) gs us
      by (intro exI [of _ "ls(l := us @ n # vs)"] exI [of _ gs] exI [of _ "pre @ [f]"] exI [of _ "us2 @ n # vs"]) simp
  qed
  have drop: "fl_ready u l a b C0 O0 M0 (l_type ld) k None ins' ld (delflck l f s1)"
    if ge: "l_start ld \<le> l_start (lk s f)" and i: "ins' = ins \<or> l_start ld = l_start (lk s f) \<and> ins' = last_opt pre"
  proof -
    let ?ls = "(ls(l := us @ n # vs))(l := pre @ us2 @ n # vs)"
    have "l_start ld \<le> l_start (lk ?c f)" "l_end (lk ?c f) \<le> l_end ld" using oc ge by simp_all
    from fl_inv_del [OF J sp2 oc(1) refl order_refl order_refl this]
    have S: "fl_inv u l a b C0 O0 M0 ?ls (f # gs) (delflck l f ?c) ld" "lk (delflck l f ?c) = lk ?c" by blast+
    have "fl_rep (ls(l := us @ n # vs)) gs s1" using fl_invD(1) [OF J] by (simp add: fl_cut_def fl_rep_fset)
    from delflck_rep [of "ls(l := us @ n # vs)" gs s1 l pre f "us2 @ n # vs", OF this sp2]
    have D: "fl_rep ?ls (f # gs) (delflck l f s1)" "lk (delflck l f s1) = lk s1" by blast+
    have lf: "lk (delflck l f s1) x = lk ?c x" if "x \<noteq> f" for x using that D(2) by (simp add: lk_cut)
    have nf: "x \<noteq> f" if "x \<in> set (?ls m)" for x m using fl_repD(3) [OF D(1), of m] that by auto
    have T: "fl_inv u l a b C0 O0 M0 ?ls (f # gs) (delflck l f s1) ld"
      using S(1) D(1) by (rule fl_inv_cong) (use nf lf S(2) in metis)
    have same: "lk (delflck l f s1) g = lk s g" if "g \<in> set pre" for g using before [OF that] lf [of g] that d by auto
    have rest: "lk (delflck l f s1) g = lk ?c g" if "g \<in> set (us2 @ n # vs)" for g using lf [of g] that d us by auto
    have "ins_ok (delflck l f s1) pre (pre @ us2 @ n # vs) ins' ld"
    proof (cases "ins' = None \<and> l_type ld \<noteq> F_UNLCK")
      case True
      have "l_start ld \<le> l_start (lk (delflck l f s1) x)" if x: "x \<in> set (pre @ us2 @ n # vs)" for x
      proof (cases "x \<in> set pre")
        case pr: True
        then have "last_opt pre \<noteq> None" by (auto simp: last_opt_def)
        with i True have "ins = None" by auto
        with pr A(3) True have "l_start ld \<le> l_start (lk s x)" using A(2) by (auto simp: ins_ok_def)
        with same [OF pr] show ?thesis by simp
      next
        case False
        with x have x2: "x \<in> set (us2 @ n # vs)" by auto
        show ?thesis
        proof (cases "x = n")
          case True
          with rest [OF x2] L d A(10) show ?thesis by auto
        next
          case False
          then have "x \<in> set ms" "lk ?c x = lk s x" using x2 us L d by auto
          with A(13) [of x] rest [OF x2] ge show ?thesis by simp
        qed
      qed
      with True show ?thesis by (simp add: ins_ok_def)
    next
      case False
      show ?thesis
      proof (cases "l_type ld = F_UNLCK")
        case False
        with \<open>\<not> (ins' = None \<and> l_type ld \<noteq> F_UNLCK)\<close> obtain g where g: "ins' = Some g" by auto
        from i show ?thesis
        proof (elim disjE conjE)
          assume "ins' = ins"
          with A(3) g False same ge show ?thesis by (auto simp: ins_ok_def)
        next
          assume "l_start ld = l_start (lk s f)" "ins' = last_opt pre"
          with g have "g \<in> set pre" "l_start (lk s g) \<le> l_start ld" using A(14) [of g] by (auto dest: last_opt_mem)
          with g same show ?thesis by (auto simp: ins_ok_def)
        qed
      qed (simp add: ins_ok_def)
    qed
    moreover have "l_end (lk (delflck l f s1) g) < l_start ld" if "g \<in> set pre" "own u (lk (delflck l f s1) g)" for g
      using A(6) [of g] same [of g] that by simp
    ultimately show ?thesis unfolding fl_ready_def using T rest after
      by (intro exI [of _ ?ls] exI [of _ "f # gs"] exI [of _ pre] exI [of _ "us2 @ n # vs"]) simp
  qed
  from sp short drop show ?thesis by blast
qed

text \<open>A lock of the caller of the same type that holds all of \<open>ld\<close>: nothing is to be done.\<close>

lemma fl_held:
  assumes at: "fl_at u l a b C0 O0 M0 ls fs pre f ms ins ld s" and t: "l_type ld = l_type (lk s f)"
    and c: "l_start (lk s f) \<le> l_start ld" "l_end ld \<le> l_end (lk s f)"
  shows "fl_done u l (l_type ld) a b C0 O0 M0 s"
proof -
  note A = fl_atD [OF at]
  note I = fl_invD [OF A(1)]
  have f: "f \<in> set (ls l)" using A(2) by simp
  have "l_type ld \<noteq> F_UNLCK" using I(2) f t by (simp add: lk_wf_def)
  moreover have "covers u s (ls l) ty x = (ty = l_type ld)" if "l_start ld \<le> x \<and> x \<le> l_end ld" for ty x
    using covers_here [OF I(2) f A(5), of x ty] that c t by auto
  ultimately have "covers u s (ls l) ty x = (if a \<le> x \<and> x \<le> b then ty = l_type ld \<and> l_type ld \<noteq> F_UNLCK else C0 ty x)"
    for ty x using I(3-5) I(6) [of x ty] I(7) [of x ty] by (cases "l_start ld \<le> x \<and> x \<le> l_end ld") auto
  then show ?thesis unfolding fl_done_def using I(1,2,9,10) by (intro exI [of _ ls] exI [of _ fs]) auto
qed

lemma regflck_cases:
  assumes "l_start g \<le> l_end g" "l_start ld \<le> l_end ld"
  obtains (bb) "regflck ld g = 9" "l_end ld < l_start g - 1" |
    (bs) "regflck ld g = 10" "l_start ld < l_start g" "l_end ld = l_start g - 1" |
    (se) "regflck ld g = 20" "l_start ld = l_start g" "l_end ld = l_end g" |
    (sa) "regflck ld g = 21" "l_start ld = l_start g" "l_end g < l_end ld" |
    (be) "regflck ld g = 12" "l_start ld < l_start g" "l_end ld = l_end g" |
    (ba) "regflck ld g = 13" "l_start ld < l_start g" "l_end g < l_end ld" |
    (sm) "regflck ld g = 19" "l_start ld = l_start g" "l_end ld < l_end g" |
    (mm) "regflck ld g = 27" "l_start g < l_start ld" "l_end ld < l_end g" |
    (bm) "regflck ld g = 11" "l_start ld < l_start g" "l_start g \<le> l_end ld" "l_end ld < l_end g" |
    (me) "regflck ld g = 28" "l_start g < l_start ld" "l_start ld \<le> l_end g" "l_end ld = l_end g" |
    (ma) "regflck ld g = 29" "l_start g < l_start ld" "l_start ld \<le> l_end g" "l_end g < l_end ld" |
    (ea) "regflck ld g = 37" "l_start g < l_start ld" "l_start ld = l_end g + 1" |
    (aa) "regflck ld g = 45" "l_end g + 1 < l_start ld"
proof -
  consider "l_start ld < l_start g" | "l_start ld = l_start g" | "l_start g < l_start ld" by linarith
  then show thesis
  proof cases
    case 1
    consider "l_end ld < l_start g - 1" | "l_end ld = l_start g - 1" | "l_start g \<le> l_end ld" "l_end ld < l_end g" |
      "l_end ld = l_end g" | "l_end g < l_end ld" by linarith
    then show thesis using 1 assms by cases (auto simp: regflck_def intro: that(1,2,5,6,9))
  next
    case 2
    consider "l_end ld < l_end g" | "l_end ld = l_end g" | "l_end g < l_end ld" by linarith
    then show thesis using 2 assms by cases (auto simp: regflck_def intro: that(3,4,7))
  next
    case 3
    consider "l_end g + 1 < l_start ld" | "l_end g + 1 = l_start ld" | "l_start ld \<le> l_end g" "l_end ld < l_end g" |
      "l_start ld \<le> l_end g" "l_end ld = l_end g" | "l_start ld \<le> l_end g" "l_end g < l_end ld" by linarith
    then show thesis using 3 assms by cases (auto simp: regflck_def intro: that(8,10,11,12,13))
  qed
qed

lemma flck_case_ok:
  assumes at: "fl_at u l a b C0 O0 M0 ls fs pre f ms ins ld s"
  shows "flck_case u l f ins ld s = (Ret None, s) \<and> fl_done u l (l_type ld) a b C0 O0 M0 s \<or>
    (\<exists>p ins' ld' s'. flck_case u l f ins ld s = (Go p ins' ld', s') \<and>
       fl_ready u l a b C0 O0 M0 (l_type ld) (length ms) p ins' ld' s')"
proof -
  note A = fl_atD [OF at]
  have nx: "fnext (flox s f) = hd_opt ms" "fprev (flox s f) = last_opt pre" using A(11,12) by (simp_all add: fl_nx_def fl_pv_def)
  let ?g = "lk s f" let ?t = "l_type ld = l_type ?g"
  note defs = flck_case_def Let_def lk_def [symmetric] nx
  note keep = fl_keep [OF at] note drop = fl_drop [OF at] note short = fl_short [OF at] note held = fl_held [OF at]
  note divide = fl_divide [OF at]
  from A(9,10) show ?thesis
  proof (cases rule: regflck_cases)
    case bb
    with keep [of None ins] show ?thesis by (simp add: defs)
  next
    case bs
    have "fl_ready u l a b C0 O0 M0 (l_type ld) (length ms) None ins (ld\<lparr>l_end := l_end ?g\<rparr>) (delflck l f s)" if ?t
      by (rule drop) (use bs A(9) that in auto)
    with bs keep [of None ins] show ?thesis by (cases ?t) (auto simp: defs)
  next
    case se
    with held drop [of ld "hd_opt ms" "last_opt pre"] show ?thesis by (cases ?t) (auto simp: defs)
  next
    case sa
    with drop [of ld "hd_opt ms" "last_opt pre"] show ?thesis by (auto simp: defs)
  next
    case be
    with drop [of ld None ins] drop [of ld "hd_opt ms" ins] show ?thesis by (cases ?t) (auto simp: defs)
  next
    case ba
    with drop [of ld "hd_opt ms" ins] show ?thesis by (auto simp: defs)
  next
    case sm
    with held divide [of "length ms" "last_opt pre"] A(9,10) show ?thesis by (cases ?t) (auto simp: defs)
  next
    case mm
    with held divide [of "length ms" ins] A(9,10) show ?thesis by (cases ?t) (auto simp: defs)
  next
    case bm
    have "fl_ready u l a b C0 O0 M0 (l_type ld) (length ms) None ins (ld\<lparr>l_end := l_end ?g\<rparr>) (delflck l f s)" if ?t
      by (rule drop) (use bm that in auto)
    with bm divide [of "length ms" ins] show ?thesis by (cases ?t) (auto simp: defs)
  next
    case me
    with held short show ?thesis by (cases ?t) (auto simp: defs)
  next
    case ma
    have "fl_ready u l a b C0 O0 M0 (l_type ld) (length ms) (hd_opt ms) (last_opt pre) (ld\<lparr>l_start := l_start ?g\<rparr>)
      (delflck l f s)" if ?t by (rule drop) (use ma that in auto)
    with ma short show ?thesis by (cases ?t) (auto simp: defs)
  next
    case ea
    have "fl_ready u l a b C0 O0 M0 (l_type ld) (length ms) (hd_opt ms) (last_opt pre) (ld\<lparr>l_start := l_start ?g\<rparr>)
      (delflck l f s)" if ?t by (rule drop) (use ea that A(10) in auto)
    with ea keep [of "hd_opt ms" ins] show ?thesis by (cases ?t) (auto simp: defs)
  next
    case aa
    with keep [of "hd_opt ms" "Some f"] show ?thesis by (auto simp: defs)
  qed
qed

text \<open>The loop.\<close>

lemma fl_ready_end:
  assumes "fl_ready u l a b C0 O0 M0 t k p ins ld s" "p = None \<or> k = 0"
  shows "\<exists>s' ld'. fl_finish u l ins ld s = (None, ld', s') \<and> fl_done u l t a b C0 O0 M0 s'"
proof -
  from assms(1) obtain ls fs pre rest where R: "fl_inv u l a b C0 O0 M0 ls fs s ld" "ls l = pre @ rest" "l_type ld = t"
    "ins_ok s pre (ls l) ins ld \<or> ins = hd_opt rest \<and> ins \<noteq> None \<and> l_start (lk s (the ins)) < l_start ld" "fs \<noteq> []"
    "\<forall>f\<in>set pre. own u (lk s f) \<longrightarrow> l_end (lk s f) < l_start ld"
    "if p = None then \<forall>f\<in>set rest. own u (lk s f) \<longrightarrow> l_end ld < l_start (lk s f)
      else p = hd_opt rest \<and> length rest \<le> k \<and> 2 \<le> length fs" unfolding fl_ready_def by blast
  have "ins_ok s (ls l) (ls l) ins ld" using R(2,4) by (cases rest) (auto simp: ins_ok_def)
  moreover have "\<forall>f\<in>set (ls l). own u (lk s f) \<longrightarrow> l_end (lk s f) < l_start ld \<or> l_end ld < l_start (lk s f)"
    using R(2,6,7) assms(2) by (auto split: if_splits)
  ultimately show ?thesis using fl_finish_done [OF R(1) _ _ R(5)] R(3) by blast
qed

lemma fl_loop_ok:
  "fl_ready u l a b C0 O0 M0 t k p ins ld s \<Longrightarrow> k \<le> n \<Longrightarrow>
   \<exists>s' ld'. fl_loop n u l p ins ld s = (None, ld', s') \<and> fl_done u l t a b C0 O0 M0 s'"
proof (induction n arbitrary: k p ins ld s)
  case 0
  with fl_ready_end show ?case by simp
next
  case (Suc n)
  show ?case
  proof (cases p)
    case None
    with fl_ready_end [OF Suc.prems(1)] show ?thesis by simp
  next
    case (Some f)
    obtain ls fs pre rest where R: "fl_inv u l a b C0 O0 M0 ls fs s ld" "ls l = pre @ rest" "l_type ld = t"
      "ins_ok s pre (ls l) ins ld \<or> ins = hd_opt rest \<and> ins \<noteq> None \<and> l_start (lk s (the ins)) < l_start ld" "fs \<noteq> []"
      "\<forall>f\<in>set pre. own u (lk s f) \<longrightarrow> l_end (lk s f) < l_start ld"
      "Some f = hd_opt rest" "length rest \<le> k" "2 \<le> length fs"
    proof -
      from Suc.prems(1) [unfolded fl_ready_def] show thesis
        by (elim exE conjE) (rule that, assumption+, simp_all add: Some)
    qed
    from R(7) obtain ms where ms: "rest = f # ms" by (cases rest) auto
    with R(8) Suc.prems(2) have len: "length ms \<le> n" by simp
    have ins: "ins_ok s pre (ls l) ins ld \<or> ins = Some f \<and> l_start (lk s f) < l_start ld" using R(4) ms by auto
    show ?thesis
    proof (cases "own u (lk s f)")
      case True
      have "fl_at u l a b C0 O0 M0 ls fs pre f ms ins ld s"
        unfolding fl_at_def by (intro conjI) (fact R(1), fact R(2) [unfolded ms], fact ins, fact R(9), fact True, fact R(6))
      from flck_case_ok [OF this] show ?thesis
      proof (elim disjE exE conjE)
        assume "flck_case u l f ins ld s = (Ret None, s)" "fl_done u l (l_type ld) a b C0 O0 M0 s"
        then show ?thesis using Some True R(3) by (simp add: lk_def)
      next
        fix p1 ins1 ld1 s1
        assume c: "flck_case u l f ins ld s = (Go p1 ins1 ld1, s1)" and
          r: "fl_ready u l a b C0 O0 M0 (l_type ld) (length ms) p1 ins1 ld1 s1"
        from Suc.IH [OF r [unfolded R(3)] len] show ?thesis using Some True c by (simp add: lk_def)
      qed
    next
      case False
      have nx: "fnext (flox s f) = hd_opt ms"
      proof -
        have "dll (fl_nx s) (fl_pv s) (head l s) (last_opt (ls l)) (pre @ f # ms)"
          using fl_repD(1) [OF fl_invD(1) [OF R(1)], of l] R(2) ms by simp
        from dll_next(1) [OF this] show ?thesis by (simp add: fl_nx_def)
      qed
      have "ins_ok s (pre @ [f]) (ls l) ins ld" using ins by (auto simp: ins_ok_def)
      then have "fl_ready u l a b C0 O0 M0 t (length ms) (hd_opt ms) ins ld s" unfolding fl_ready_def
        using R(1-3,5,6,9) False ms
        by (intro exI [of _ ls] exI [of _ fs] exI [of _ "pre @ [f]"] exI [of _ ms]) (auto simp: hd_opt_None)
      from Suc.IH [OF this len] show ?thesis using Some False nx by (simp add: lk_def)
    qed
  qed
qed

subsection \<open>The search for a lock in the way\<close>

definition conflicts :: "user \<Rightarrow> flock \<Rightarrow> flock \<Rightarrow> bool" where
  "conflicts u g ld \<longleftrightarrow> \<not> own u g \<and> l_start g \<le> l_end ld \<and> excludes g ld"

lemma blk_rest_spec:
  "fl_sorted s xs \<Longrightarrow> case blk_rest u ld s xs of None \<Rightarrow> \<forall>f\<in>set xs. \<not> conflicts u (lk s f) ld
     | Some f \<Rightarrow> f \<in> set xs \<and> conflicts u (lk s f) ld"
proof (induction xs)
  case (Cons f xs)
  then have srt: "\<forall>y\<in>set xs. l_start (lk s f) \<le> l_start (lk s y)" "fl_sorted s xs" by (simp_all add: fl_sorted_Cons)
  show ?case
  proof (cases "l_end ld < l_start (lk s f)")
    case True
    then have "blk_rest u ld s (f # xs) = None" by (simp add: lk_def)
    moreover have "\<not> conflicts u (lk s y) ld" if "y \<in> set (f # xs)" for y
      using True srt that by (force simp: conflicts_def)
    ultimately show ?thesis by simp
  next
    case False
    with Cons.IH [OF srt(2)] show ?thesis
      by (cases "conflicts u (lk s f) ld") (auto simp: conflicts_def lk_def Let_def split: option.split)
  qed
qed simp

lemma blk_before_spec:
  assumes "fl_sorted s xs" "l_start ld \<le> l_end ld" "blk_before u ld s xs ins = (r, ins', ys)"
  shows "(\<exists>f. r = Some f \<and> f \<in> set xs \<and> conflicts u (lk s f) ld) \<or>
    r = None \<and> (\<exists>pre. xs = pre @ ys \<and>
      (\<forall>f\<in>set pre. if own u (lk s f) then l_end (lk s f) < l_start ld - 1 else \<not> excludes (lk s f) ld) \<and>
      (\<forall>f\<in>set pre. l_start (lk s f) < l_start ld) \<and>
      (ins' = (if pre = [] then ins else last_opt pre) \<and> (\<forall>f\<in>set ys. l_start ld \<le> l_start (lk s f)) \<or>
       ys \<noteq> [] \<and> ins' = Some (hd ys) \<and> l_start (lk s (hd ys)) < l_start ld))"
  using assms
proof (induction xs arbitrary: ins)
  case Nil
  then show ?case by auto
next
  case (Cons f xs)
  note lk = lk_def [symmetric]
  from Cons.prems(1) have srt: "\<forall>y\<in>set xs. l_start (lk s f) \<le> l_start (lk s y)" "fl_sorted s xs" by (simp_all add: fl_sorted_Cons)
  consider (stop) "l_start ld \<le> l_start (lk s f)" |
    (near) "l_start (lk s f) < l_start ld" "own u (lk s f)" "l_start ld - 1 \<le> l_end (lk s f)" |
    (found) "l_start (lk s f) < l_start ld" "\<not> own u (lk s f)" "excludes (lk s f) ld" |
    (pass) "l_start (lk s f) < l_start ld" "if own u (lk s f) then l_end (lk s f) < l_start ld - 1 else \<not> excludes (lk s f) ld"
    by (cases "own u (lk s f)") force+
  then show ?case
  proof cases
    case stop
    then have "r = None \<and> ins' = ins \<and> ys = f # xs" using Cons.prems(3) by (auto simp: lk)
    with stop srt show ?thesis by force
  next
    case near
    then have "r = None \<and> ins' = Some f \<and> ys = f # xs" using Cons.prems(3) by (auto simp: lk)
    with near show ?thesis by force
  next
    case found
    then have "r = Some f" using Cons.prems(3) by (auto simp: lk)
    with found Cons.prems(2) show ?thesis by (auto simp: conflicts_def)
  next
    case pass
    then have "blk_before u ld s xs (Some f) = (r, ins', ys)" using Cons.prems(3) by (auto simp: lk split: if_splits)
    from Cons.IH [OF srt(2) Cons.prems(2) this] show ?thesis
    proof (elim disjE exE conjE)
      fix g assume "r = Some g" "g \<in> set xs" "conflicts u (lk s g) ld"
      then show ?thesis by auto
    next
      fix pre assume p: "r = None" "xs = pre @ ys"
        "\<forall>f\<in>set pre. if own u (lk s f) then l_end (lk s f) < l_start ld - 1 else \<not> excludes (lk s f) ld"
        "\<forall>f\<in>set pre. l_start (lk s f) < l_start ld"
        "ins' = (if pre = [] then Some f else last_opt pre)" "\<forall>f\<in>set ys. l_start ld \<le> l_start (lk s f)"
      then have "ins' = last_opt (f # pre)" by (auto simp: last_opt_def)
      with p pass show ?thesis by (auto intro!: exI [of _ "f # pre"])
    next
      fix pre assume p: "r = None" "xs = pre @ ys"
        "\<forall>f\<in>set pre. if own u (lk s f) then l_end (lk s f) < l_start ld - 1 else \<not> excludes (lk s f) ld"
        "\<forall>f\<in>set pre. l_start (lk s f) < l_start ld"
        "ys \<noteq> []" "ins' = Some (hd ys)" "l_start (lk s (hd ys)) < l_start ld"
      with pass show ?thesis by (auto intro!: exI [of _ "f # pre"])
    qed
  qed
qed

lemma blocked_spec:
  assumes rep: "fl_rep ls fs s" and wf: "lk_wf u s (ls l)" and ld: "l_start ld \<le> l_end ld"
    and b: "blocked u (head l s) ld s = (r, ins)"
  shows "(\<exists>f. r = Some f \<and> f \<in> set (ls l) \<and> conflicts u (lk s f) ld) \<or>
    r = None \<and> (\<forall>f\<in>set (ls l). \<not> conflicts u (lk s f) ld) \<and>
    (\<exists>pre rest. ls l = pre @ rest \<and> (\<forall>f\<in>set pre. own u (lk s f) \<longrightarrow> l_end (lk s f) < l_start ld) \<and>
      (if ins = None then head l s else ins) = hd_opt rest \<and>
      (ins_ok s pre (ls l) ins ld \<or> ins = hd_opt rest \<and> ins \<noteq> None \<and> l_start (lk s (the ins)) < l_start ld))"
proof -
  have xs: "lk_list (head l s) s = ls l" "head l s = hd_opt (ls l)" using fl_repD(6,10) [OF rep] by blast+
  obtain r1 i1 ys where bb: "blk_before u ld s (ls l) None = (r1, i1, ys)" by (cases "blk_before u ld s (ls l) None") auto
  have srt: "fl_sorted s (ls l)" using wf by (simp add: lk_wf_def)
  from blk_before_spec [OF srt ld bb] show ?thesis
  proof (elim disjE exE conjE)
    fix f assume "r1 = Some f" "f \<in> set (ls l)" "conflicts u (lk s f) ld"
    with b bb xs show ?thesis by (auto simp: blocked_def)
  next
    fix pre assume "r1 = None" and e: "ls l = pre @ ys"
      and pre: "\<forall>f\<in>set pre. if own u (lk s f) then l_end (lk s f) < l_start ld - 1 else \<not> excludes (lk s f) ld"
      "\<forall>f\<in>set pre. l_start (lk s f) < l_start ld"
      and i: "i1 = (if pre = [] then None else last_opt pre)" "\<forall>f\<in>set ys. l_start ld \<le> l_start (lk s f)"
    then have r: "r = blk_rest u ld s ys" "ins = i1" using b bb xs by (auto simp: blocked_def)
    have nc: "\<forall>f\<in>set pre. \<not> conflicts u (lk s f) ld" using pre(1) by (auto simp: conflicts_def split: if_splits)
    have own: "\<forall>f\<in>set pre. own u (lk s f) \<longrightarrow> l_end (lk s f) < l_start ld" using pre(1) by (auto split: if_splits)
    have st: "\<exists>pre rest. ls l = pre @ rest \<and> (\<forall>f\<in>set pre. own u (lk s f) \<longrightarrow> l_end (lk s f) < l_start ld) \<and>
      (if ins = None then head l s else ins) = hd_opt rest \<and>
      (ins_ok s pre (ls l) ins ld \<or> ins = hd_opt rest \<and> ins \<noteq> None \<and> l_start (lk s (the ins)) < l_start ld)"
    proof (cases "pre = []")
      case True
      with i r xs e show ?thesis by (intro exI [of _ "[]"] exI [of _ "ls l"]) (auto simp: ins_ok_def)
    next
      case False
      then have "pre = butlast pre @ [last pre]" "ins = Some (last pre)" using i r by (auto simp: last_opt_def)
      with e own pre(2) False show ?thesis
        by (intro exI [of _ "butlast pre"] exI [of _ "last pre # ys"]) (auto dest: in_set_butlastD)
    qed
    have "fl_sorted s ys" using srt e by (simp add: fl_sorted_append)
    from blk_rest_spec [OF this, of u ld] st nc e r show ?thesis by (cases "blk_rest u ld s ys") auto
  next
    fix pre assume "r1 = None" and e: "ls l = pre @ ys"
      and pre: "\<forall>f\<in>set pre. if own u (lk s f) then l_end (lk s f) < l_start ld - 1 else \<not> excludes (lk s f) ld"
      and i: "ys \<noteq> []" "i1 = Some (hd ys)" "l_start (lk s (hd ys)) < l_start ld"
    then have r: "r = blk_rest u ld s ys" "ins = i1" using b bb xs by (auto simp: blocked_def)
    have nc: "\<forall>f\<in>set pre. \<not> conflicts u (lk s f) ld" using pre by (auto simp: conflicts_def split: if_splits)
    have own: "\<forall>f\<in>set pre. own u (lk s f) \<longrightarrow> l_end (lk s f) < l_start ld" using pre by (auto split: if_splits)
    have st: "ls l = pre @ ys \<and> (\<forall>f\<in>set pre. own u (lk s f) \<longrightarrow> l_end (lk s f) < l_start ld) \<and>
      (if ins = None then head l s else ins) = hd_opt ys \<and>
      (ins_ok s pre (ls l) ins ld \<or> ins = hd_opt ys \<and> ins \<noteq> None \<and> l_start (lk s (the ins)) < l_start ld)"
      using e own i r by (cases ys) simp_all
    have "fl_sorted s ys" using srt e by (simp add: fl_sorted_append)
    from blk_rest_spec [OF this, of u ld] st nc e r show ?thesis by (cases "blk_rest u ld s ys") auto
  qed
qed

text \<open>\<open>flckadj\<close> as a whole, from where \<open>blocked\<close> says.\<close>

lemma flckadj_ok:
  assumes rep: "fl_rep ls fs s" and wf: "lk_wf u s (ls l)" and ld: "l_start ld \<le> l_end ld" and room: "2 \<le> length fs"
    and st: "ls l = pre @ rest" "\<forall>f\<in>set pre. own u (lk s f) \<longrightarrow> l_end (lk s f) < l_start ld"
      "(if ins = None then head l s else ins) = hd_opt rest"
      "ins_ok s pre (ls l) ins ld \<or> ins = hd_opt rest \<and> ins \<noteq> None \<and> l_start (lk s (the ins)) < l_start ld"
  shows "\<exists>s' ld'. flckadj u l ins ld s = (None, ld', s') \<and>
    fl_done u l (l_type ld) (l_start ld) (l_end ld) (covers u s (ls l)) (foreign u s (ls l)) (\<lambda>m. map (lk s) (ls m)) s'"
proof -
  note R = fl_repD [OF rep]
  have "length (ls l) \<le> recs (flinfo s)" using R(5) R(8) [of l] by (intro distinct_bounded_length) auto
  then have len: "length rest \<le> recs (flinfo s)" using st(1) by simp
  have inv: "fl_inv u l (l_start ld) (l_end ld) (covers u s (ls l)) (foreign u s (ls l)) (\<lambda>m. map (lk s) (ls m)) ls fs s ld"
    using rep wf ld by (auto simp: fl_inv_def)
  have ready: "fl_ready u l (l_start ld) (l_end ld) (covers u s (ls l)) (foreign u s (ls l)) (\<lambda>m. map (lk s) (ls m)) (l_type ld)
      (length rest) (hd_opt rest) ins ld s"
    unfolding fl_ready_def using inv st room
    by (intro exI [of _ ls] exI [of _ fs] exI [of _ pre] exI [of _ rest]) (auto simp: hd_opt_None)
  from fl_loop_ok [OF this len] show ?thesis by (simp only: flckadj_def st(3))
qed

subsection \<open>Properties\<close>

lemma free_rec_rep:
  assumes "dll (fl_nx s) (fl_pv s) (frlock s) (last_opt fs) fs" "f \<notin> set fs" "hd_opt fs = frlock s"
  shows "dll (fl_nx (free_rec f s)) (fl_pv (free_rec f s)) (frlock (free_rec f s)) (last_opt (f # fs)) (f # fs)"
proof -
  have h: "frlock s \<noteq> Some f" using assms(2,3) by (auto dest!: hd_opt_mem)
  have "dll (fl_nx (free_rec f s)) (fl_pv (free_rec f s)) (Some f) (if fs = [] then Some f else last_opt ([] @ fs)) ([] @ f # fs)"
  proof (rule dll_insert)
    show "dll (fl_nx s) (fl_pv s) (frlock s) (last_opt ([] @ fs)) ([] @ fs)" using assms(1) by simp
    fix x assume "x \<in> set ([] @ fs)"
    then have "x \<noteq> f" using assms(2) by auto
    then show "fl_nx (free_rec f s) x = (if last_opt [] = Some x then Some f else fl_nx s x)"
      "fl_pv (free_rec f s) x = (if hd_opt fs = Some x then Some f else fl_pv s x)"
      using h assms(3) by (simp_all add: fl_nx_def fl_pv_def)
  qed (use assms h in \<open>simp_all add: fl_nx_def fl_pv_def\<close>)
  then show ?thesis by (simp add: last_opt_def split: if_splits)
qed

lemma flckinit_rep:
  assumes "frlock s = None" "\<And>l. head l s = None"
  shows "fl_rep (\<lambda>_. []) (rev [0..<recs (flinfo s)]) (flckinit s)"
proof -
  have "dll (fl_nx t) (fl_pv t) (frlock t) (last_opt (rev [0..<k])) (rev [0..<k]) \<and> (\<forall>l. head l t = None) \<and> flinfo t = flinfo s"
    if "t = fold free_rec [0..<k] s" for t k
    using that
  proof (induction k arbitrary: t)
    case 0
    with assms show ?case by (simp add: dll_def)
  next
    case (Suc k)
    let ?t = "fold free_rec [0..<k] s"
    have I: "dll (fl_nx ?t) (fl_pv ?t) (frlock ?t) (last_opt (rev [0..<k])) (rev [0..<k])" "\<forall>l. head l ?t = None"
      "flinfo ?t = flinfo s" using Suc.IH by blast+
    have "hd_opt (rev [0..<k]) = frlock ?t" using dll_ends [OF I(1)] by simp
    from free_rec_rep [OF I(1) _ this, of k] I(2,3) show ?case unfolding Suc.prems by simp
  qed
  from this [of "flckinit s" "recs (flinfo s)"] show ?thesis
    unfolding fl_rep_def by (auto simp: flckinit_def dll_def atLeast0LessThan [symmetric])
qed

text \<open>A fresh table.\<close>

definition fl_blank :: "nat \<Rightarrow> flst" where
  "fl_blank n = \<lparr>flox = \<lambda>_. \<lparr>fset = \<lparr>l_type = 0, l_whence = 0, l_start = 0, l_end = 0, l_pid = 0, l_sysid = 0\<rparr>,
     wakeflg = 0, blk_pid = 0, blk_sysid = 0, fprev = None, fnext = None\<rparr>, frlock = None, sleeplcks = None,
     i_filocks = \<lambda>_. None, flinfo = \<lparr>recs = n, reccnt = 0, recovf = 0, rectot = 0\<rparr>, fl_woken = []\<rparr>"

definition fl_new :: "nat \<Rightarrow> flst" where "fl_new n = flckinit (fl_blank n)"

lemma fl_new_rep: "fl_rep (\<lambda>_. []) (rev [0..<n]) (fl_new n)"
  using flckinit_rep [of "fl_blank n"] by (simp add: fl_new_def fl_blank_def head_def split: lck_list.splits)

definition fl_ex :: flst where "fl_ex = fl_new 4"

definition fl_u :: user where
  "fl_u = \<lparr>u_uid = 0, u_gid = 0, p_pid = 7, p_epid = 7, p_sysid = 0, p_slot = 0\<rparr>"

lemma fl_ex_rep: "fl_rep (\<lambda>_. []) [3, 2, 1, 0] fl_ex"
proof -
  have "rev [0..<4] = [3, 2, 1, 0::nat]" by (simp add: upt_rec)
  then show ?thesis using fl_new_rep [of 4] by (simp add: fl_ex_def)
qed

lemma flckadj_start:
  assumes "fl_rep ls fs s" "lk_wf u s (ls l)" "l_start ld \<le> l_end ld" "2 \<le> length fs" "l_type ld = F_UNLCK"
  shows "\<exists>s' ld'. flckadj u l (head l s) ld s = (None, ld', s') \<and>
    fl_done u l (l_type ld) (l_start ld) (l_end ld) (covers u s (ls l)) (foreign u s (ls l)) (\<lambda>m. map (lk s) (ls m)) s'"
  using flckadj_ok [OF assms(1-4), of "[]" "ls l" "head l s"] fl_repD(6) [OF assms(1), of l] assms(5)
  by (auto simp: ins_ok_def)

lemma flckadj_blocked:
  assumes "fl_rep ls fs s" "lk_wf u s (ls l)" "l_start ld \<le> l_end ld" "2 \<le> length fs" "blocked u (head l s) ld s = (None, ins)"
  shows "(\<forall>f\<in>set (ls l). \<not> conflicts u (lk s f) ld) \<and> (\<exists>s' ld'. flckadj u l ins ld s = (None, ld', s') \<and>
    fl_done u l (l_type ld) (l_start ld) (l_end ld) (covers u s (ls l)) (foreign u s (ls l)) (\<lambda>m. map (lk s) (ls m)) s')"
proof -
  from blocked_spec [OF assms(1-3,5)] obtain pre rest where p: "\<forall>f\<in>set (ls l). \<not> conflicts u (lk s f) ld"
    "ls l = pre @ rest" "\<forall>f\<in>set pre. own u (lk s f) \<longrightarrow> l_end (lk s f) < l_start ld"
    "(if ins = None then head l s else ins) = hd_opt rest"
    "ins_ok s pre (ls l) ins ld \<or> ins = hd_opt rest \<and> ins \<noteq> None \<and> l_start (lk s (the ins)) < l_start ld" by blast
  from flckadj_ok [OF assms(1-4) p(2-5)] p(1) show ?thesis by blast
qed

text \<open>What the loop of \<open>reclock\<close> does when it sets locks: it succeeds when nothing is in the way.\<close>

lemma reclock_try_set:
  assumes "fl_rep ls fs s" "lk_wf u s (ls (Ino i))" "l_start ld \<le> l_end ld" "2 \<le> length fs" "SETFLCK cmd"
    and "l_type ld = F_UNLCK \<or> (l_type ld = F_RDLCK \<or> l_type ld = F_WRLCK) \<and> (\<forall>f\<in>set (ls (Ino i)). \<not> conflicts u (lk s f) ld)"
  shows "\<exists>ld' s'. reclock_try u cmd srv i ld s = (RlDone None ld', s') \<and>
    fl_done u (Ino i) (l_type ld) (l_start ld) (l_end ld) (covers u s (ls (Ino i))) (foreign u s (ls (Ino i)))
      (\<lambda>m. map (lk s) (ls m)) s'"
proof -
  have h: "head (Ino i) s = i_filocks s i" by (simp add: head_def)
  show ?thesis
  proof (cases "l_type ld = F_UNLCK")
    case True
    with flckadj_start [OF assms(1-4) True] assms(5) show ?thesis by (auto simp: reclock_try_def h)
  next
    case False
    obtain r ins where b: "blocked u (head (Ino i) s) ld s = (r, ins)" by (cases "blocked u (head (Ino i) s) ld s") auto
    with blocked_spec [OF assms(1-3) b] assms(6) False have r: "r = None" by auto
    from flckadj_blocked [OF assms(1-4) b [unfolded r]] b assms(5,6) False r show ?thesis
      by (auto simp: reclock_try_def h)
  qed
qed

text \<open>C23: Setting a lock on \<open>[a, b]\<close> (or removing the locks there) when no other owner's lock is in the way and two
  records are free: afterwards exactly the bytes of the range are held by the caller with the new type (or not at
  all), the caller's other bytes, the other owners' locks and all the other lists are as before, and the list is sorted, without
  empty or overlapping locks of the caller.\<close>

theorem reclock_sets:
  assumes "fl_rep ls fs s" "lk_wf u s (ls (Ino i))" "l_start ld \<le> l_end ld" "2 \<le> length fs" "SETFLCK cmd"
    and "l_type ld = F_UNLCK \<or> (l_type ld = F_RDLCK \<or> l_type ld = F_WRLCK) \<and> (\<forall>f\<in>set (ls (Ino i)). \<not> conflicts u (lk s f) ld)"
  shows "\<exists>ld' s' ls' fs'. reclock_try u cmd srv i ld s = (RlDone None ld', s') \<and>
    fl_rep ls' fs' s' \<and> lk_wf u s' (ls' (Ino i)) \<and>
    (\<forall>t x. covers u s' (ls' (Ino i)) t x \<longleftrightarrow>
       (if l_start ld \<le> x \<and> x \<le> l_end ld then t = l_type ld \<and> l_type ld \<noteq> F_UNLCK else covers u s (ls (Ino i)) t x)) \<and>
    foreign u s' (ls' (Ino i)) = foreign u s (ls (Ino i)) \<and>
    (\<forall>m. m \<noteq> Ino i \<longrightarrow> map (lk s') (ls' m) = map (lk s) (ls m))"
  using reclock_try_set [OF assms, of srv] unfolding fl_done_def by blast

theorem reclock_sets_witness:
  "\<exists>ld' s' ls' fs'. reclock_try fl_u 2 False 5 \<lparr>l_type = 2, l_whence = 0, l_start = 10, l_end = 19, l_pid = 0, l_sysid = 0\<rparr>
      fl_ex = (RlDone None ld', s') \<and> fl_rep ls' fs' s' \<and>
    (\<forall>t x. covers fl_u s' (ls' (Ino 5)) t x \<longleftrightarrow> 10 \<le> x \<and> x \<le> 19 \<and> t = 2)"
proof -
  let ?d = "\<lparr>l_type = 2, l_whence = 0, l_start = 10, l_end = 19, l_pid = 0, l_sysid = 0\<rparr>"
  have "lk_wf fl_u fl_ex []" by (simp add: lk_wf_def fl_sorted_def)
  from reclock_sets [OF fl_ex_rep, where u = fl_u and i = 5 and cmd = 2 and srv = False and ld = ?d] this
  obtain ld' s' ls' fs' where "reclock_try fl_u 2 False 5 ?d fl_ex = (RlDone None ld', s')" "fl_rep ls' fs' s'"
    "\<forall>t x. covers fl_u s' (ls' (Ino 5)) t x \<longleftrightarrow>
       (if l_start ?d \<le> x \<and> x \<le> l_end ?d then t = l_type ?d \<and> l_type ?d \<noteq> F_UNLCK else covers fl_u fl_ex [] t x)"
    by (simp add: SETFLCK_def) blast
  moreover have "\<not> covers fl_u fl_ex [] t x" for t x by (simp add: covers_def)
  ultimately show ?thesis by (intro exI [of _ ld'] exI [of _ s'] exI [of _ ls'] exI [of _ fs']) auto
qed

lemma reclock_try_found:
  assumes "fl_rep ls fs s" "lk_wf u s (ls (Ino i))" "l_start ld \<le> l_end ld" "\<exists>f\<in>set (ls (Ino i)). conflicts u (lk s f) ld"
  shows "\<exists>f ins. blocked u (i_filocks s i) ld s = (Some f, ins) \<and> f \<in> set (ls (Ino i)) \<and> conflicts u (lk s f) ld"
proof -
  have h: "head (Ino i) s = i_filocks s i" by (simp add: head_def)
  obtain r ins where b: "blocked u (head (Ino i) s) ld s = (r, ins)" by (cases "blocked u (head (Ino i) s) ld s") auto
  with blocked_spec [OF assms(1-3) b] assms(4) h show ?thesis by auto
qed



text \<open>No byte is locked by two owners unless both only read.\<close>

definition lk_excl :: "flst \<Rightarrow> nat list \<Rightarrow> bool" where
  "lk_excl s xs \<longleftrightarrow> (\<forall>f\<in>set xs. l_type (lk s f) = F_RDLCK \<or> l_type (lk s f) = F_WRLCK) \<and>
     (\<forall>f\<in>set xs. \<forall>g\<in>set xs. \<forall>x. (l_pid (lk s f), l_sysid (lk s f)) \<noteq> (l_pid (lk s g), l_sysid (lk s g)) \<and>
        l_start (lk s f) \<le> x \<and> x \<le> l_end (lk s f) \<and> l_start (lk s g) \<le> x \<and> x \<le> l_end (lk s g) \<longrightarrow>
        l_type (lk s f) = F_RDLCK \<and> l_type (lk s g) = F_RDLCK)"

lemma foreign_mem: "g \<in> set xs' \<Longrightarrow> \<not> own u (lk s' g) \<Longrightarrow> foreign u s' xs' = foreign u s xs \<Longrightarrow>
  \<exists>h\<in>set xs. lk s h = lk s' g \<and> \<not> own u (lk s h)"
proof -
  assume g: "g \<in> set xs'" "\<not> own u (lk s' g)" "foreign u s' xs' = foreign u s xs"
  from g(1,2) have "lk s' g \<in> set (foreign u s' xs')" by (auto simp: foreign_def)
  then have "lk s' g \<in> set (foreign u s xs)" by (simp add: g(3))
  then show ?thesis by (auto simp: foreign_def)
qed

lemma excl_after:
  assumes ex: "lk_excl s xs" and ld: "l_type ld = F_UNLCK \<or> (l_type ld = F_RDLCK \<or> l_type ld = F_WRLCK) \<and>
      (\<forall>f\<in>set xs. \<not> conflicts u (lk s f) ld)"
    and cov: "\<And>t x. covers u s' xs' t x =
      (if l_start ld \<le> x \<and> x \<le> l_end ld then t = l_type ld \<and> l_type ld \<noteq> F_UNLCK else covers u s xs t x)"
    and fo: "foreign u s' xs' = foreign u s xs" and wf: "lk_wf u s' xs'"
  shows "lk_excl s' xs'"
proof -
  have mine: "(\<exists>h\<in>set xs. own u (lk s h) \<and> l_type (lk s h) = l_type (lk s' f) \<and> l_start (lk s h) \<le> x \<and> x \<le> l_end (lk s h)) \<or>
      l_start ld \<le> x \<and> x \<le> l_end ld \<and> l_type (lk s' f) = l_type ld \<and> l_type ld \<noteq> F_UNLCK"
    if "f \<in> set xs'" "own u (lk s' f)" "l_start (lk s' f) \<le> x" "x \<le> l_end (lk s' f)" for f x
  proof -
    from that have "covers u s' xs' (l_type (lk s' f)) x" by (auto simp: covers_def)
    with cov [of "l_type (lk s' f)" x] show ?thesis by (auto simp: covers_def split: if_splits)
  qed
  have types: "l_type (lk s' f) = F_RDLCK \<or> l_type (lk s' f) = F_WRLCK" if f: "f \<in> set xs'" for f
  proof (cases "own u (lk s' f)")
    case True
    have "l_start (lk s' f) \<le> l_end (lk s' f)" using wf f by (simp add: lk_wf_def)
    from mine [OF f True order_refl this] ex ld show ?thesis by (auto simp: lk_excl_def)
  next
    case False
    from foreign_mem [OF f False fo] ex show ?thesis by (auto simp: lk_excl_def)
  qed
  have half: "l_type (lk s' f) = F_RDLCK \<and> l_type (lk s' g) = F_RDLCK"
    if f: "f \<in> set xs'" "own u (lk s' f)" "l_start (lk s' f) \<le> x" "x \<le> l_end (lk s' f)"
      and g: "g \<in> set xs'" "\<not> own u (lk s' g)" "l_start (lk s' g) \<le> x" "x \<le> l_end (lk s' g)" for f g x
  proof -
    from foreign_mem [OF g(1,2) fo] obtain h where h: "h \<in> set xs" "lk s h = lk s' g" "\<not> own u (lk s h)" by blast
    from mine [OF f] show ?thesis
    proof (elim disjE bexE conjE)
      fix k assume k: "k \<in> set xs" "own u (lk s k)" "l_type (lk s k) = l_type (lk s' f)" "l_start (lk s k) \<le> x" "x \<le> l_end (lk s k)"
      have "(l_pid (lk s k), l_sysid (lk s k)) \<noteq> (l_pid (lk s h), l_sysid (lk s h))" using k(2) h(3) by (auto simp: own_def)
      then have "l_type (lk s k) = F_RDLCK \<and> l_type (lk s h) = F_RDLCK" using ex k h g unfolding lk_excl_def by metis
      with k h show ?thesis by simp
    next
      assume a: "l_start ld \<le> x" "x \<le> l_end ld" "l_type (lk s' f) = l_type ld" "l_type ld \<noteq> F_UNLCK"
      with ld h have "\<not> conflicts u (lk s' g) ld" by auto
      then have "\<not> (l_type (lk s' g) = F_WRLCK \<or> l_type (lk s' g) = F_RDLCK \<and> l_type ld = F_WRLCK)"
        using a g(2-4) by (auto simp: conflicts_def excludes_def)
      with types [OF g(1)] types [OF f(1)] a(3) show ?thesis by auto
    qed
  qed
  show ?thesis unfolding lk_excl_def
  proof (intro conjI ballI allI impI types)
    fix f g x assume f: "f \<in> set xs'" and g: "g \<in> set xs'"
      and "(l_pid (lk s' f), l_sysid (lk s' f)) \<noteq> (l_pid (lk s' g), l_sysid (lk s' g)) \<and>
        l_start (lk s' f) \<le> x \<and> x \<le> l_end (lk s' f) \<and> l_start (lk s' g) \<le> x \<and> x \<le> l_end (lk s' g)"
    then have o: "(l_pid (lk s' f), l_sysid (lk s' f)) \<noteq> (l_pid (lk s' g), l_sysid (lk s' g))"
      and x: "l_start (lk s' f) \<le> x" "x \<le> l_end (lk s' f)" "l_start (lk s' g) \<le> x" "x \<le> l_end (lk s' g)" by blast+
    from o have "\<not> (own u (lk s' f) \<and> own u (lk s' g))" by (auto simp: own_def)
    then consider "own u (lk s' f)" "\<not> own u (lk s' g)" | "own u (lk s' g)" "\<not> own u (lk s' f)" |
      "\<not> own u (lk s' f)" "\<not> own u (lk s' g)" by blast
    then have "l_type (lk s' f) = F_RDLCK \<and> l_type (lk s' g) = F_RDLCK"
    proof cases
      case 1
      with half [of f x g] f g x show ?thesis by blast
    next
      case 2
      with half [of g x f] f g x show ?thesis by blast
    next
      case 3
      from foreign_mem [OF f 3(1) fo] foreign_mem [OF g 3(2) fo] obtain h k where
        "h \<in> set xs" "lk s h = lk s' f" "k \<in> set xs" "lk s k = lk s' g" by blast
      with ex o x show ?thesis unfolding lk_excl_def by metis
    qed
    then show "l_type (lk s' f) = F_RDLCK" "l_type (lk s' g) = F_RDLCK" by blast+
  qed
qed



text \<open>C36: A request for another type strictly inside the caller's only lock, when one record is free: \<open>flckadj\<close> takes the record for the
  piece behind the range, shortens the lock to the piece in front, finds no record for the range itself
  and returns ENOLCK, with the range unlocked.\<close>

theorem flckadj_enolck_unlocks:
  assumes rep: "fl_rep ls [n] s" and l: "ls l = [f]" and o: "own u (lk s f)"
    and t: "l_type (lk s f) \<noteq> F_UNLCK" "l_type ld \<noteq> F_UNLCK" "l_type ld \<noteq> l_type (lk s f)"
    and r: "l_start (lk s f) < l_start ld" "l_start ld \<le> l_end ld" "l_end ld < l_end (lk s f)"
  shows "\<exists>s' ls'. flckadj u l (Some f) ld s = (Some ENOLCK, ld, s') \<and> fl_rep ls' [] s' \<and>
    (\<forall>x. l_start ld \<le> x \<and> x \<le> l_end ld \<longrightarrow> covers u s (ls l) (l_type (lk s f)) x \<and> (\<forall>ty. \<not> covers u s' (ls' l) ty x))"
proof -
  have wf: "lk_wf u s (ls l)" using l t(1) r by (simp add: lk_wf_def fl_sorted_def)
  have inv: "fl_inv u l (l_start ld) (l_end ld) (covers u s (ls l)) (foreign u s (ls l)) (\<lambda>m. map (lk s) (ls m)) ls [n] s ld"
    using rep wf r(2) by (auto simp: fl_inv_def t(2))
  have fm: "f \<in> set (ls l)" using l by simp
  have e: "l_start (lk s f) \<le> l_end ld" "l_end ld < l_end (lk s f)" using r by simp_all
  from fl_inv_split [OF inv fm o e] obtain us vs s1 where uv: "ls l = us @ vs" "f \<in> set us"
    and sp: "fl_split u l ld f s = (Some n, s1)"
    and J: "fl_inv u l (l_start ld) (l_end ld) (covers u s (ls l)) (foreign u s (ls l)) (\<lambda>m. map (lk s) (ls m))
      (ls(l := us @ n # vs)) [] (fl_cut (l_end ld) f s1) ld"
    and L: "lk (fl_cut (l_end ld) f s1) = (lk s)(n := (lk s f)\<lparr>l_start := l_end ld + 1\<rparr>, f := (lk s f)\<lparr>l_end := l_end ld\<rparr>)" by blast
  have us: "us = [f]" "vs = []" using uv l by (cases us; auto)+
  let ?ls = "ls(l := [f, n])" let ?s2 = "fl_shrink ld f s1"
  have nf: "n \<noteq> f" using fl_repD(3) [OF rep, of l] l by auto
  from fl_shrink_rep [OF fl_invD(1) [OF J], of ld f] have rep2: "fl_rep ?ls [] ?s2"
    and L2: "lk ?s2 = (lk s)(n := (lk s f)\<lparr>l_start := l_end ld + 1\<rparr>, f := (lk s f)\<lparr>l_end := l_start ld - 1\<rparr>)"
    unfolding fl_shrink_cut us L by (simp_all add: fun_eq_iff)
  have fin: "fst (fl_finish u l (Some f) ld ?s2) = Some ENOLCK \<and> fst (snd (fl_finish u l (Some f) ld ?s2)) = ld \<and>
      flox (snd (snd (fl_finish u l (Some f) ld ?s2))) = flox ?s2 \<and> fl_rep ?ls [] (snd (snd (fl_finish u l (Some f) ld ?s2)))"
    using insflck_none [OF rep2, of u l ld "last_below (recs (flinfo ?s2)) (l_start ld) (Some f) (Some f) ?s2"] t(2)
    by (auto simp: fl_finish_def split: prod.splits option.splits)
  have rg: "regflck ld (lk s f) = S_MIDDLE + E_MIDDLE" using r by (simp add: regflck_def)
  have st: "flck_case u l f (Some f) ld s = (Go None (Some f) ld, ?s2)"
    using rg t(3) sp by (simp add: flck_case_def lk_def [symmetric])
  have "f < recs (flinfo s)" using fl_repD(5) [OF rep] fm by blast
  then obtain k where k: "recs (flinfo s) = Suc k" by (cases "recs (flinfo s)") auto
  have lp: "flckadj u l (Some f) ld s = fl_finish u l (Some f) ld ?s2"
    using o st unfolding flckadj_def k by (cases k) (simp_all add: lk_def [symmetric])
  obtain s' where s': "fl_finish u l (Some f) ld ?s2 = (Some ENOLCK, ld, s')" "flox s' = flox ?s2" "fl_rep ?ls [] s'"
    using fin by (metis prod.collapse)
  have "lk s' = lk ?s2" using s'(2) by (simp add: lk_def [abs_def])
  then have "\<not> covers u s' (?ls l) ty x" if "l_start ld \<le> x \<and> x \<le> l_end ld" for ty x
    using that L2 nf r by (auto simp: covers_def)
  moreover have "covers u s (ls l) (l_type (lk s f)) x" if "l_start ld \<le> x \<and> x \<le> l_end ld" for x
    using that l o r by (simp add: covers_def)
  ultimately show ?thesis using s'(1,3) lp by (intro exI [of _ s'] exI [of _ ?ls]) simp
qed

theorem flckadj_enolck_unlocks_witness:
  "\<exists>s s' ls'. fl_rep ((\<lambda>_. [])(Ino 5 := [1])) [0] s \<and>
    flckadj fl_u (Ino 5) (Some 1) \<lparr>l_type = 1, l_whence = 0, l_start = 10, l_end = 19, l_pid = 0, l_sysid = 0\<rparr> s =
      (Some ENOLCK, \<lparr>l_type = 1, l_whence = 0, l_start = 10, l_end = 19, l_pid = 0, l_sysid = 0\<rparr>, s') \<and>
    covers fl_u s [1] F_WRLCK 15 \<and> \<not> covers fl_u s' (ls' (Ino 5)) F_WRLCK 15"
proof -
  let ?d = "\<lparr>l_type = 2, l_whence = 0, l_start = 0, l_end = 99, l_pid = 0, l_sysid = 0\<rparr>"
  let ?r = "\<lparr>l_type = 1, l_whence = 0, l_start = 10, l_end = 19, l_pid = 0, l_sysid = 0\<rparr>"
  have "rev [0..<2] = [1, 0::nat]" by (simp add: upt_rec)
  then have "fl_rep (\<lambda>_. []) [1, 0] (fl_new 2)" using fl_new_rep [of 2] by simp
  from insflck_rep [OF this, where l = "Ino 5" and us = "[]" and vs = "[]" and p = None and u = fl_u and d = ?d] obtain s where
    s: "fl_rep ((\<lambda>_. [])(Ino 5 := [1])) [0] s" "lk s 1 = ?d\<lparr>l_pid := p_epid fl_u, l_sysid := p_sysid fl_u\<rparr>" by auto
  let ?ls = "(\<lambda>_. [])(Ino 5 := [1])"
  have o: "own fl_u (lk s 1)" unfolding own_def s(2) by simp
  have r0: "l_type (lk s 1) \<noteq> F_UNLCK" "l_type ?r \<noteq> F_UNLCK" "l_type ?r \<noteq> l_type (lk s 1)"
    "l_start (lk s 1) < l_start ?r" "l_start ?r \<le> l_end ?r" "l_end ?r < l_end (lk s 1)" unfolding s(2) by simp_all
  have "?ls (Ino 5) = [1]" by simp
  from flckadj_enolck_unlocks [OF s(1) this o r0] obtain s' ls' where r:
    "flckadj fl_u (Ino 5) (Some 1) ?r s = (Some ENOLCK, ?r, s')"
    "\<forall>x. l_start ?r \<le> x \<and> x \<le> l_end ?r \<longrightarrow> covers fl_u s (?ls (Ino 5)) (l_type (lk s 1)) x \<and>
       (\<forall>ty. \<not> covers fl_u s' (ls' (Ino 5)) ty x)" by blast
  from spec [OF r(2) [unfolded s(2)], of 15] have "covers fl_u s [1] F_WRLCK 15 \<and> \<not> covers fl_u s' (ls' (Ino 5)) F_WRLCK 15" by simp
  with r(1) s(1) show ?thesis by (intro exI [of _ s] exI [of _ s'] exI [of _ ls']) simp
qed

subsection \<open>Deadlock detection\<close>

text \<open>The owner that a sleeping owner waits for, by the first of its sleeping locks.\<close>

definition wait_on :: "flst \<Rightarrow> nat list \<Rightarrow> int \<times> int \<Rightarrow> (int \<times> int) option" where
  "wait_on s xs o1 = map_option (\<lambda>f. (blk_pid (flox s f), blk_sysid (flox s f)))
     (find (\<lambda>f. o1 = (l_pid (lk s f), l_sysid (lk s f))) xs)"

definition waits :: "flst \<Rightarrow> nat list \<Rightarrow> ((int \<times> int) \<times> (int \<times> int)) set" where
  "waits s xs = {(a, b). wait_on s xs a = Some b}"

lemma dead_loop_Suc:
  "lk_list (sleeplcks s) s = xs \<Longrightarrow> dead_loop (Suc n) u p q s =
     (if (p, q) = (p_epid u, p_sysid u) then Some True
      else case wait_on s xs (p, q) of None \<Rightarrow> Some False | Some (p', q') \<Rightarrow> dead_loop n u p' q' s)"
  by (auto simp: wait_on_def lk_def split: option.split)

lemma dead_loop_sound:
  assumes xs: "lk_list (sleeplcks s) s = xs"
  shows "dead_loop n u p q s = Some b \<Longrightarrow> b = (((p, q), (p_epid u, p_sysid u)) \<in> (waits s xs)\<^sup>*)"
proof (induction n arbitrary: p q)
  case (Suc n)
  let ?me = "(p_epid u, p_sysid u)"
  show ?case
  proof (cases "(p, q) = ?me \<or> wait_on s xs (p, q) = None")
    case True
    have "((p, q), ?me) \<notin> (waits s xs)\<^sup>*" if "(p, q) \<noteq> ?me" "wait_on s xs (p, q) = None"
      using that by (auto simp: waits_def elim: converse_rtranclE)
    with Suc.prems True show ?thesis
      by (auto simp: dead_loop_Suc [OF xs] simp del: dead_loop.simps split: if_splits)
  next
    case False
    then obtain p' q' where w: "wait_on s xs (p, q) = Some (p', q')" by auto
    have "((p, q), ?me) \<in> (waits s xs)\<^sup>* \<longleftrightarrow> ((p', q'), ?me) \<in> (waits s xs)\<^sup>*"
    proof
      assume "((p, q), ?me) \<in> (waits s xs)\<^sup>*"
      then show "((p', q'), ?me) \<in> (waits s xs)\<^sup>*" using False w by (cases rule: converse_rtranclE) (auto simp: waits_def)
    qed (use w in \<open>auto simp: waits_def intro: converse_rtrancl_into_rtrancl\<close>)
    moreover have "dead_loop n u p' q' s = Some b" using Suc.prems False w
      by (auto simp: dead_loop_Suc [OF xs] simp del: dead_loop.simps split: if_splits)
    ultimately show ?thesis using Suc.IH by blast
  qed
qed simp

text \<open>When it runs out of fuel there is a chain of that many waiting owners.\<close>

lemma dead_loop_long:
  assumes xs: "lk_list (sleeplcks s) s = xs"
  shows "dead_loop n u p q s = None \<Longrightarrow>
    \<exists>g. g 0 = (p, q) \<and> (\<forall>i<n. (g i, g (Suc i)) \<in> waits s xs)"
proof (induction n arbitrary: p q)
  case (Suc n)
  then obtain p' q' where w: "wait_on s xs (p, q) = Some (p', q')" "dead_loop n u p' q' s = None"
    by (auto simp: dead_loop_Suc [OF xs] simp del: dead_loop.simps split: if_splits option.splits)
  from Suc.IH [OF w(2)] obtain g where g: "g 0 = (p', q')" "\<forall>i<n. (g i, g (Suc i)) \<in> waits s xs" by blast
  let ?g = "\<lambda>i. case i of 0 \<Rightarrow> (p, q) | Suc j \<Rightarrow> g j"
  have "(?g i, ?g (Suc i)) \<in> waits s xs" if "i < Suc n" for i using that w(1) g by (cases i) (auto simp: waits_def)
  then show ?case by (intro exI [of _ ?g]) auto
next
  case 0
  show ?case by (rule exI [of _ "\<lambda>_. (p, q)"]) simp
qed

lemma chain_trancl: "(\<And>i. i < n \<Longrightarrow> (g i, g (Suc i)) \<in> r) \<Longrightarrow> i < j \<Longrightarrow> j \<le> n \<Longrightarrow> (g i, g j) \<in> r\<^sup>+"
proof (induction j)
  case (Suc j)
  have e: "(g j, g (Suc j)) \<in> r" using Suc.prems by simp
  show ?case
  proof (cases "i = j")
    case True
    with e show ?thesis by auto
  next
    case False
    then have "(g i, g j) \<in> r\<^sup>+" using Suc by simp
    with e show ?thesis by auto
  qed
qed simp

lemma dead_loop_total:
  assumes xs: "lk_list (sleeplcks s) s = xs" and ac: "acyclic (waits s xs)" and n: "length xs < n"
  shows "dead_loop n u p q s \<noteq> None"
proof
  assume "dead_loop n u p q s = None"
  from dead_loop_long [OF xs this] obtain g where g: "\<And>i. i < n \<Longrightarrow> (g i, g (Suc i)) \<in> waits s xs" by blast
  have "g ` {..<n} \<subseteq> (\<lambda>f. (l_pid (lk s f), l_sysid (lk s f))) ` set xs"
  proof
    fix o1 assume "o1 \<in> g ` {..<n}"
    then obtain i where "i < n" "o1 = g i" by auto
    with g [of i] obtain f where "find (\<lambda>f. o1 = (l_pid (lk s f), l_sysid (lk s f))) xs = Some f"
      by (auto simp: waits_def wait_on_def)
    then show "o1 \<in> (\<lambda>f. (l_pid (lk s f), l_sysid (lk s f))) ` set xs" by (auto simp: find_Some_iff)
  qed
  then have "card (g ` {..<n}) \<le> card (set xs)"
    by (meson List.finite_set card_image_le card_mono finite_imageI order_trans)
  also have "\<dots> < n" using card_length [of xs] n by simp
  finally have "\<not> inj_on g {..<n}" using pigeonhole [of g "{..<n}"] by simp
  then obtain i j where "i < n" "j < n" "i \<noteq> j" "g i = g j" by (auto simp: inj_on_def)
  then obtain i j where ij: "i < j" "j < n" "g i = g j" by (metis linorder_neqE_nat)
  from chain_trancl [of n g "waits s xs" i j] g ij have "(g i, g i) \<in> (waits s xs)\<^sup>+" by simp
  with ac show False unfolding acyclic_def by blast
qed

text \<open>C37: When the sleeping owners do not wait for each other in a circle, \<open>deadflck\<close> returns, and it says whether the owner of the lock
  in the way waits, directly or through others, for the caller.\<close>

theorem deadflck_detects:
  assumes rep: "fl_rep ls fs s" and ac: "acyclic (waits s (ls Sleeping))"
  shows "deadflck u f s =
    Some (((c_short (l_pid (lk s f)), l_sysid (lk s f)), (p_epid u, p_sysid u)) \<in> (waits s (ls Sleeping))\<^sup>*)"
proof -
  note R = fl_repD [OF rep]
  have xs: "lk_list (sleeplcks s) s = ls Sleeping" using R(10) [of Sleeping] by (simp add: head_def)
  have "length (ls Sleeping) \<le> recs (flinfo s)" using R(5) R(8) [of Sleeping] by (intro distinct_bounded_length) auto
  then have "deadflck u f s \<noteq> None" unfolding deadflck_def by (intro dead_loop_total [OF xs ac]) simp
  then obtain b where "deadflck u f s = Some b" by blast
  with dead_loop_sound [OF xs] show ?thesis by (simp only: deadflck_def lk_def [symmetric])
qed

theorem deadflck_detects_witness:
  "deadflck fl_u 0 fl_ex = Some False"
proof -
  have w: "waits fl_ex [] = {}" by (simp add: waits_def wait_on_def)
  have a: "acyclic (waits fl_ex ((\<lambda>_. []) Sleeping))" by (simp add: w acyclic_def)
  have f: "lk fl_ex 0 = fset (flox (fl_blank 4) 0)"
    by (simp add: fl_ex_def fl_new_def flckinit_def fl_blank_def upt_rec free_rec_def upd_fl_def lk_def)
  from deadflck_detects [OF fl_ex_rep a, of fl_u 0] show ?thesis
    by (simp add: w f fl_blank_def fl_u_def c_short_def)
qed

subsection \<open>Releasing all locks\<close>

lemma clean_fold:
  "fl_rep ls fs s \<Longrightarrow> ls l = kept @ rest \<Longrightarrow>
   \<exists>fs'. fl_rep (ls(l := kept @ filter (\<lambda>f. \<not> P (lk s f)) rest)) fs'
       (fold (\<lambda>f s. if P (lk s f) then delflck l f s else s) rest s) \<and>
     lk (fold (\<lambda>f s. if P (lk s f) then delflck l f s else s) rest s) = lk s"
proof (induction rest arbitrary: ls fs s kept)
  case Nil
  then have "ls(l := kept) = ls" by (auto simp: fun_eq_iff)
  with Nil show ?case by auto
next
  case (Cons f rest)
  show ?case
  proof (cases "P (lk s f)")
    case True
    from delflck_rep [OF Cons.prems] have D: "fl_rep (ls(l := kept @ rest)) (f # fs) (delflck l f s)" "lk (delflck l f s) = lk s"
      by blast+
    from Cons.IH [OF D(1), of kept] D(2) True show ?thesis by (simp only: fun_upd_same fun_upd_upd) simp
  next
    case False
    with Cons.IH [OF Cons.prems(1), of "kept @ [f]"] Cons.prems(2) show ?thesis by simp
  qed
qed

text \<open>\<open>cleanlocks\<close> removes from the inode's list exactly the locks of the caller (of the caller's whole system with
  IGN_PID) and leaves all others, in order and unchanged, and all lists well linked.\<close>

theorem cleanlocks_releases:
  assumes "fl_rep ls fs s"
  shows "\<exists>fs'. fl_rep (ls(Ino i := filter (\<lambda>f. \<not> ((l_pid (lk s f) = p_epid u \<or> ign) \<and> l_sysid (lk s f) = p_sysid u)) (ls (Ino i))))
      fs' (cleanlocks u ign i s) \<and> lk (cleanlocks u ign i s) = lk s"
proof -
  have "lk_list (i_filocks s i) s = ls (Ino i)" using fl_repD(10) [OF assms, of "Ino i"] by (simp add: head_def)
  then show ?thesis
    using clean_fold [OF assms, of "Ino i" "[]" "ls (Ino i)" "\<lambda>g. (l_pid g = p_epid u \<or> ign) \<and> l_sysid g = p_sysid u"]
    by (simp add: cleanlocks_def lk_def [symmetric])
qed

theorem cleanlocks_releases_witness:
  "\<exists>fs'. fl_rep (\<lambda>_. []) fs' (cleanlocks fl_u False 5 fl_ex)"
proof -
  have "(\<lambda>_. [])(Ino 5 := []) = (\<lambda>_. []::nat list)" by auto
  with cleanlocks_releases [OF fl_ex_rep, of 5 fl_u False] show ?thesis by auto
qed

end
