(* ===== verification/Msg.thy ===== *)
theory Msg imports Ipc Rmap Dll begin

text \<open>
  Messages: io/msg.c.  Queue headers, message headers and the message buffer are the arrays
  \<open>msgque\<close>, \<open>msgh\<close> and \<open>msgtext\<close> (the bytes at \<open>msg\<close>); headers are linked by \<open>msg_next\<close> into the free list
  \<open>msgfp\<close> and one list for every queue, and text is kept in ranges of segments that the resource map
  \<open>msgmap\<close> hands out.  A system call is cut where it sleeps: \<open>MSleep c\<close> is a sleep on channel \<open>c\<close>, and the code
  behind the sleep is an operation of its own, so that other processes may run in between.  User
  memory is a parameter: None stands for a fault of copyin, copyout or iomove.  A time stamp is a pair of
  seconds and microseconds.
\<close>

unbundle bit_operations_syntax

record msg =
  msg_next :: "nat option"
  msg_type :: int
  msg_ts :: int
  msg_spot :: int

record msqid_ds =
  msg_perm :: ipc_perm
  msg_first :: "nat option"
  msg_last :: "nat option"
  msg_cbytes :: int
  msg_qnum :: int
  msg_qbytes :: int
  msg_lspid :: int
  msg_lrpid :: int
  msg_stime :: "int \<times> int"
  msg_rtime :: "int \<times> int"
  msg_ctime :: "int \<times> int"

record msginfo =
  msgmapsz :: nat
  msgmax :: int
  msgmnb :: int
  msgmni :: nat
  msgssz :: nat
  msgtql :: nat
  msgseg :: nat

text \<open>What processes sleep on: a queue's lock, \<open>msg_qnum\<close> (readers), the queue (writers), \<open>msgfp\<close> and \<open>msgmap\<close>.\<close>

datatype mchan = WLock nat | WQnum nat | WQueue nat | WHeader | WMap

record msgst =
  msgque :: "nat \<Rightarrow> msqid_ds"
  msgh :: "nat \<Rightarrow> msg"
  msgfp :: "nat option"
  msgmap :: rmap
  msgtext :: "nat \<Rightarrow> int"
  msglock :: "nat \<Rightarrow> bool"
  minfo :: msginfo
  msgcalls :: int
  mwoken :: "mchan list"

abbreviation (input) MSG_R :: int where "MSG_R \<equiv> 256"
abbreviation (input) MSG_W :: int where "MSG_W \<equiv> 128"
abbreviation (input) MSG_RWAIT :: int where "MSG_RWAIT \<equiv> 512"
abbreviation (input) MSG_WWAIT :: int where "MSG_WWAIT \<equiv> 1024"
abbreviation (input) MSG_NOERROR :: int where "MSG_NOERROR \<equiv> 4096"

text \<open>The end of an operation: the call returns, it sleeps, or the kernel panics (or leaves the resource map's table).\<close>

datatype 'a mres = MDone 'a | MSleep mchan | MPanic

definition mwake :: "mchan \<Rightarrow> msgst \<Rightarrow> msgst" where
  "mwake c s = s\<lparr>mwoken := mwoken s @ [c]\<rparr>"

definition upd_q :: "nat \<Rightarrow> (msqid_ds \<Rightarrow> msqid_ds) \<Rightarrow> msgst \<Rightarrow> msgst" where
  "upd_q q g s = s\<lparr>msgque := (msgque s)(q := g (msgque s q))\<rparr>"

definition upd_m :: "nat \<Rightarrow> (msg \<Rightarrow> msg) \<Rightarrow> msgst \<Rightarrow> msgst" where
  "upd_m m g s = s\<lparr>msgh := (msgh s)(m := g (msgh s m))\<rparr>"

definition upd_mode :: "nat \<Rightarrow> (int \<Rightarrow> int) \<Rightarrow> msgst \<Rightarrow> msgst" where
  "upd_mode q g = upd_q q (\<lambda>x. x\<lparr>msg_perm := (msg_perm x)\<lparr>ip_mode := g (ip_mode (msg_perm x))\<rparr>\<rparr>)"

definition q_mode :: "msgst \<Rightarrow> nat \<Rightarrow> int" where
  "q_mode s q = ip_mode (msg_perm (msgque s q))"

definition btoq :: "msgst \<Rightarrow> int \<Rightarrow> nat" where
  "btoq s x = nat ((x + int (msgssz (minfo s)) - 1) div int (msgssz (minfo s)))"

text \<open>\<open>*lockp = 0; wakeup(lockp)\<close>.\<close>

definition unlockq :: "nat \<Rightarrow> msgst \<Rightarrow> msgst" where
  "unlockq q s = mwake (WLock q) (s\<lparr>msglock := (msglock s)(q := False)\<rparr>)"

text \<open>\<open>msgconv\<close>; None: it sleeps on the lock that is held, and tries again from there.\<close>

definition msgconv :: "int \<Rightarrow> msgst \<Rightarrow> (errno + nat) mres \<times> msgst" where
  "msgconv qid s =
     (if qid < 0 then (MDone (Inl EINVAL), s)
      else let q = nat (qid mod int (msgmni (minfo s))) in
        if msglock s q then (MSleep (WLock q), s)
        else if q_mode s q AND IPC_ALLOC = 0 \<or> qid div int (msgmni (minfo s)) \<noteq> ip_seq (msg_perm (msgque s q))
        then (MDone (Inl EINVAL), unlockq q s)
        else (MDone (Inr q), s\<lparr>msglock := (msglock s)(q := True)\<rparr>))"

text \<open>Putting a header on the free list.\<close>

definition free_hdr :: "nat \<Rightarrow> msgst \<Rightarrow> msgst" where
  "free_hdr m s = (let s1 = upd_m m (\<lambda>x. x\<lparr>msg_next := msgfp s\<rparr>) s;
      s2 = (if msgfp s = None then mwake WHeader s1 else s1) in s2\<lparr>msgfp := Some m\<rparr>)"

definition free_text :: "nat \<Rightarrow> nat \<Rightarrow> msgst \<Rightarrow> msgst option" where
  "free_text n a s = map_option (\<lambda>(mp, w). let s1 = s\<lparr>msgmap := mp\<rparr> in if w then mwake WMap s1 else s1) (mfree (msgmap s) n a)"

text \<open>\<open>pmp\<close> as it is, or found again when it is stale; None: panic.\<close>

definition real_pred :: "nat \<Rightarrow> nat option \<Rightarrow> nat \<Rightarrow> msgst \<Rightarrow> nat option option" where
  "real_pred q pmp m s =
     (if (case pmp of None \<Rightarrow> msg_first (msgque s q) \<noteq> Some m | Some p \<Rightarrow> msg_next (msgh s p) \<noteq> Some m) then
        if msg_first (msgque s q) = Some m then Some None
        else map_option Some (find (\<lambda>p. msg_next (msgh s p) = Some m)
          (follow (msgtql (minfo s)) (\<lambda>p. msg_next (msgh s p)) (msg_first (msgque s q))))
      else Some pmp)"

definition msgfree :: "nat \<Rightarrow> nat option \<Rightarrow> nat \<Rightarrow> msgst \<Rightarrow> msgst option" where
  "msgfree q pmp m s = (case real_pred q pmp m s of None \<Rightarrow> None | Some pv \<Rightarrow>
     let nx = msg_next (msgh s m);
         s1 = (case pv of None \<Rightarrow> upd_q q (\<lambda>x. x\<lparr>msg_first := nx\<rparr>) s | Some p \<Rightarrow> upd_m p (\<lambda>x. x\<lparr>msg_next := nx\<rparr>) s);
         s2 = (if nx = None then upd_q q (\<lambda>x. x\<lparr>msg_last := pv\<rparr>) s1 else s1);
         s3 = upd_q q (\<lambda>x. x\<lparr>msg_qnum := c_ushort (msg_qnum x - 1)\<rparr>) s2;
         s4 = (if q_mode s3 q AND MSG_WWAIT \<noteq> 0 then mwake (WQueue q) (upd_mode q (\<lambda>x. x AND NOT MSG_WWAIT) s3) else s3)
     in map_option (free_hdr m)
          (if msg_ts (msgh s4 m) \<noteq> 0 then free_text (btoq s4 (msg_ts (msgh s4 m))) (nat (msg_spot (msgh s4 m) + 1)) s4
           else Some s4))"

definition msginit :: "bool \<Rightarrow> msgst \<Rightarrow> msgst option" where
  "msginit got s =
     (let s1 = (if got then s else s\<lparr>minfo := (minfo s)\<lparr>msgseg := 0\<rparr>\<rparr>);
          s2 = s1\<lparr>msgmap := mapinit (msgmapsz (minfo s1))\<rparr>
      in map_option (\<lambda>s3. fold (\<lambda>i. upd_m i (\<lambda>x. x\<lparr>msg_next := Some (Suc i)\<rparr>)) [0..<msgtql (minfo s3) - 1]
           (s3\<lparr>msgfp := Some 0\<rparr>)) (free_text (msgseg (minfo s2)) 1 s2))"

definition msgget :: "user \<Rightarrow> int \<Rightarrow> int \<Rightarrow> int \<times> int \<Rightarrow> msgst \<Rightarrow> (errno + int) \<times> msgst" where
  "msgget u key flag now s =
     (case ipcget u key flag (map (\<lambda>q. msg_perm (msgque s q)) [0..<msgmni (minfo s)]) of
        (Inl e, _) \<Rightarrow> (Inl e, s)
      | (Inr (q, new), ps) \<Rightarrow>
          let s1 = (if new then upd_q q (\<lambda>x. x\<lparr>msg_perm := ps ! q, msg_first := None, msg_last := None, msg_qnum := 0,
                     msg_qbytes := c_ushort (msgmnb (minfo s)), msg_lspid := 0, msg_lrpid := 0, msg_stime := (0, 0),
                     msg_rtime := (0, 0), msg_ctime := now\<rparr>) s else s)
          in (Inr (c_int (ip_seq (msg_perm (msgque s1 q)) * int (msgmni (minfo s)) + int q)), s1))"

subsection \<open>msgctl\<close>

text \<open>IPC_RMID: the loop that frees the messages (once for every header at most), then the header.\<close>

primrec msgrm_loop :: "nat \<Rightarrow> nat \<Rightarrow> msgst \<Rightarrow> msgst option" where
  "msgrm_loop 0 q s = Some s"
| "msgrm_loop (Suc n) q s = (case msg_first (msgque s q) of None \<Rightarrow> Some s
     | Some m \<Rightarrow> (case msgfree q None m s of None \<Rightarrow> None | Some s1 \<Rightarrow> msgrm_loop n q s1))"

definition msgrm :: "int \<Rightarrow> nat \<Rightarrow> msgst \<Rightarrow> msgst option" where
  "msgrm qid q s = map_option (\<lambda>s1.
     let s2 = upd_q q (\<lambda>x. x\<lparr>msg_cbytes := 0, msg_perm := (msg_perm x)\<lparr>ip_seq :=
               if c_int (qid + int (msgmni (minfo s))) < 0 then 0 else c_ushort (ip_seq (msg_perm x) + 1)\<rparr>\<rparr>) s1;
         s3 = (if q_mode s2 q AND MSG_RWAIT \<noteq> 0 then mwake (WQnum q) s2 else s2);
         s4 = (if q_mode s3 q AND MSG_WWAIT \<noteq> 0 then mwake (WQueue q) s3 else s3)
     in upd_mode q (\<lambda>_. 0) s4) (msgrm_loop (msgtql (minfo s)) q s)"

definition may_change :: "user \<Rightarrow> ipc_perm \<Rightarrow> errno + unit" where
  "may_change u p = (if u_uid u \<noteq> ip_uid p \<and> u_uid u \<noteq> ip_cuid p then suser u else Inr ())"

datatype msgcmd = M_RMID | M_SET "msqid_ds option" | M_STAT bool | M_OTHER

text \<open>The result has the header for IPC_STAT; \<open>M_STAT\<close> tells whether the user's buffer can be written.\<close>

definition msgctl :: "user \<Rightarrow> int \<Rightarrow> msgcmd \<Rightarrow> int \<times> int \<Rightarrow> msgst \<Rightarrow> (errno + msqid_ds option) mres \<times> msgst" where
  "msgctl u qid cmd now s =
     (case msgconv qid s of
        (MSleep c, s1) \<Rightarrow> (MSleep c, s1)
      | (MPanic, s1) \<Rightarrow> (MPanic, s1)
      | (MDone (Inl e), s1) \<Rightarrow> (MDone (Inl e), s1)
      | (MDone (Inr q), s1) \<Rightarrow>
          (case cmd of
             M_RMID \<Rightarrow>
               (case may_change u (msg_perm (msgque s1 q)) of
                  Inl e \<Rightarrow> (MDone (Inl e), unlockq q s1)
                | Inr _ \<Rightarrow> (case msgrm qid q s1 of None \<Rightarrow> (MPanic, s1)
                    | Some s2 \<Rightarrow> (MDone (Inr None), unlockq q s2)))
           | M_SET buf \<Rightarrow>
               (case may_change u (msg_perm (msgque s1 q)) of
                  Inl e \<Rightarrow> (MDone (Inl e), unlockq q s1)
                | Inr _ \<Rightarrow> (case buf of None \<Rightarrow> (MDone (Inl EFAULT), unlockq q s1)
                    | Some ds \<Rightarrow>
                        if msg_qbytes ds > msg_qbytes (msgque s1 q) \<and> suser u = Inl EPERM
                        then (MDone (Inl EPERM), unlockq q s1)
                        else (MDone (Inr None), unlockq q (upd_q q (\<lambda>x. x\<lparr>msg_perm := (msg_perm x)\<lparr>
                            ip_uid := ip_uid (msg_perm ds), ip_gid := ip_gid (msg_perm ds),
                            ip_mode := (ip_mode (msg_perm x) AND NOT 511) OR (ip_mode (msg_perm ds) AND 511)\<rparr>,
                          msg_qbytes := msg_qbytes ds, msg_ctime := now\<rparr>) s1))))
           | M_STAT wr \<Rightarrow>
               (case ipcaccess u (msg_perm (msgque s1 q)) MSG_R of
                  Inl e \<Rightarrow> (MDone (Inl e), unlockq q s1)
                | Inr _ \<Rightarrow> (if wr then (MDone (Inr (Some (msgque s1 q))), unlockq q s1)
                     else (MDone (Inl EFAULT), unlockq q s1)))
           | M_OTHER \<Rightarrow> (MDone (Inl EINVAL), unlockq q s1)))"

subsection \<open>msgrcv\<close>

record rcvargs =
  r_id :: int
  r_size :: int
  r_type :: int
  r_flag :: int

text \<open>The scan for the best message: the headers \<open>xs\<close> still to see behind \<open>pmp\<close>, \<open>smp\<close> and \<open>spmp\<close>.\<close>

fun rcv_scan :: "int \<Rightarrow> msgst \<Rightarrow> nat list \<Rightarrow> nat option \<Rightarrow> nat option \<Rightarrow> nat option \<Rightarrow> nat option \<times> nat option" where
  "rcv_scan ty s [] pmp smp spmp = (smp, spmp)"
| "rcv_scan ty s (m # ms) pmp smp spmp =
     (if ty > 0 then
        if ty \<noteq> msg_type (msgh s m) then rcv_scan ty s ms (Some m) smp spmp else (Some m, pmp)
      else if msg_type (msgh s m) \<le> c_int (- ty) \<and>
          \<not> (smp \<noteq> None \<and> msg_type (msgh s (the smp)) \<le> msg_type (msgh s m))
        then rcv_scan ty s ms (Some m) (Some m) pmp
      else rcv_scan ty s ms (Some m) smp spmp)"

definition q_list :: "msgst \<Rightarrow> nat \<Rightarrow> nat list" where
  "q_list s q = follow (msgtql (minfo s)) (\<lambda>m. msg_next (msgh s m)) (msg_first (msgque s q))"

definition rcv_pick :: "int \<Rightarrow> nat \<Rightarrow> msgst \<Rightarrow> nat option \<times> nat option" where
  "rcv_pick ty q s = (if ty = 0 then (msg_first (msgque s q), None) else rcv_scan ty s (q_list s q) None None None)"

definition text_at :: "msgst \<Rightarrow> int \<Rightarrow> int \<Rightarrow> int list" where
  "text_at s spot n = map (\<lambda>i. msgtext s (msgssz (minfo s) * nat spot + i)) [0..<nat n]"

text \<open>From \<open>findmsg\<close> on; \<open>q\<close> is the queue found at the start, \<open>wr\<close> tells which of the two copies to the user succeed.\<close>

definition msgrcv_find :: "user \<Rightarrow> nat \<Rightarrow> rcvargs \<Rightarrow> bool \<times> bool \<Rightarrow> int \<times> int \<Rightarrow> msgst \<Rightarrow>
    (errno + int \<times> int list) mres \<times> msgst" where
  "msgrcv_find u q a wr now s =
     (case msgconv (r_id a) s of
        (MSleep c, s1) \<Rightarrow> (MSleep c, s1)
      | (MPanic, s1) \<Rightarrow> (MPanic, s1)
      | (MDone (Inl _), s1) \<Rightarrow> (MDone (Inl EIDRM), s1)
      | (MDone (Inr q1), s1) \<Rightarrow>
          if q1 \<noteq> q then (MDone (Inl EIDRM), unlockq q1 s1)
          else (case rcv_pick (r_type a) q s1 of
             (Some m, pm) \<Rightarrow>
               let ts = msg_ts (msgh s1 m) in
               if r_size a < ts \<and> r_flag a AND MSG_NOERROR = 0 then (MDone (Inl E2BIG), unlockq q s1)
               else let sz = (if r_size a < ts then r_size a else ts) in
                 if \<not> fst wr \<or> sz \<noteq> 0 \<and> \<not> snd wr then (MDone (Inl EFAULT), unlockq q s1)
                 else let res = (msg_type (msgh s1 m), text_at s1 (msg_spot (msgh s1 m)) sz);
                          s2 = upd_q q (\<lambda>x. x\<lparr>msg_cbytes := c_ushort (msg_cbytes x - ts), msg_lrpid := p_pid u, msg_rtime := now\<rparr>) s1
                   in (case msgfree q pm m s2 of None \<Rightarrow> (MPanic, s2) | Some s3 \<Rightarrow> (MDone (Inr res), unlockq q s3))
           | (None, _) \<Rightarrow>
               if r_flag a AND IPC_NOWAIT \<noteq> 0 then (MDone (Inl ENOMSG), unlockq q s1)
               else (MSleep (WQnum q), unlockq q (upd_mode q (\<lambda>x. x OR MSG_RWAIT) s1))))"

text \<open>The checks in front; the result is the queue.  A signal that ends the sleep returns EINTR and nothing else.\<close>

definition msgrcv_start :: "user \<Rightarrow> rcvargs \<Rightarrow> msgst \<Rightarrow> (errno + nat) mres \<times> msgst" where
  "msgrcv_start u a s =
     (case msgconv (r_id a) (s\<lparr>msgcalls := c_int (msgcalls s + 1)\<rparr>) of
        (MDone (Inr q), s1) \<Rightarrow>
          (case ipcaccess u (msg_perm (msgque s1 q)) MSG_R of
             Inl e \<Rightarrow> (MDone (Inl e), unlockq q s1)
           | Inr _ \<Rightarrow> if r_size a < 0 then (MDone (Inl EINVAL), unlockq q s1) else (MDone (Inr q), unlockq q s1))
      | r \<Rightarrow> r)"

definition msgrcv :: "user \<Rightarrow> rcvargs \<Rightarrow> bool \<times> bool \<Rightarrow> int \<times> int \<Rightarrow> msgst \<Rightarrow> (errno + int \<times> int list) mres \<times> msgst" where
  "msgrcv u a wr now s =
     (case msgrcv_start u a s of
        (MDone (Inr q), s1) \<Rightarrow> msgrcv_find u q a wr now s1
      | (MDone (Inl e), s1) \<Rightarrow> (MDone (Inl e), s1)
      | (MSleep c, s1) \<Rightarrow> (MSleep c, s1)
      | (MPanic, s1) \<Rightarrow> (MPanic, s1))"

subsection \<open>msgsnd\<close>

record sndargs =
  s_id :: int
  s_size :: int
  s_flag :: int
  s_type :: "int option"
  s_text :: "int list option"

definition msgsnd_start :: "user \<Rightarrow> sndargs \<Rightarrow> msgst \<Rightarrow> (errno + nat) mres \<times> msgst" where
  "msgsnd_start u a s =
     (case msgconv (s_id a) (s\<lparr>msgcalls := c_int (msgcalls s + 1)\<rparr>) of
        (MDone (Inr q), s1) \<Rightarrow>
          (case ipcaccess u (msg_perm (msgque s1 q)) MSG_W of
             Inl e \<Rightarrow> (MDone (Inl e), unlockq q s1)
           | Inr _ \<Rightarrow>
               if s_size a < 0 \<or> s_size a > msgmax (minfo s1) then (MDone (Inl EINVAL), unlockq q s1)
               else (case s_type a of None \<Rightarrow> (MDone (Inl EFAULT), unlockq q s1)
                 | Some ty \<Rightarrow> if ty < 1 then (MDone (Inl EINVAL), unlockq q s1) else (MDone (Inr q), unlockq q s1)))
      | r \<Rightarrow> r)"

text \<open>The text goes to the segments from \<open>spot\<close> on.\<close>

definition put_text :: "nat \<Rightarrow> int list \<Rightarrow> msgst \<Rightarrow> msgst" where
  "put_text spot xs s = s\<lparr>msgtext := \<lambda>i. let b = msgssz (minfo s) * spot in
     if b \<le> i \<and> i < b + length xs then xs ! (i - b) else msgtext s i\<rparr>"

text \<open>Everything is there: the message goes to the end of the queue.\<close>

definition msg_append :: "user \<Rightarrow> nat \<Rightarrow> nat \<Rightarrow> int \<Rightarrow> int \<Rightarrow> int \<Rightarrow> int \<times> int \<Rightarrow> msgst \<Rightarrow> msgst" where
  "msg_append u q m ty cnt spot now s =
     (let s1 = upd_q q (\<lambda>x. x\<lparr>msg_qnum := c_ushort (msg_qnum x + 1), msg_cbytes := c_ushort (msg_cbytes x + cnt),
                  msg_lspid := p_pid u, msg_stime := now\<rparr>) s;
          s2 = upd_m m (\<lambda>x. x\<lparr>msg_next := None, msg_type := ty, msg_ts := c_short cnt,
                  msg_spot := c_short (if cnt \<noteq> 0 then spot else -1)\<rparr>) s1;
          s3 = (case msg_last (msgque s2 q) of
                  None \<Rightarrow> upd_q q (\<lambda>x. x\<lparr>msg_first := Some m, msg_last := Some m\<rparr>) s2
                | Some l \<Rightarrow> upd_q q (\<lambda>x. x\<lparr>msg_last := Some m\<rparr>) (upd_m l (\<lambda>x. x\<lparr>msg_next := Some m\<rparr>) s2))
      in if q_mode s3 q AND MSG_RWAIT \<noteq> 0 then mwake (WQnum q) (upd_mode q (\<lambda>x. x AND NOT MSG_RWAIT) s3) else s3)"

text \<open>From \<open>getres\<close> on, behind the check that the queue is still there; then with it.\<close>

definition snd_body :: "user \<Rightarrow> nat \<Rightarrow> sndargs \<Rightarrow> int \<times> int \<Rightarrow> msgst \<Rightarrow> (errno + unit) mres \<times> msgst" where
  "snd_body u q a now s1 = (let cnt = s_size a; nowait = (s_flag a AND IPC_NOWAIT \<noteq> 0) in
     if cnt + msg_cbytes (msgque s1 q) > msg_qbytes (msgque s1 q) then
       if nowait then (MDone (Inl EAGAIN), unlockq q s1)
       else (MSleep (WQueue q), unlockq q (upd_mode q (\<lambda>x. x OR MSG_WWAIT) s1))
     else (case msgfp s1 of
        None \<Rightarrow> if nowait then (MDone (Inl EAGAIN), unlockq q s1) else (MSleep WHeader, unlockq q s1)
      | Some m \<Rightarrow>
          let s2 = s1\<lparr>msgfp := msg_next (msgh s1 m)\<rparr> in
          case (if cnt \<noteq> 0 then malloc (msgmap s2) (btoq s2 cnt) else Some (1, msgmap s2)) of
            None \<Rightarrow> (MPanic, s2)
          | Some (spot, mp) \<Rightarrow>
              let s3 = s2\<lparr>msgmap := mp\<rparr> in
              if spot = 0 then
                if nowait then (MDone (Inl EAGAIN), unlockq q (free_hdr m s3))
                else (MSleep WMap, unlockq q (free_hdr m (s3\<lparr>msgmap := (msgmap s3)\<lparr>mapwant := c_uint (mapwant (msgmap s3) + 1)\<rparr>\<rparr>)))
              else (case (if cnt \<noteq> 0 then s_text a else Some []) of
                  None \<Rightarrow> (case free_text (btoq s3 cnt) spot s3 of None \<Rightarrow> (MPanic, s3)
                    | Some s4 \<Rightarrow> (MDone (Inl EFAULT), unlockq q (free_hdr m s4)))
                | Some xs \<Rightarrow> (MDone (Inr ()), unlockq q (msg_append u q m (the (s_type a)) cnt (int spot - 1) now
                     (put_text (spot - 1) xs s3))))))"

definition msgsnd_res :: "user \<Rightarrow> nat \<Rightarrow> sndargs \<Rightarrow> int \<times> int \<Rightarrow> msgst \<Rightarrow> (errno + unit) mres \<times> msgst" where
  "msgsnd_res u q a now s =
     (case msgconv (s_id a) s of
        (MSleep c, s1) \<Rightarrow> (MSleep c, s1)
      | (MPanic, s1) \<Rightarrow> (MPanic, s1)
      | (MDone (Inl _), s1) \<Rightarrow> (MDone (Inl EIDRM), s1)
      | (MDone (Inr q1), s1) \<Rightarrow> if q1 \<noteq> q then (MDone (Inl EIDRM), unlockq q1 s1) else snd_body u q a now s1)"

text \<open>A signal ends the sleep on channel \<open>c\<close>: EINTR, unless the queue is gone, where \<open>msgconv\<close> leaves EINVAL.\<close>

definition msgsnd_intr :: "nat \<Rightarrow> sndargs \<Rightarrow> mchan \<Rightarrow> msgst \<Rightarrow> (errno + unit) mres \<times> msgst" where
  "msgsnd_intr q a c s =
     (case msgconv (s_id a) s of
        (MSleep d, s1) \<Rightarrow> (MSleep d, s1)
      | (MPanic, s1) \<Rightarrow> (MPanic, s1)
      | (MDone (Inl e), s1) \<Rightarrow> (MDone (Inl e), s1)
      | (MDone (Inr q1), s1) \<Rightarrow>
          if q1 \<noteq> q then (MDone (Inl EINTR), unlockq q1 s1)
          else (MDone (Inl EINTR), unlockq q
            (if c = WQueue q then mwake (WQueue q) (upd_mode q (\<lambda>x. x AND NOT MSG_WWAIT) s1) else s1)))"

definition msgsnd :: "user \<Rightarrow> sndargs \<Rightarrow> int \<times> int \<Rightarrow> msgst \<Rightarrow> (errno + unit) mres \<times> msgst" where
  "msgsnd u a now s =
     (case msgsnd_start u a s of
        (MDone (Inr q), s1) \<Rightarrow> msgsnd_res u q a now s1
      | (MDone (Inl e), s1) \<Rightarrow> (MDone (Inl e), s1)
      | (MSleep c, s1) \<Rightarrow> (MSleep c, s1)
      | (MPanic, s1) \<Rightarrow> (MPanic, s1))"

datatype msgcall = C_get | C_ctl | C_rcv | C_snd

definition msgsys :: "nat \<Rightarrow> errno + msgcall" where
  "msgsys n = (if n > 3 then Inl EINVAL else Inr ([C_get, C_ctl, C_rcv, C_snd] ! n))"

subsection \<open>The lists of messages\<close>

definition nxm :: "msgst \<Rightarrow> nat \<Rightarrow> nat option" where "nxm s m = msg_next (msgh s m)"

text \<open>The segments a message occupies, in the numbering of the resource map.\<close>

definition mseg :: "msgst \<Rightarrow> nat \<Rightarrow> nat set" where
  "mseg s m = (if msg_ts (msgh s m) = 0 then {}
     else {nat (msg_spot (msgh s m) + 1) ..< nat (msg_spot (msgh s m) + 1) + btoq s (msg_ts (msgh s m))})"

definition seg_ok :: "msgst \<Rightarrow> nat \<Rightarrow> bool" where
  "seg_ok s m \<longleftrightarrow> 0 \<le> msg_ts (msgh s m) \<and> (msg_ts (msgh s m) \<noteq> 0 \<longrightarrow> 0 \<le> msg_spot (msgh s m)) \<and>
     mseg s m \<subseteq> {..<32768} \<and> mseg s m \<inter> units (msgmap s) = {}"

text \<open>\<open>qs q\<close> are the messages of queue \<open>q\<close>, \<open>fl\<close> the free headers.\<close>

definition msg_rep :: "(nat \<Rightarrow> nat list) \<Rightarrow> nat list \<Rightarrow> msgst \<Rightarrow> bool" where
  "msg_rep qs fl s \<longleftrightarrow> 0 < msgssz (minfo s) \<and> rm_ok (msgmap s) \<and> units (msgmap s) \<subseteq> {..<32768} \<and>
     (\<forall>q. q \<ge> msgmni (minfo s) \<longrightarrow> qs q = []) \<and>
     (\<forall>q<msgmni (minfo s). chain (nxm s) (msg_first (msgque s q)) (qs q) \<and> msg_last (msgque s q) = last_opt (qs q)) \<and>
     chain (nxm s) (msgfp s) fl \<and> set fl \<subseteq> {..<msgtql (minfo s)} \<and> (\<forall>q. set (qs q) \<subseteq> {..<msgtql (minfo s)}) \<and>
     (\<forall>q. set (qs q) \<inter> set fl = {}) \<and> (\<forall>q r. q \<noteq> r \<longrightarrow> set (qs q) \<inter> set (qs r) = {}) \<and>
     (\<forall>q. \<forall>m\<in>set (qs q). seg_ok s m) \<and>
     (\<forall>q r. \<forall>m\<in>set (qs q). \<forall>k\<in>set (qs r). m \<noteq> k \<longrightarrow> mseg s m \<inter> mseg s k = {})"

text \<open>What a message is to its sender and receiver.\<close>

definition m_abs :: "msgst \<Rightarrow> nat \<Rightarrow> int \<times> int list" where
  "m_abs s m = (msg_type (msgh s m), text_at s (msg_spot (msgh s m)) (msg_ts (msgh s m)))"

text \<open>The byte count of a queue.\<close>

definition bytes_ok :: "msgst \<Rightarrow> nat \<Rightarrow> nat list \<Rightarrow> bool" where
  "bytes_ok s q xs \<longleftrightarrow> msg_cbytes (msgque s q) = sum_list (map (\<lambda>m. msg_ts (msgh s m)) xs) \<and>
     msg_cbytes (msgque s q) < 65536 \<and> msg_qbytes (msgque s q) < 65536"

lemma msg_repD:
  assumes "msg_rep qs fl s"
  shows "0 < msgssz (minfo s)" "rm_ok (msgmap s)" "q \<ge> msgmni (minfo s) \<Longrightarrow> qs q = []"
    "q < msgmni (minfo s) \<Longrightarrow> chain (nxm s) (msg_first (msgque s q)) (qs q)"
    "q < msgmni (minfo s) \<Longrightarrow> msg_last (msgque s q) = last_opt (qs q)"
    "chain (nxm s) (msgfp s) fl" "set fl \<subseteq> {..<msgtql (minfo s)}" "set (qs q) \<subseteq> {..<msgtql (minfo s)}"
    "set (qs q) \<inter> set fl = {}" "q \<noteq> r \<Longrightarrow> set (qs q) \<inter> set (qs r) = {}" "m \<in> set (qs q) \<Longrightarrow> seg_ok s m"
    "m \<in> set (qs q) \<Longrightarrow> k \<in> set (qs r) \<Longrightarrow> m \<noteq> k \<Longrightarrow> mseg s m \<inter> mseg s k = {}"
    "units (msgmap s) \<subseteq> {..<32768}"
proof -
  from assms show "units (msgmap s) \<subseteq> {..<32768}" unfolding msg_rep_def by - (elim conjE, assumption)
  from assms show "0 < msgssz (minfo s)" "rm_ok (msgmap s)" "chain (nxm s) (msgfp s) fl" "set fl \<subseteq> {..<msgtql (minfo s)}"
    unfolding msg_rep_def by - (elim conjE, assumption)+
  have a: "\<forall>q. q \<ge> msgmni (minfo s) \<longrightarrow> qs q = []"
    "\<forall>q<msgmni (minfo s). chain (nxm s) (msg_first (msgque s q)) (qs q) \<and> msg_last (msgque s q) = last_opt (qs q)"
    "\<forall>q. set (qs q) \<subseteq> {..<msgtql (minfo s)}" "\<forall>q. set (qs q) \<inter> set fl = {}"
    "\<forall>q r. q \<noteq> r \<longrightarrow> set (qs q) \<inter> set (qs r) = {}" "\<forall>q. \<forall>m\<in>set (qs q). seg_ok s m"
    "\<forall>q r. \<forall>m\<in>set (qs q). \<forall>k\<in>set (qs r). m \<noteq> k \<longrightarrow> mseg s m \<inter> mseg s k = {}"
    using assms unfolding msg_rep_def by - (elim conjE, assumption)+
  show "q \<ge> msgmni (minfo s) \<Longrightarrow> qs q = []" using a(1) by simp
  show "q < msgmni (minfo s) \<Longrightarrow> chain (nxm s) (msg_first (msgque s q)) (qs q)"
    "q < msgmni (minfo s) \<Longrightarrow> msg_last (msgque s q) = last_opt (qs q)" using a(2) by simp_all
  show "set (qs q) \<subseteq> {..<msgtql (minfo s)}" "set (qs q) \<inter> set fl = {}" using a(3,4) by blast+
  show "q \<noteq> r \<Longrightarrow> set (qs q) \<inter> set (qs r) = {}" using a(5) by simp
  show "m \<in> set (qs q) \<Longrightarrow> seg_ok s m" using a(6) by simp
  show "m \<in> set (qs q) \<Longrightarrow> k \<in> set (qs r) \<Longrightarrow> m \<noteq> k \<Longrightarrow> mseg s m \<inter> mseg s k = {}" using a(7) by metis
qed

lemma msg_rep_distinct: "msg_rep qs fl s \<Longrightarrow> distinct (qs q)" "msg_rep qs fl s \<Longrightarrow> distinct fl"
  using msg_repD(3,4) [of qs fl s q] msg_repD(6) [of qs fl s] by (auto dest: chain_distinct simp: not_less) (metis chain_distinct distinct.simps(1) not_less)

lemma q_list_rep: "msg_rep qs fl s \<Longrightarrow> q < msgmni (minfo s) \<Longrightarrow> q_list s q = qs q"
  unfolding q_list_def using msg_repD(4,8) [of qs fl s q] msg_rep_distinct(1) [of qs fl s q]
  by (intro follow_chain distinct_bounded_length) (auto simp: nxm_def [abs_def])

text \<open>Operations that touch neither lists nor messages.\<close>

definition same_lists :: "msgst \<Rightarrow> msgst \<Rightarrow> bool" where
  "same_lists s s' \<longleftrightarrow> msgh s' = msgh s \<and> msgfp s' = msgfp s \<and> msgmap s' = msgmap s \<and> msgtext s' = msgtext s \<and>
     minfo s' = minfo s \<and> (\<forall>q. msg_first (msgque s' q) = msg_first (msgque s q) \<and> msg_last (msgque s' q) = msg_last (msgque s q) \<and>
       msg_cbytes (msgque s' q) = msg_cbytes (msgque s q) \<and> msg_qnum (msgque s' q) = msg_qnum (msgque s q) \<and>
       msg_qbytes (msgque s' q) = msg_qbytes (msgque s q) \<and> ip_seq (msg_perm (msgque s' q)) = ip_seq (msg_perm (msgque s q)))"

lemma upd_mode_simps [simp]:
  "msgh (upd_mode q g s) = msgh s" "msgfp (upd_mode q g s) = msgfp s" "msgmap (upd_mode q g s) = msgmap s"
  "msgtext (upd_mode q g s) = msgtext s" "minfo (upd_mode q g s) = minfo s" "msglock (upd_mode q g s) = msglock s"
  "msg_first (msgque (upd_mode q g s) r) = msg_first (msgque s r)" "msg_last (msgque (upd_mode q g s) r) = msg_last (msgque s r)"
  "msg_cbytes (msgque (upd_mode q g s) r) = msg_cbytes (msgque s r)" "msg_qnum (msgque (upd_mode q g s) r) = msg_qnum (msgque s r)"
  "msg_qbytes (msgque (upd_mode q g s) r) = msg_qbytes (msgque s r)"
  "ip_seq (msg_perm (msgque (upd_mode q g s) r)) = ip_seq (msg_perm (msgque s r))"
  by (simp_all add: upd_mode_def upd_q_def)

lemma mwake_simps [simp]:
  "msgh (mwake c s) = msgh s" "msgfp (mwake c s) = msgfp s" "msgmap (mwake c s) = msgmap s"
  "msgtext (mwake c s) = msgtext s" "minfo (mwake c s) = minfo s" "msgque (mwake c s) = msgque s" "msglock (mwake c s) = msglock s"
  "msgh (unlockq q s) = msgh s" "msgfp (unlockq q s) = msgfp s" "msgmap (unlockq q s) = msgmap s"
  "msgtext (unlockq q s) = msgtext s" "minfo (unlockq q s) = minfo s" "msgque (unlockq q s) = msgque s"
  by (simp_all add: mwake_def unlockq_def)

lemma same_lists_refl [simp]: "same_lists s s"
  by (simp add: same_lists_def)

lemma same_lists_trans: "same_lists s t \<Longrightarrow> same_lists t r \<Longrightarrow> same_lists s r"
  unfolding same_lists_def by simp

lemma same_lists_ops [simp]:
  "same_lists s (mwake c t) = same_lists s t" "same_lists s (unlockq q t) = same_lists s t"
  "same_lists s (upd_mode q g t) = same_lists s t" "same_lists s (t\<lparr>msglock := f\<rparr>) = same_lists s t"
  "same_lists s (t\<lparr>msgcalls := n\<rparr>) = same_lists s t"
  by (simp_all add: same_lists_def)

lemma same_lists_rep:
  assumes "same_lists s s'"
  shows "msg_rep qs fl s' = msg_rep qs fl s" "m_abs s' = m_abs s" "bytes_ok s' q xs = bytes_ok s q xs"
    "seg_ok s' = seg_ok s" "mseg s' = mseg s"
proof -
  have f: "msgh s' = msgh s" "msgfp s' = msgfp s" "msgmap s' = msgmap s" "msgtext s' = msgtext s" "minfo s' = minfo s"
    "\<And>q. msg_first (msgque s' q) = msg_first (msgque s q)" "\<And>q. msg_last (msgque s' q) = msg_last (msgque s q)"
    "\<And>q. msg_cbytes (msgque s' q) = msg_cbytes (msgque s q)" "\<And>q. msg_qbytes (msgque s' q) = msg_qbytes (msgque s q)"
    using assms unfolding same_lists_def by blast+
  show e: "seg_ok s' = seg_ok s" "mseg s' = mseg s" "m_abs s' = m_abs s"
    by (simp_all add: f mseg_def seg_ok_def m_abs_def text_at_def btoq_def fun_eq_iff)
  have "nxm s' = nxm s" by (simp add: f nxm_def fun_eq_iff)
  then show "msg_rep qs fl s' = msg_rep qs fl s" "bytes_ok s' q xs = bytes_ok s q xs"
    by (simp_all only: msg_rep_def bytes_ok_def e f)
qed

lemma msgconv_same: "msgconv qid s = (r, s') \<Longrightarrow> same_lists s s'"
  by (auto simp: msgconv_def Let_def split: if_splits)

lemma msgconv_queue: "msgconv qid s = (MDone (Inr q), s') \<Longrightarrow> 0 < msgmni (minfo s) \<Longrightarrow> q < msgmni (minfo s)"
  by (auto simp: msgconv_def Let_def nat_less_iff split: if_splits)

subsection \<open>msgfree\<close>

text \<open>What the operations keep of the messages and counters.\<close>

definition keeps :: "msgst \<Rightarrow> msgst \<Rightarrow> bool" where
  "keeps s s' \<longleftrightarrow> minfo s' = minfo s \<and> msgtext s' = msgtext s \<and> msglock s' = msglock s \<and>
     (\<forall>x. msg_type (msgh s' x) = msg_type (msgh s x) \<and> msg_ts (msgh s' x) = msg_ts (msgh s x) \<and>
        msg_spot (msgh s' x) = msg_spot (msgh s x)) \<and>
     (\<forall>r. msg_cbytes (msgque s' r) = msg_cbytes (msgque s r) \<and> msg_qbytes (msgque s' r) = msg_qbytes (msgque s r) \<and>
        ip_seq (msg_perm (msgque s' r)) = ip_seq (msg_perm (msgque s r)))"

lemma keepsD:
  assumes "keeps s s'"
  shows "m_abs s' = m_abs s" "mseg s' = mseg s" "minfo s' = minfo s" "msgtext s' = msgtext s" "msglock s' = msglock s"
    "msg_ts (msgh s' x) = msg_ts (msgh s x)" "msg_spot (msgh s' x) = msg_spot (msgh s x)" "msg_type (msgh s' x) = msg_type (msgh s x)"
    "bytes_ok s' q xs = bytes_ok s q xs" "msg_cbytes (msgque s' r) = msg_cbytes (msgque s r)" "btoq s' = btoq s"
    "msg_qbytes (msgque s' r) = msg_qbytes (msgque s r)" "ip_seq (msg_perm (msgque s' r)) = ip_seq (msg_perm (msgque s r))"
proof -
  have f: "minfo s' = minfo s" "msgtext s' = msgtext s" "msglock s' = msglock s" "\<And>x. msg_type (msgh s' x) = msg_type (msgh s x)"
    "\<And>x. msg_ts (msgh s' x) = msg_ts (msgh s x)" "\<And>x. msg_spot (msgh s' x) = msg_spot (msgh s x)"
    "\<And>r. msg_cbytes (msgque s' r) = msg_cbytes (msgque s r)" "\<And>r. msg_qbytes (msgque s' r) = msg_qbytes (msgque s r)"
    "\<And>r. ip_seq (msg_perm (msgque s' r)) = ip_seq (msg_perm (msgque s r))"
    using assms unfolding keeps_def by blast+
  show "minfo s' = minfo s" "msgtext s' = msgtext s" "msglock s' = msglock s" "msg_ts (msgh s' x) = msg_ts (msgh s x)"
    "msg_spot (msgh s' x) = msg_spot (msgh s x)" "msg_type (msgh s' x) = msg_type (msgh s x)"
    "msg_cbytes (msgque s' r) = msg_cbytes (msgque s r)" "msg_qbytes (msgque s' r) = msg_qbytes (msgque s r)"
    "ip_seq (msg_perm (msgque s' r)) = ip_seq (msg_perm (msgque s r))" by (rule f)+
  show b: "btoq s' = btoq s" by (simp add: btoq_def f fun_eq_iff)
  show "m_abs s' = m_abs s" "mseg s' = mseg s" "bytes_ok s' q xs = bytes_ok s q xs"
    by (simp_all add: m_abs_def text_at_def mseg_def b f fun_eq_iff bytes_ok_def)
qed

lemma mkeeps_trans: "keeps s t \<Longrightarrow> keeps t r \<Longrightarrow> keeps s r"
  unfolding keeps_def by simp

lemma chain_pred_unique:
  assumes "chain nx a xs" "p \<in> set xs" "p' \<in> set xs" "nx p = Some m" "nx p' = Some m"
  shows "p = p'"
proof -
  from assms(2) obtain as bs where 1: "xs = as @ p # bs" by (meson split_list)
  from assms(3) obtain as' bs' where 2: "xs = as' @ p' # bs'" by (meson split_list)
  have "chain nx (nx p) bs" "chain nx (nx p') bs'"
    using assms(1) [unfolded 1] assms(1) [unfolded 2] by (auto simp: seg_append)
  with assms(4,5) have "bs = bs'" by (simp add: chain_unique)
  with 1 2 show ?thesis by (metis append_eq_append_conv list.inject length_append length_Cons add_right_cancel)
qed

lemma real_pred_rep:
  assumes rep: "msg_rep qs fl s" and q: "q < msgmni (minfo s)" and spl: "qs q = us @ m # vs"
    and pmp: "pmp = None \<or> (\<exists>p\<in>set (qs q). pmp = Some p)"
  shows "real_pred q pmp m s = Some (last_opt us)"
proof -
  have c: "chain (nxm s) (msg_first (msgque s q)) (us @ m # vs)" using msg_repD(4) [OF rep q] spl by simp
  have d: "distinct (us @ m # vs)" using msg_rep_distinct(1) [OF rep, of q] spl by simp
  have ql: "follow (msgtql (minfo s)) (\<lambda>p. msg_next (msgh s p)) (msg_first (msgque s q)) = us @ m # vs"
    using q_list_rep [OF rep q] spl by (simp add: q_list_def)
  have nx: "(\<lambda>p. msg_next (msgh s p)) = nxm s" by (simp add: nxm_def fun_eq_iff)
  show ?thesis
  proof (cases us rule: rev_cases)
    case Nil
    then have f: "msg_first (msgque s q) = Some m" using c by simp
    have "msg_next (msgh s p) \<noteq> Some m" if "p \<in> set (qs q)" for p
    proof
      assume n: "msg_next (msgh s p) = Some m"
      from that obtain as bs where "qs q = as @ p # bs" by (meson split_list)
      then have "chain (nxm s) (Some m) bs" "qs q = as @ p # bs" using msg_repD(4) [OF rep q] n
        by (auto simp: seg_append nxm_def)
      then show False using d spl Nil by (cases as) (auto simp: chain_Some)
    qed
    with pmp f Nil show ?thesis by (auto simp: real_pred_def)
  next
    case (snoc ws p0)
    have f: "msg_first (msgque s q) \<noteq> Some m" using c snoc d by (cases ws) auto
    have p0: "msg_next (msgh s p0) = Some m" using c snoc by (auto simp: seg_append nxm_def)
    have fnd: "find (\<lambda>p. msg_next (msgh s p) = Some m) (us @ m # vs) = Some p0"
      using chain_find_pred [of "nxm s" _ ws p0 m vs] c snoc by (simp add: nxm_def)
    have "p = p0" if "p \<in> set (qs q)" "msg_next (msgh s p) = Some m" for p
      using chain_pred_unique [OF msg_repD(4) [OF rep q] that(1), of p0 m] that(2) p0 spl snoc by (simp add: nxm_def)
    with pmp f fnd ql snoc p0 show ?thesis unfolding real_pred_def by (auto simp: last_opt_def)
  qed
qed

text \<open>Giving segments back.\<close>

lemma free_text_ok:
  assumes ok: "rm_ok (msgmap s)" and a: "0 < n" "0 < a" "a + n < 4294967296" "{a..<a + n} \<inter> units (msgmap s) = {}"
  shows "\<exists>s'. free_text n a s = Some s' \<and> rm_ok (msgmap s') \<and> units (msgmap s') \<subseteq> units (msgmap s) \<union> {a..<a + n} \<and>
    msgque s' = msgque s \<and> msgh s' = msgh s \<and> msgfp s' = msgfp s \<and> keeps s s'"
proof -
  from mfree_contract [OF ok a] obtain mp w where m: "mfree (msgmap s) n a = Some (mp, w)" "rm_ok mp"
    "units mp \<subseteq> units (msgmap s) \<union> {a..<a + n}"
    using ok by (auto simp: put_back_def)
  let ?s = "let s1 = s\<lparr>msgmap := mp\<rparr> in if w then mwake WMap s1 else s1"
  have "free_text n a s = Some ?s" using m(1) by (simp add: free_text_def)
  moreover have "msgmap ?s = mp" "msgque ?s = msgque s" "msgh ?s = msgh s" "msgfp ?s = msgfp s" "minfo ?s = minfo s"
    "msgtext ?s = msgtext s" "msglock ?s = msglock s" by (simp_all add: Let_def)
  ultimately show ?thesis using m(2,3) by (simp add: keeps_def)
qed

lemma free_hdr_facts:
  "nxm (free_hdr m s) = (nxm s)(m := msgfp s)" "msgfp (free_hdr m s) = Some m" "msgmap (free_hdr m s) = msgmap s"
  "msgque (free_hdr m s) = msgque s" "keeps s (free_hdr m s)"
  by (simp_all add: free_hdr_def Let_def nxm_def upd_m_def mwake_def keeps_def fun_eq_iff)

lemma btoq_pos: "0 < msgssz (minfo s) \<Longrightarrow> 0 < x \<Longrightarrow> 0 < btoq s x"
  by (simp add: btoq_def pos_imp_zdiv_pos_iff)

lemma range_bound: "{a..<a + n} \<subseteq> {..<b} \<Longrightarrow> 0 < n \<Longrightarrow> a + n \<le> (b::nat)"
proof -
  assume s: "{a..<a + n} \<subseteq> {..<b}" and n: "0 < n"
  from n have "a + n - 1 \<in> {a..<a + n}" by simp
  with s have "a + n - 1 < b" by blast
  then show ?thesis by linarith
qed

text \<open>The unlinking part, before the text and the header go.\<close>

definition unlink :: "nat \<Rightarrow> nat option \<Rightarrow> nat \<Rightarrow> msgst \<Rightarrow> msgst" where
  "unlink q pv m s = (let nx = msg_next (msgh s m);
     s1 = (case pv of None \<Rightarrow> upd_q q (\<lambda>x. x\<lparr>msg_first := nx\<rparr>) s | Some p \<Rightarrow> upd_m p (\<lambda>x. x\<lparr>msg_next := nx\<rparr>) s);
     s2 = (if nx = None then upd_q q (\<lambda>x. x\<lparr>msg_last := pv\<rparr>) s1 else s1)
   in upd_q q (\<lambda>x. x\<lparr>msg_qnum := c_ushort (msg_qnum x - 1)\<rparr>) s2)"

definition unlinked :: "nat \<Rightarrow> nat option \<Rightarrow> nat \<Rightarrow> msgst \<Rightarrow> msgst" where
  "unlinked q pv m s = (let s3 = unlink q pv m s
   in if q_mode s3 q AND MSG_WWAIT \<noteq> 0 then mwake (WQueue q) (upd_mode q (\<lambda>x. x AND NOT MSG_WWAIT) s3) else s3)"

lemma msgfree_unlinked:
  "msgfree q pmp m s = (case real_pred q pmp m s of None \<Rightarrow> None | Some pv \<Rightarrow>
     let s4 = unlinked q pv m s in map_option (free_hdr m)
       (if msg_ts (msgh s4 m) \<noteq> 0 then free_text (btoq s4 (msg_ts (msgh s4 m))) (nat (msg_spot (msgh s4 m) + 1)) s4
        else Some s4))"
  by (simp only: msgfree_def unlinked_def unlink_def Let_def)

lemma unlink_facts:
  "msgfp (unlink q pv m s) = msgfp s" "msgmap (unlink q pv m s) = msgmap s" "minfo (unlink q pv m s) = minfo s"
  "msgtext (unlink q pv m s) = msgtext s" "msglock (unlink q pv m s) = msglock s"
  "nxm (unlink q pv m s) x = (if pv = Some x then nxm s m else nxm s x)"
  "msg_type (msgh (unlink q pv m s) x) = msg_type (msgh s x)" "msg_ts (msgh (unlink q pv m s) x) = msg_ts (msgh s x)"
  "msg_spot (msgh (unlink q pv m s) x) = msg_spot (msgh s x)"
  "msg_first (msgque (unlink q pv m s) r) = (if r = q \<and> pv = None then nxm s m else msg_first (msgque s r))"
  "msg_last (msgque (unlink q pv m s) r) = (if r = q \<and> nxm s m = None then pv else msg_last (msgque s r))"
  "msg_cbytes (msgque (unlink q pv m s) r) = msg_cbytes (msgque s r)"
  "msg_qbytes (msgque (unlink q pv m s) r) = msg_qbytes (msgque s r)"
  "msg_perm (msgque (unlink q pv m s) r) = msg_perm (msgque s r)"
  "r \<noteq> q \<Longrightarrow> msgque (unlink q pv m s) r = msgque s r"
  by (cases pv; cases "msg_next (msgh s m)"; simp add: unlink_def upd_q_def upd_m_def nxm_def)+

lemma keeps_mode: "keeps s (upd_mode q g t) = keeps s t" "keeps s (mwake c t) = keeps s t"
  by (simp_all add: keeps_def)

lemma unlinked_facts:
  "msgfp (unlinked q pv m s) = msgfp s" "msgmap (unlinked q pv m s) = msgmap s" "keeps s (unlinked q pv m s)"
  "nxm (unlinked q pv m s) x = (if pv = Some x then nxm s m else nxm s x)"
  "msg_first (msgque (unlinked q pv m s) r) = (if r = q \<and> pv = None then nxm s m else msg_first (msgque s r))"
  "msg_last (msgque (unlinked q pv m s) r) = (if r = q \<and> nxm s m = None then pv else msg_last (msgque s r))"
  "r \<noteq> q \<Longrightarrow> msgque (unlinked q pv m s) r = msgque s r"
proof -
  have "keeps s (unlink q pv m s)" by (simp add: keeps_def unlink_facts)
  then show "keeps s (unlinked q pv m s)" by (simp add: unlinked_def Let_def keeps_mode)
  have n: "nxm (upd_mode q g t) x = nxm t x" "nxm (mwake c t) x = nxm t x" for q g t c x by (simp_all add: nxm_def)
  show "msgfp (unlinked q pv m s) = msgfp s" "msgmap (unlinked q pv m s) = msgmap s"
    "nxm (unlinked q pv m s) x = (if pv = Some x then nxm s m else nxm s x)"
    "msg_first (msgque (unlinked q pv m s) r) = (if r = q \<and> pv = None then nxm s m else msg_first (msgque s r))"
    "msg_last (msgque (unlinked q pv m s) r) = (if r = q \<and> nxm s m = None then pv else msg_last (msgque s r))"
    unfolding unlinked_def Let_def by (simp_all add: n unlink_facts)
  have "r \<noteq> q \<Longrightarrow> msgque (upd_mode q g t) r = msgque t r" for g t by (simp add: upd_mode_def upd_q_def)
  then show "r \<noteq> q \<Longrightarrow> msgque (unlinked q pv m s) r = msgque s r" by (simp add: unlinked_def Let_def unlink_facts)
qed

lemma msgfree_rep:
  assumes rep: "msg_rep qs fl s" and q: "q < msgmni (minfo s)" and spl: "qs q = us @ m # vs"
    and pmp: "pmp = None \<or> (\<exists>p\<in>set (qs q). pmp = Some p)"
  shows "\<exists>s'. msgfree q pmp m s = Some s' \<and> msg_rep (qs(q := us @ vs)) (m # fl) s' \<and> keeps s s' \<and>
    (\<forall>r. r \<noteq> q \<longrightarrow> msgque s' r = msgque s r)"
proof -
  note R = msg_repD [OF rep]
  let ?pv = "last_opt us" let ?s4 = "unlinked q ?pv m s"
  note U = unlinked_facts [where q = q and pv = ?pv and m = m and s = s]
  note K4 = keepsD [OF U(3)]
  have c: "chain (nxm s) (msg_first (msgque s q)) (us @ m # vs)" using R(4) [OF q] spl by simp
  have d: "distinct (us @ m # vs)" using msg_rep_distinct(1) [OF rep, of q] spl by simp
  have cv: "chain (nxm s) (nxm s m) vs" using c by (auto simp: seg_append)
  have mf: "m \<notin> set fl" using R(9) [of q] spl by auto
  have so: "seg_ok s m" using R(11) [of m q] spl by simp
  have "\<exists>s5. (if msg_ts (msgh ?s4 m) \<noteq> 0 then free_text (btoq ?s4 (msg_ts (msgh ?s4 m))) (nat (msg_spot (msgh ?s4 m) + 1)) ?s4
      else Some ?s4) = Some s5 \<and> rm_ok (msgmap s5) \<and> units (msgmap s5) \<subseteq> units (msgmap s) \<union> mseg s m \<and>
      msgque s5 = msgque ?s4 \<and> msgh s5 = msgh ?s4 \<and> msgfp s5 = msgfp s \<and> keeps ?s4 s5"
  proof (cases "msg_ts (msgh s m) = 0")
    case True
    with K4(6) [of m] R(2) U(1,2) show ?thesis by (simp add: keeps_def)
  next
    case False
    let ?n = "btoq s (msg_ts (msgh s m))" let ?a = "nat (msg_spot (msgh s m) + 1)"
    have sg: "mseg s m = {?a..<?a + ?n}" using False by (simp add: mseg_def)
    have "0 < ?n" using btoq_pos [OF R(1), of "msg_ts (msgh s m)"] so False by (simp add: seg_ok_def)
    moreover have "?a + ?n \<le> 32768" using so sg calculation by (intro range_bound) (simp_all add: seg_ok_def)
    moreover have "0 < ?a" "{?a..<?a + ?n} \<inter> units (msgmap s) = {}"
      using so False sg by (simp_all add: seg_ok_def)
    ultimately show ?thesis using free_text_ok [of ?s4 ?n ?a] R(2) U(1,2) K4(6,7,11) False by (simp add: sg)
  qed
  then obtain s5 where s5: "(if msg_ts (msgh ?s4 m) \<noteq> 0 then free_text (btoq ?s4 (msg_ts (msgh ?s4 m)))
      (nat (msg_spot (msgh ?s4 m) + 1)) ?s4 else Some ?s4) = Some s5" "rm_ok (msgmap s5)"
    "units (msgmap s5) \<subseteq> units (msgmap s) \<union> mseg s m" "msgque s5 = msgque ?s4" "msgh s5 = msgh ?s4" "msgfp s5 = msgfp s"
    "keeps ?s4 s5" by blast
  let ?s' = "free_hdr m s5"
  note H = free_hdr_facts [where m = m and s = s5]
  have K: "keeps s ?s'" using mkeeps_trans [OF U(3) mkeeps_trans [OF s5(7) H(5)]] .
  note KD = keepsD [OF K]
  have "nxm s5 = nxm ?s4" using s5(5) by (simp add: nxm_def fun_eq_iff)
  then have NX: "nxm ?s' x = (if x = m then msgfp s else if ?pv = Some x then nxm s m else nxm s x)" for x
    using H(1) U(4) [of x] s5(6) by simp
  have nxo: "nxm ?s' x = nxm s x" if "x \<noteq> m" "x \<notin> set us" for x
    using that NX [of x] by (auto dest: last_opt_mem)
  let ?qs = "qs(q := us @ vs)"
  have sub: "set (?qs r) \<subseteq> set (qs r)" "m \<notin> set (?qs r)" for r
    using spl d R(10) [of r q] by (auto split: if_splits)
  have segs: "seg_ok ?s' x" if x: "x \<in> set (?qs r)" for x r
  proof -
    have xm: "x \<in> set (qs r)" "x \<noteq> m" using x sub [of r] by auto
    have "mseg s x \<inter> mseg s m = {}" using R(12) [of x r m q] xm spl by simp
    then have "mseg s x \<inter> units (msgmap ?s') = {}" using R(11) [OF xm(1)] s5(3) H(3) by (auto simp: seg_ok_def)
    then show ?thesis using R(11) [OF xm(1)] KD(2,6,7,11) by (simp add: seg_ok_def)
  qed
  have chq: "chain (nxm ?s') (msg_first (msgque ?s' r)) (?qs r) \<and> msg_last (msgque ?s' r) = last_opt (?qs r)"
    if r: "r < msgmni (minfo s)" for r
  proof (cases "r = q")
    case False
    have "chain (nxm ?s') p (qs r) = chain (nxm s) p (qs r)" for p
    proof (rule seg_cong)
      fix x assume "x \<in> set (qs r)"
      then have "x \<noteq> m" "x \<notin> set us" using R(10) [OF False] spl by auto
      then show "nxm ?s' x = nxm s x" by (rule nxo)
    qed
    with False R(4,5) [OF r] U(7) [of r] H(4) s5(4) show ?thesis by simp
  next
    case True
    have vs: "chain (nxm ?s') p vs = chain (nxm s) p vs" for p
    proof (rule seg_cong)
      fix x assume "x \<in> set vs"
      then have "x \<noteq> m" "x \<notin> set us" using d by auto
      then show "nxm ?s' x = nxm s x" by (rule nxo)
    qed
    have nl: "nxm s m = None \<longleftrightarrow> vs = []" using cv by (cases vs) auto
    have last: "msg_last (msgque ?s' q) = last_opt (us @ vs)"
      using U(6) [of q] H(4) s5(4) nl R(5) [OF q] spl by (auto simp: last_opt_def)
    show ?thesis
    proof (cases us rule: rev_cases)
      case Nil
      with True last vs cv U(5) [of q] H(4) s5(4) show ?thesis by simp
    next
      case (snoc ws p)
      have "chain ((nxm s)(p := nxm s m)) (msg_first (msgque s q)) (ws @ p # vs)"
        using chain_unlink [of "nxm s" _ ws p m vs] c snoc by simp
      moreover have "m \<notin> set (ws @ p # vs)" using d snoc by auto
      moreover have "nxm ?s' x = ((nxm s)(p := nxm s m)) x" if "x \<in> set (ws @ p # vs)" for x
        using NX [of x] snoc d that by auto
      ultimately have "chain (nxm ?s') (msg_first (msgque s q)) (ws @ p # vs)" using seg_cong by metis
      with True last U(5) [of q] H(4) s5(4) snoc show ?thesis by simp
    qed
  qed
  have "msg_rep ?qs (m # fl) ?s'" unfolding msg_rep_def KD(3)
  proof (intro conjI allI impI ballI)
    show "chain (nxm ?s') (msgfp ?s') (m # fl)"
    proof -
      have "chain (nxm ?s') (msgfp s) fl = chain (nxm s) (msgfp s) fl"
      proof (rule seg_cong)
        fix x assume "x \<in> set fl"
        then have "x \<noteq> m" "x \<notin> set us" using mf R(9) [of q] spl by auto
        then show "nxm ?s' x = nxm s x" by (rule nxo)
      qed
      with R(6) show ?thesis using H(2) NX by simp
    qed
    show "rm_ok (msgmap ?s')" using s5(2) H(3) by simp
    show "units (msgmap ?s') \<subseteq> {..<32768}" using s5(3) H(3) R(13) so by (auto simp: seg_ok_def)
    show "set (m # fl) \<subseteq> {..<msgtql (minfo s)}" using R(7) R(8) [of q] spl by auto
    show "set (?qs r) \<inter> set (m # fl) = {}" for r using sub [of r] R(9) [of r] by auto
    show "set (?qs r) \<inter> set (?qs k) = {}" if "r \<noteq> k" for r k using sub(1) [of r] sub(1) [of k] R(10) [OF that] by blast
    show "set (?qs r) \<subseteq> {..<msgtql (minfo s)}" for r using sub(1) [of r] R(8) [of r] by blast
    show "?qs r = []" if "msgmni (minfo s) \<le> r" for r using that q R(3) [of r] by auto
    show "mseg ?s' x \<inter> mseg ?s' y = {}" if "x \<in> set (?qs r)" "y \<in> set (?qs k)" "x \<noteq> y" for r k x y
      using R(12) [of x r y k] that sub(1) [of r] sub(1) [of k] KD(2) by auto
    show "chain (nxm ?s') (msg_first (msgque ?s' r)) (?qs r)" "msg_last (msgque ?s' r) = last_opt (?qs r)"
      if "r < msgmni (minfo s)" for r using chq [OF that] by blast+
  qed (use R(1) segs in auto)
  moreover have "msgfree q pmp m s = Some ?s'"
    unfolding msgfree_unlinked real_pred_rep [OF rep q spl pmp] option.case Let_def s5(1) by simp
  moreover have "msgque ?s' r = msgque s r" if "r \<noteq> q" for r using U(7) [OF that] H(4) s5(4) by simp
  ultimately show ?thesis using K by blast
qed

subsection \<open>Sending\<close>

lemma btoq_div: "0 < msgssz (minfo s) \<Longrightarrow> 0 < x \<Longrightarrow> btoq s x = Suc (nat (x - 1) div msgssz (minfo s))"
proof -
  assume z: "0 < msgssz (minfo s)" "0 < x"
  let ?z = "int (msgssz (minfo s))"
  have "(x + ?z - 1) div ?z = (x - 1) div ?z + 1" using z div_add_self2 [of ?z "x - 1"] by (simp add: algebra_simps)
  moreover have "(x - 1) div ?z = int (nat (x - 1) div msgssz (minfo s))" using z by (simp add: zdiv_int)
  ultimately show ?thesis by (simp add: btoq_def nat_add_distrib)
qed

lemma seg_byte:
  assumes "0 < msgssz (minfo s)" "i < nat ts"
  shows "(msgssz (minfo s) * sp + i) div msgssz (minfo s) \<in> {sp..<sp + btoq s ts}"
proof -
  have "0 < ts" "i \<le> nat (ts - 1)" using assms(2) by auto
  then have "i div msgssz (minfo s) < btoq s ts" using btoq_div [OF assms(1), of ts] by (simp add: div_le_mono less_Suc_eq_le)
  with assms(1) show ?thesis by simp
qed

text \<open>The state when the header and the segments have been taken and the message is put on the queue.\<close>

definition sent :: "user \<Rightarrow> nat \<Rightarrow> nat \<Rightarrow> int \<Rightarrow> int \<Rightarrow> nat \<Rightarrow> int list \<Rightarrow> int \<times> int \<Rightarrow> rmap \<Rightarrow> msgst \<Rightarrow> msgst" where
  "sent u q m ty cnt spot xs now mp s = msg_append u q m ty cnt (int spot - 1) now
     (put_text (spot - 1) xs (s\<lparr>msgfp := msg_next (msgh s m), msgmap := mp\<rparr>))"

lemma msg_append_facts:
  "minfo (msg_append u q m ty cnt sp now s) = minfo s" "msgtext (msg_append u q m ty cnt sp now s) = msgtext s"
  "msgfp (msg_append u q m ty cnt sp now s) = msgfp s" "msgmap (msg_append u q m ty cnt sp now s) = msgmap s"
  "msglock (msg_append u q m ty cnt sp now s) = msglock s"
  "msg_last (msgque s q) \<noteq> Some m \<Longrightarrow> nxm (msg_append u q m ty cnt sp now s) x =
     (if x = m then None else if msg_last (msgque s q) = Some x then Some m else nxm s x)"
  "msg_type (msgh (msg_append u q m ty cnt sp now s) x) = (if x = m then ty else msg_type (msgh s x))"
  "msg_ts (msgh (msg_append u q m ty cnt sp now s) x) = (if x = m then c_short cnt else msg_ts (msgh s x))"
  "msg_spot (msgh (msg_append u q m ty cnt sp now s) x) = (if x = m then c_short (if cnt \<noteq> 0 then sp else -1) else msg_spot (msgh s x))"
  "msg_first (msgque (msg_append u q m ty cnt sp now s) r) =
     (if r = q \<and> msg_last (msgque s q) = None then Some m else msg_first (msgque s r))"
  "msg_last (msgque (msg_append u q m ty cnt sp now s) r) = (if r = q then Some m else msg_last (msgque s r))"
  "msg_cbytes (msgque (msg_append u q m ty cnt sp now s) r) =
     (if r = q then c_ushort (msg_cbytes (msgque s q) + cnt) else msg_cbytes (msgque s r))"
  "msg_qbytes (msgque (msg_append u q m ty cnt sp now s) r) = msg_qbytes (msgque s r)"
  unfolding msg_append_def Let_def
  by (cases "msg_last (msgque s q)"; simp add: upd_q_def upd_m_def nxm_def mwake_def upd_mode_def)+

lemma sent_facts:
  "minfo (sent u q m ty cnt spot xs now mp s) = minfo s" "msgmap (sent u q m ty cnt spot xs now mp s) = mp"
  "msgfp (sent u q m ty cnt spot xs now mp s) = nxm s m" "msglock (sent u q m ty cnt spot xs now mp s) = msglock s"
  "msgtext (sent u q m ty cnt spot xs now mp s) i = (let b = msgssz (minfo s) * (spot - 1) in
     if b \<le> i \<and> i < b + length xs then xs ! (i - b) else msgtext s i)"
  "msg_last (msgque s q) \<noteq> Some m \<Longrightarrow> nxm (sent u q m ty cnt spot xs now mp s) x =
     (if x = m then None else if msg_last (msgque s q) = Some x then Some m else nxm s x)"
  "msg_type (msgh (sent u q m ty cnt spot xs now mp s) x) = (if x = m then ty else msg_type (msgh s x))"
  "msg_ts (msgh (sent u q m ty cnt spot xs now mp s) x) = (if x = m then c_short cnt else msg_ts (msgh s x))"
  "msg_spot (msgh (sent u q m ty cnt spot xs now mp s) x) =
     (if x = m then c_short (if cnt \<noteq> 0 then int spot - 1 else -1) else msg_spot (msgh s x))"
  "msg_first (msgque (sent u q m ty cnt spot xs now mp s) r) =
     (if r = q \<and> msg_last (msgque s q) = None then Some m else msg_first (msgque s r))"
  "msg_last (msgque (sent u q m ty cnt spot xs now mp s) r) = (if r = q then Some m else msg_last (msgque s r))"
  "msg_cbytes (msgque (sent u q m ty cnt spot xs now mp s) r) =
     (if r = q then c_ushort (msg_cbytes (msgque s q) + cnt) else msg_cbytes (msgque s r))"
  "msg_qbytes (msgque (sent u q m ty cnt spot xs now mp s) r) = msg_qbytes (msgque s r)"
proof -
  let ?t = "put_text (spot - 1) xs (s\<lparr>msgfp := msg_next (msgh s m), msgmap := mp\<rparr>)"
  have T: "minfo ?t = minfo s" "msgmap ?t = mp" "msgfp ?t = nxm s m" "msglock ?t = msglock s" "msgh ?t = msgh s" "msgque ?t = msgque s"
    "nxm ?t x = nxm s x" "msgtext ?t i = (let b = msgssz (minfo s) * (spot - 1) in
     if b \<le> i \<and> i < b + length xs then xs ! (i - b) else msgtext s i)" by (simp_all add: put_text_def nxm_def Let_def)
  note F = msg_append_facts [where u = u and q = q and m = m and ty = ty and cnt = cnt and sp = "int spot - 1" and now = now and s = ?t,
    folded sent_def, unfolded T(1-6)]
  show "minfo (sent u q m ty cnt spot xs now mp s) = minfo s" "msgmap (sent u q m ty cnt spot xs now mp s) = mp"
    "msgfp (sent u q m ty cnt spot xs now mp s) = nxm s m" "msglock (sent u q m ty cnt spot xs now mp s) = msglock s" by (rule F)+
  show "msgtext (sent u q m ty cnt spot xs now mp s) i = (let b = msgssz (minfo s) * (spot - 1) in
     if b \<le> i \<and> i < b + length xs then xs ! (i - b) else msgtext s i)" using F(2) T(8) by (simp only:)
  show "msg_last (msgque s q) \<noteq> Some m \<Longrightarrow> nxm (sent u q m ty cnt spot xs now mp s) x =
     (if x = m then None else if msg_last (msgque s q) = Some x then Some m else nxm s x)" using F(6) T(7) by simp
  have Q: "msgque ?t = msgque s" "msgh ?t = msgh s" by (simp_all add: put_text_def)
  show "msg_type (msgh (sent u q m ty cnt spot xs now mp s) x) = (if x = m then ty else msg_type (msgh s x))"
    "msg_ts (msgh (sent u q m ty cnt spot xs now mp s) x) = (if x = m then c_short cnt else msg_ts (msgh s x))"
    "msg_spot (msgh (sent u q m ty cnt spot xs now mp s) x) =
       (if x = m then c_short (if cnt \<noteq> 0 then int spot - 1 else -1) else msg_spot (msgh s x))"
    "msg_first (msgque (sent u q m ty cnt spot xs now mp s) r) =
       (if r = q \<and> msg_last (msgque s q) = None then Some m else msg_first (msgque s r))"
    "msg_last (msgque (sent u q m ty cnt spot xs now mp s) r) = (if r = q then Some m else msg_last (msgque s r))"
    "msg_cbytes (msgque (sent u q m ty cnt spot xs now mp s) r) =
       (if r = q then c_ushort (msg_cbytes (msgque s q) + cnt) else msg_cbytes (msgque s r))"
    "msg_qbytes (msgque (sent u q m ty cnt spot xs now mp s) r) = msg_qbytes (msgque s r)"
    unfolding sent_def msg_append_facts Q by (rule refl)+
qed

text \<open>The segments for the message: \<open>spot\<close> and the map that is left.\<close>

definition got_segs :: "msgst \<Rightarrow> int \<Rightarrow> nat \<Rightarrow> rmap \<Rightarrow> bool" where
  "got_segs s cnt spot mp \<longleftrightarrow> (if cnt = 0 then mp = msgmap s else 0 < spot \<and> malloc (msgmap s) (btoq s cnt) = Some (spot, mp))"

lemma got_segsD:
  assumes rep: "msg_rep qs fl s" and g: "got_segs s cnt spot mp" and c: "0 \<le> cnt"
  shows "rm_ok mp" "units mp \<subseteq> units (msgmap s)" "0 < cnt \<Longrightarrow> {spot..<spot + btoq s cnt} \<subseteq> units (msgmap s)"
    "0 < cnt \<Longrightarrow> {spot..<spot + btoq s cnt} \<inter> units mp = {}" "0 < cnt \<Longrightarrow> 0 < spot \<and> spot \<le> 32768"
proof -
  note R = msg_repD [OF rep]
  have "rm_ok mp \<and> units mp \<subseteq> units (msgmap s) \<and> (0 < cnt \<longrightarrow> {spot..<spot + btoq s cnt} \<subseteq> units (msgmap s) \<and>
    {spot..<spot + btoq s cnt} \<inter> units mp = {} \<and> 0 < spot \<and> spot \<le> 32768)"
  proof (cases "cnt = 0")
    case False
    then have m: "0 < spot" "malloc (msgmap s) (btoq s cnt) = Some (spot, mp)" using g by (simp_all add: got_segs_def)
    have b: "0 < btoq s cnt" using btoq_pos [OF R(1), of cnt] False c by simp
    from rm.alloc_units [OF R(2) m(2,1)] rm.alloc_ok [OF R(2) m(2)] have
      "{spot..<spot + btoq s cnt} \<subseteq> units (msgmap s)" "units mp = units (msgmap s) - {spot..<spot + btoq s cnt}" "rm_ok mp" by blast+
    moreover have "spot + btoq s cnt \<le> 32768" using calculation(1) R(13) by (intro range_bound [OF _ b]) blast
    ultimately show ?thesis using m b by auto
  qed (use g R(2) in \<open>simp add: got_segs_def\<close>)
  then show "rm_ok mp" "units mp \<subseteq> units (msgmap s)" "0 < cnt \<Longrightarrow> {spot..<spot + btoq s cnt} \<subseteq> units (msgmap s)"
    "0 < cnt \<Longrightarrow> {spot..<spot + btoq s cnt} \<inter> units mp = {}" "0 < cnt \<Longrightarrow> 0 < spot \<and> spot \<le> 32768" by blast+
qed

lemma sent_rep:
  assumes rep: "msg_rep qs (m # fl) s" and q: "q < msgmni (minfo s)" and c: "0 \<le> cnt" "cnt < 32768" "length xs = nat cnt"
    and g: "got_segs s cnt spot mp"
  shows "msg_rep (qs(q := qs q @ [m])) fl (sent u q m ty cnt spot xs now mp s) \<and>
    m_abs (sent u q m ty cnt spot xs now mp s) m = (ty, xs) \<and>
    (\<forall>r. \<forall>k\<in>set (qs r). m_abs (sent u q m ty cnt spot xs now mp s) k = m_abs s k \<and>
      msg_ts (msgh (sent u q m ty cnt spot xs now mp s) k) = msg_ts (msgh s k))"
proof -
  note R = msg_repD [OF rep]
  note G = got_segsD [OF rep g c(1)]
  let ?s = "sent u q m ty cnt spot xs now mp s" let ?z = "msgssz (minfo s)"
  note S = sent_facts [where u = u and q = q and m = m and ty = ty and cnt = cnt and spot = spot and xs = xs and now = now and
    mp = mp and s = s]
  have mq: "m \<notin> set (qs r)" for r using R(9) [of r] by auto
  have lst: "msg_last (msgque s q) = last_opt (qs q)" by (rule R(5) [OF q])
  have lm: "msg_last (msgque s q) \<noteq> Some m" using lst mq [of q] by (auto dest: last_opt_mem)
  note NX = S(6) [OF lm]
  have bt: "btoq ?s = btoq s" by (simp add: btoq_def S(1) fun_eq_iff)
  have ts: "c_short cnt = cnt" using c by (simp add: c_short_id)
  have sp: "0 < cnt \<Longrightarrow> c_short (int spot - 1) = int spot - 1" using G(5) by (intro c_short_id) auto
  have segm: "mseg ?s m = (if cnt = 0 then {} else {spot..<spot + btoq s cnt})"
    using S(8,9) [of m] ts sp c G(5) by (auto simp: mseg_def bt)
  have same: "msg_ts (msgh ?s k) = msg_ts (msgh s k)" "msg_spot (msgh ?s k) = msg_spot (msgh s k)"
    "msg_type (msgh ?s k) = msg_type (msgh s k)" "mseg ?s k = mseg s k" if "k \<noteq> m" for k
    using S(7-9) [of k] that by (simp_all add: mseg_def bt)
  have live: "seg_ok s k" "k \<noteq> m" if "k \<in> set (qs r)" for k r using that R(11) mq by auto
  have "0 < cnt \<Longrightarrow> {spot..<spot + btoq s cnt} \<subseteq> {..<32768}" using G(3) R(13) by blast
  then have "mseg ?s m \<subseteq> {..<32768}" "mseg ?s m \<inter> units (msgmap ?s) = {}" using segm c G(4) S(2) by auto
  then have okm: "seg_ok ?s m" using S(8,9) [of m] ts sp c G(5) by (auto simp: seg_ok_def)
  have okk: "seg_ok ?s k" if "k \<in> set (qs r)" for k r
    using live [OF that] same [of k] G(2) S(2) by (auto simp: seg_ok_def)
  have djm: "mseg ?s m \<inter> mseg ?s k = {}" if "k \<in> set (qs r)" for k r
  proof -
    have "mseg s k \<inter> units (msgmap s) = {}" using live(1) [OF that] by (simp add: seg_ok_def)
    moreover have "mseg ?s m \<subseteq> units (msgmap s)" using segm G(3) c(1) by simp
    ultimately show ?thesis using same(4) [OF live(2) [OF that]] by blast
  qed
  have byte: "msgtext ?s (?z * nat (msg_spot (msgh s k)) + i) = msgtext s (?z * nat (msg_spot (msgh s k)) + i)"
    if k: "k \<in> set (qs r)" and i: "i < nat (msg_ts (msgh s k))" for k r i
  proof (rule ccontr)
    let ?p = "?z * nat (msg_spot (msgh s k)) + i"
    assume "\<not> ?thesis"
    then have "?z * (spot - 1) \<le> ?p \<and> ?p < ?z * (spot - 1) + nat cnt" using S(5) [of ?p] c(3) by (auto simp: Let_def split: if_splits)
    then have in_new: "?z * (spot - 1) \<le> ?p" "?p - ?z * (spot - 1) < nat cnt" by linarith+
    have c0: "0 < cnt" using in_new(2) by auto
    have "?p = ?z * (spot - 1) + (?p - ?z * (spot - 1))" using in_new(1) by simp
    with seg_byte [OF R(1) in_new(2), of "spot - 1"] have "?p div ?z \<in> {spot - 1..<spot - 1 + btoq s cnt}" by simp
    then have a: "Suc (?p div ?z) \<in> {spot..<spot + btoq s cnt}" using G(5) [OF c0] by auto
    have t0: "msg_ts (msgh s k) \<noteq> 0" using i by auto
    have "Suc (?p div ?z) \<in> mseg s k"
      using seg_byte [OF R(1) i, of "nat (msg_spot (msgh s k))"] live(1) [OF k] t0 by (auto simp: mseg_def seg_ok_def nat_add_distrib)
    with a djm [OF k] same(4) [of k] live(2) [OF k] segm c0 show False by auto
  qed
  have absk: "m_abs ?s k = m_abs s k" if k: "k \<in> set (qs r)" for k r
    using same [of k] live(2) [OF k] byte [OF k] by (auto simp: m_abs_def text_at_def S(1))
  have absm: "m_abs ?s m = (ty, xs)"
  proof (cases "cnt = 0")
    case True
    with c S(7,8) [of m] ts show ?thesis by (simp add: m_abs_def text_at_def)
  next
    case False
    then have "nat (int spot - 1) = spot - 1" "0 < cnt" using G(5) c by auto
    moreover have "map (\<lambda>i. msgtext ?s (?z * (spot - 1) + i)) [0..<nat cnt] = xs"
      using c(3) by (intro nth_equalityI) (simp_all add: S(5) Let_def)
    ultimately show ?thesis using S(7-9) [of m] ts sp False by (simp add: m_abs_def text_at_def S(1))
  qed
  have chq: "chain (nxm ?s) (msg_first (msgque ?s r)) ((qs(q := qs q @ [m])) r) \<and>
      msg_last (msgque ?s r) = last_opt ((qs(q := qs q @ [m])) r)" if r: "r < msgmni (minfo s)" for r
  proof (cases "r = q")
    case False
    have "chain (nxm ?s) p (qs r) = chain (nxm s) p (qs r)" for p
    proof (rule seg_cong)
      fix x assume "x \<in> set (qs r)"
      then have "x \<noteq> m" "x \<notin> set (qs q)" using mq R(10) [OF False] by auto
      then show "nxm ?s x = nxm s x" using NX [of x] lst by (auto dest: last_opt_mem)
    qed
    with False R(4,5) [OF r] S(10,11) [of r] show ?thesis by simp
  next
    case True
    have c0: "chain (nxm s) (msg_first (msgque s q)) (qs q)" by (rule R(4) [OF q])
    show ?thesis
    proof (cases "qs q" rule: rev_cases)
      case Nil
      with True lst S(10,11) [of q] NX [of m] show ?thesis by (simp add: last_opt_def)
    next
      case (snoc ws l)
      have "chain ((nxm s)(l := Some m, m := None)) (msg_first (msgque s q)) (ws @ [l, m])"
        using chain_snoc_upd [of "nxm s" _ ws l m] c0 snoc mq [of q] chain_distinct [OF c0] by auto
      moreover have "nxm ?s x = ((nxm s)(l := Some m, m := None)) x" for x using NX [of x] lst snoc by simp
      then have "nxm ?s = (nxm s)(l := Some m, m := None)" by blast
      ultimately show ?thesis using True lst snoc S(10,11) [of q] by (simp add: last_opt_def)
    qed
  qed
  let ?qs = "qs(q := qs q @ [m])"
  have mem: "set (?qs r) \<subseteq> insert m (set (qs r))" "m \<in> set (?qs r) \<longleftrightarrow> r = q" "r \<noteq> q \<Longrightarrow> ?qs r = qs r" for r using mq by auto
  have "msg_rep ?qs fl ?s" unfolding msg_rep_def S(1)
  proof (intro conjI allI impI ballI)
    show "chain (nxm ?s) (msgfp ?s) fl"
    proof -
      have "chain (nxm ?s) (nxm s m) fl = chain (nxm s) (nxm s m) fl"
      proof (rule seg_cong)
        fix x assume "x \<in> set fl"
        then have "x \<noteq> m" "x \<notin> set (qs q)" using R(9) [of q] msg_rep_distinct(2) [OF rep] by auto
        then show "nxm ?s x = nxm s x" using NX [of x] lst by (auto dest: last_opt_mem)
      qed
      with R(6) S(3) show ?thesis by simp
    qed
    show "rm_ok (msgmap ?s)" "units (msgmap ?s) \<subseteq> {..<32768}" using S(2) G(1,2) R(13) by auto
    show "set fl \<subseteq> {..<msgtql (minfo s)}" using R(7) by auto
    show "set (?qs r) \<inter> set fl = {}" for r using mem(1) [of r] R(9) [of r] msg_rep_distinct(2) [OF rep] by auto
    show "set (?qs r) \<inter> set (?qs k) = {}" if "r \<noteq> k" for r k
      using R(10) [OF that] mem [of r] mem [of k] that by (cases "r = q"; cases "k = q") auto
    show "set (?qs r) \<subseteq> {..<msgtql (minfo s)}" for r using mem(1) [of r] R(8) [of r] R(7) by auto
    show "?qs r = []" if "msgmni (minfo s) \<le> r" for r using that q R(3) [of r] by auto
    show "seg_ok ?s x" if "x \<in> set (?qs r)" for x r using that mem(1) [of r] okm okk [of x r] by auto
    show "mseg ?s x \<inter> mseg ?s y = {}" if "x \<in> set (?qs r)" "y \<in> set (?qs k)" "x \<noteq> y" for r k x y
    proof -
      have "x = m \<or> x \<in> set (qs r)" "y = m \<or> y \<in> set (qs k)" using that mem(1) [of r] mem(1) [of k] by blast+
      then show ?thesis using djm [of x r] djm [of y k] R(12) [of x r y k] same(4) [of x] same(4) [of y] live(2) that(3)
        by (metis Int_commute)
    qed
    show "chain (nxm ?s) (msg_first (msgque ?s r)) (?qs r)" "msg_last (msgque ?s r) = last_opt (?qs r)"
      if "r < msgmni (minfo s)" for r using chq [OF that] by blast+
  qed (use R(1) in auto)
  with absm absk same(1) live(2) show ?thesis by metis
qed

lemma msg_rep_pop:
  assumes rep: "msg_rep qs (m # fl) s" and mp: "rm_ok mp" "units mp \<subseteq> units (msgmap s)"
  shows "msg_rep qs (m # fl) (free_hdr m (s\<lparr>msgfp := msg_next (msgh s m), msgmap := mp\<rparr>)) \<and>
    keeps s (free_hdr m (s\<lparr>msgfp := msg_next (msgh s m), msgmap := mp\<rparr>))"
proof -
  let ?t = "s\<lparr>msgfp := msg_next (msgh s m), msgmap := mp\<rparr>" let ?s = "free_hdr m ?t"
  note R = msg_repD [OF rep]
  note H = free_hdr_facts [where m = m and s = ?t]
  have K: "keeps s ?s" using H(5) by (simp add: keeps_def)
  note KD = keepsD [OF K]
  have n0: "nxm ?t = nxm s" by (simp add: nxm_def fun_eq_iff)
  have n: "nxm ?s = (nxm s)(m := msg_next (msgh s m))" using H(1) n0 by simp
  then have nx: "nxm ?s = nxm s" by (simp add: nxm_def fun_eq_iff)
  have sg: "seg_ok ?s k" if "k \<in> set (qs r)" for k r
    using R(11) [OF that] mp(2) H(3) KD(2,6,7) by (auto simp: seg_ok_def)
  have fp: "msgfp s = Some m" using R(6) by simp
  have "msg_rep qs (m # fl) ?s" unfolding msg_rep_def KD(2,3) nx
  proof (intro conjI allI impI ballI)
    show "chain (nxm s) (msgfp ?s) (m # fl)" using R(6) H(2) by simp
    show "rm_ok (msgmap ?s)" "units (msgmap ?s) \<subseteq> {..<32768}" using mp H(3) R(13) by auto
    show "chain (nxm s) (msg_first (msgque ?s q)) (qs q)" "msg_last (msgque ?s q) = last_opt (qs q)"
      if "q < msgmni (minfo s)" for q using R(4,5) [OF that] H(4) by simp_all
  qed (use R sg in \<open>simp_all\<close>)
  with K show ?thesis by blast
qed

text \<open>What a call that did not send or receive leaves behind: all lists and messages as they were.\<close>

definition untouched :: "(nat \<Rightarrow> nat list) \<Rightarrow> nat list \<Rightarrow> msgst \<Rightarrow> msgst \<Rightarrow> bool" where
  "untouched qs fl s s' \<longleftrightarrow> msg_rep qs fl s' \<and> m_abs s' = m_abs s \<and> minfo s' = minfo s \<and>
     (\<forall>q xs. bytes_ok s' q xs = bytes_ok s q xs)"

lemma untouched_same: "msg_rep qs fl s \<Longrightarrow> same_lists s s' \<Longrightarrow> untouched qs fl s s'"
  using same_lists_rep [of s s'] by (auto simp: untouched_def same_lists_def)

lemma untouched_keeps: "msg_rep qs fl s' \<Longrightarrow> keeps s s' \<Longrightarrow> untouched qs fl s s'"
  using keepsD [of s s'] by (simp add: untouched_def)

lemma untouched_trans: "untouched qs fl s t \<Longrightarrow> untouched qs' fl' t r \<Longrightarrow> untouched qs' fl' s r"
  by (simp add: untouched_def)

lemma malloc_units:
  assumes "rm_ok mp" "malloc mp n = Some (a, mp')"
  shows "rm_ok mp' \<and> units mp' \<subseteq> units mp"
  using malloc_contract [OF assms] by (auto split: if_splits)

definition room_for :: "nat \<Rightarrow> sndargs \<Rightarrow> nat list \<Rightarrow> msgst \<Rightarrow> bool" where
  "room_for q a fl s \<longleftrightarrow> s_size a + msg_cbytes (msgque s q) \<le> msg_qbytes (msgque s q) \<and> fl \<noteq> [] \<and>
     (s_size a \<noteq> 0 \<longrightarrow> (\<exists>spot mp. malloc (msgmap s) (btoq s (s_size a)) = Some (spot, mp) \<and> 0 < spot))"

lemma mapwant_ok: "rm_ok mp \<Longrightarrow> rm_ok (mp\<lparr>mapwant := w\<rparr>) \<and> units (mp\<lparr>mapwant := w\<rparr>) = units mp"
  by (simp add: rm_ok_def rm_rep_def units_def)

lemma snd_body_spec:
  assumes rep: "msg_rep qs fl s" and q: "q < msgmni (minfo s)" and c: "0 \<le> s_size a" "s_size a < 32768"
    and b: "bytes_ok s q (qs q)" and tx: "case s_text a of Some xs \<Rightarrow> length xs = nat (s_size a) | None \<Rightarrow> True"
  shows "if room_for q a fl s \<and> (s_size a = 0 \<or> s_text a \<noteq> None) then
      \<exists>m gl s'. fl = m # gl \<and> snd_body u q a now s = (MDone (Inr ()), s') \<and> msg_rep (qs(q := qs q @ [m])) gl s' \<and>
        m_abs s' m = (the (s_type a), if s_size a = 0 then [] else the (s_text a)) \<and>
        (\<forall>r. \<forall>k\<in>set (qs r). m_abs s' k = m_abs s k) \<and> bytes_ok s' q (qs q @ [m])
    else \<exists>r s'. snd_body u q a now s = (r, s') \<and> untouched qs fl s s' \<and> r \<noteq> MDone (Inr ()) \<and> r \<noteq> MPanic \<and>
      (s_flag a AND IPC_NOWAIT \<noteq> 0 \<longrightarrow> r = MDone (Inl (if room_for q a fl s then EFAULT else EAGAIN)))"
proof -
  note R = msg_repD [OF rep]
  let ?cnt = "s_size a"
  have fp: "msgfp s = hd_opt fl" using chain_hd [OF R(6)] .
  show ?thesis
  proof (cases "?cnt + msg_cbytes (msgque s q) > msg_qbytes (msgque s q) \<or> fl = []")
    case True
    then have nr: "\<not> room_for q a fl s" by (auto simp: room_for_def)
    have "\<exists>r s'. snd_body u q a now s = (r, s') \<and> same_lists s s' \<and> r \<noteq> MDone (Inr ()) \<and> r \<noteq> MPanic \<and>
      (s_flag a AND IPC_NOWAIT \<noteq> 0 \<longrightarrow> r = MDone (Inl EAGAIN))"
      using True fp by (auto simp: snd_body_def Let_def)
    with nr untouched_same [OF rep] show ?thesis by auto
  next
    case False
    then obtain m gl where fl: "fl = m # gl" by (cases fl) auto
    let ?t = "\<lambda>mp. s\<lparr>msgfp := msg_next (msgh s m), msgmap := mp\<rparr>"
    have fpm: "msgfp s = Some m" using fp fl by simp
    have bt: "btoq (s\<lparr>msgfp := x\<rparr>) = btoq s" "btoq (s\<lparr>msgfp := x, msgmap := y\<rparr>) = btoq s" for x y
      by (simp_all add: btoq_def fun_eq_iff)
    have le: "\<not> ?cnt + msg_cbytes (msgque s q) > msg_qbytes (msgque s q)" using False by blast
    obtain spot mp where al: "(if ?cnt \<noteq> 0 then malloc (msgmap s) (btoq s ?cnt) else Some (1, msgmap s)) = Some (spot, mp)"
      using malloc_total [OF R(2)] by (cases "?cnt = 0") force+
    have mp: "rm_ok mp" "units mp \<subseteq> units (msgmap s)"
      using al malloc_units [OF R(2)] R(2) by (auto split: if_splits)
    have body: "snd_body u q a now s = (if spot = 0 then
        if s_flag a AND IPC_NOWAIT \<noteq> 0 then (MDone (Inl EAGAIN), unlockq q (free_hdr m (?t mp)))
        else (MSleep WMap, unlockq q (free_hdr m (?t (mp\<lparr>mapwant := c_uint (mapwant mp + 1)\<rparr>))))
      else (case (if ?cnt \<noteq> 0 then s_text a else Some []) of
          None \<Rightarrow> (case free_text (btoq s ?cnt) spot (?t mp) of None \<Rightarrow> (MPanic, ?t mp)
            | Some s4 \<Rightarrow> (MDone (Inl EFAULT), unlockq q (free_hdr m s4)))
        | Some xs \<Rightarrow> (MDone (Inr ()), unlockq q (sent u q m (the (s_type a)) ?cnt spot xs now mp s))))"
    proof -
      have al2: "(if ?cnt \<noteq> 0 then malloc (msgmap (s\<lparr>msgfp := msg_next (msgh s m)\<rparr>)) (btoq (s\<lparr>msgfp := msg_next (msgh s m)\<rparr>) ?cnt)
          else Some (1, msgmap (s\<lparr>msgfp := msg_next (msgh s m)\<rparr>))) = Some (spot, mp)" using al by (auto simp: bt split: if_splits)
      show ?thesis unfolding snd_body_def Let_def if_not_P [OF le] fpm option.case al2 prod.case sent_def unfolding bt by simp
    qed
    show ?thesis
    proof (cases "spot = 0")
      case True
      then have nr: "\<not> room_for q a fl s" using al by (auto simp: room_for_def split: if_splits)
      from mapwant_ok [OF mp(1)] mp msg_rep_pop [OF rep [unfolded fl]]
      have "untouched qs fl s (free_hdr m (?t mp))" "untouched qs fl s (free_hdr m (?t (mp\<lparr>mapwant := w\<rparr>)))" for w
        using untouched_keeps fl by blast+
      moreover have "untouched qs fl s t \<Longrightarrow> untouched qs fl s (unlockq q t)" for t
        using same_lists_rep [of t "unlockq q t"] by (simp add: untouched_def)
      ultimately show ?thesis using True nr body by auto
    next
      case sp: False
      then have rm: "room_for q a fl s" using False fl al by (auto simp: room_for_def split: if_splits)
      have g: "got_segs s ?cnt spot mp" using al sp by (auto simp: got_segs_def split: if_splits)
      note G = got_segsD [OF rep g c(1)]
      show ?thesis
      proof (cases "?cnt \<noteq> 0 \<and> s_text a = None")
        case True
        have cp: "0 < ?cnt" using True c by simp
        have u1: "rm_ok (msgmap (?t mp))" "units (msgmap (?t mp)) = units mp" using G(1) by simp_all
        have n: "0 < btoq s ?cnt" using btoq_pos [OF R(1) cp] .
        have r0: "spot + btoq s ?cnt \<le> 32768" using G(3) [OF cp] R(13) by (intro range_bound [OF _ n]) blast
        from free_text_ok [OF u1(1) n, of spot] sp r0 G(4) [OF cp] u1(2) obtain s4 where
          s4: "free_text (btoq s ?cnt) spot (?t mp) = Some s4" "rm_ok (msgmap s4)"
            "units (msgmap s4) \<subseteq> units mp \<union> {spot..<spot + btoq s ?cnt}" "msgque s4 = msgque s" "msgh s4 = msgh s"
            "msgfp s4 = msg_next (msgh s m)" "keeps (?t mp) s4" by auto
        have us: "units (msgmap s4) \<subseteq> units (msgmap s)" using s4(3) G(2) G(3) [OF cp] by blast
        note H4 = free_hdr_facts [where m = m and s = s4]
        have K: "keeps s (free_hdr m s4)" using s4(7) H4(5) by (auto simp: keeps_def)
        have same: "msgh (free_hdr m s4) = msgh (free_hdr m (?t (msgmap s4)))" "msgque (free_hdr m s4) = msgque (free_hdr m (?t (msgmap s4)))"
          "msgmap (free_hdr m s4) = msgmap (free_hdr m (?t (msgmap s4)))" "msgfp (free_hdr m s4) = msgfp (free_hdr m (?t (msgmap s4)))"
          using s4(4-6) by (simp_all add: free_hdr_def Let_def upd_m_def mwake_def)
        have P: "msg_rep qs fl (free_hdr m (?t (msgmap s4)))" "keeps s (free_hdr m (?t (msgmap s4)))"
          using msg_rep_pop [OF rep [unfolded fl] s4(2) us] fl by simp_all
        have mi: "minfo (free_hdr m s4) = minfo (free_hdr m (?t (msgmap s4)))" "mseg (free_hdr m s4) = mseg (free_hdr m (?t (msgmap s4)))"
          using keepsD(2,3) [OF K] keepsD(2,3) [OF P(2)] by simp_all
        have nn: "nxm (free_hdr m s4) = nxm (free_hdr m (?t (msgmap s4)))" by (simp add: nxm_def same fun_eq_iff)
        have "msg_rep qs fl (free_hdr m s4)" using P(1) unfolding msg_rep_def seg_ok_def mi nn same .
        from untouched_keeps [OF this K] have "untouched qs fl s (unlockq q (free_hdr m s4))"
          using same_lists_rep [of "free_hdr m s4" "unlockq q (free_hdr m s4)"] by (simp add: untouched_def)
        with body sp s4(1) rm True show ?thesis by simp
      next
        case ok: False
        define xs where "xs = (if ?cnt = 0 then [] else the (s_text a))"
        have len: "length xs = nat ?cnt" using ok tx by (auto simp: xs_def)
        let ?s = "sent u q m (the (s_type a)) ?cnt spot xs now mp s"
        from sent_rep [OF rep [unfolded fl] q c len g, of u "the (s_type a)" now] have S:
          "msg_rep (qs(q := qs q @ [m])) gl ?s" "m_abs ?s m = (the (s_type a), xs)"
          "\<forall>r. \<forall>k\<in>set (qs r). m_abs ?s k = m_abs s k \<and> msg_ts (msgh ?s k) = msg_ts (msgh s k)" by blast+
        note F = sent_facts [where u = u and q = q and m = m and ty = "the (s_type a)" and cnt = ?cnt and spot = spot and xs = xs
          and now = now and mp = mp and s = s]
        have "c_ushort (msg_cbytes (msgque s q) + ?cnt) = msg_cbytes (msgque s q) + ?cnt"
        proof (rule c_ushort_id)
          have "0 \<le> sum_list (map (\<lambda>m. msg_ts (msgh s m)) (qs q))" using R(11) by (intro sum_list_nonneg) (auto simp: seg_ok_def)
          then show "0 \<le> msg_cbytes (msgque s q) + ?cnt" using b c by (simp add: bytes_ok_def)
          show "msg_cbytes (msgque s q) + ?cnt < 65536" using b le by (simp add: bytes_ok_def)
        qed
        moreover have "map (\<lambda>m. msg_ts (msgh ?s m)) (qs q) = map (\<lambda>m. msg_ts (msgh s m)) (qs q)" using S(3) by simp
        then have sm: "sum_list (map (\<lambda>m. msg_ts (msgh ?s m)) (qs q)) = sum_list (map (\<lambda>m. msg_ts (msgh s m)) (qs q))" by (simp only:)
        ultimately have B: "bytes_ok ?s q (qs q @ [m])" unfolding bytes_ok_def map_append sum_list_append sm
          using b le F(8) [of m] F(12,13) [of q] c by (simp add: bytes_ok_def c_short_id)
        have U: "same_lists ?s (unlockq q ?s)" by simp
        note V = same_lists_rep [OF U]
        have "snd_body u q a now s = (MDone (Inr ()), unlockq q ?s)" using body sp ok by (auto simp: xs_def split: option.split)
        then have "fl = m # gl \<and> snd_body u q a now s = (MDone (Inr ()), unlockq q ?s) \<and> msg_rep (qs(q := qs q @ [m])) gl (unlockq q ?s) \<and>
          m_abs (unlockq q ?s) m = (the (s_type a), if ?cnt = 0 then [] else the (s_text a)) \<and>
          (\<forall>r. \<forall>k\<in>set (qs r). m_abs (unlockq q ?s) k = m_abs s k) \<and> bytes_ok (unlockq q ?s) q (qs q @ [m])"
          using fl S B V(1-3) by (simp add: xs_def)
        with rm ok show ?thesis by auto
      qed
    qed
  qed
qed

subsection \<open>Receiving\<close>

text \<open>The message a receiver asks for among the messages \<open>xs\<close>, with what is in front of it.\<close>

definition picks :: "int \<Rightarrow> msgst \<Rightarrow> nat list \<Rightarrow> nat \<Rightarrow> nat list \<Rightarrow> bool" where
  "picks ty s us m vs \<longleftrightarrow>
     (if ty = 0 then us = []
      else if ty > 0 then msg_type (msgh s m) = ty \<and> (\<forall>x\<in>set us. msg_type (msgh s x) \<noteq> ty)
      else msg_type (msgh s m) \<le> c_int (- ty) \<and> (\<forall>x\<in>set us. msg_type (msgh s m) < msg_type (msgh s x)) \<and>
        (\<forall>x\<in>set vs. msg_type (msgh s m) \<le> msg_type (msgh s x)))"

definition wanted :: "int \<Rightarrow> msgst \<Rightarrow> nat \<Rightarrow> bool" where
  "wanted ty s m \<longleftrightarrow> ty = 0 \<or> (if ty > 0 then msg_type (msgh s m) = ty else msg_type (msgh s m) \<le> c_int (- ty))"

lemma rcv_scan_pos:
  assumes "ty > 0"
  shows "case rcv_scan ty s ms pmp None None of (None, _) \<Rightarrow> \<forall>x\<in>set ms. msg_type (msgh s x) \<noteq> ty
    | (Some m, pv) \<Rightarrow> \<exists>us vs. ms = us @ m # vs \<and> msg_type (msgh s m) = ty \<and> (\<forall>x\<in>set us. msg_type (msgh s x) \<noteq> ty) \<and>
        (pv = pmp \<or> (\<exists>p\<in>set ms. pv = Some p))"
proof (induction ms arbitrary: pmp)
  case (Cons k ms)
  show ?case
  proof (cases "msg_type (msgh s k) = ty")
    case True
    then have "\<exists>us vs. k # ms = us @ k # vs \<and> msg_type (msgh s k) = ty \<and> (\<forall>x\<in>set us. msg_type (msgh s x) \<noteq> ty)"
      by (intro exI [of _ "[]"] exI [of _ ms]) simp
    with True assms show ?thesis by simp
  next
    case False
    with assms have e: "rcv_scan ty s (k # ms) pmp None None = rcv_scan ty s ms (Some k) None None" by simp
    show ?thesis
    proof (cases "rcv_scan ty s ms (Some k) None None")
      case (Pair a pv)
      show ?thesis
      proof (cases a)
        case None
        with Pair e False Cons.IH [of "Some k"] show ?thesis by simp
      next
        case (Some m)
        with Pair Cons.IH [of "Some k"] obtain us vs where "ms = us @ m # vs" "msg_type (msgh s m) = ty"
          "\<forall>x\<in>set us. msg_type (msgh s x) \<noteq> ty" "pv = Some k \<or> (\<exists>p\<in>set ms. pv = Some p)" by auto
        then have "(\<exists>us vs. k # ms = us @ m # vs \<and> msg_type (msgh s m) = ty \<and> (\<forall>x\<in>set us. msg_type (msgh s x) \<noteq> ty)) \<and>
            (pv = pmp \<or> (\<exists>p\<in>set (k # ms). pv = Some p))"
          using False by (intro conjI exI [of _ "k # us"] exI [of _ vs]) auto
        with Pair Some e show ?thesis by (simp only: prod.case option.case) blast
      qed
    qed
  qed
qed simp

text \<open>For a negative type: \<open>dn\<close> has been seen, with \<open>smp\<close> the best of it.\<close>

definition best_of :: "int \<Rightarrow> msgst \<Rightarrow> nat list \<Rightarrow> nat option \<Rightarrow> nat option \<Rightarrow> bool" where
  "best_of b s dn smp spmp \<longleftrightarrow> (case smp of None \<Rightarrow> \<forall>x\<in>set dn. \<not> msg_type (msgh s x) \<le> b
     | Some m \<Rightarrow> \<exists>us vs. dn = us @ m # vs \<and> msg_type (msgh s m) \<le> b \<and> (\<forall>x\<in>set us. msg_type (msgh s m) < msg_type (msgh s x)) \<and>
         (\<forall>x\<in>set vs. msg_type (msgh s m) \<le> msg_type (msgh s x))) \<and> (spmp = None \<or> (\<exists>p\<in>set dn. spmp = Some p))"

lemma rcv_scan_neg:
  assumes "ty < 0" "best_of (c_int (- ty)) s dn smp spmp" "pmp = None \<or> (\<exists>p\<in>set dn. pmp = Some p)"
    "rcv_scan ty s ms pmp smp spmp = (a, pv)"
  shows "best_of (c_int (- ty)) s (dn @ ms) a pv"
  using assms(2-4)
proof (induction ms arbitrary: dn pmp smp spmp)
  case (Cons k ms)
  let ?b = "c_int (- ty)"
  let ?take = "msg_type (msgh s k) \<le> ?b \<and> \<not> (smp \<noteq> None \<and> msg_type (msgh s (the smp)) \<le> msg_type (msgh s k))"
  have d: "dn @ k # ms = (dn @ [k]) @ ms" by simp
  show ?case
  proof (cases ?take)
    case True
    then have "rcv_scan ty s ms (Some k) (Some k) pmp = (a, pv)" using Cons.prems(3) assms(1) by simp
    moreover have "best_of ?b s (dn @ [k]) (Some k) pmp"
    proof -
      have "\<forall>x\<in>set dn. msg_type (msgh s k) < msg_type (msgh s x)"
      proof (cases smp)
        case None
        with Cons.prems(1) True show ?thesis by (auto simp: best_of_def)
      next
        case (Some m)
        with Cons.prems(1) True show ?thesis by (fastforce simp: best_of_def)
      qed
      with True have "\<exists>us vs. dn @ [k] = us @ k # vs \<and> msg_type (msgh s k) \<le> ?b \<and>
          (\<forall>x\<in>set us. msg_type (msgh s k) < msg_type (msgh s x)) \<and> (\<forall>x\<in>set vs. msg_type (msgh s k) \<le> msg_type (msgh s x))"
        by (intro exI [of _ dn] exI [of _ "[]"]) simp
      with Cons.prems(2) show ?thesis by (auto simp: best_of_def)
    qed
    ultimately show ?thesis using Cons.IH [of "dn @ [k]" "Some k" pmp "Some k"] unfolding d by simp
  next
    case False
    then have "rcv_scan ty s ms (Some k) smp spmp = (a, pv)" using Cons.prems(3) assms(1) by (simp split: if_splits)
    moreover have "best_of ?b s (dn @ [k]) smp spmp"
    proof (cases smp)
      case None
      with Cons.prems(1) False show ?thesis by (auto simp: best_of_def)
    next
      case (Some m)
      with Cons.prems(1) obtain us vs where uv: "dn = us @ m # vs" "msg_type (msgh s m) \<le> ?b"
        "\<forall>x\<in>set us. msg_type (msgh s m) < msg_type (msgh s x)" "\<forall>x\<in>set vs. msg_type (msgh s m) \<le> msg_type (msgh s x)"
        by (auto simp: best_of_def)
      moreover have "msg_type (msgh s m) \<le> msg_type (msgh s k)" using False Some uv(2) by auto
      ultimately have "dn @ [k] = us @ m # (vs @ [k]) \<and> (\<forall>x\<in>set (vs @ [k]). msg_type (msgh s m) \<le> msg_type (msgh s x))" by auto
      with uv have "\<exists>us vs. dn @ [k] = us @ m # vs \<and> msg_type (msgh s m) \<le> ?b \<and>
          (\<forall>x\<in>set us. msg_type (msgh s m) < msg_type (msgh s x)) \<and> (\<forall>x\<in>set vs. msg_type (msgh s m) \<le> msg_type (msgh s x))"
        by (intro exI [of _ us] exI [of _ "vs @ [k]"]) blast
      moreover have "spmp = None \<or> (\<exists>p\<in>set (dn @ [k]). spmp = Some p)" using Cons.prems(1) by (auto simp: best_of_def)
      ultimately show ?thesis using Some unfolding best_of_def by simp
    qed
    ultimately show ?thesis using Cons.IH [of "dn @ [k]" smp spmp "Some k"] unfolding d by simp
  qed
qed simp

lemma rcv_pick_spec:
  assumes rep: "msg_rep qs fl s" and q: "q < msgmni (minfo s)"
  shows "case rcv_pick ty q s of (None, _) \<Rightarrow> \<forall>x\<in>set (qs q). \<not> wanted ty s x
    | (Some m, pv) \<Rightarrow> \<exists>us vs. qs q = us @ m # vs \<and> picks ty s us m vs \<and> wanted ty s m \<and>
        (pv = None \<or> (\<exists>p\<in>set (qs q). pv = Some p))"
proof -
  have ql: "q_list s q = qs q" by (rule q_list_rep [OF rep q])
  have f: "msg_first (msgque s q) = hd_opt (qs q)" using chain_hd [OF msg_repD(4) [OF rep q]] .
  consider "ty = 0" | "ty > 0" | "ty < 0" by linarith
  then show ?thesis
  proof cases
    case 1
    then show ?thesis using f by (cases "qs q") (auto simp: rcv_pick_def wanted_def picks_def intro!: exI [of _ "[]"])
  next
    case 2
    with rcv_scan_pos [OF 2, where s = s and ms = "qs q" and pmp = None] show ?thesis
      by (auto simp: rcv_pick_def wanted_def picks_def ql split: prod.splits option.splits)
  next
    case 3
    obtain a pv where r: "rcv_scan ty s (qs q) None None None = (a, pv)" by (cases "rcv_scan ty s (qs q) None None None") auto
    have "best_of (c_int (- ty)) s [] None None" by (simp add: best_of_def)
    from rcv_scan_neg [OF 3 this _ r] have b: "best_of (c_int (- ty)) s (qs q) a pv" by simp
    have rp: "rcv_pick ty q s = (a, pv)" using 3 r ql by (simp add: rcv_pick_def)
    show ?thesis
    proof (cases a)
      case None
      with b rp 3 show ?thesis by (simp add: best_of_def wanted_def)
    next
      case (Some m)
      with b rp 3 show ?thesis by (auto simp: best_of_def wanted_def picks_def)
    qed
  qed
qed

lemma upd_q_count:
  fixes q :: nat
  defines "t \<equiv> \<lambda>s ts pd now. upd_q q (\<lambda>x. x\<lparr>msg_cbytes := c_ushort (msg_cbytes x - ts), msg_lrpid := pd, msg_rtime := now\<rparr>) s"
  shows "msg_rep qs fl (t s ts pd now) = msg_rep qs fl s" "m_abs (t s ts pd now) = m_abs s" "minfo (t s ts pd now) = minfo s"
    "msg_cbytes (msgque (t s ts pd now) q) = c_ushort (msg_cbytes (msgque s q) - ts)"
    "msg_qbytes (msgque (t s ts pd now) q) = msg_qbytes (msgque s q)" "msgh (t s ts pd now) = msgh s"
proof -
  have f: "msgh (t s ts pd now) = msgh s" "msgfp (t s ts pd now) = msgfp s" "msgmap (t s ts pd now) = msgmap s"
    "msgtext (t s ts pd now) = msgtext s" "minfo (t s ts pd now) = minfo s"
    "\<And>r. msg_first (msgque (t s ts pd now) r) = msg_first (msgque s r)" "\<And>r. msg_last (msgque (t s ts pd now) r) = msg_last (msgque s r)"
    "msg_cbytes (msgque (t s ts pd now) q) = c_ushort (msg_cbytes (msgque s q) - ts)"
    "msg_qbytes (msgque (t s ts pd now) q) = msg_qbytes (msgque s q)"
    by (simp_all add: t_def upd_q_def)
  have g: "nxm (t s ts pd now) = nxm s" "mseg (t s ts pd now) = mseg s" "seg_ok (t s ts pd now) = seg_ok s"
    by (simp_all add: nxm_def mseg_def seg_ok_def btoq_def f fun_eq_iff)
  show "msg_rep qs fl (t s ts pd now) = msg_rep qs fl s" by (simp only: msg_rep_def f g)
  show "m_abs (t s ts pd now) = m_abs s" by (simp add: m_abs_def text_at_def f fun_eq_iff)
qed (simp_all add: t_def upd_q_def)

lemma msgrcv_find_spec:
  assumes rep: "msg_rep qs fl s" and n: "0 < msgmni (minfo s)" and cv: "msgconv (r_id a) s = (MDone (Inr q), s1)"
    and c: "0 \<le> r_size a" and b: "bytes_ok s q (qs q)"
  shows "\<exists>r s'. msgrcv_find u q a wr now s = (r, s') \<and>
    ((\<forall>m\<in>set (qs q). \<not> wanted (r_type a) s m) \<and> untouched qs fl s s' \<and>
        r = (if r_flag a AND IPC_NOWAIT \<noteq> 0 then MDone (Inl ENOMSG) else MSleep (WQnum q)) \<or>
     (\<exists>us m vs. qs q = us @ m # vs \<and> picks (r_type a) s us m vs \<and> wanted (r_type a) s m \<and>
        (let sz = min (r_size a) (msg_ts (msgh s m)) in
         if r_size a < msg_ts (msgh s m) \<and> r_flag a AND MSG_NOERROR = 0 then r = MDone (Inl E2BIG) \<and> untouched qs fl s s'
         else if \<not> fst wr \<or> sz \<noteq> 0 \<and> \<not> snd wr then r = MDone (Inl EFAULT) \<and> untouched qs fl s s'
         else r = MDone (Inr (fst (m_abs s m), take (nat sz) (snd (m_abs s m)))) \<and> msg_rep (qs(q := us @ vs)) (m # fl) s' \<and>
           m_abs s' = m_abs s \<and> bytes_ok s' q (us @ vs))))"
proof -
  have s1: "same_lists s s1" by (rule msgconv_same [OF cv])
  note V = same_lists_rep [OF s1]
  have rep1: "msg_rep qs fl s1" using rep V(1) by simp
  have h1: "msgh s1 = msgh s" "minfo s1 = minfo s" "msg_cbytes (msgque s1 q) = msg_cbytes (msgque s q)"
    using s1 by (simp_all add: same_lists_def)
  have q: "q < msgmni (minfo s1)" using msgconv_queue [OF cv n] h1 by simp
  have T: "wanted ty s1 = wanted ty s" "picks ty s1 = picks ty s" for ty by (simp_all add: wanted_def picks_def h1 fun_eq_iff)
  have un: "untouched qs fl s t" if "same_lists s1 t" for t
    using untouched_same [OF rep] same_lists_trans [OF s1 that] by blast
  obtain pk pv where rp: "rcv_pick (r_type a) q s1 = (pk, pv)" by (cases "rcv_pick (r_type a) q s1") auto
  note sp = rcv_pick_spec [OF rep1 q, of "r_type a", unfolded rp prod.case T]
  show ?thesis
  proof (cases pk)
    case None
    then have "\<forall>m\<in>set (qs q). \<not> wanted (r_type a) s m" using sp by simp
    moreover have "msgrcv_find u q a wr now s = (if r_flag a AND IPC_NOWAIT \<noteq> 0 then (MDone (Inl ENOMSG), unlockq q s1)
      else (MSleep (WQnum q), unlockq q (upd_mode q (\<lambda>x. x OR MSG_RWAIT) s1)))"
      using None rp cv by (simp add: msgrcv_find_def)
    ultimately show ?thesis using un by auto
  next
    case (Some m)
    with sp obtain us vs where uv: "qs q = us @ m # vs" "picks (r_type a) s us m vs" "wanted (r_type a) s m"
      "pv = None \<or> (\<exists>p\<in>set (qs q). pv = Some p)" by auto
    let ?ts = "msg_ts (msgh s m)" let ?sz = "min (r_size a) ?ts"
    have mn: "(if r_size a < ?ts then r_size a else ?ts) = ?sz" by (simp add: min_def)
    let ?s2 = "upd_q q (\<lambda>x. x\<lparr>msg_cbytes := c_ushort (msg_cbytes x - ?ts), msg_lrpid := p_pid u, msg_rtime := now\<rparr>) s1"
    have res: "msgrcv_find u q a wr now s =
      (if r_size a < ?ts \<and> r_flag a AND MSG_NOERROR = 0 then (MDone (Inl E2BIG), unlockq q s1)
       else if \<not> fst wr \<or> ?sz \<noteq> 0 \<and> \<not> snd wr then (MDone (Inl EFAULT), unlockq q s1)
       else (case msgfree q pv m ?s2 of None \<Rightarrow> (MPanic, ?s2) | Some s3 \<Rightarrow>
         (MDone (Inr (msg_type (msgh s m), text_at s1 (msg_spot (msgh s m)) ?sz)), unlockq q s3)))"
      unfolding msgrcv_find_def cv prod.case mres.case sum.case rp Some option.case Let_def h1(1) mn by simp
    note C = upd_q_count [where q = q and s = s1 and ts = ?ts and pd = "p_pid u" and now = now]
    have rep2: "msg_rep qs fl ?s2" using C(1) rep1 by simp
    from msgfree_rep [OF rep2 _ uv(1,4)] q C(3) obtain s3 where
      s3: "msgfree q pv m ?s2 = Some s3" "msg_rep (qs(q := us @ vs)) (m # fl) s3" "keeps ?s2 s3" by auto
    note K = keepsD [OF s3(3)]
    have abs: "m_abs s3 = m_abs s" using K(1) C(2) V(2) by simp
    have nn: "0 \<le> msg_ts (msgh s x)" if "x \<in> set (qs q)" for x using msg_repD(11) [OF rep that] by (simp add: seg_ok_def)
    have sum: "sum_list (map (\<lambda>m. msg_ts (msgh s m)) (qs q)) = sum_list (map (\<lambda>m. msg_ts (msgh s m)) (us @ vs)) + ?ts"
      using uv(1) by simp
    have ge: "0 \<le> sum_list (map (\<lambda>m. msg_ts (msgh s m)) (us @ vs))" using nn uv(1) by (intro sum_list_nonneg) auto
    have tsn: "0 \<le> ?ts" using nn uv(1) by simp
    have cb: "c_ushort (msg_cbytes (msgque s1 q) - ?ts) = sum_list (map (\<lambda>m. msg_ts (msgh s m)) (us @ vs))"
      using b h1(3) sum ge tsn by (subst c_ushort_id) (auto simp: bytes_ok_def)
    have h3: "(\<lambda>m. msg_ts (msgh s3 m)) = (\<lambda>m. msg_ts (msgh s m))" using K(6) C(6) h1 by (simp add: fun_eq_iff)
    have qb: "msg_qbytes (msgque s1 q) = msg_qbytes (msgque s q)" using s1 by (simp add: same_lists_def)
    have B: "bytes_ok s3 q (us @ vs)" unfolding bytes_ok_def h3
      using K(10,12) [of q] C(4,5) cb b sum tsn qb by (simp add: bytes_ok_def)
    have U: "same_lists s3 (unlockq q s3)" by simp
    note W = same_lists_rep [OF U]
    have tx: "text_at s1 (msg_spot (msgh s m)) ?sz = take (nat ?sz) (snd (m_abs s m))"
    proof -
      have "m_abs s m = m_abs s1 m" using V(2) by simp
      then have "snd (m_abs s m) = text_at s1 (msg_spot (msgh s m)) ?ts" using h1(1) by (simp add: m_abs_def)
      moreover have "nat ?sz \<le> nat ?ts" by simp
      ultimately show ?thesis by (simp add: text_at_def take_map min_def)
    qed
    have fstm: "fst (m_abs s m) = msg_type (msgh s m)" by (simp add: m_abs_def)
    have F: "(let sz = ?sz in
         if r_size a < ?ts \<and> r_flag a AND MSG_NOERROR = 0 then fst (msgrcv_find u q a wr now s) = MDone (Inl E2BIG) \<and>
           untouched qs fl s (snd (msgrcv_find u q a wr now s))
         else if \<not> fst wr \<or> sz \<noteq> 0 \<and> \<not> snd wr then fst (msgrcv_find u q a wr now s) = MDone (Inl EFAULT) \<and>
           untouched qs fl s (snd (msgrcv_find u q a wr now s))
         else fst (msgrcv_find u q a wr now s) = MDone (Inr (fst (m_abs s m), take (nat sz) (snd (m_abs s m)))) \<and>
           msg_rep (qs(q := us @ vs)) (m # fl) (snd (msgrcv_find u q a wr now s)) \<and>
           m_abs (snd (msgrcv_find u q a wr now s)) = m_abs s \<and> bytes_ok (snd (msgrcv_find u q a wr now s)) q (us @ vs))"
      unfolding res Let_def s3(1) using un s3(2) abs B W(1-3) tx fstm by simp
    show ?thesis
      by (rule exI [of _ "fst (msgrcv_find u q a wr now s)"], rule exI [of _ "snd (msgrcv_find u q a wr now s)"], rule conjI, simp,
        rule disjI2, rule exI [of _ us], rule exI [of _ m], rule exI [of _ vs]) (intro conjI uv(1-3) F)
  qed
qed

subsection \<open>Removing a queue\<close>

lemma msgrm_loop_rep:
  "msg_rep qs fl s \<Longrightarrow> q < msgmni (minfo s) \<Longrightarrow> length (qs q) \<le> n \<Longrightarrow>
   \<exists>s'. msgrm_loop n q s = Some s' \<and> msg_rep (qs(q := [])) (rev (qs q) @ fl) s' \<and> keeps s s' \<and>
     (\<forall>r. r \<noteq> q \<longrightarrow> msgque s' r = msgque s r)"
proof (induction n arbitrary: qs fl s)
  case 0
  then have "qs(q := []) = qs" by (auto simp: fun_eq_iff)
  with 0 show ?case by (simp add: keeps_def)
next
  case (Suc n)
  have f: "msg_first (msgque s q) = hd_opt (qs q)" using chain_hd [OF msg_repD(4) [OF Suc.prems(1,2)]] .
  show ?case
  proof (cases "qs q")
    case Nil
    then have "qs(q := []) = qs" by (auto simp: fun_eq_iff)
    with Nil f Suc.prems(1) show ?thesis by (simp add: keeps_def)
  next
    case (Cons m ms)
    from msgfree_rep [OF Suc.prems(1,2), of "[]" m ms None] Cons obtain s1 where s1: "msgfree q None m s = Some s1"
      "msg_rep (qs(q := ms)) (m # fl) s1" "keeps s s1" "\<forall>r. r \<noteq> q \<longrightarrow> msgque s1 r = msgque s r" by auto
    have n: "q < msgmni (minfo s1)" "length ((qs(q := ms)) q) \<le> n" using Suc.prems(2,3) keepsD(3) [OF s1(3)] Cons by simp_all
    from Suc.IH [OF s1(2) n, unfolded fun_upd_upd fun_upd_same] obtain s' where s': "msgrm_loop n q s1 = Some s'"
      "msg_rep (qs(q := [])) (rev ms @ m # fl) s'" "keeps s1 s'" "\<forall>r. r \<noteq> q \<longrightarrow> msgque s' r = msgque s1 r" by blast
    have "msgrm_loop (Suc n) q s = Some s'" using f Cons s1(1) s'(1) by simp
    moreover have "rev (qs q) @ fl = rev ms @ m # fl" using Cons by simp
    moreover have "\<forall>r. r \<noteq> q \<longrightarrow> msgque s' r = msgque s r" using s'(4) s1(4) by simp
    ultimately show ?thesis using s'(2) mkeeps_trans [OF s1(3) s'(3)] by metis
  qed
qed

lemma fields_rep:
  assumes "msg_rep qs fl s" "msgh s' = msgh s" "msgfp s' = msgfp s" "msgmap s' = msgmap s" "msgtext s' = msgtext s" "minfo s' = minfo s"
    "\<And>r. msg_first (msgque s' r) = msg_first (msgque s r)" "\<And>r. msg_last (msgque s' r) = msg_last (msgque s r)"
  shows "msg_rep qs fl s'" "m_abs s' = m_abs s"
proof -
  have g: "nxm s' = nxm s" "mseg s' = mseg s" "seg_ok s' = seg_ok s" "m_abs s' = m_abs s"
    by (simp_all add: nxm_def mseg_def seg_ok_def btoq_def m_abs_def text_at_def assms(2-) fun_eq_iff)
  show "msg_rep qs fl s'" using assms(1) unfolding msg_rep_def g assms(2-) .
  show "m_abs s' = m_abs s" by (rule g(4))
qed

lemma msgrm_rep:
  assumes rep: "msg_rep qs fl s" and q: "q < msgmni (minfo s)"
  shows "\<exists>s'. msgrm qid q s = Some s' \<and> msg_rep (qs(q := [])) (rev (qs q) @ fl) s' \<and> m_abs s' = m_abs s \<and>
    minfo s' = minfo s \<and> msg_cbytes (msgque s' q) = 0 \<and> q_mode s' q = 0 \<and> (\<forall>r. r \<noteq> q \<longrightarrow> msgque s' r = msgque s r)"
proof -
  have "length (qs q) \<le> msgtql (minfo s)"
    using msg_rep_distinct(1) [OF rep] msg_repD(8) [OF rep] by (rule distinct_bounded_length)
  from msgrm_loop_rep [OF rep q this] obtain s1 where s1: "msgrm_loop (msgtql (minfo s)) q s = Some s1"
    "msg_rep (qs(q := [])) (rev (qs q) @ fl) s1" "keeps s s1" "\<forall>r. r \<noteq> q \<longrightarrow> msgque s1 r = msgque s r" by blast
  define s2 where "s2 = upd_q q (\<lambda>x. x\<lparr>msg_cbytes := 0, msg_perm := (msg_perm x)\<lparr>ip_seq :=
               if c_int (qid + int (msgmni (minfo s))) < 0 then 0 else c_ushort (ip_seq (msg_perm x) + 1)\<rparr>\<rparr>) s1"
  define s3 where "s3 = (if q_mode s2 q AND MSG_RWAIT \<noteq> 0 then mwake (WQnum q) s2 else s2)"
  define s4 where "s4 = (if q_mode s3 q AND MSG_WWAIT \<noteq> 0 then mwake (WQueue q) s3 else s3)"
  let ?s = "upd_mode q (\<lambda>_. 0) s4"
  have r: "msgrm qid q s = Some ?s" by (simp add: msgrm_def s1(1) Let_def s2_def s3_def s4_def)
  have f2: "msgh s2 = msgh s1" "msgfp s2 = msgfp s1" "msgmap s2 = msgmap s1" "msgtext s2 = msgtext s1" "minfo s2 = minfo s1"
    "msg_first (msgque s2 r) = msg_first (msgque s1 r)" "msg_last (msgque s2 r) = msg_last (msgque s1 r)"
    "msg_cbytes (msgque s2 q) = 0" "r \<noteq> q \<Longrightarrow> msgque s2 r = msgque s1 r" for r
    by (simp_all add: s2_def upd_q_def)
  have f4: "msgh s4 = msgh s2" "msgfp s4 = msgfp s2" "msgmap s4 = msgmap s2" "msgtext s4 = msgtext s2" "minfo s4 = minfo s2"
    "msgque s4 = msgque s2" by (simp_all add: s4_def s3_def)
  have "msg_rep (qs(q := [])) (rev (qs q) @ fl) ?s" "m_abs ?s = m_abs s1"
    by (rule fields_rep [OF s1(2)]; simp add: f4 f2)+
  moreover have "q_mode ?s q = 0" by (simp add: q_mode_def upd_mode_def upd_q_def)
  moreover have "r \<noteq> q \<Longrightarrow> msgque ?s r = msgque s r" for r using s1(4) f2(9) f4(6) by (simp add: upd_mode_def upd_q_def)
  ultimately show ?thesis using r keepsD(1,3) [OF s1(3)] by (simp add: f4 f2)
qed

subsection \<open>Properties\<close>

text \<open>A facility with an empty queue 0, and with one message on it.\<close>

definition msg_ex :: "bool \<Rightarrow> msgst" where
  "msg_ex full = \<lparr>msgque = \<lambda>_. \<lparr>msg_perm = \<lparr>ip_uid = 5, ip_gid = 5, ip_cuid = 5, ip_cgid = 5, ip_mode = 33152, ip_seq = 0, ip_key = 9\<rparr>,
       msg_first = (if full then Some 0 else None), msg_last = (if full then Some 0 else None), msg_cbytes = 0, msg_qnum = 0,
       msg_qbytes = 100, msg_lspid = 0, msg_lrpid = 0, msg_stime = (0, 0), msg_rtime = (0, 0), msg_ctime = (0, 0)\<rparr>,
     msgh = \<lambda>i. \<lparr>msg_next = (if full \<and> i = 0 \<or> i = 2 then None else Some (Suc i)), msg_type = 7, msg_ts = 0, msg_spot = -1\<rparr>,
     msgfp = Some (if full then 1 else 0),
     msgmap = \<lparr>mapsize = 2, mapwant = 1, ents = [\<lparr>m_size = 4, m_addr = 1\<rparr>, \<lparr>m_size = 8, m_addr = 10\<rparr>, nullent, nullent, nullent]\<rparr>,
     msgtext = \<lambda>_. 0, msglock = \<lambda>_. False,
     minfo = \<lparr>msgmapsz = 7, msgmax = 50, msgmnb = 100, msgmni = 1, msgssz = 8, msgtql = 3, msgseg = 20\<rparr>,
     msgcalls = 0, mwoken = []\<rparr>"

definition msg_u :: user where
  "msg_u = \<lparr>u_uid = 5, u_gid = 5, p_pid = 7, p_epid = 7, p_sysid = 0, p_slot = 0\<rparr>"

lemma msg_ex_sel [simp]:
  "msg_perm (msgque (msg_ex full) q) = \<lparr>ip_uid = 5, ip_gid = 5, ip_cuid = 5, ip_cgid = 5, ip_mode = 33152, ip_seq = 0, ip_key = 9\<rparr>"
  "msg_first (msgque (msg_ex full) q) = (if full then Some 0 else None)"
  "msg_last (msgque (msg_ex full) q) = (if full then Some 0 else None)" "msg_cbytes (msgque (msg_ex full) q) = 0"
  "msg_qbytes (msgque (msg_ex full) q) = 100" "nxm (msg_ex full) i = (if full \<and> i = 0 \<or> i = 2 then None else Some (Suc i))"
  "msg_type (msgh (msg_ex full) i) = 7" "msg_ts (msgh (msg_ex full) i) = 0" "msg_spot (msgh (msg_ex full) i) = -1"
  "msgfp (msg_ex full) = Some (if full then 1 else 0)"
  "msgmap (msg_ex full) = \<lparr>mapsize = 2, mapwant = 1, ents = [\<lparr>m_size = 4, m_addr = 1\<rparr>, \<lparr>m_size = 8, m_addr = 10\<rparr>,
     nullent, nullent, nullent]\<rparr>"
  "msglock (msg_ex full) q = False" "msgmni (minfo (msg_ex full)) = 1" "msgssz (minfo (msg_ex full)) = 8" "msgtql (minfo (msg_ex full)) = 3"
  by (simp_all add: msg_ex_def nxm_def)

lemma msg_ex_rep:
  "msg_rep ((\<lambda>_. [])(0 := if full then [0] else [])) (if full then [1, 2] else [0, 1, 2]) (msg_ex full)"
proof -
  have u: "units (msgmap (msg_ex full)) \<subseteq> {..<32768}" by (auto simp: units_def live_def ent_units_def)
  have r: "rm_ok (msgmap (msg_ex full))" using two_ranges_ok by simp
  have s: "mseg (msg_ex full) m = {}" "seg_ok (msg_ex full) m" for m by (simp_all add: mseg_def seg_ok_def)
  show ?thesis unfolding msg_rep_def
  proof (intro conjI allI impI ballI u r s)
    show "chain (nxm (msg_ex full)) (msgfp (msg_ex full)) (if full then [1, 2] else [0, 1, 2])" by (cases full) simp_all
  qed (cases full; auto simp: last_opt_def s)+
qed

lemma msg_ex_conv: "msgconv 0 (msg_ex full) = (MDone (Inr 0), (msg_ex full)\<lparr>msglock := (msglock (msg_ex full))(0 := True)\<rparr>)"
proof -
  have "(33152::int) AND IPC_ALLOC \<noteq> 0" by simp
  then show ?thesis by (simp add: msgconv_def q_mode_def)
qed







end
