(* ===== verification/Callout.thy ===== *)
theory Callout imports Kbase begin

text \<open>
  The callout table of os/clock.c: \<open>timeout\<close>, \<open>untimeout\<close>, \<open>timein\<close>, \<open>delay\<close> and the part of \<open>clock\<close> that
  counts down.  The table \<open>callout\<close> is a list of \<open>v.v_call\<close> entries (sys/callo.h); the first entry without a
  function ends it.  Every entry holds the ticks between the one before it and itself.  A walk that leaves
  the table is the fault OffTable.  The functions in the table are the parameter \<open>g\<close> of
  \<open>timein\<close>; what ran is recorded in \<open>called\<close>.  The abstract view \<open>sched\<close> is the list of entries with their
  absolute times.
\<close>

record callo =
  c_time :: int
  c_id :: int
  c_arg :: int
  c_func :: nat

record cost =
  callout :: "callo list"
  timeid :: int
  poked :: bool
  called :: "(int \<times> int \<times> nat) list"

datatype cfault = TableOverflow | OffTable

subsection \<open>timeout and untimeout\<close>

text \<open>The search of \<open>timeout\<close>: entries passed, the time left, and the table from \<open>p1\<close> on.\<close>

fun to_find :: "int \<Rightarrow> callo list \<Rightarrow> (callo list \<times> int \<times> callo list) option" where
  "to_find t [] = None"
| "to_find t (c # cs) =
     (if c_func c \<noteq> 0 \<and> c_time c \<le> t
      then map_option (\<lambda>(us, r). (c # us, r)) (to_find (c_int (t - c_time c)) cs)
      else Some ([], t, c # cs))"

text \<open>Moving the entries from \<open>p1\<close> to the end mark up by one, with \<open>x\<close> in the place of the first.\<close>

fun shift_up :: "callo \<Rightarrow> callo list \<Rightarrow> callo list option" where
  "shift_up x [] = None"
| "shift_up x (c # cs) =
     (if c_func c = 0 then (case cs of [] \<Rightarrow> None | _ # r \<Rightarrow> Some (x # c # r))
      else map_option ((#) x) (shift_up c cs))"

definition timeout :: "nat \<Rightarrow> int \<Rightarrow> int \<Rightarrow> cost \<Rightarrow> cfault + int \<times> cost" where
  "timeout f a tim s =
     (if length (callout s) < 2 then Inl OffTable
      else if c_func (callout s ! (length (callout s) - 2)) \<noteq> 0 then Inl TableOverflow
      else (case to_find tim (callout s) of
          Some (us, t, p # ps) \<Rightarrow>
            (let p' = p\<lparr>c_time := c_int (c_time p - t)\<rparr>;
                 i = c_int (timeid s + 1)
             in case shift_up \<lparr>c_time = t, c_id = i, c_arg = a, c_func = f\<rparr> (p' # ps) of
                  None \<Rightarrow> Inl OffTable
                | Some vs \<Rightarrow> Inr (i, s\<lparr>callout := us @ vs, timeid := i\<rparr>))
        | _ \<Rightarrow> Inl OffTable))"

text \<open>Moving the entries behind \<open>p1\<close> down by one, end mark included.\<close>

fun co_move :: "callo list \<Rightarrow> callo list option" where
  "co_move (x # d # r) = (if c_func d = 0 then Some (d # d # r) else map_option ((#) d) (co_move (d # r)))"
| "co_move _ = None"

fun ut_find :: "int \<Rightarrow> callo list \<Rightarrow> callo list option" where
  "ut_find i [] = None"
| "ut_find i (c # cs) =
     (if c_func c = 0 then Some (c # cs)
      else if c_id c = i then
        (case cs of [] \<Rightarrow> None | d # r \<Rightarrow> co_move (c # d\<lparr>c_time := c_int (c_time d + c_time c)\<rparr> # r))
      else map_option ((#) c) (ut_find i cs))"

definition untimeout :: "int \<Rightarrow> cost \<Rightarrow> cost option" where
  "untimeout i s = map_option (\<lambda>cs. s\<lparr>callout := cs\<rparr>) (ut_find i (callout s))"

subsection \<open>The clock\<close>

text \<open>The two loops of \<open>clock\<close> over the table: passing the entries that are due, then
  counting \<open>tdole\<close> ticks down.\<close>

fun co_tick :: "int \<Rightarrow> callo list \<Rightarrow> callo list option" where
  "co_tick d [] = None"
| "co_tick d (c # cs) =
     (if c_time c < d \<and> c_func c \<noteq> 0
      then map_option ((#) (c\<lparr>c_time := 0\<rparr>)) (co_tick (c_int (d - c_time c)) cs)
      else Some (c\<lparr>c_time := c_int (c_time c - d)\<rparr> # cs))"

fun co_skip :: "int \<Rightarrow> callo list \<Rightarrow> callo list option" where
  "co_skip d [] = None"
| "co_skip d (c # cs) =
     (if c_time c \<le> 0 \<and> c_func c \<noteq> 0 then map_option ((#) c) (co_skip d cs) else co_tick d (c # cs))"

definition clock_callout :: "int \<Rightarrow> cost \<Rightarrow> cost option" where
  "clock_callout ticks s =
     (case callout s of
        [] \<Rightarrow> None
      | c # _ \<Rightarrow>
          (case if c_func c \<noteq> 0 then co_skip ticks (callout s) else Some (callout s) of
             None \<Rightarrow> None
           | Some cs \<Rightarrow> Some (s\<lparr>callout := cs, poked := (poked s \<or> c_time (hd cs) \<le> 0)\<rparr>)))"

subsection \<open>timein and delay\<close>

definition co_call :: "(nat \<Rightarrow> int \<Rightarrow> cost \<Rightarrow> cost) \<Rightarrow> callo \<Rightarrow> cost \<Rightarrow> cost" where
  "co_call g c s = g (c_func c) (c_arg c) (s\<lparr>called := called s @ [(c_id c, c_arg c, c_func c)]\<rparr>)"

text \<open>The loop of \<open>timein\<close>: None when a function keeps arming timers that are due at once (the loop does
  not end) or the table has no end.\<close>

partial_function (option) timein_loop :: "(nat \<Rightarrow> int \<Rightarrow> cost \<Rightarrow> cost) \<Rightarrow> cost \<Rightarrow> cost option" where
  "timein_loop g s =
     (case callout s of
        [] \<Rightarrow> None
      | c # cs \<Rightarrow>
          (if c_func c \<noteq> 0 \<and> c_time c \<le> 0
           then (case co_move (c # cs) of
                   None \<Rightarrow> None
                 | Some ds \<Rightarrow> timein_loop g (co_call g c (s\<lparr>callout := ds\<rparr>)))
           else Some s))"

definition timein :: "(nat \<Rightarrow> int \<Rightarrow> cost \<Rightarrow> cost) \<Rightarrow> cost \<Rightarrow> cost option" where
  "timein g s =
     (case callout s of
        [] \<Rightarrow> None
      | c # _ \<Rightarrow> (if c_func c = 0 then Some s else if c_time c \<le> 0 then timein_loop g s else Some s))"

text \<open>\<open>delay\<close>: a timer that wakes the process up, then the sleep on the byte behind the start of its process entry
  (no channel when it returns at once).  \<open>wk\<close> is the address of \<open>wakeup\<close>, \<open>p\<close> that of the process.\<close>

definition delay :: "nat \<Rightarrow> int \<Rightarrow> int \<Rightarrow> cost \<Rightarrow> cfault + int option \<times> cost" where
  "delay wk p ticks s =
     (if ticks \<le> 0 then Inr (None, s)
      else (case timeout wk (p + 1) ticks s of
          Inl e \<Rightarrow> Inl e
        | Inr (_, s') \<Rightarrow> Inr (Some (p + 1), s')))"

subsection \<open>The table as a list of times\<close>

type_synonym timer = "int \<times> int \<times> int \<times> nat"

fun sched_from :: "int \<Rightarrow> callo list \<Rightarrow> timer list" where
  "sched_from b [] = []"
| "sched_from b (c # cs) =
     (if c_func c = 0 then [] else (b + c_time c, c_id c, c_arg c, c_func c) # sched_from (b + c_time c) cs)"

abbreviation sched :: "cost \<Rightarrow> timer list" where
  "sched s \<equiv> sched_from 0 (callout s)"

fun co_wf :: "int \<Rightarrow> callo list \<Rightarrow> bool" where
  "co_wf b [] = False"
| "co_wf b (c # cs) =
     (if c_func c = 0 then \<forall>d\<in>set cs. c_func d = 0
      else 0 \<le> c_time c \<and> b + c_time c < 2147483648 \<and> co_wf (b + c_time c) cs)"

abbreviation co_ok :: "cost \<Rightarrow> bool" where
  "co_ok s \<equiv> co_wf 0 (callout s)"

definition due_insert :: "timer \<Rightarrow> timer list \<Rightarrow> timer list" where
  "due_insert e xs = filter (\<lambda>y. fst y \<le> fst e) xs @ e # filter (\<lambda>y. fst e < fst y) xs"

lemma sched_ge: "co_wf b cs \<Longrightarrow> e \<in> set (sched_from b cs) \<Longrightarrow> b \<le> fst e \<and> fst e < 2147483648 \<and> snd (snd (snd e)) \<noteq> 0"
  by (induction b cs rule: sched_from.induct) (auto split: if_splits)

lemma sched_sorted: "co_wf b cs \<Longrightarrow> sorted_wrt (\<le>) (map fst (sched_from b cs))"
  by (induction b cs rule: sched_from.induct) (auto split: if_splits dest: sched_ge)

lemma sched_on: "co_wf b cs \<Longrightarrow> k < length cs \<Longrightarrow> c_func (cs ! k) \<noteq> 0 \<longleftrightarrow> k < length (sched_from b cs)"
proof (induction b cs arbitrary: k rule: sched_from.induct)
  case (2 b c cs)
  then show ?case by (cases k) (auto split: if_splits)
qed simp

lemma sched_length: "co_wf b cs \<Longrightarrow> length (sched_from b cs) < length cs"
  by (induction b cs rule: sched_from.induct) (auto split: if_splits)

lemma shift_up_spec:
  "co_wf b cs \<Longrightarrow> length (sched_from b cs) + 2 \<le> length cs \<Longrightarrow>
   \<exists>vs. shift_up x cs = Some (x # vs) \<and> co_wf b vs \<and> sched_from b vs = sched_from b cs \<and> length cs = Suc (length vs)"
proof (induction b cs arbitrary: x rule: sched_from.induct)
  case (2 b c cs)
  show ?case
  proof (cases "c_func c = 0")
    case True
    with "2.prems" show ?thesis by (cases cs) auto
  next
    case False
    with "2.prems" 2(1) [of c] obtain vs where "shift_up c cs = Some (c # vs)" "co_wf (b + c_time c) vs"
      "sched_from (b + c_time c) vs = sched_from (b + c_time c) cs" "length cs = Suc (length vs)" by auto
    with False "2.prems" show ?thesis by simp
  qed
qed simp

lemma due_insert_front: "(\<And>y. y \<in> set xs \<Longrightarrow> fst e < fst y) \<Longrightarrow> due_insert e xs = e # xs"
  by (simp add: due_insert_def filter_empty_conv) (meson filter_True linorder_not_less)

lemma due_insert_Cons: "fst y \<le> fst e \<Longrightarrow> due_insert e (y # xs) = y # due_insert e xs"
  by (simp add: due_insert_def)

lemma timeout_walk:
  "co_wf b cs \<Longrightarrow> length (sched_from b cs) + 2 \<le> length cs \<Longrightarrow> 0 \<le> b \<Longrightarrow> 0 \<le> t \<Longrightarrow> b + t < 2147483648 \<Longrightarrow> f \<noteq> 0 \<Longrightarrow>
   \<exists>us t' p ps vs. to_find t cs = Some (us, t', p # ps) \<and>
     shift_up \<lparr>c_time = t', c_id = i, c_arg = a, c_func = f\<rparr> (p\<lparr>c_time := c_int (c_time p - t')\<rparr> # ps) = Some vs \<and>
     co_wf b (us @ vs) \<and> sched_from b (us @ vs) = due_insert (b + t, i, a, f) (sched_from b cs) \<and> length (us @ vs) = length cs"
proof (induction b cs arbitrary: t rule: sched_from.induct)
  case (2 b c cs)
  show ?case
  proof (cases "c_func c \<noteq> 0 \<and> c_time c \<le> t")
    case True
    with "2.prems" have c: "c_int (t - c_time c) = t - c_time c" by (intro c_int_id) auto
    from 2(1) [of "t - c_time c"] "2.prems" True obtain us t' p ps vs where
      *: "to_find (t - c_time c) cs = Some (us, t', p # ps)"
      "shift_up \<lparr>c_time = t', c_id = i, c_arg = a, c_func = f\<rparr> (p\<lparr>c_time := c_int (c_time p - t')\<rparr> # ps) = Some vs"
      "co_wf (b + c_time c) (us @ vs)"
      "sched_from (b + c_time c) (us @ vs) = due_insert (b + t, i, a, f) (sched_from (b + c_time c) cs)"
      "length (us @ vs) = length cs" by auto
    then have "to_find t (c # cs) = Some (c # us, t', p # ps)" using True c by simp
    moreover have "co_wf b ((c # us) @ vs)" using * True "2.prems" by simp
    moreover have "sched_from b ((c # us) @ vs) = due_insert (b + t, i, a, f) (sched_from b (c # cs))"
      using * True by (simp add: due_insert_Cons)
    moreover have "length ((c # us) @ vs) = length (c # cs)" using * by simp
    ultimately show ?thesis using *(2) by blast
  next
    case False
    let ?p = "c\<lparr>c_time := c_int (c_time c - t)\<rparr>" and ?x = "\<lparr>c_time = t, c_id = i, c_arg = a, c_func = f\<rparr>"
    have p: "co_wf (b + t) (?p # cs) \<and> sched_from (b + t) (?p # cs) = sched_from b (c # cs)"
    proof (cases "c_func c = 0")
      case on: False
      have "c_int (c_time c - t) = c_time c - t" using on False "2.prems" by (intro c_int_id) auto
      with on False "2.prems" show ?thesis by simp
    qed (use "2.prems" in simp)
    with "2.prems" have "length (sched_from (b + t) (?p # cs)) + 2 \<le> length (?p # cs)" by simp
    from shift_up_spec [OF conjunct1 [OF p] this, of ?x] obtain vs where
      v: "shift_up ?x (?p # cs) = Some (?x # vs)" "co_wf (b + t) vs" "sched_from (b + t) vs = sched_from (b + t) (?p # cs)"
        "length (?p # cs) = Suc (length vs)" by blast
    have "to_find t (c # cs) = Some ([], t, c # cs)" using False by auto
    moreover have "co_wf b ([] @ ?x # vs)" using v(2) "2.prems" by simp
    moreover have "sched_from b ([] @ ?x # vs) = due_insert (b + t, i, a, f) (sched_from b (c # cs))"
    proof -
      have "b + t < fst y" if "y \<in> set (sched_from b (c # cs))" for y
        using that False "2.prems" sched_ge [of "b + c_time c" cs y] by (auto split: if_splits)
      then have "due_insert (b + t, i, a, f) (sched_from b (c # cs)) = (b + t, i, a, f) # sched_from b (c # cs)"
        by (intro due_insert_front) simp
      with v(3) p \<open>f \<noteq> 0\<close> show ?thesis by simp
    qed
    moreover have "length ([] @ ?x # vs) = length (c # cs)" using v(4) by simp
    ultimately show ?thesis using v(1) by blast
  qed
qed simp

lemma timeout_cases:
  assumes "co_ok s" "2 \<le> length (callout s)" "0 \<le> tim" "tim < 2147483648" "f \<noteq> 0"
  shows "if length (sched s) + 2 \<le> length (callout s)
    then \<exists>s'. timeout f a tim s = Inr (c_int (timeid s + 1), s') \<and> co_ok s' \<and>
      sched s' = due_insert (tim, c_int (timeid s + 1), a, f) (sched s) \<and>
      called s' = called s \<and> timeid s' = c_int (timeid s + 1) \<and> length (callout s') = length (callout s)
    else timeout f a tim s = Inl TableOverflow"
proof -
  let ?n = "length (callout s)"
  have "c_func (callout s ! (?n - 2)) \<noteq> 0 \<longleftrightarrow> ?n - 2 < length (sched s)" using sched_on [OF assms(1), of "?n - 2"] assms(2) by simp
  then have on: "c_func (callout s ! (?n - 2)) \<noteq> 0 \<longleftrightarrow> \<not> length (sched s) + 2 \<le> ?n"
    using sched_length [OF assms(1)] assms(2) by linarith
  show ?thesis
  proof (cases "length (sched s) + 2 \<le> ?n")
    case True
    from timeout_walk [OF assms(1) this _ assms(3) _ assms(5), where a = a and i = "c_int (timeid s + 1)"] assms(4)
    obtain us t' p ps vs where "to_find tim (callout s) = Some (us, t', p # ps)"
      "shift_up \<lparr>c_time = t', c_id = c_int (timeid s + 1), c_arg = a, c_func = f\<rparr> (p\<lparr>c_time := c_int (c_time p - t')\<rparr> # ps) = Some vs"
      "co_wf 0 (us @ vs)" "sched_from 0 (us @ vs) = due_insert (tim, c_int (timeid s + 1), a, f) (sched s)"
      "length (us @ vs) = length (callout s)" by auto
    with on True assms(2) show ?thesis by (simp add: timeout_def Let_def)
  next
    case False
    with on assms(2) show ?thesis by (simp add: timeout_def)
  qed
qed

lemma timeout_Inr:
  assumes "co_ok s" "0 \<le> tim" "tim < 2147483648" "f \<noteq> 0" "timeout f a tim s = Inr (i, s')"
  shows "co_ok s'" "sched s' = due_insert (tim, i, a, f) (sched s)" "called s' = called s" "length (callout s') = length (callout s)"
proof -
  have "2 \<le> length (callout s)" using assms(5) by (simp add: timeout_def split: if_splits)
  from timeout_cases [OF assms(1) this assms(2-4), of a] assms(5)
  show "co_ok s'" "sched s' = due_insert (tim, i, a, f) (sched s)" "called s' = called s" "length (callout s') = length (callout s)"
    by (auto split: if_splits)
qed

fun drop_id :: "int \<Rightarrow> timer list \<Rightarrow> timer list" where
  "drop_id i [] = []"
| "drop_id i (e # es) = (if fst (snd e) = i then es else e # drop_id i es)"

lemma drop_id_other: "e \<in> set es \<Longrightarrow> fst (snd e) \<noteq> i \<Longrightarrow> e \<in> set (drop_id i es)"
  by (induction es) auto

lemma co_move_spec:
  "co_wf b cs \<Longrightarrow>
   \<exists>ds. co_move (x # cs) = Some ds \<and> co_wf b ds \<and> sched_from b ds = sched_from b cs \<and> length ds = Suc (length cs)"
proof (induction b cs arbitrary: x rule: sched_from.induct)
  case (2 b c cs)
  show ?case
  proof (cases "c_func c = 0")
    case False
    with "2.prems" 2(1) [of c] obtain ds where "co_move (c # cs) = Some ds" "co_wf (b + c_time c) ds"
      "sched_from (b + c_time c) ds = sched_from (b + c_time c) cs" "length ds = Suc (length cs)" by auto
    with False "2.prems" show ?thesis by simp
  qed (use "2.prems" in simp)
qed simp

lemma ut_find_spec:
  "co_wf b cs \<Longrightarrow> 0 \<le> b \<Longrightarrow>
   \<exists>ds. ut_find i cs = Some ds \<and> co_wf b ds \<and> sched_from b ds = drop_id i (sched_from b cs) \<and> length ds = length cs"
proof (induction b cs rule: sched_from.induct)
  case (2 b c cs)
  show ?case
  proof (cases "c_func c \<noteq> 0 \<and> c_id c = i")
    case True
    with "2.prems" obtain d r where cs: "cs = d # r" by (cases cs) auto
    let ?d = "d\<lparr>c_time := c_int (c_time d + c_time c)\<rparr>"
    have t: "0 \<le> c_time c" "b + c_time c < 2147483648" "co_wf (b + c_time c) (d # r)" using True "2.prems" cs by auto
    have d: "co_wf b (?d # r) \<and> sched_from b (?d # r) = sched_from (b + c_time c) (d # r)"
    proof (cases "c_func d = 0")
      case False
      have "c_int (c_time d + c_time c) = c_time d + c_time c" using False t \<open>0 \<le> b\<close> by (intro c_int_id) auto
      with False t show ?thesis by (simp add: algebra_simps)
    qed (use t in simp)
    from co_move_spec [OF conjunct1 [OF d], of c] obtain ds where
      "co_move (c # ?d # r) = Some ds" "co_wf b ds" "sched_from b ds = sched_from b (?d # r)" "length ds = Suc (length (?d # r))" by blast
    with True cs d show ?thesis by simp
  next
    case False
    with "2.prems" 2(1) show ?thesis by (cases "c_func c = 0") auto
  qed
qed simp

lemma untimeout_spec:
  assumes "co_ok s"
  shows "\<exists>s'. untimeout i s = Some s' \<and> co_ok s' \<and> sched s' = drop_id i (sched s) \<and> called s' = called s \<and>
    timeid s' = timeid s \<and> length (callout s') = length (callout s)"
  using ut_find_spec [OF assms, of i] by (auto simp: untimeout_def)

subsection \<open>Counting down\<close>

abbreviation pass :: "int \<Rightarrow> timer \<Rightarrow> timer" where
  "pass n e \<equiv> (max 0 (fst e - n), snd e)"

lemma co_tick_spec:
  "co_wf b cs \<Longrightarrow> 0 \<le> b \<Longrightarrow> 0 \<le> d \<Longrightarrow> d < 2147483648 \<Longrightarrow>
   \<exists>ds. co_tick d cs = Some ds \<and> co_wf 0 ds \<and> sched_from 0 ds = map (pass (b + d)) (sched_from b cs) \<and> length ds = length cs"
proof (induction b cs arbitrary: d rule: sched_from.induct)
  case (2 b c cs)
  show ?case
  proof (cases "c_time c < d \<and> c_func c \<noteq> 0")
    case True
    with "2.prems" have "c_int (d - c_time c) = d - c_time c" by (intro c_int_id) auto
    with True 2(1) [of "d - c_time c"] "2.prems" show ?thesis by auto
  next
    case False
    show ?thesis
    proof (cases "c_func c = 0")
      case on: False
      have t: "c_int (c_time c - d) = c_time c - d" using on False "2.prems" by (intro c_int_id) auto
      have later: "co_wf b' ds \<Longrightarrow> 0 \<le> k \<Longrightarrow> k \<le> b' \<Longrightarrow>
        co_wf (b' - k) ds \<and> sched_from (b' - k) ds = map (pass k) (sched_from b' ds)" for b' k ds
      proof (induction b' ds rule: sched_from.induct)
        case (2 b' e ds)
        then show ?case using 2(1) by (auto simp: algebra_simps max_def split: if_splits)
      qed simp
      have n: "b + c_time c - (b + d) = c_time c - d" by simp
      from later [of "b + c_time c" cs "b + d", unfolded n] on False "2.prems" t show ?thesis by (auto simp: max_def)
    qed (use "2.prems" in simp)
  qed
qed simp

lemma co_skip_spec:
  "co_wf 0 cs \<Longrightarrow> 0 \<le> d \<Longrightarrow> d < 2147483648 \<Longrightarrow>
   \<exists>ds. co_skip d cs = Some ds \<and> co_wf 0 ds \<and> sched_from 0 ds = map (pass d) (sched_from 0 cs) \<and> length ds = length cs"
proof (induction cs)
  case (Cons c cs)
  show ?case
  proof (cases "c_time c \<le> 0 \<and> c_func c \<noteq> 0")
    case True
    with Cons.prems have "c_time c = 0" by auto
    with True Cons show ?thesis by auto
  next
    case False
    then have "co_skip d (c # cs) = co_tick d (c # cs)" by auto
    with co_tick_spec [OF Cons.prems(1) order_refl Cons.prems(2,3)] show ?thesis by simp
  qed
qed simp

lemma due_head: "co_wf 0 cs \<Longrightarrow> e \<in> set (sched_from 0 cs) \<Longrightarrow> fst e \<le> 0 \<Longrightarrow> c_time (hd cs) \<le> 0"
  using sched_ge [of "c_time (hd cs)" "tl cs" e] by (cases cs) (auto split: if_splits)

lemma clock_callout_spec:
  assumes "co_ok s" "0 \<le> n" "n < 2147483648"
  shows "\<exists>s'. clock_callout n s = Some s' \<and> co_ok s' \<and> sched s' = map (pass n) (sched s) \<and> called s' = called s \<and>
    length (callout s') = length (callout s) \<and> ((\<exists>e\<in>set (sched s'). fst e = 0) \<longrightarrow> poked s')"
proof -
  from assms(1) obtain c cs where c: "callout s = c # cs" by (cases "callout s") auto
  obtain ds where ds: "(if c_func c \<noteq> 0 then co_skip n (callout s) else Some (callout s)) = Some ds" "co_wf 0 ds"
    "sched_from 0 ds = map (pass n) (sched s)" "length ds = length (callout s)"
    using co_skip_spec [OF assms] assms(1) c by (cases "c_func c = 0") auto
  obtain d ds' where d: "ds = d # ds'" using ds(2) by (cases ds) auto
  have "\<exists>e\<in>set (sched_from 0 ds). fst e = 0 \<Longrightarrow> c_time (hd ds) \<le> 0" using due_head [OF ds(2)] by auto
  moreover have "clock_callout n s = Some (s\<lparr>callout := ds, poked := (poked s \<or> c_time (hd ds) \<le> 0)\<rparr>)"
    using ds(1) c by (simp add: clock_callout_def)
  ultimately show ?thesis using ds(2-4) by simp
qed

subsection \<open>Running what is due\<close>

abbreviation due :: "timer list \<Rightarrow> timer list" where
  "due \<equiv> filter (\<lambda>e. fst e \<le> 0)"

text \<open>What \<open>timein\<close> expects of the functions it calls: they may arm timers, but none that is due at
  once, and they cancel nothing.\<close>

definition co_service :: "(nat \<Rightarrow> int \<Rightarrow> cost \<Rightarrow> cost) \<Rightarrow> bool" where
  "co_service g \<longleftrightarrow> (\<forall>f a s. co_ok s \<longrightarrow> co_ok (g f a s) \<and> due (sched (g f a s)) = due (sched s) \<and>
     set (sched s) \<subseteq> set (sched (g f a s)) \<and> called (g f a s) = called s)"

lemma due_mem: "due xs = e # es \<Longrightarrow> e \<in> set xs \<and> fst e \<le> 0"
  by (metis (mono_tags, lifting) list.set_intros(1) mem_Collect_eq set_filter)

lemma due_prefix: "co_wf b cs \<Longrightarrow> 0 \<le> b \<Longrightarrow> c_func c \<noteq> 0 \<Longrightarrow> due (sched_from b cs) = e # es \<Longrightarrow>
  \<exists>xs. sched_from b cs = e # xs \<and> due xs = es"
proof (induction b cs rule: sched_from.induct)
  case (2 b c cs)
  show ?case
  proof (cases "b + c_time c \<le> 0")
    case False
    have "due (sched_from (b + c_time c) cs) = []" if "c_func c \<noteq> 0"
    proof -
      have "\<not> fst y \<le> 0" if "y \<in> set (sched_from (b + c_time c) cs)" for y
        using that False \<open>c_func c \<noteq> 0\<close> "2.prems" sched_ge [of "b + c_time c" cs y] by auto
      then show ?thesis by (simp add: filter_empty_conv)
    qed
    with False "2.prems" show ?thesis by (auto split: if_splits)
  qed (use "2.prems" in \<open>auto split: if_splits\<close>)
qed simp

lemma timein_loop_spec:
  assumes "co_service g"
  shows "co_ok s \<Longrightarrow> due (sched s) = es \<Longrightarrow>
    \<exists>s'. timein_loop g s = Some s' \<and> co_ok s' \<and> due (sched s') = [] \<and> called s' = called s @ map snd es \<and>
      (\<forall>e\<in>set (sched s). 0 < fst e \<longrightarrow> e \<in> set (sched s'))"
proof (induction es arbitrary: s)
  case Nil
  from Nil(1) obtain c cs where c: "callout s = c # cs" by (cases "callout s") auto
  with Nil have "\<not> (c_func c \<noteq> 0 \<and> c_time c \<le> 0)" by auto
  then have "timein_loop g s = Some s" using c by (subst timein_loop.simps) auto
  with Nil show ?case by simp
next
  case (Cons e es)
  from Cons.prems obtain c cs where c: "callout s = c # cs" by (cases "callout s") auto
  have on: "c_func c \<noteq> 0" using Cons.prems c by (auto split: if_splits)
  from due_prefix [OF Cons.prems(1) order_refl on Cons.prems(2)] obtain xs where
    xs: "sched s = e # xs" "due xs = es" by blast
  have wf: "co_wf (c_time c) cs" "c_time c = fst e" "e = (c_time c, c_id c, c_arg c, c_func c)" "xs = sched_from (c_time c) cs"
    using Cons.prems(1) xs(1) on c by auto
  have e: "fst e \<le> 0" using due_mem [OF Cons.prems(2)] by simp
  have "0 \<le> c_time c" using Cons.prems(1) on c by simp
  with e wf(2) have t: "c_time c = 0" by linarith
  obtain ds where ds: "co_move (c # cs) = Some ds" "co_wf 0 ds" "sched_from 0 ds = xs"
    using co_move_spec [OF wf(1)] wf(4) t by auto
  define s1 where "s1 = co_call g c (s\<lparr>callout := ds\<rparr>)"
  have "snd e = (c_id c, c_arg c, c_func c)" by (subst wf(3)) simp
  then have s1e: "s1 = g (c_func c) (c_arg c) (s\<lparr>callout := ds, called := called s @ [snd e]\<rparr>)"
    by (simp add: s1_def co_call_def)
  have s1: "co_ok s1" "due (sched s1) = es" "set xs \<subseteq> set (sched s1)" "called s1 = called s @ [snd e]"
    using assms [unfolded co_service_def, rule_format, of "s\<lparr>callout := ds, called := called s @ [snd e]\<rparr>" "c_func c" "c_arg c"]
      ds(2,3) xs(2) s1e by simp_all
  have "timein_loop g s = timein_loop g s1"
    using c on t ds(1) by (simp add: timein_loop.simps [of g s] s1_def)
  with Cons.IH [OF s1(1,2)] s1 xs(1) e show ?case by auto
qed

lemma timein_spec:
  assumes "co_service g" "co_ok s"
  shows "\<exists>s'. timein g s = Some s' \<and> co_ok s' \<and> due (sched s') = [] \<and> called s' = called s @ map snd (due (sched s)) \<and>
      (\<forall>e\<in>set (sched s). 0 < fst e \<longrightarrow> e \<in> set (sched s'))"
proof -
  from assms(2) obtain c cs where c: "callout s = c # cs" by (cases "callout s") auto
  show ?thesis
  proof (cases "c_func c \<noteq> 0 \<and> c_time c \<le> 0")
    case True
    with timein_loop_spec [OF assms refl] c show ?thesis by (simp add: timein_def)
  next
    case False
    have "due (sched s) = []"
    proof (rule ccontr)
      assume d: "due (sched s) \<noteq> []"
      then have on: "c_func c \<noteq> 0" using c by (cases "c_func c = 0") simp_all
      from d obtain e es where "due (sched s) = e # es" by (cases "due (sched s)") auto
      have "e \<in> set (sched s)" "fst e \<le> 0" using due_mem [OF \<open>due (sched s) = e # es\<close>] by simp_all
      from due_head [OF assms(2) this] c False on show False by simp
    qed
    with False c assms(2) show ?thesis by (auto simp: timein_def)
  qed
qed

subsection \<open>A timer in a run of the system\<close>

text \<open>The events that reach the table: clock interrupts, timers armed and cancelled, and \<open>timein\<close>.\<close>

datatype cevent = Tick int | Arm nat int int int | Cancel int | Serve

inductive co_trace :: "(nat \<Rightarrow> int \<Rightarrow> cost \<Rightarrow> cost) \<Rightarrow> cost \<Rightarrow> cevent list \<Rightarrow> cost \<Rightarrow> bool" for g where
  co_nil: "co_trace g s [] s"
| co_tick: "co_trace g s es s1 \<Longrightarrow> 0 \<le> n \<Longrightarrow> n < 2147483648 \<Longrightarrow> clock_callout n s1 = Some s2 \<Longrightarrow> co_trace g s (es @ [Tick n]) s2"
| co_arm: "co_trace g s es s1 \<Longrightarrow> f \<noteq> 0 \<Longrightarrow> 0 \<le> t \<Longrightarrow> t < 2147483648 \<Longrightarrow> timeout f a t s1 = Inr (i, s2) \<Longrightarrow>
    co_trace g s (es @ [Arm f a t i]) s2"
| co_cancel: "co_trace g s es s1 \<Longrightarrow> untimeout i s1 = Some s2 \<Longrightarrow> co_trace g s (es @ [Cancel i]) s2"
| co_serve: "co_trace g s es s1 \<Longrightarrow> timein g s1 = Some s2 \<Longrightarrow> co_trace g s (es @ [Serve]) s2"

inductive_simps co_trace_snoc [simp]: "co_trace g s (es @ [e]) s'"

primrec ticks :: "cevent list \<Rightarrow> int" where
  "ticks [] = 0"
| "ticks (e # es) = (case e of Tick n \<Rightarrow> n | _ \<Rightarrow> 0) + ticks es"

lemma ticks_append [simp]: "ticks (es @ fs) = ticks es + ticks fs"
  by (induction es) simp_all

lemma due_insert_set [simp]: "set (due_insert e xs) = insert e (set xs)"
  by (auto simp: due_insert_def)

lemma co_trace_timer:
  assumes "co_service g"
  shows "co_trace g s es s' \<Longrightarrow> co_ok s \<Longrightarrow> (t, i, a, f) \<in> set (sched s) \<Longrightarrow> 0 \<le> t \<Longrightarrow> Cancel i \<notin> set es \<Longrightarrow>
    co_ok s' \<and> 0 \<le> ticks es \<and> (\<exists>rs. called s' = called s @ rs) \<and>
    ((max 0 (t - ticks es), i, a, f) \<in> set (sched s') \<or> (i, a, f) \<in> set (called s') \<and> t \<le> ticks es)"
proof (induction rule: co_trace.induct)
  case (co_tick s es s1 n s2)
  from co_tick.IH [OF co_tick.prems(1-3)] co_tick.prems(4)
  have I: "co_ok s1" "0 \<le> ticks es" "\<exists>rs. called s1 = called s @ rs"
    "(max 0 (t - ticks es), i, a, f) \<in> set (sched s1) \<or> (i, a, f) \<in> set (called s1) \<and> t \<le> ticks es" by auto
  from clock_callout_spec [OF I(1) co_tick.hyps(2,3)] co_tick.hyps(4)
  have C: "co_ok s2" "sched s2 = map (pass n) (sched s1)" "called s2 = called s1" by auto
  have m: "max 0 (max 0 (t - ticks es) - n) = max 0 (t - ticks (es @ [Tick n]))" using co_tick.hyps(2) by simp
  have "(max 0 (t - ticks es), i, a, f) \<in> set (sched s1) \<Longrightarrow> (max 0 (t - ticks (es @ [Tick n])), i, a, f) \<in> set (sched s2)"
    unfolding C(2) m [symmetric] by (force simp: image_iff)
  with I C co_tick.hyps(2) show ?case by auto
next
  case (co_arm s es s1 f' t' a' j s2)
  from co_arm.IH [OF co_arm.prems(1-3)] co_arm.prems(4)
  have I: "co_ok s1" "0 \<le> ticks es" "\<exists>rs. called s1 = called s @ rs"
    "(max 0 (t - ticks es), i, a, f) \<in> set (sched s1) \<or> (i, a, f) \<in> set (called s1) \<and> t \<le> ticks es" by auto
  from timeout_Inr [OF I(1) co_arm.hyps(3,4,2,5)] I show ?case by auto
next
  case (co_cancel s es s1 j s2)
  from co_cancel.IH [OF co_cancel.prems(1-3)] co_cancel.prems(4)
  have I: "co_ok s1" "0 \<le> ticks es" "\<exists>rs. called s1 = called s @ rs" "i \<noteq> j"
    "(max 0 (t - ticks es), i, a, f) \<in> set (sched s1) \<or> (i, a, f) \<in> set (called s1) \<and> t \<le> ticks es" by auto
  from untimeout_spec [OF I(1), of j] co_cancel.hyps(2)
  have "co_ok s2" "sched s2 = drop_id j (sched s1)" "called s2 = called s1" by auto
  with I drop_id_other [of "(max 0 (t - ticks es), i, a, f)" "sched s1" j] show ?case by auto
next
  case (co_serve s es s1 s2)
  from co_serve.IH [OF co_serve.prems(1-3)] co_serve.prems(4)
  have I: "co_ok s1" "0 \<le> ticks es" "\<exists>rs. called s1 = called s @ rs"
    "(max 0 (t - ticks es), i, a, f) \<in> set (sched s1) \<or> (i, a, f) \<in> set (called s1) \<and> t \<le> ticks es" by auto
  from timein_spec [OF assms I(1)] co_serve.hyps(2)
  have S: "co_ok s2" "called s2 = called s1 @ map snd (due (sched s1))"
    "\<forall>e\<in>set (sched s1). 0 < fst e \<longrightarrow> e \<in> set (sched s2)" by auto
  show ?case
  proof (cases "(max 0 (t - ticks es), i, a, f) \<in> set (sched s1) \<and> \<not> t \<le> ticks es")
    case True
    with S(3) have "(max 0 (t - ticks es), i, a, f) \<in> set (sched s2)" by force
    with I S show ?thesis by auto
  next
    case False
    have "(i, a, f) \<in> set (map snd (due (sched s1)))" if "(max 0 (t - ticks es), i, a, f) \<in> set (sched s1)"
      using that False by force
    with False I S show ?thesis by auto
  qed
qed auto

lemma co_trace_append: "co_trace g s (es @ fs) s' \<Longrightarrow> \<exists>s1. co_trace g s es s1 \<and> co_trace g s1 fs s'"
proof (induction fs arbitrary: s' rule: rev_induct)
  case (snoc f fs)
  have "co_trace g s ((es @ fs) @ [f]) s'" using snoc.prems by simp
  then show ?case
    unfolding co_trace_snoc by (elim disjE exE conjE) (auto dest!: snoc.IH)
qed (auto intro: co_nil)

subsection \<open>Properties\<close>

definition co_ex :: cost where
  "co_ex = \<lparr>callout = [\<lparr>c_time = 5, c_id = 1, c_arg = 20, c_func = 7\<rparr>, \<lparr>c_time = 4, c_id = 2, c_arg = 21, c_func = 7\<rparr>,
     \<lparr>c_time = 0, c_id = 0, c_arg = 0, c_func = 0\<rparr>, \<lparr>c_time = 0, c_id = 0, c_arg = 0, c_func = 0\<rparr>], timeid = 2, poked = False, called = []\<rparr>"

lemma co_ex_sel [simp]: "sched co_ex = [(5, 1, 20, 7), (9, 2, 21, 7)]" "co_ok co_ex" "timeid co_ex = 2" "called co_ex = []"
  "length (callout co_ex) = 4"
  by (simp_all add: co_ex_def)

text \<open>A function that arms itself again, as the periodic routines of the kernel do, keeps to the contract.\<close>

definition rearm :: "nat \<Rightarrow> int \<Rightarrow> cost \<Rightarrow> cost" where
  "rearm f a s = (if f = 0 then s else case timeout f a 10 s of Inl _ \<Rightarrow> s | Inr (_, s') \<Rightarrow> s')"

lemma co_service_rearm: "co_service rearm"
  unfolding co_service_def
proof (intro allI impI)
  fix f a s
  assume s: "co_ok s"
  show "co_ok (rearm f a s) \<and> due (sched (rearm f a s)) = due (sched s) \<and> set (sched s) \<subseteq> set (sched (rearm f a s)) \<and>
    called (rearm f a s) = called s"
  proof (cases "f \<noteq> 0 \<and> (\<exists>i s'. timeout f a 10 s = Inr (i, s'))")
    case True
    then obtain i s' where t: "timeout f a 10 s = Inr (i, s')" "f \<noteq> 0" by blast
    have "due (due_insert (10, i, a, f) xs) = due xs" for xs :: "timer list"
      by (induction xs) (auto simp: due_insert_def)
    with timeout_Inr [OF s _ _ t(2,1)] t show ?thesis by (auto simp: rearm_def)
  next
    case False
    then have "rearm f a s = s" by (auto simp: rearm_def split: sum.split)
    with s show ?thesis by simp
  qed
qed

text \<open>C4: The table of differences implements a list of timers with absolute times: \<open>timeout\<close> enters its timer
  behind all that are due no later, or panics exactly when one free entry is left; a clock interrupt of n ticks brings every timer
  n ticks nearer, down to 0, and asks for \<open>timein\<close> when one is due; \<open>untimeout\<close> takes out the first
  timer with the identifier and moves no other.\<close>

theorem callout_refines:
  assumes "co_ok s" "2 \<le> length (callout s)" "0 \<le> n" "n < 2147483648" "f \<noteq> 0"
  shows "(if length (sched s) + 2 \<le> length (callout s)
      then \<exists>s'. timeout f a n s = Inr (c_int (timeid s + 1), s') \<and> co_ok s' \<and>
        sched s' = filter (\<lambda>e. fst e \<le> n) (sched s) @ (n, c_int (timeid s + 1), a, f) # filter (\<lambda>e. n < fst e) (sched s)
      else timeout f a n s = Inl TableOverflow) \<and>
    (\<exists>s'. clock_callout n s = Some s' \<and> co_ok s' \<and> sched s' = map (\<lambda>e. (max 0 (fst e - n), snd e)) (sched s) \<and>
      ((\<exists>e\<in>set (sched s'). fst e = 0) \<longrightarrow> poked s')) \<and>
    (\<exists>s'. untimeout i s = Some s' \<and> co_ok s' \<and> sched s' = drop_id i (sched s))"
  using timeout_cases [OF assms(1-5), of a] clock_callout_spec [OF assms(1,3,4)] untimeout_spec [OF assms(1), of i]
  by (auto simp: due_insert_def split: if_splits)

theorem callout_refines_witness:
  "\<exists>s'. timeout 7 22 6 co_ex = Inr (3, s') \<and> sched s' = [(5, 1, 20, 7), (6, 3, 22, 7), (9, 2, 21, 7)]"
  using conjunct1 [OF callout_refines [of co_ex 6 7 22]] by (auto simp: c_int_def)

lemma filter_le_gt: "sorted_wrt (\<le>) (map fst xs) \<Longrightarrow> filter (\<lambda>e. fst e \<le> t) xs @ filter (\<lambda>e. t < fst e) xs = (xs :: timer list)"
proof (induction xs)
  case (Cons e xs)
  show ?case
  proof (cases "fst e \<le> t")
    case False
    with Cons.prems have "\<forall>x\<in>set xs. t < fst x" by auto
    then have "filter (\<lambda>e. fst e \<le> t) xs = []" "filter (\<lambda>e. t < fst e) xs = xs"
      by (auto simp: filter_empty_conv filter_id_conv)
    with False show ?thesis by simp
  qed (use Cons in simp)
qed simp

text \<open>A timer that is cancelled before anything else happens leaves no trace: the schedule is as before it was armed.\<close>

theorem timeout_untimeout:
  assumes "co_ok s" "0 \<le> t" "t < 2147483648" "f \<noteq> 0" "timeout f a t s = Inr (i, s1)" "\<forall>e\<in>set (sched s). fst (snd e) \<noteq> i"
  shows "\<exists>s2. untimeout i s1 = Some s2 \<and> co_ok s2 \<and> sched s2 = sched s"
proof -
  note T = timeout_Inr [OF assms(1-5)]
  have "drop_id i (us @ (t, i, a, f) # vs) = us @ vs" if "\<forall>e\<in>set us. fst (snd e) \<noteq> i" for us vs :: "timer list"
    using that by (induction us) auto
  moreover have "filter (\<lambda>e. fst e \<le> t) xs @ filter (\<lambda>e. t < fst e) xs = xs" if "sorted_wrt (\<le>) (map fst xs)" for xs :: "timer list"
    using that by (rule filter_le_gt)
  ultimately have "drop_id i (sched s1) = sched s"
    using assms(6) sched_sorted [OF assms(1)] by (simp add: T(2) due_insert_def)
  with untimeout_spec [OF T(1), of i] show ?thesis by auto
qed

theorem timeout_untimeout_witness:
  "\<exists>s1 s2. timeout 7 22 6 co_ex = Inr (3, s1) \<and> untimeout 3 s1 = Some s2 \<and> sched s2 = sched co_ex"
proof -
  obtain s1 where s1: "timeout 7 22 6 co_ex = Inr (3, s1)"
    using timeout_cases [of co_ex 6 7 22] by (auto simp: c_int_def)
  from timeout_untimeout [OF _ _ _ _ this] s1 show ?thesis by auto
qed

text \<open>C22: \<open>timein\<close> ends, with functions that arm no timer for at once, and calls exactly the timers that are due, in the order of the table;
  every other timer stays.\<close>

theorem timein_runs_due:
  assumes "co_service g" "co_ok s"
  shows "\<exists>s'. timein g s = Some s' \<and> co_ok s' \<and> called s' = called s @ map snd (filter (\<lambda>e. fst e \<le> 0) (sched s)) \<and>
    (\<forall>e\<in>set (sched s'). 0 < fst e) \<and> (\<forall>e\<in>set (sched s). 0 < fst e \<longrightarrow> e \<in> set (sched s'))"
proof -
  from timein_spec [OF assms] obtain s' where s': "timein g s = Some s'" "co_ok s'" "due (sched s') = []"
    "called s' = called s @ map snd (due (sched s))" "\<forall>e\<in>set (sched s). 0 < fst e \<longrightarrow> e \<in> set (sched s')" by blast
  from s'(3) have "\<forall>e\<in>set (sched s'). 0 < fst e" by (auto simp: filter_empty_conv not_le)
  with s' show ?thesis by blast
qed

theorem timein_runs_due_witness:
  "\<exists>s1 s2. clock_callout 6 co_ex = Some s1 \<and> timein rearm s1 = Some s2 \<and> called s2 = [(1, 20, 7)] \<and> (3, 2, 21, 7) \<in> set (sched s2)"
proof -
  obtain s1 where s1: "clock_callout 6 co_ex = Some s1" "co_ok s1" "sched s1 = [(0, 1, 20, 7), (3, 2, 21, 7)]" "called s1 = []"
    using clock_callout_spec [of co_ex 6] by auto
  from timein_runs_due [OF co_service_rearm s1(2)] s1 show ?thesis by auto
qed

text \<open>C21: A timer armed for t ticks runs no earlier and is not lost: as long as the clock has counted T < t ticks since, it is
  in the table with t - T to go, whatever other timers are armed, run or cancelled, and the first \<open>timein\<close> after t ticks calls its function.\<close>

theorem timer_fires:
  assumes "co_service g" "co_ok s" "f \<noteq> 0" "0 \<le> t" "t < 2147483648" "timeout f a t s = Inr (i, s0)"
    and "co_trace g s0 es s'" "Cancel i \<notin> set es"
  shows "if ticks es < t then (t - ticks es, i, a, f) \<in> set (sched s')
    else es = fs @ [Serve] \<longrightarrow> (i, a, f) \<in> set (called s')"
proof -
  note T = timeout_Inr [OF assms(2,4,5,3,6)]
  have m: "(t, i, a, f) \<in> set (sched s0)" by (simp add: T(2))
  note I = co_trace_timer [OF assms(1) assms(7) T(1) m assms(4,8)]
  have "(i, a, f) \<in> set (called s')" if le: "t \<le> ticks es" and es: "es = fs @ [Serve]"
  proof -
    obtain s1 where s1: "co_trace g s0 fs s1" "timein g s1 = Some s'"
      using assms(7) unfolding es by auto
    have "Cancel i \<notin> set fs" "ticks fs = ticks es" using assms(8) es by auto
    with co_trace_timer [OF assms(1) s1(1) T(1) m assms(4)] le
    have "co_ok s1" "(0, i, a, f) \<in> set (sched s1) \<or> (i, a, f) \<in> set (called s1)" by auto
    with timein_spec [OF assms(1), of s1] s1(2) show ?thesis by force
  qed
  with I show ?thesis by (auto simp: max_def split: if_splits)
qed

theorem timer_fires_witness:
  "\<exists>s0 s1 s2. timeout 7 22 6 co_ex = Inr (3, s0) \<and> clock_callout 8 s0 = Some s1 \<and> timein rearm s1 = Some s2 \<and>
    (3, 22, 7) \<in> set (called s2)"
proof -
  obtain s0 where s0: "timeout 7 22 6 co_ex = Inr (3, s0)" "co_ok s0"
    using timeout_cases [of co_ex 6 7 22] by (auto simp: c_int_def)
  obtain s1 where s1: "clock_callout 8 s0 = Some s1" "co_ok s1" using clock_callout_spec [OF s0(2), of 8] by auto
  obtain s2 where s2: "timein rearm s1 = Some s2" using timein_spec [OF co_service_rearm s1(2)] by auto
  have "co_trace rearm s0 ([] @ [Tick 8]) s1" by (rule co_tick [OF co_nil]) (use s1 in simp_all)
  from co_serve [OF this s2] have "co_trace rearm s0 (([] @ [Tick 8]) @ [Serve]) s2" .
  from timer_fires [OF co_service_rearm _ _ _ _ s0(1) this, where fs = "[Tick 8]"] s0 s1(1) s2 show ?thesis by auto
qed

end
