(* ===== verification/Ring.thy ===== *)
theory Ring imports Kbase begin

text \<open>
  Circular doubly linked lists with a header, as the buffer cache keeps them: \<open>ring nx pv h xs\<close> says that from
  the header \<open>h\<close> the links \<open>nx\<close> go through \<open>xs\<close> and back to \<open>h\<close>, and \<open>pv\<close> the other way round.
  A node is unlinked through its two neighbours, whichever they are.
\<close>

fun linked :: "('a \<Rightarrow> 'a) \<Rightarrow> ('a \<Rightarrow> 'a) \<Rightarrow> 'a list \<Rightarrow> bool" where
  "linked nx pv (x # y # r) = (nx x = y \<and> pv y = x \<and> linked nx pv (y # r))"
| "linked nx pv _ = True"

definition ring :: "('a \<Rightarrow> 'a) \<Rightarrow> ('a \<Rightarrow> 'a) \<Rightarrow> 'a \<Rightarrow> 'a list \<Rightarrow> bool" where
  "ring nx pv h xs \<longleftrightarrow> distinct (h # xs) \<and> linked nx pv (h # xs @ [h])"

text \<open>The walk of the code: from \<open>x\<close> on until the header comes up, at most \<open>n\<close> nodes.\<close>

primrec ring_walk :: "nat \<Rightarrow> ('a \<Rightarrow> 'a) \<Rightarrow> 'a \<Rightarrow> 'a \<Rightarrow> 'a list" where
  "ring_walk 0 nx h x = []"
| "ring_walk (Suc n) nx h x = (if x = h then [] else x # ring_walk n nx h (nx x))"

lemma linked_append: "linked nx pv (us @ x # vs) \<longleftrightarrow> linked nx pv (us @ [x]) \<and> linked nx pv (x # vs)"
proof (induction us)
  case (Cons u us)
  then show ?case by (cases us) auto
qed simp

lemma linked_cong:
  "(\<And>x. x \<in> set (butlast zs) \<Longrightarrow> nx x = nx' x) \<Longrightarrow> (\<And>x. x \<in> set (tl zs) \<Longrightarrow> pv x = pv' x) \<Longrightarrow>
   linked nx pv zs = linked nx' pv' zs"
proof (induction nx pv zs rule: linked.induct)
  case (1 nx pv x y r)
  have "linked nx pv (y # r) = linked nx' pv' (y # r)"
    by (rule 1(1)) (use "1.prems" in \<open>auto split: if_splits\<close>)
  with "1.prems" show ?case by simp
qed auto

lemma Cons_snocE:
  obtains ws p where "h # us = ws @ [p]" "last (h # us) = p"
  using that [of "butlast (h # us)" "last (h # us)"] append_butlast_last_id [of "h # us"] by simp

lemma last_hd_in: "last (h # us) \<in> set (h # us @ vs)" "hd (vs @ [h]) \<in> set (h # us @ vs)"
proof -
  show "last (h # us) \<in> set (h # us @ vs)" using last_in_set [of "h # us"] by auto
  show "hd (vs @ [h]) \<in> set (h # us @ vs)" by (cases vs) auto
qed

lemma ring_distinct: "ring nx pv h xs \<Longrightarrow> distinct xs \<and> h \<notin> set xs"
  by (simp add: ring_def)

lemma ring_cong:
  assumes "\<And>x. x \<in> set (h # xs) \<Longrightarrow> nx x = nx' x" "\<And>x. x \<in> set (h # xs) \<Longrightarrow> pv x = pv' x"
  shows "ring nx pv h xs = ring nx' pv' h xs"
proof -
  have "butlast (h # xs @ [h]) = h # xs" using butlast_snoc [of "h # xs" h] by simp
  then have "linked nx pv (h # xs @ [h]) = linked nx' pv' (h # xs @ [h])"
    using assms by (intro linked_cong) auto
  then show ?thesis by (simp add: ring_def)
qed

lemma ring_empty [simp]: "ring nx pv h [] \<longleftrightarrow> nx h = h \<and> pv h = h"
  by (simp add: ring_def)

lemma ring_next:
  assumes "ring nx pv h (us @ x # vs)"
  shows "nx x = hd (vs @ [h])" "pv x = last (h # us)"
proof -
  have "linked nx pv ((h # us) @ x # (vs @ [h]))" using assms by (simp add: ring_def)
  then have l: "linked nx pv ((h # us) @ [x])" "linked nx pv (x # vs @ [h])"
    using linked_append [of nx pv "h # us" x "vs @ [h]"] by simp_all
  obtain ws p where p: "h # us = ws @ [p]" "last (h # us) = p" by (rule Cons_snocE)
  have "linked nx pv (ws @ p # [x])" using l(1) unfolding p(1) by simp
  then show "pv x = last (h # us)" unfolding p(2) using linked_append [of nx pv ws p "[x]"] by simp
  from l(2) show "nx x = hd (vs @ [h])" by (cases vs) auto
qed

lemma ring_first: "ring nx pv h xs \<Longrightarrow> nx h = hd (xs @ [h])" and ring_last: "ring nx pv h xs \<Longrightarrow> pv h = last (h # xs)"
proof -
  assume r: "ring nx pv h xs"
  then show "nx h = hd (xs @ [h])" by (cases xs) (auto simp: ring_def)
  obtain ws p where p: "h # xs = ws @ [p]" "last (h # xs) = p" by (rule Cons_snocE)
  have "linked nx pv ((h # xs) @ [h])" using r by (simp add: ring_def)
  then have "linked nx pv (ws @ p # [h])" unfolding p(1) by simp
  then show "pv h = last (h # xs)" unfolding p(2) using linked_append [of nx pv ws p "[h]"] by simp
qed

lemma ring_in: "ring nx pv h xs \<Longrightarrow> x \<in> set (h # xs) \<Longrightarrow> nx x \<in> set (h # xs) \<and> pv x \<in> set (h # xs)"
proof -
  assume r: "ring nx pv h xs" and x: "x \<in> set (h # xs)"
  show "nx x \<in> set (h # xs) \<and> pv x \<in> set (h # xs)"
  proof (cases "x = h")
    case True
    with ring_first [OF r] ring_last [OF r] show ?thesis by (cases xs) auto
  next
    case False
    with x obtain us vs where s: "xs = us @ x # vs" by (meson set_ConsD split_list)
    have "hd (vs @ [h]) \<in> set (h # xs)" "last (h # us) \<in> set (h # xs)"
      unfolding s by (cases vs, simp, simp) (cases us rule: rev_cases, simp, simp)
    with ring_next [OF r [unfolded s]] show ?thesis by simp
  qed
qed

lemma distinct_links:
  assumes "distinct (h # us @ vs)"
  obtains ws p n ts where "h # us = ws @ [p]" "vs @ [h] = n # ts" "last (h # us) = p" "hd (vs @ [h]) = n"
    "p \<notin> set ws" "n \<notin> set ts" "p \<notin> set vs" "n \<notin> set us" "set ws \<subseteq> set (h # us)" "set ts \<subseteq> set (h # vs)"
    "set (butlast (n # ts)) = set vs" "set (tl (h # us)) = set us"
proof -
  obtain ws p where p: "h # us = ws @ [p]" "last (h # us) = p" by (rule Cons_snocE)
  obtain n ts where n: "vs @ [h] = n # ts" "hd (vs @ [h]) = n" by (cases vs) auto
  have "distinct (h # us)" "distinct (vs @ [h])" using assms by auto
  then have d: "p \<notin> set ws" "n \<notin> set ts" unfolding p(1) n(1) by auto
  have "p \<in> set (h # us)" unfolding p(1) by simp
  then have "p \<notin> set vs" using assms by auto
  moreover have "n \<in> set (vs @ [h])" unfolding n(1) by simp
  then have "n \<notin> set us" using assms by auto
  moreover have "set ws \<subseteq> set (h # us)" unfolding p(1) by auto
  moreover have "set ts \<subseteq> set (vs @ [h])" unfolding n(1) by auto
  moreover have "butlast (n # ts) = vs" using n(1) butlast_snoc by metis
  ultimately show thesis using that [OF p(1) n(1) p(2) n(2) d] by simp
qed

lemma linked_replace:
  assumes d: "distinct (h # us @ vs)" and ms: "linked nx' pv' (last (h # us) # ms @ [hd (vs @ [h])])"
    and l: "linked nx pv (h # us)" "linked nx pv (vs @ [h])"
    and nx: "\<And>y. y \<in> set (h # us @ vs) \<Longrightarrow> y \<noteq> last (h # us) \<Longrightarrow> nx' y = nx y"
    and pv: "\<And>y. y \<in> set (h # us @ vs) \<Longrightarrow> y \<noteq> hd (vs @ [h]) \<Longrightarrow> pv' y = pv y"
  shows "linked nx' pv' (h # us @ ms @ vs @ [h])"
proof -
  from d obtain ws p n ts where E: "h # us = ws @ [p]" "vs @ [h] = n # ts" "last (h # us) = p" "hd (vs @ [h]) = n"
    "p \<notin> set ws" "n \<notin> set ts" "p \<notin> set vs" "n \<notin> set us" "set ws \<subseteq> set (h # us)" "set ts \<subseteq> set (h # vs)"
    "set (butlast (n # ts)) = set vs" "set (tl (h # us)) = set us" by (rule distinct_links)
  have "linked nx' pv' (h # us) = linked nx pv (h # us)"
  proof (rule linked_cong)
    fix x assume "x \<in> set (butlast (h # us))"
    then have "x \<in> set ws" unfolding E(1) by simp
    with E(5,9) nx [of x] show "nx' x = nx x" unfolding E(3) by auto
  next
    fix x assume "x \<in> set (tl (h # us))"
    then have "x \<in> set us" "x \<noteq> n" using E(8) by auto
    with pv [of x] show "pv' x = pv x" unfolding E(4) by simp
  qed
  then have 1: "linked nx' pv' (ws @ [p])" using l(1) unfolding E(1) by simp
  have "linked nx' pv' (vs @ [h]) = linked nx pv (vs @ [h])"
  proof (rule linked_cong)
    fix x assume "x \<in> set (butlast (vs @ [h]))"
    then have "x \<in> set vs" "x \<noteq> p" using E(7) by auto
    with nx [of x] show "nx' x = nx x" unfolding E(3) by simp
  next
    fix x assume "x \<in> set (tl (vs @ [h]))"
    then have "x \<in> set ts" unfolding E(2) by simp
    with E(6,10) pv [of x] show "pv' x = pv x" unfolding E(4) by auto
  qed
  then have 2: "linked nx' pv' (n # ts)" using l(2) unfolding E(2) by simp
  have 3: "linked nx' pv' (p # ms @ [n])" using ms unfolding E(3,4) .
  have "linked nx' pv' ((p # ms) @ n # ts)" using linked_append [of nx' pv' "p # ms" n ts] 2 3 by simp
  then have "linked nx' pv' (ws @ p # ms @ n # ts)" using linked_append [of nx' pv' ws p "ms @ n # ts"] 1 by simp
  moreover have "h # us @ ms @ vs @ [h] = ws @ p # ms @ n # ts"
    using E(1,2) by (metis append_Cons append_assoc append_Nil)
  ultimately show ?thesis by simp
qed

lemma ring_remove:
  assumes r: "ring nx pv h (us @ x # vs)"
    and nx: "\<And>y. y \<in> set (h # us @ vs) \<Longrightarrow> nx' y = (if y = pv x then nx x else nx y)"
    and pv: "\<And>y. y \<in> set (h # us @ vs) \<Longrightarrow> pv' y = (if y = nx x then pv x else pv y)"
  shows "ring nx' pv' h (us @ vs)"
proof -
  have d: "distinct (h # us @ vs)" using r by (auto simp: ring_def)
  note n = ring_next [OF r]
  have "linked nx pv ((h # us) @ x # (vs @ [h]))" using r by (simp add: ring_def)
  then have L: "linked nx pv ((h # us) @ [x])" "linked nx pv (x # vs @ [h])"
    using linked_append [of nx pv "h # us" x "vs @ [h]"] by simp_all
  obtain ws p where p: "h # us = ws @ [p]" "last (h # us) = p" by (rule Cons_snocE)
  have "linked nx pv (ws @ p # [x])" using L(1) unfolding p(1) by simp
  then have l: "linked nx pv (h # us)" unfolding p(1) using linked_append [of nx pv ws p "[x]"] by simp
  have l2: "linked nx pv (vs @ [h])" using L(2) by (cases vs) auto
  note m = last_hd_in [where h = h and us = us and vs = vs]
  have "linked nx' pv' (last (h # us) # [] @ [hd (vs @ [h])])"
    using nx [OF m(1)] pv [OF m(2)] unfolding n by (simp only: if_True append_Nil linked.simps simp_thms)
  from linked_replace [OF d this l l2] nx pv n have "linked nx' pv' (h # us @ [] @ vs @ [h])" by simp
  with d show ?thesis by (simp add: ring_def)
qed

lemma ring_insert:
  assumes r: "ring nx pv h (us @ vs)" and x: "x \<notin> set (h # us @ vs)"
    and nx: "\<And>y. y \<in> set (h # us @ vs) \<Longrightarrow> nx' y = (if y = last (h # us) then x else nx y)" "nx' x = hd (vs @ [h])"
    and pv: "\<And>y. y \<in> set (h # us @ vs) \<Longrightarrow> pv' y = (if y = hd (vs @ [h]) then x else pv y)" "pv' x = last (h # us)"
  shows "ring nx' pv' h (us @ x # vs)"
proof -
  have d: "distinct (h # us @ vs)" using r by (simp add: ring_def)
  obtain ws p where p: "h # us = ws @ [p]" "last (h # us) = p" by (rule Cons_snocE)
  obtain n ts where n: "vs @ [h] = n # ts" "hd (vs @ [h]) = n" by (cases vs) auto
  have "linked nx pv ((h # us) @ vs @ [h])" using r by (simp add: ring_def)
  then have "linked nx pv (ws @ p # n # ts)" unfolding p(1) n(1) by simp
  then have L: "linked nx pv (ws @ [p])" "linked nx pv (p # n # ts)" using linked_append [of nx pv ws p "n # ts"] by blast+
  then have l: "linked nx pv (h # us)" "linked nx pv (vs @ [h])" unfolding p(1) n(1) by simp_all
  note m = last_hd_in [where h = h and us = us and vs = vs]
  have "linked nx' pv' (last (h # us) # [x] @ [hd (vs @ [h])])"
    using nx(1) [OF m(1)] pv(1) [OF m(2)] nx(2) pv(2) by (simp only: if_True append_Cons append_Nil linked.simps simp_thms)
  from linked_replace [OF d this l] nx pv have "linked nx' pv' (h # us @ [x] @ vs @ [h])" by simp
  with d x show ?thesis by (auto simp: ring_def)
qed

lemma ring_walk_all:
  assumes r: "ring nx pv h xs" and n: "length xs \<le> n"
  shows "ring_walk n nx h (nx h) = xs"
proof -
  have w: "linked nx pv (a # ys @ [h]) \<Longrightarrow> h \<notin> set ys \<Longrightarrow> length ys \<le> m \<Longrightarrow> ring_walk m nx h (nx a) = ys" for a ys m
  proof (induction ys arbitrary: a m)
    case Nil
    then show ?case by (cases m) auto
  next
    case (Cons y ys)
    then obtain k where "m = Suc k" by (cases m) auto
    with Cons show ?case by auto
  qed
  show ?thesis by (rule w [of h]) (use r n in \<open>auto simp: ring_def\<close>)
qed

end
