(* ===== verification/Bio.thy ===== *)
theory Bio imports Ring begin

text \<open>
  The buffer cache of os/bio.c.  Headers are on two circular lists at once: the list of their hash
  bucket (or of \<open>bfreelist\<close>, for buffers without a block), through \<open>b_forw\<close> and \<open>b_back\<close>, and, while they are not busy, the list of
  available buffers, through \<open>av_forw\<close> and \<open>av_back\<close>.  A pointer is a \<open>bref\<close>: a buffer header, a bucket head
  of \<open>hbuf\<close>, \<open>bfreelist\<close>, or null.  Every flag of b_flags is a bit of its own, so the word is the set of its
  flags.

  A disk driver is seen through its queue: \<open>strategy\<close> puts a buffer into \<open>ioq\<close>, and at any later time \<open>io_end\<close> takes it out,
  transfers its data from or to \<open>disk\<close> or sets an error, and calls \<open>iodone\<close>, as the interrupt of a driver
  does.  An operation runs up to the next sleep; its result says where it sleeps.
\<close>

datatype bflag = B_READ | B_DONE | B_ERROR | B_BUSY | B_WANTED | B_AGE | B_ASYNC | B_DELWRI | B_STALE | B_LOPRI | B_WAIT

datatype bref = Buf nat | Hsh nat | Fre | Nul

datatype bchan = OnBuf bref | OnAsync

record buf =
  b_flags :: "bflag set"
  b_forw :: bref
  b_back :: bref
  av_forw :: bref
  av_back :: bref
  b_dev :: int
  b_bcount :: int
  b_data :: "int list"
  b_blkno :: int
  b_error :: int
  b_resid :: int
  b_start :: int

record bst =
  bh :: "bref \<Rightarrow> buf"
  v_buf :: nat
  v_hbuf :: nat
  bdevcnt :: int
  basyncnt :: int
  basynwait :: bool
  lbolt :: int
  u_err :: int
  ioq :: "bref list"
  disk :: "int \<Rightarrow> int \<Rightarrow> int list"
  bwoken :: "bchan list"
  v_pbuf :: nat
  pfreecnt :: nat
  pfreelist :: "nat option"
  pav :: "nat \<Rightarrow> nat option"

datatype gres = GBuf bref | GSleep bchan | GPanic

definition NODEV :: int where "NODEV = 4294967295"

definition bmajor :: "int \<Rightarrow> int" where "bmajor d = (d div 256) mod 128"

definition ltopblk :: "int \<Rightarrow> int \<Rightarrow> int" where "ltopblk b z = c_int (b * (z div 512))"

definition bhash :: "bst \<Rightarrow> int \<Rightarrow> int \<Rightarrow> bref" where
  "bhash s d b = Hsh (nat (c_int (d + b) AND (int (v_hbuf s) - 1)))"

definition bupd :: "bref \<Rightarrow> (buf \<Rightarrow> buf) \<Rightarrow> bst \<Rightarrow> bst" where
  "bupd x f s = s\<lparr>bh := (bh s)(x := f (bh s x))\<rparr>"

abbreviation fl :: "bst \<Rightarrow> bref \<Rightarrow> bflag set" where "fl s x \<equiv> b_flags (bh s x)"

definition fl_on :: "bflag set \<Rightarrow> bref \<Rightarrow> bst \<Rightarrow> bst" where "fl_on F x = bupd x (\<lambda>b. b\<lparr>b_flags := b_flags b \<union> F\<rparr>)"

definition fl_off :: "bflag set \<Rightarrow> bref \<Rightarrow> bst \<Rightarrow> bst" where "fl_off F x = bupd x (\<lambda>b. b\<lparr>b_flags := b_flags b - F\<rparr>)"

definition bwake :: "bchan \<Rightarrow> bst \<Rightarrow> bst" where "bwake c s = s\<lparr>bwoken := bwoken s @ [c]\<rparr>"

subsection \<open>The list of available buffers\<close>

definition notavail :: "bref \<Rightarrow> bst \<Rightarrow> bst" where
  "notavail x s =
     (let s1 = bupd (av_back (bh s x)) (\<lambda>b. b\<lparr>av_forw := av_forw (bh s x)\<rparr>) s;
          s2 = bupd (av_forw (bh s1 x)) (\<lambda>b. b\<lparr>av_back := av_back (bh s1 x)\<rparr>) s1
      in bupd Fre (\<lambda>b. b\<lparr>b_bcount := b_bcount b - 1\<rparr>) (fl_on {B_BUSY} x s2))"

definition av_first :: "bref \<Rightarrow> bst \<Rightarrow> bst" where
  "av_first x s =
     (let f = av_forw (bh s Fre); s1 = bupd f (\<lambda>b. b\<lparr>av_back := x\<rparr>) s;
          s2 = bupd x (\<lambda>b. b\<lparr>av_forw := f\<rparr>) s1;
          s3 = bupd Fre (\<lambda>b. b\<lparr>av_forw := x\<rparr>) s2
      in bupd x (\<lambda>b. b\<lparr>av_back := Fre\<rparr>) s3)"

definition av_last :: "bref \<Rightarrow> bst \<Rightarrow> bst" where
  "av_last x s =
     (let l = av_back (bh s Fre); s1 = bupd l (\<lambda>b. b\<lparr>av_forw := x\<rparr>) s;
          s2 = bupd x (\<lambda>b. b\<lparr>av_back := l\<rparr>) s1;
          s3 = bupd Fre (\<lambda>b. b\<lparr>av_back := x\<rparr>) s2
      in bupd x (\<lambda>b. b\<lparr>av_forw := Fre\<rparr>) s3)"

definition brelse_wake :: "bref \<Rightarrow> bst \<Rightarrow> bst" where
  "brelse_wake x s =
     (if B_WANTED \<in> fl s x then bwake (OnBuf x) s
      else if B_WANTED \<in> fl s Fre then bwake (OnBuf Fre) (fl_off {B_WANTED} Fre s)
      else s)"

definition brelse :: "bref \<Rightarrow> bst \<Rightarrow> bst" where
  "brelse x s =
     (let s1 = brelse_wake x s;
          s2 = (if B_ERROR \<in> fl s1 x
                then bupd x (\<lambda>b. b\<lparr>b_flags := (b_flags b \<union> {B_STALE, B_AGE}) - {B_ERROR, B_DELWRI}, b_error := 0\<rparr>) s1
                else s1);
          s3 = (if B_AGE \<in> fl s2 x then av_first x s2 else av_last x s2)
      in bupd Fre (\<lambda>b. b\<lparr>b_bcount := b_bcount b + 1\<rparr>) (fl_off {B_WANTED, B_BUSY, B_ASYNC, B_AGE} x s3))"

subsection \<open>Input and output\<close>

definition geterror :: "bref \<Rightarrow> bst \<Rightarrow> bst" where
  "geterror x s = (if B_ERROR \<in> fl s x then s\<lparr>u_err := (if b_error (bh s x) = 0 then 5 else b_error (bh s x))\<rparr> else s)"

definition iowait :: "bref \<Rightarrow> bst \<Rightarrow> bst option" where
  "iowait x s = (if B_DONE \<in> fl s x then Some (geterror x s) else None)"

definition iodone :: "bref \<Rightarrow> bst \<Rightarrow> bst" where
  "iodone x s =
     (let s1 = fl_off {B_LOPRI} x (fl_on {B_DONE} x s)
      in if B_ASYNC \<in> fl s1 x
         then (let s2 = (if B_READ \<in> fl s1 x then s1 else s1\<lparr>basyncnt := basyncnt s1 - 1\<rparr>);
                   s3 = (if basyncnt s2 = 0 \<and> basynwait s2 then bwake OnAsync (s2\<lparr>basynwait := False\<rparr>) else s2)
               in brelse x s3)
         else bwake (OnBuf x) (fl_off {B_WANTED} x s1))"

definition strategy :: "bref \<Rightarrow> bst \<Rightarrow> bst" where
  "strategy x s = s\<lparr>ioq := ioq s @ [x]\<rparr>"

text \<open>The end of a transfer in the driver; \<open>e\<close> is the error, if there was one.\<close>

definition io_end :: "int option \<Rightarrow> bref \<Rightarrow> bst \<Rightarrow> bst" where
  "io_end e x s =
     (let b = bh s x; s1 = s\<lparr>ioq := remove1 x (ioq s)\<rparr>
      in iodone x (case e of
           Some n \<Rightarrow> bupd x (\<lambda>b. b\<lparr>b_flags := b_flags b \<union> {B_ERROR}, b_error := n\<rparr>) s1
         | None \<Rightarrow>
             if B_READ \<in> b_flags b then bupd x (\<lambda>c. c\<lparr>b_data := disk s (b_dev b) (b_blkno b)\<rparr>) s1
             else s1\<lparr>disk := (disk s)(b_dev b := (disk s (b_dev b))(b_blkno b := b_data b))\<rparr>))"

text \<open>\<open>bwrite\<close> up to its sleep, and (for a write that is not asynchronous) what follows it.\<close>

definition bwrite :: "bref \<Rightarrow> bst \<Rightarrow> bst" where
  "bwrite x s =
     (let f = fl s x; s1 = fl_off {B_READ, B_DONE, B_ERROR, B_DELWRI} x s;
          s2 = (if B_ASYNC \<in> f then s1\<lparr>basyncnt := basyncnt s1 + 1\<rparr> else s1);
          s3 = fl_off {B_LOPRI} x (strategy x s2)
      in if B_ASYNC \<in> f \<and> B_DELWRI \<notin> f then geterror x s3 else s3)"

definition bwrite_end :: "bref \<Rightarrow> bst \<Rightarrow> bst option" where
  "bwrite_end x s = map_option (brelse x) (iowait x s)"

definition bdwrite :: "bref \<Rightarrow> bst \<Rightarrow> bst" where
  "bdwrite x s =
     (let s1 = (if B_DELWRI \<in> fl s x then s else bupd x (\<lambda>b. b\<lparr>b_start := lbolt s\<rparr>) s)
      in brelse x (bupd x (\<lambda>b. b\<lparr>b_flags := b_flags b \<union> {B_DELWRI, B_DONE}, b_resid := 0\<rparr>) s1))"

definition bawrite :: "bref \<Rightarrow> bst \<Rightarrow> bst" where
  "bawrite x s = bwrite x (if 4 < b_bcount (bh s Fre) then fl_on {B_ASYNC} x s else s)"

definition clrbuf :: "bref \<Rightarrow> bst \<Rightarrow> bst" where
  "clrbuf x = bupd x (\<lambda>b. let n = nat (b_bcount b div 4) in b\<lparr>b_data := replicate n 0 @ drop n (b_data b), b_resid := 0\<rparr>)"

subsection \<open>Finding a buffer\<close>

text \<open>A bucket, walked from its head.\<close>

definition bucket :: "bst \<Rightarrow> bref \<Rightarrow> bref list" where
  "bucket s dp = ring_walk (v_buf s) (\<lambda>x. b_forw (bh s x)) dp (b_forw (bh s dp))"

definition is_for :: "bst \<Rightarrow> int \<Rightarrow> int \<Rightarrow> bref \<Rightarrow> bool" where
  "is_for s d b x \<longleftrightarrow> b_blkno (bh s x) = b \<and> b_dev (bh s x) = d \<and> B_STALE \<notin> fl s x"

definition incore :: "int \<Rightarrow> int \<Rightarrow> int \<Rightarrow> bst \<Rightarrow> bref option" where
  "incore d blk z s = (let b = ltopblk blk z in find (is_for s d b) (bucket s (bhash s d b)))"

text \<open>Taking \<open>x\<close> from its list of headers and putting it on the one of \<open>dp\<close>.\<close>

definition b_unlink :: "bref \<Rightarrow> bst \<Rightarrow> bst" where
  "b_unlink x s =
     (let s1 = bupd (b_back (bh s x)) (\<lambda>b. b\<lparr>b_forw := b_forw (bh s x)\<rparr>) s
      in bupd (b_forw (bh s1 x)) (\<lambda>b. b\<lparr>b_back := b_back (bh s1 x)\<rparr>) s1)"

definition b_link :: "bref \<Rightarrow> bref \<Rightarrow> bst \<Rightarrow> bst" where
  "b_link dp x s =
     (let s1 = bupd x (\<lambda>b. b\<lparr>b_forw := b_forw (bh s dp)\<rparr>) s;
          s2 = bupd x (\<lambda>b. b\<lparr>b_back := dp\<rparr>) s1;
          s3 = bupd (b_forw (bh s2 dp)) (\<lambda>b. b\<lparr>b_back := x\<rparr>) s2
      in bupd dp (\<lambda>b. b\<lparr>b_forw := x\<rparr>) s3)"

text \<open>Writing out the delayed write of an available buffer, and giving a buffer to another block.\<close>

definition push_out :: "bref \<Rightarrow> bst \<Rightarrow> bst" where
  "push_out x s = bwrite x (fl_on {B_ASYNC, B_LOPRI} x s)"

definition assign_buf :: "bref \<Rightarrow> bref \<Rightarrow> int \<Rightarrow> int \<Rightarrow> int \<Rightarrow> bst \<Rightarrow> bst" where
  "assign_buf x dp d b z s =
     bupd x (\<lambda>c. c\<lparr>b_dev := d, b_blkno := b, b_bcount := z, b_resid := 0\<rparr>)
       (b_link dp x (b_unlink x (bupd x (\<lambda>c. c\<lparr>b_flags := {B_BUSY}\<rparr>) s)))"

text \<open>The loop of \<open>getblk\<close>; every round but the last takes a delayed write off the list, so one round more than there are
  buffers is enough.\<close>

fun getblk_loop :: "nat \<Rightarrow> int \<Rightarrow> int \<Rightarrow> int \<Rightarrow> bst \<Rightarrow> (gres \<times> bst) option" where
  "getblk_loop 0 d b z s = None"
| "getblk_loop (Suc n) d b z s =
     (case find (is_for s d b) (bucket s (bhash s d b)) of
        Some x \<Rightarrow>
          (if B_BUSY \<in> fl s x then Some (GSleep (OnBuf x), fl_on {B_WANTED} x s)
           else Some (GBuf x, notavail x s))
      | None \<Rightarrow>
          (let x = av_forw (bh s Fre); s1 = notavail x s
           in if x = Fre then Some (GSleep (OnBuf Fre), fl_on {B_WANTED} Fre s)
              else if B_DELWRI \<in> fl s1 x then getblk_loop n d b z (push_out x s1)
              else Some (GBuf x, assign_buf x (bhash s d b) d b z s1)))"

definition getblk :: "int \<Rightarrow> int \<Rightarrow> int \<Rightarrow> bst \<Rightarrow> (gres \<times> bst) option" where
  "getblk d blk z s =
     (if bdevcnt s \<le> bmajor d then Some (GPanic, s)
      else getblk_loop (Suc (v_buf s)) d (ltopblk blk z) z s)"

fun geteblk_loop :: "nat \<Rightarrow> bst \<Rightarrow> (gres \<times> bst) option" where
  "geteblk_loop 0 s = None"
| "geteblk_loop (Suc n) s =
     (let x = av_forw (bh s Fre); s1 = notavail x s
      in if x = Fre then Some (GSleep (OnBuf Fre), fl_on {B_WANTED} Fre s)
         else if B_DELWRI \<in> fl s1 x then geteblk_loop n (push_out x s1)
         else Some (GBuf x, bupd x (\<lambda>c. c\<lparr>b_dev := NODEV, b_bcount := 1024, b_resid := 0\<rparr>)
           (b_link Fre x (b_unlink x (bupd x (\<lambda>c. c\<lparr>b_flags := {B_BUSY, B_AGE}\<rparr>) s1)))))"

definition geteblk :: "bst \<Rightarrow> (gres \<times> bst) option" where
  "geteblk s = geteblk_loop (Suc (v_buf s)) s"

text \<open>\<open>bread\<close> up to \<open>iowait\<close>: a buffer that holds its block, or one whose transfer has started and
  for which the caller sleeps (the second part of the result) until it is done.\<close>

definition bread :: "int \<Rightarrow> int \<Rightarrow> int \<Rightarrow> bst \<Rightarrow> ((gres \<times> bool) \<times> bst) option" where
  "bread d blk z s =
     (case getblk d blk z s of
        Some (GBuf x, s1) \<Rightarrow>
          (if B_DONE \<in> fl s1 x then Some ((GBuf x, False), s1)
           else Some ((GBuf x, True), strategy x (bupd x (\<lambda>b. b\<lparr>b_flags := b_flags b \<union> {B_READ}, b_bcount := z\<rparr>) s1)))
      | Some (r, s1) \<Rightarrow> Some ((r, False), s1)
      | None \<Rightarrow> None)"

text \<open>\<open>breada\<close>: the blocks to read ahead are collected on a list through \<open>av_forw\<close>, which their buffers do not need while
  they are busy; \<open>x\<close> is the last of it.  Those that are up to date go back at once.  Then the transfers start.\<close>

fun ra_collect :: "nat \<Rightarrow> int \<Rightarrow> int \<Rightarrow> int \<Rightarrow> bref \<Rightarrow> bst \<Rightarrow> (gres option \<times> bst) option" where
  "ra_collect 0 d ra z x s = Some (None, s)"
| "ra_collect (Suc n) d ra z x s =
     (case getblk d ra z s of
        None \<Rightarrow> None
      | Some (GBuf y, s1) \<Rightarrow>
          (if B_DONE \<in> fl s1 y then ra_collect n d (c_int (ra + 1)) z x (brelse y s1)
           else ra_collect n d (c_int (ra + 1)) z y
             (bupd y (\<lambda>b. b\<lparr>av_forw := Nul\<rparr>) (bupd x (\<lambda>b. b\<lparr>av_forw := y\<rparr>) s1)))
      | Some (g, s1) \<Rightarrow> Some (Some g, s1))"

definition ra_io :: "int \<Rightarrow> bref \<Rightarrow> bref \<Rightarrow> bst \<Rightarrow> bst" where
  "ra_io z x y s =
     (let s1 = fl_on {B_READ, B_ASYNC} y s; s2 = (if y = x then fl_off {B_ASYNC} y s1 else s1);
          s3 = (if av_forw (bh s2 y) \<noteq> Nul then fl_on {B_WAIT} y s2 else s2);
          s4 = strategy y (bupd y (\<lambda>b. b\<lparr>b_bcount := z\<rparr>) s3)
      in fl_off {B_WAIT} y s4)"

fun ra_start :: "nat \<Rightarrow> int \<Rightarrow> bref \<Rightarrow> bref \<Rightarrow> bst \<Rightarrow> bst option" where
  "ra_start 0 z x y s = None"
| "ra_start (Suc n) z x y s =
     (if y = Nul then Some s else ra_start n z x (av_forw (bh s y)) (ra_io z x y s))"

text \<open>The result is as for \<open>bread\<close>.  Bit 31 of \<open>ra\<close> makes it a count of blocks that follow.\<close>

definition breada :: "int \<Rightarrow> int \<Rightarrow> int \<Rightarrow> int \<Rightarrow> bst \<Rightarrow> ((gres \<times> bool) \<times> bst) option" where
  "breada d blk ra z s =
     (case getblk d blk z s of
        None \<Rightarrow> None
      | Some (GBuf x, s1) \<Rightarrow>
          (if B_DONE \<in> fl s1 x then Some ((GBuf x, False), s1)
           else (let (n, r) = (if ra < 0 then (nat (ra + 2 ^ 31), c_int (blk + 1)) else (1, ra)) in
             case ra_collect n d r z x (bupd x (\<lambda>b. b\<lparr>av_forw := Nul\<rparr>) s1) of
               None \<Rightarrow> None
             | Some (Some g, s2) \<Rightarrow> Some ((g, False), s2)
             | Some (None, s2) \<Rightarrow> map_option (Pair (GBuf x, True)) (ra_start (Suc (v_buf s)) z x x s2)))
      | Some (g, s1) \<Rightarrow> Some ((g, False), s1))"

subsection \<open>Flushing and invalidating\<close>

definition avail :: "bst \<Rightarrow> bref list" where
  "avail s = ring_walk (v_buf s) (\<lambda>x. av_forw (bh s x)) Fre (av_forw (bh s Fre))"

fun bflush_loop :: "nat \<Rightarrow> int \<Rightarrow> bst \<Rightarrow> bst option" where
  "bflush_loop 0 d s = None"
| "bflush_loop (Suc n) d s =
     (case find (\<lambda>x. B_DELWRI \<in> fl s x \<and> (d = NODEV \<or> d = b_dev (bh s x))) (avail s) of
        None \<Rightarrow> Some s
      | Some x \<Rightarrow> bflush_loop n d (bwrite x (notavail x (fl_on {B_ASYNC} x s))))"

definition bflush :: "int \<Rightarrow> bst \<Rightarrow> bst option" where
  "bflush d s = bflush_loop (Suc (v_buf s)) d s"

text \<open>One pass of \<open>bdflush\<close>; \<open>autoup\<close> is the age in ticks at which a delayed write goes out.\<close>

fun bdflush_loop :: "nat \<Rightarrow> int \<Rightarrow> bst \<Rightarrow> bst option" where
  "bdflush_loop 0 autoup s = None"
| "bdflush_loop (Suc n) autoup s =
     (case find (\<lambda>x. B_DELWRI \<in> fl s x \<and> autoup \<le> c_int (lbolt s - b_start (bh s x))) (avail s) of
        None \<Rightarrow> Some s
      | Some x \<Rightarrow> bdflush_loop n autoup (bwrite x (notavail x (fl_on {B_ASYNC, B_LOPRI} x s))))"

definition bdwait :: "bst \<Rightarrow> bchan option \<times> bst" where
  "bdwait s = (if basyncnt s \<noteq> 0 then (Some OnAsync, s\<lparr>basynwait := True\<rparr>) else (None, s))"

definition binval_buf :: "int \<Rightarrow> bref \<Rightarrow> bst \<Rightarrow> bst" where
  "binval_buf d x s = (if b_dev (bh s x) = d then fl_on {B_STALE, B_AGE} x s else s)"

definition binval :: "int \<Rightarrow> bst \<Rightarrow> bst" where
  "binval d s = fold (\<lambda>i s. fold (binval_buf d) (bucket s (Hsh i)) s) [0..<v_hbuf s] s"

subsection \<open>Initialisation\<close>

definition binit_buf :: "nat \<Rightarrow> bst \<Rightarrow> bst" where
  "binit_buf i s =
     (let x = Buf i; s1 = bupd x (\<lambda>b. b\<lparr>b_dev := NODEV\<rparr>) s;
          s2 = bupd x (\<lambda>b. b\<lparr>b_back := Fre\<rparr>) s1;
          s3 = bupd x (\<lambda>b. b\<lparr>b_forw := b_forw (bh s2 Fre)\<rparr>) s2;
          s4 = bupd (b_forw (bh s3 Fre)) (\<lambda>b. b\<lparr>b_back := x\<rparr>) s3;
          s5 = bupd Fre (\<lambda>b. b\<lparr>b_forw := x\<rparr>) s4
      in brelse x (bupd x (\<lambda>b. b\<lparr>b_flags := {B_BUSY}, b_bcount := 0\<rparr>) s5))"

text \<open>The headers for physical input and output, which are on a list of their own.\<close>

definition pool_init :: "bst \<Rightarrow> bst" where
  "pool_init s = s\<lparr>pfreecnt := v_pbuf s, pfreelist := Some 0,
     pav := (fold (\<lambda>i f. f(i := Some (Suc i))) [0..<v_pbuf s - 1] (pav s))(v_pbuf s - 1 := None)\<rparr>"

definition binit :: "bst \<Rightarrow> bst" where
  "binit s =
     (let s1 = bupd Fre (\<lambda>b. b\<lparr>b_forw := Fre, b_back := Fre, av_forw := Fre, av_back := Fre\<rparr>) s;
          s2 = pool_init (fold binit_buf [0..<v_buf s1] s1)
      in fold (\<lambda>i. bupd (Hsh i) (\<lambda>b. b\<lparr>b_forw := Hsh i, b_back := Hsh i\<rparr>)) [0..<v_hbuf s2] s2)"

subsection \<open>Reading the changed state\<close>

lemma bh_bupd: "bh (bupd x f s) y = (if y = x then f (bh s x) else bh s y)"
  by (simp add: bupd_def)

lemma bupd_more [simp]: "v_buf (bupd x f s) = v_buf s" "v_hbuf (bupd x f s) = v_hbuf s" "bdevcnt (bupd x f s) = bdevcnt s"
  "basyncnt (bupd x f s) = basyncnt s" "basynwait (bupd x f s) = basynwait s" "lbolt (bupd x f s) = lbolt s"
  "u_err (bupd x f s) = u_err s" "ioq (bupd x f s) = ioq s" "disk (bupd x f s) = disk s" "bwoken (bupd x f s) = bwoken s"
  by (simp_all add: bupd_def)

lemma bwake_sel [simp]: "bh (bwake c s) = bh s" "v_buf (bwake c s) = v_buf s" "v_hbuf (bwake c s) = v_hbuf s" "bdevcnt (bwake c s) = bdevcnt s"
  "basyncnt (bwake c s) = basyncnt s" "basynwait (bwake c s) = basynwait s" "lbolt (bwake c s) = lbolt s"
  "u_err (bwake c s) = u_err s" "ioq (bwake c s) = ioq s" "disk (bwake c s) = disk s"
  by (simp_all add: bwake_def)

lemma bhash_bupd [simp]: "bhash (bupd x f s) = bhash s" "bhash (bwake c s) = bhash s"
  by (simp_all add: bhash_def fun_eq_iff)

abbreviation bfs :: "bst \<Rightarrow> bref \<Rightarrow> bref" where "bfs s \<equiv> \<lambda>x. b_forw (bh s x)"
abbreviation bbs :: "bst \<Rightarrow> bref \<Rightarrow> bref" where "bbs s \<equiv> \<lambda>x. b_back (bh s x)"
abbreviation afs :: "bst \<Rightarrow> bref \<Rightarrow> bref" where "afs s \<equiv> \<lambda>x. av_forw (bh s x)"
abbreviation abs' :: "bst \<Rightarrow> bref \<Rightarrow> bref" where "abs' s \<equiv> \<lambda>x. av_back (bh s x)"

text \<open>The part of a header that says which block it holds, and the rest of the state that the lists do not use.\<close>

definition core :: "bst \<Rightarrow> bref \<Rightarrow> int \<times> int \<times> int list \<times> int \<times> int" where
  "core s x = (b_dev (bh s x), b_blkno (bh s x), b_data (bh s x), b_error (bh s x), b_start (bh s x))"

definition rest :: "bst \<Rightarrow> nat \<times> nat \<times> int \<times> int \<times> bref list \<times> (int \<Rightarrow> int \<Rightarrow> int list) \<times> int" where
  "rest s = (v_buf s, v_hbuf s, bdevcnt s, basyncnt s, ioq s, disk s, lbolt s)"

lemma rest_eq: "rest s = rest t \<Longrightarrow> v_buf s = v_buf t \<and> v_hbuf s = v_hbuf t \<and> bdevcnt s = bdevcnt t \<and> basyncnt s = basyncnt t \<and>
   ioq s = ioq t \<and> disk s = disk t \<and> lbolt s = lbolt t"
  by (simp add: rest_def)

lemma core_eq: "core s x = core t x \<Longrightarrow> b_dev (bh s x) = b_dev (bh t x) \<and> b_blkno (bh s x) = b_blkno (bh t x) \<and> b_data (bh s x) = b_data (bh t x)"
  by (simp add: core_def)

lemma bhash_rest: "rest s = rest t \<Longrightarrow> bhash s = bhash t"
  by (simp add: rest_def bhash_def fun_eq_iff)

lemma rest_bupd [simp]: "rest (bupd x f s) = rest s" "rest (bwake c s) = rest s"
  by (simp_all add: rest_def)

lemma pool_init_sel [simp]: "bh (pool_init s) = bh s" "rest (pool_init s) = rest s" "v_hbuf (pool_init s) = v_hbuf s" "v_buf (pool_init s) = v_buf s"
  by (simp_all add: pool_init_def rest_def)

subsection \<open>The lists of headers\<close>

definition Bufs :: "bst \<Rightarrow> bref set" where "Bufs s = Buf ` {..<v_buf s}"

definition heads :: "bst \<Rightarrow> bref set" where "heads s = insert Fre (Hsh ` {..<v_hbuf s})"

definition hash_lists :: "(bref \<Rightarrow> bref list) \<Rightarrow> bst \<Rightarrow> bool" where
  "hash_lists R s \<longleftrightarrow> (\<forall>k\<in>heads s. ring (bfs s) (bbs s) k (R k) \<and> set (R k) \<subseteq> Bufs s) \<and>
     (\<forall>x\<in>Bufs s. \<exists>k\<in>heads s. x \<in> set (R k)) \<and>
     (\<forall>k\<in>heads s. \<forall>l\<in>heads s. k \<noteq> l \<longrightarrow> set (R k) \<inter> set (R l) = {})"

definition av_list :: "bref list \<Rightarrow> bst \<Rightarrow> bool" where
  "av_list A s \<longleftrightarrow> ring (afs s) (abs' s) Fre A \<and> set A = {x \<in> Bufs s. B_BUSY \<notin> fl s x} \<and> b_bcount (bh s Fre) = int (length A)"

lemma Fre_not_Buf [simp]: "Fre \<notin> Bufs s" "Hsh h \<notin> Bufs s" by (auto simp: Bufs_def)

lemma heads_not_Bufs: "k \<in> heads s \<Longrightarrow> k \<notin> Bufs s" by (auto simp: heads_def Bufs_def)

lemma Bufs_rest: "rest s = rest t \<Longrightarrow> Bufs s = Bufs t" "rest s = rest t \<Longrightarrow> heads s = heads t"
  by (simp_all add: Bufs_def heads_def rest_def)

lemma av_list_parts:
  assumes "av_list A s"
  shows "ring (afs s) (abs' s) Fre A" "set A = {x \<in> Bufs s. B_BUSY \<notin> fl s x}" "b_bcount (bh s Fre) = int (length A)"
  using assms unfolding av_list_def by - (elim conjE, assumption)+

lemma av_listD: "av_list A s \<Longrightarrow> x \<in> set A \<longleftrightarrow> x \<in> Bufs s \<and> B_BUSY \<notin> fl s x"
  by (auto simp: av_list_def)

text \<open>Unlinking a buffer from the list of available ones.\<close>

lemma notavail_sel:
  assumes "x \<noteq> Fre" "av_back (bh s x) \<noteq> x" "av_forw (bh s x) \<noteq> x"
  shows "afs (notavail x s) y = (if y = abs' s x then afs s x else afs s y)"
    "abs' (notavail x s) y = (if y = afs s x then abs' s x else abs' s y)"
    "bfs (notavail x s) y = bfs s y" "bbs (notavail x s) y = bbs s y"
    "fl (notavail x s) y = (if y = x then insert B_BUSY (fl s x) else fl s y)"
    "b_bcount (bh (notavail x s) y) = (if y = Fre then b_bcount (bh s Fre) - 1 else b_bcount (bh s y))"
    "core (notavail x s) y = core s y" "rest (notavail x s) = rest s"
    "u_err (notavail x s) = u_err s" "bwoken (notavail x s) = bwoken s" "basynwait (notavail x s) = basynwait s"
  using assms by (auto simp: notavail_def Let_def bh_bupd fl_on_def core_def)

lemma ring_not_self:
  assumes "ring nx pv h xs" "x \<in> set xs"
  shows "nx x \<noteq> x" "pv x \<noteq> x"
proof -
  from assms(2) obtain us vs where xs: "xs = us @ x # vs" by (meson split_list)
  note n = ring_next [OF assms(1) [unfolded xs]]
  have d: "distinct (h # us @ x # vs)" using assms(1) xs by (simp add: ring_def)
  show "nx x \<noteq> x" unfolding n using d by (cases vs) auto
  show "pv x \<noteq> x" unfolding n using d by (cases us rule: rev_cases) auto
qed

lemma notavail_list:
  assumes A: "av_list (us @ x # vs) s"
  shows "av_list (us @ vs) (notavail x s)"
proof -
  have r: "ring (afs s) (abs' s) Fre (us @ x # vs)" and S: "set (us @ x # vs) = {x \<in> Bufs s. B_BUSY \<notin> fl s x}"
    and n: "b_bcount (bh s Fre) = int (length (us @ x # vs))" using A by (auto simp: av_list_def)
  have x: "x \<in> Bufs s" using S by auto
  then have xF: "x \<noteq> Fre" by auto
  note sel = notavail_sel [OF xF ring_not_self(2,1) [OF r, of x], simplified]
  have d: "distinct (us @ x # vs)" using r by (simp add: ring_def)
  have "ring (afs (notavail x s)) (abs' (notavail x s)) Fre (us @ vs)"
    by (rule ring_remove [OF r]) (use d sel in auto)
  moreover have "set (us @ vs) = {y \<in> Bufs (notavail x s). B_BUSY \<notin> fl (notavail x s) y}"
    using S d Bufs_rest(1) [OF sel(8)] by (auto simp: sel(5))
  ultimately show ?thesis using n by (simp add: av_list_def sel(6))
qed

lemma av_first_sel:
  assumes "x \<noteq> Fre" "afs s Fre \<noteq> x"
  shows "afs (av_first x s) y = (if y = x then afs s Fre else if y = Fre then x else afs s y)"
    "abs' (av_first x s) y = (if y = x then Fre else if y = afs s Fre then x else abs' s y)"
    "bfs (av_first x s) y = bfs s y" "bbs (av_first x s) y = bbs s y" "fl (av_first x s) y = fl s y"
    "b_bcount (bh (av_first x s) y) = b_bcount (bh s y)" "core (av_first x s) y = core s y" "rest (av_first x s) = rest s"
    "u_err (av_first x s) = u_err s" "bwoken (av_first x s) = bwoken s" "basynwait (av_first x s) = basynwait s"
  using assms by (auto simp: av_first_def Let_def bh_bupd core_def)

lemma av_last_sel:
  assumes "x \<noteq> Fre" "abs' s Fre \<noteq> x"
  shows "afs (av_last x s) y = (if y = x then Fre else if y = abs' s Fre then x else afs s y)"
    "abs' (av_last x s) y = (if y = x then abs' s Fre else if y = Fre then x else abs' s y)"
    "bfs (av_last x s) y = bfs s y" "bbs (av_last x s) y = bbs s y" "fl (av_last x s) y = fl s y"
    "b_bcount (bh (av_last x s) y) = b_bcount (bh s y)" "core (av_last x s) y = core s y" "rest (av_last x s) = rest s"
    "u_err (av_last x s) = u_err s" "bwoken (av_last x s) = bwoken s" "basynwait (av_last x s) = basynwait s"
  using assms by (auto simp: av_last_def Let_def bh_bupd core_def)

text \<open>What \<open>brelse\<close> makes of the flags of its buffer.\<close>

definition rel_flags :: "bflag set \<Rightarrow> bflag set" where
  "rel_flags F = (if B_ERROR \<in> F then (F \<union> {B_STALE}) - {B_ERROR, B_DELWRI, B_WANTED, B_BUSY, B_ASYNC, B_AGE}
     else F - {B_WANTED, B_BUSY, B_ASYNC, B_AGE})"

definition rel_front :: "bflag set \<Rightarrow> bool" where "rel_front F \<longleftrightarrow> B_ERROR \<in> F \<or> B_AGE \<in> F"

definition put_av :: "bref \<Rightarrow> bflag set \<Rightarrow> bref list \<Rightarrow> bref list" where
  "put_av x F A = (if rel_front F then x # A else A @ [x])"

lemma brelse_wake_sel:
  "afs (brelse_wake x s) y = afs s y" "abs' (brelse_wake x s) y = abs' s y" "bfs (brelse_wake x s) y = bfs s y"
  "bbs (brelse_wake x s) y = bbs s y" "b_bcount (bh (brelse_wake x s) y) = b_bcount (bh s y)" "core (brelse_wake x s) y = core s y"
  "rest (brelse_wake x s) = rest s" "y \<noteq> Fre \<Longrightarrow> fl (brelse_wake x s) y = fl s y" "y \<noteq> Fre \<Longrightarrow> bh (brelse_wake x s) y = bh s y"
  "u_err (brelse_wake x s) = u_err s" "basynwait (brelse_wake x s) = basynwait s" "v_buf (brelse_wake x s) = v_buf s"
  by (auto simp: brelse_wake_def fl_off_def bh_bupd core_def)

lemma brelse_sel:
  assumes "x \<noteq> Fre" "afs s Fre \<noteq> x" "abs' s Fre \<noteq> x"
  shows "bfs (brelse x s) y = bfs s y" "bbs (brelse x s) y = bbs s y"
    "y \<noteq> Fre \<Longrightarrow> fl (brelse x s) y = (if y = x then rel_flags (fl s x) else fl s y)"
    "b_bcount (bh (brelse x s) y) = (if y = Fre then b_bcount (bh s Fre) + 1 else b_bcount (bh s y))"
    "b_dev (bh (brelse x s) y) = b_dev (bh s y)" "b_blkno (bh (brelse x s) y) = b_blkno (bh s y)"
    "b_data (bh (brelse x s) y) = b_data (bh s y)" "rest (brelse x s) = rest s"
    "u_err (brelse x s) = u_err s" "basynwait (brelse x s) = basynwait s"
    "afs (brelse x s) y = (if rel_front (fl s x) then if y = x then afs s Fre else if y = Fre then x else afs s y
       else if y = x then Fre else if y = abs' s Fre then x else afs s y)"
    "abs' (brelse x s) y = (if rel_front (fl s x) then if y = x then Fre else if y = afs s Fre then x else abs' s y
       else if y = x then abs' s Fre else if y = Fre then x else abs' s y)"
proof -
  define s1 where "s1 = brelse_wake x s"
  define s2 where "s2 = (if B_ERROR \<in> fl s1 x
    then bupd x (\<lambda>b. b\<lparr>b_flags := (b_flags b \<union> {B_STALE, B_AGE}) - {B_ERROR, B_DELWRI}, b_error := 0\<rparr>) s1 else s1)"
  define s3 where "s3 = (if B_AGE \<in> fl s2 x then av_first x s2 else av_last x s2)"
  have e: "brelse x s = bupd Fre (\<lambda>b. b\<lparr>b_bcount := b_bcount b + 1\<rparr>) (fl_off {B_WANTED, B_BUSY, B_ASYNC, B_AGE} x s3)"
    by (simp add: brelse_def s1_def s2_def s3_def Let_def)
  note W = brelse_wake_sel [where x = x and s = s, folded s1_def]
  have S: "afs s2 y = afs s y" "abs' s2 y = abs' s y" "bfs s2 y = bfs s y" "bbs s2 y = bbs s y" "b_bcount (bh s2 y) = b_bcount (bh s y)"
    "b_dev (bh s2 y) = b_dev (bh s y)" "b_blkno (bh s2 y) = b_blkno (bh s y)" "b_data (bh s2 y) = b_data (bh s y)" "rest s2 = rest s"
    "u_err s2 = u_err s" "basynwait s2 = basynwait s" for y
    using W(6) [of y] by (auto simp: s2_def W(1-5,7-) bh_bupd core_def)
  have F: "y \<noteq> Fre \<Longrightarrow> fl s2 y = (if y = x \<and> B_ERROR \<in> fl s x then (fl s x \<union> {B_STALE, B_AGE}) - {B_ERROR, B_DELWRI} else fl s y)" for y
    using assms(1) by (auto simp: s2_def W(8) bh_bupd)
  have a: "B_AGE \<in> fl s2 x \<longleftrightarrow> rel_front (fl s x)" using F [OF assms(1)] by (auto simp: rel_front_def)
  have 1: "x \<noteq> Fre" "afs s2 Fre \<noteq> x" "abs' s2 Fre \<noteq> x" using assms S by auto
  note V1 = av_first_sel [OF 1(1,2)] and V2 = av_last_sel [OF 1(1,3)]
  have T: "bfs s3 y = bfs s y" "bbs s3 y = bbs s y" "fl s3 y = fl s2 y" "b_bcount (bh s3 y) = b_bcount (bh s y)"
    "b_dev (bh s3 y) = b_dev (bh s y)" "b_blkno (bh s3 y) = b_blkno (bh s y)" "b_data (bh s3 y) = b_data (bh s y)" "rest s3 = rest s"
    "u_err s3 = u_err s" "basynwait s3 = basynwait s" for y
    using V1(7) [of y] V2(7) [of y] by (auto simp: s3_def V1 V2 S core_def)
  have L: "afs s3 y = (if rel_front (fl s x) then if y = x then afs s Fre else if y = Fre then x else afs s y
       else if y = x then Fre else if y = abs' s Fre then x else afs s y)"
    "abs' s3 y = (if rel_front (fl s x) then if y = x then Fre else if y = afs s Fre then x else abs' s y
       else if y = x then abs' s Fre else if y = Fre then x else abs' s y)" for y
    by (simp_all add: s3_def a V1(1,2) V2(1,2) S(1,2))
  show "y \<noteq> Fre \<Longrightarrow> fl (brelse x s) y = (if y = x then rel_flags (fl s x) else fl s y)"
    using assms(1) F by (auto simp: e fl_off_def bh_bupd T rel_flags_def)
  show "bfs (brelse x s) y = bfs s y" "bbs (brelse x s) y = bbs s y"
    "b_bcount (bh (brelse x s) y) = (if y = Fre then b_bcount (bh s Fre) + 1 else b_bcount (bh s y))"
    "b_dev (bh (brelse x s) y) = b_dev (bh s y)" "b_blkno (bh (brelse x s) y) = b_blkno (bh s y)"
    "b_data (bh (brelse x s) y) = b_data (bh s y)" "rest (brelse x s) = rest s"
    "u_err (brelse x s) = u_err s" "basynwait (brelse x s) = basynwait s"
    using assms(1) by (simp_all add: e fl_off_def bh_bupd T)
  show "afs (brelse x s) y = (if rel_front (fl s x) then if y = x then afs s Fre else if y = Fre then x else afs s y
       else if y = x then Fre else if y = abs' s Fre then x else afs s y)"
    "abs' (brelse x s) y = (if rel_front (fl s x) then if y = x then Fre else if y = afs s Fre then x else abs' s y
       else if y = x then abs' s Fre else if y = Fre then x else abs' s y)"
    using assms(1) by (simp_all add: e fl_off_def bh_bupd L)
qed

lemma brelse_list:
  assumes A: "av_list A s" and x: "x \<in> Bufs s" "B_BUSY \<in> fl s x"
  shows "av_list (put_av x (fl s x) A) (brelse x s)" "afs s Fre \<noteq> x" "abs' s Fre \<noteq> x"
proof -
  note r = av_list_parts(1) [OF A] and S = av_list_parts(2) [OF A] and n = av_list_parts(3) [OF A]
  have xF: "x \<noteq> Fre" using x(1) by (cases "x = Fre") simp_all
  then have xA: "x \<notin> set (Fre # A)" using av_listD [OF A, of x] x(2) by simp
  have e: "afs s Fre = hd (A @ [Fre])" "abs' s Fre = last (Fre # A)" using ring_first [OF r] ring_last [OF r] .
  show f: "afs s Fre \<noteq> x" "abs' s Fre \<noteq> x" using ring_in [OF r, of Fre] xA by auto
  note sel = brelse_sel [OF xF f]
  have "ring (afs (brelse x s)) (abs' (brelse x s)) Fre (put_av x (fl s x) A)"
  proof (cases "rel_front (fl s x)")
    case True
    have "ring (afs (brelse x s)) (abs' (brelse x s)) Fre ([] @ x # A)"
      by (rule ring_insert [of "afs s" "abs' s"]) (use r xA True e in \<open>auto simp: sel(11,12)\<close>)
    with True show ?thesis by (simp add: put_av_def)
  next
    case False
    have "ring (afs (brelse x s)) (abs' (brelse x s)) Fre (A @ x # [])"
      by (rule ring_insert [of "afs s" "abs' s"]) (use r xA False e in \<open>auto simp: sel(11,12)\<close>)
    with False show ?thesis by (simp add: put_av_def)
  qed
  moreover have "set (put_av x (fl s x) A) = {y \<in> Bufs (brelse x s). B_BUSY \<notin> fl (brelse x s) y}"
  proof -
    have "B_BUSY \<notin> rel_flags (fl s x)" by (simp add: rel_flags_def)
    moreover have "Bufs (brelse x s) = Bufs s" by (rule Bufs_rest) (simp add: sel(8))
    moreover have "y \<in> Bufs s \<Longrightarrow> fl (brelse x s) y = (if y = x then rel_flags (fl s x) else fl s y)" for y
      using sel(3) [of y] by (cases "y = Fre") auto
    ultimately show ?thesis using S x(1) by (auto simp: put_av_def split: if_splits)
  qed
  ultimately show "av_list (put_av x (fl s x) A) (brelse x s)"
    using n by (simp add: av_list_def sel(4) put_av_def)
qed

lemma hash_lists_parts:
  assumes "hash_lists R s"
  shows "k \<in> heads s \<Longrightarrow> ring (bfs s) (bbs s) k (R k)" "k \<in> heads s \<Longrightarrow> set (R k) \<subseteq> Bufs s"
    "x \<in> Bufs s \<Longrightarrow> \<exists>k\<in>heads s. x \<in> set (R k)"
    "k \<in> heads s \<Longrightarrow> l \<in> heads s \<Longrightarrow> k \<noteq> l \<Longrightarrow> set (R k) \<inter> set (R l) = {}"
  using assms unfolding hash_lists_def by simp_all

lemma hash_lists_cong:
  assumes "hash_lists R s" "bfs s' = bfs s" "bbs s' = bbs s" "rest s' = rest s"
  shows "hash_lists R s'"
  using assms(1) Bufs_rest [OF assms(4)] unfolding hash_lists_def assms(2,3) by simp

lemma av_list_cong:
  assumes "av_list A s" "afs s' = afs s" "abs' s' = abs' s" "rest s' = rest s" "b_bcount (bh s' Fre) = b_bcount (bh s Fre)"
    "\<And>x. x \<in> Bufs s \<Longrightarrow> B_BUSY \<in> fl s' x \<longleftrightarrow> B_BUSY \<in> fl s x"
  shows "av_list A s'"
proof -
  note p = av_list_parts [OF assms(1)]
  have "set A = {x \<in> Bufs s'. B_BUSY \<notin> fl s' x}" unfolding p(2) using assms(6) Bufs_rest(1) [OF assms(4)] by blast
  with p show ?thesis unfolding av_list_def assms(2,3,5) by simp
qed

lemma b_unlink_sel:
  assumes "bbs s x \<noteq> x" "bfs s x \<noteq> x"
  shows "bfs (b_unlink x s) y = (if y = bbs s x then bfs s x else bfs s y)"
    "bbs (b_unlink x s) y = (if y = bfs s x then bbs s x else bbs s y)"
    "afs (b_unlink x s) y = afs s y" "abs' (b_unlink x s) y = abs' s y" "fl (b_unlink x s) y = fl s y"
    "b_bcount (bh (b_unlink x s) y) = b_bcount (bh s y)" "core (b_unlink x s) y = core s y" "rest (b_unlink x s) = rest s"
    "basynwait (b_unlink x s) = basynwait s"
  using assms by (auto simp: b_unlink_def Let_def bh_bupd core_def)

lemma b_link_sel:
  assumes "dp \<noteq> x" "bfs s dp \<noteq> x"
  shows "bfs (b_link dp x s) y = (if y = x then bfs s dp else if y = dp then x else bfs s y)"
    "bbs (b_link dp x s) y = (if y = x then dp else if y = bfs s dp then x else bbs s y)"
    "afs (b_link dp x s) y = afs s y" "abs' (b_link dp x s) y = abs' s y" "fl (b_link dp x s) y = fl s y"
    "b_bcount (bh (b_link dp x s) y) = b_bcount (bh s y)" "core (b_link dp x s) y = core s y" "rest (b_link dp x s) = rest s"
    "basynwait (b_link dp x s) = basynwait s"
  using assms by (auto simp: b_link_def Let_def bh_bupd core_def)

lemma remove1_split: "x \<notin> set us \<Longrightarrow> remove1 x (us @ x # vs) = us @ vs"
  by (simp add: remove1_append)

lemma hash_nodes_disjoint:
  assumes "hash_lists R s" "k \<in> heads s" "l \<in> heads s" "k \<noteq> l"
  shows "set (k # R k) \<inter> set (l # R l) = {}"
  using hash_lists_parts(2,4) [OF assms(1)] assms(2-4) heads_not_Bufs by auto blast+

lemma unlink_rings:
  assumes H: "hash_lists R s" and k: "k \<in> heads s" "x \<in> set (R k)" and l: "l \<in> heads s"
  shows "ring (bfs (b_unlink x s)) (bbs (b_unlink x s)) l (remove1 x (R l))" "x \<notin> set (remove1 x (R l))"
    "bbs s x \<noteq> x" "bfs s x \<noteq> x"
proof -
  note r = hash_lists_parts(1) [OF H]
  show n: "bbs s x \<noteq> x" "bfs s x \<noteq> x" using ring_not_self [OF r [OF k(1)] k(2)] by auto
  note sel = b_unlink_sel [OF n]
  show "x \<notin> set (remove1 x (R l))" using ring_distinct [OF r [OF l]] by simp
  show "ring (bfs (b_unlink x s)) (bbs (b_unlink x s)) l (remove1 x (R l))"
  proof (cases "l = k")
    case True
    obtain us vs where R: "R k = us @ x # vs" "x \<notin> set us" using split_list_first [OF k(2)] by auto
    have "ring (bfs (b_unlink x s)) (bbs (b_unlink x s)) k (us @ vs)"
      by (rule ring_remove [OF r [OF k(1), unfolded R(1)]]) (simp_all add: sel)
    with True R show ?thesis by (simp add: remove1_split)
  next
    case False
    have d: "set (k # R k) \<inter> set (l # R l) = {}" using hash_nodes_disjoint [OF H k(1) l] False by simp
    have "bfs s x \<in> set (k # R k)" "bbs s x \<in> set (k # R k)" using ring_in [OF r [OF k(1)], of x] k(2) by auto
    with d have 1: "bfs s x \<notin> set (l # R l)" "bbs s x \<notin> set (l # R l)" by blast+
    have "x \<notin> set (R l)" using d k(2) by auto
    then have "remove1 x (R l) = R l" by (simp add: remove1_idem)
    moreover have "ring (bfs (b_unlink x s)) (bbs (b_unlink x s)) l (R l) = ring (bfs s) (bbs s) l (R l)"
      by (rule ring_cong) (use 1 in \<open>auto simp: sel\<close>)
    ultimately show ?thesis using r [OF l] by simp
  qed
qed

definition moved :: "bref \<Rightarrow> bref \<Rightarrow> (bref \<Rightarrow> bref list) \<Rightarrow> bref \<Rightarrow> bref list" where
  "moved x dp R = (\<lambda>l. if l = dp then x # remove1 x (R l) else remove1 x (R l))"

lemma moved_other: "y \<noteq> x \<Longrightarrow> y \<in> set (moved x dp R l) \<longleftrightarrow> y \<in> set (R l)"
  by (simp add: moved_def)

lemma relink_lists:
  assumes H: "hash_lists R s" and k: "k \<in> heads s" "x \<in> set (R k)" and dp: "dp \<in> heads s"
  shows "hash_lists (moved x dp R) (b_link dp x (b_unlink x s))" "dp \<noteq> x" "bfs (b_unlink x s) dp \<noteq> x"
    "bbs s x \<noteq> x" "bfs s x \<noteq> x"
proof -
  let ?u = "b_unlink x s" let ?s = "b_link dp x (b_unlink x s)"
  have x: "x \<in> Bufs s" using hash_lists_parts(2) [OF H k(1)] k(2) by blast
  note U = unlink_rings [OF H k]
  show dx: "dp \<noteq> x" using heads_not_Bufs [OF dp] x by auto
  note rd = U(1) [OF dp]
  have "bfs ?u dp \<in> set (dp # remove1 x (R dp))" using ring_in [OF rd, of dp] by simp
  with U(2) [OF dp] dx show nx: "bfs ?u dp \<noteq> x" by auto
  show "bbs s x \<noteq> x" "bfs s x \<noteq> x" using U(3,4) [OF dp] .
  note sel = b_link_sel [OF dx nx] and B = Bufs_rest [OF b_link_sel(8) [OF dx nx]] Bufs_rest [OF b_unlink_sel(8) [OF U(3,4) [OF dp]]]
  have sub: "set (remove1 x (R l)) \<subseteq> set (R l)" for l by (rule set_remove1_subset)
  have "ring (bfs ?s) (bbs ?s) l (moved x dp R l)" if l: "l \<in> heads s" for l
  proof (cases "l = dp")
    case True
    have "ring (bfs ?s) (bbs ?s) dp ([] @ x # remove1 x (R dp))"
      by (rule ring_insert [of "bfs ?u" "bbs ?u"]) (use rd U(2) [OF dp] dx ring_first [OF rd] in \<open>auto simp: sel\<close>)
    with True show ?thesis by (simp add: moved_def)
  next
    case False
    have d: "set (dp # R dp) \<inter> set (l # R l) = {}" using hash_nodes_disjoint [OF H dp l] False by simp
    have "bfs ?u dp \<in> set (dp # R dp)" using ring_in [OF rd, of dp] sub [of dp] by auto
    with d sub [of l] have "bfs ?u dp \<notin> set (l # remove1 x (R l))" "dp \<notin> set (l # remove1 x (R l))" by auto
    moreover have "x \<notin> set (l # remove1 x (R l))" using U(2) [OF l] heads_not_Bufs [OF l] x by auto
    ultimately have "ring (bfs ?s) (bbs ?s) l (remove1 x (R l)) = ring (bfs ?u) (bbs ?u) l (remove1 x (R l))"
      by (intro ring_cong) (auto simp: sel)
    with U(1) [OF l] False show ?thesis by (simp add: moved_def)
  qed
  moreover have "set (moved x dp R l) \<subseteq> Bufs s" if "l \<in> heads s" for l
    using hash_lists_parts(2) [OF H that] sub [of l] x by (auto simp: moved_def)
  moreover have "\<exists>l\<in>heads s. y \<in> set (moved x dp R l)" if y: "y \<in> Bufs s" for y
  proof (cases "y = x")
    case False
    with hash_lists_parts(3) [OF H y] show ?thesis by (auto simp: moved_def)
  qed (use dp in \<open>auto simp: moved_def\<close>)
  moreover have "set (moved x dp R l) \<inter> set (moved x dp R m) = {}" if "l \<in> heads s" "m \<in> heads s" "l \<noteq> m" for l m
    using hash_lists_parts(4) [OF H that] sub [of l] sub [of m] U(2) [OF that(1)] U(2) [OF that(2)] that(3)
    by (auto simp: moved_def)
  ultimately show "hash_lists (moved x dp R) ?s" unfolding hash_lists_def B by blast
qed

end
