(* ===== verification/Bcache.thy ===== *)
theory Bcache imports Bio begin

text \<open>
  The invariant of the buffer cache and its operations.  A busy buffer is on no list of available ones,
  no two buffers hold the same block, and an available buffer without a delayed write holds what is on disk
  (\<open>bio_inv\<close>).  \<open>cur\<close> is what a block holds as the system sees it.
\<close>

subsection \<open>The invariant of the cache\<close>

text \<open>What the cache says of a buffer: the block, the data and the flags.\<close>

definition pb :: "bst \<Rightarrow> bref \<Rightarrow> int \<times> int \<times> int list \<times> bflag set" where
  "pb s x = (b_dev (bh s x), b_blkno (bh s x), b_data (bh s x), fl s x)"

lemma pb_eq: "pb s x = (d, b, t, F) \<longleftrightarrow> b_dev (bh s x) = d \<and> b_blkno (bh s x) = b \<and> b_data (bh s x) = t \<and> fl s x = F"
  by (simp add: pb_def)

lemma pb_same: "pb s x = pb s' x \<Longrightarrow> b_dev (bh s x) = b_dev (bh s' x) \<and> b_blkno (bh s x) = b_blkno (bh s' x) \<and>
   b_data (bh s x) = b_data (bh s' x) \<and> fl s x = fl s' x"
  by (simp add: pb_def)

text \<open>Every buffer is on the list of its block's bucket, those without a device on that of \<open>bfreelist\<close>.\<close>

definition cache_ok :: "(bref \<Rightarrow> bref list) \<Rightarrow> bst \<Rightarrow> bool" where
  "cache_ok R s \<longleftrightarrow> 0 < v_hbuf s \<and> bdevcnt s \<le> 127 \<and>
     (\<forall>x\<in>Bufs s. x \<in> set (R (if b_dev (bh s x) = NODEV then Fre else bhash s (b_dev (bh s x)) (b_blkno (bh s x)))))"

text \<open>No two buffers hold the same block.\<close>

definition one_each :: "bst \<Rightarrow> bool" where
  "one_each s \<longleftrightarrow> (\<forall>x\<in>Bufs s. \<forall>y\<in>Bufs s. B_STALE \<notin> fl s x \<and> B_STALE \<notin> fl s y \<and> b_dev (bh s x) \<noteq> NODEV \<and>
     b_dev (bh s x) = b_dev (bh s y) \<and> b_blkno (bh s x) = b_blkno (bh s y) \<longrightarrow> x = y)"

definition async_writes :: "bst \<Rightarrow> bref list" where
  "async_writes s = filter (\<lambda>x. B_ASYNC \<in> fl s x \<and> B_READ \<notin> fl s x) (ioq s)"

definition io_ok :: "bst \<Rightarrow> bool" where
  "io_ok s \<longleftrightarrow> distinct (ioq s) \<and> basyncnt s = int (length (async_writes s)) \<and>
     (\<forall>x\<in>set (ioq s). x \<in> Bufs s \<and> B_BUSY \<in> fl s x \<and> B_DONE \<notin> fl s x) \<and>
     (\<forall>x\<in>Bufs s. B_STALE \<in> fl s x \<longrightarrow> B_BUSY \<notin> fl s x \<and> B_DELWRI \<notin> fl s x) \<and>
     (\<forall>x\<in>Bufs s. B_DELWRI \<in> fl s x \<longrightarrow> B_DONE \<in> fl s x) \<and>
     (\<forall>x\<in>Bufs s. B_BUSY \<notin> fl s x \<longrightarrow> B_ERROR \<notin> fl s x \<and> (B_DONE \<notin> fl s x \<longrightarrow> B_ASYNC \<notin> fl s x))"

text \<open>An available buffer that is up to date and has no delayed write holds what the disk holds.\<close>

definition settled :: "bst \<Rightarrow> bref \<Rightarrow> bool" where
  "settled s x \<longleftrightarrow> b_dev (bh s x) \<noteq> NODEV \<and> B_STALE \<notin> fl s x \<and> B_BUSY \<notin> fl s x \<and> B_DONE \<in> fl s x \<and> B_DELWRI \<notin> fl s x"

definition coherent :: "bst \<Rightarrow> bool" where
  "coherent s \<longleftrightarrow> (\<forall>x\<in>Bufs s. settled s x \<longrightarrow> b_data (bh s x) = disk s (b_dev (bh s x)) (b_blkno (bh s x)))"

definition bio_inv :: "(bref \<Rightarrow> bref list) \<Rightarrow> bref list \<Rightarrow> bst \<Rightarrow> bool" where
  "bio_inv R A s \<longleftrightarrow> hash_lists R s \<and> av_list A s \<and> cache_ok R s \<and> one_each s \<and> io_ok s \<and> coherent s"

definition clean :: "bst \<Rightarrow> bref \<Rightarrow> bool" where
  "clean s x \<longleftrightarrow> b_dev (bh s x) = NODEV \<or> B_ERROR \<in> fl s x \<or> B_DELWRI \<in> fl s x \<or> B_DONE \<notin> fl s x \<or>
     b_data (bh s x) = disk s (b_dev (bh s x)) (b_blkno (bh s x))"

lemma bio_invD:
  assumes "bio_inv R A s"
  shows "hash_lists R s" "av_list A s" "cache_ok R s" "one_each s" "io_ok s" "coherent s"
  using assms unfolding bio_inv_def by blast+

lemma io_okD:
  assumes "io_ok s"
  shows "distinct (ioq s)" "basyncnt s = int (length (async_writes s))"
    "x \<in> set (ioq s) \<Longrightarrow> x \<in> Bufs s" "x \<in> set (ioq s) \<Longrightarrow> B_BUSY \<in> fl s x" "x \<in> set (ioq s) \<Longrightarrow> B_DONE \<notin> fl s x"
    "x \<in> Bufs s \<Longrightarrow> B_STALE \<in> fl s x \<Longrightarrow> B_BUSY \<notin> fl s x" "x \<in> Bufs s \<Longrightarrow> B_STALE \<in> fl s x \<Longrightarrow> B_DELWRI \<notin> fl s x"
    "x \<in> Bufs s \<Longrightarrow> B_DELWRI \<in> fl s x \<Longrightarrow> B_DONE \<in> fl s x"
    "x \<in> Bufs s \<Longrightarrow> B_BUSY \<notin> fl s x \<Longrightarrow> B_ERROR \<notin> fl s x \<and> (B_DONE \<notin> fl s x \<longrightarrow> B_ASYNC \<notin> fl s x)"
  using assms unfolding io_ok_def by blast+

text \<open>An operation that changes one buffer.\<close>

definition changed :: "bref \<Rightarrow> bst \<Rightarrow> bst \<Rightarrow> bool" where
  "changed x s s' \<longleftrightarrow> x \<in> Bufs s \<and> (\<forall>y\<in>Bufs s. y \<noteq> x \<longrightarrow> pb s' y = pb s y) \<and>
     v_buf s' = v_buf s \<and> v_hbuf s' = v_hbuf s \<and> bdevcnt s' = bdevcnt s"

lemma changedD:
  assumes "changed x s s'"
  shows "x \<in> Bufs s" "y \<in> Bufs s \<Longrightarrow> y \<noteq> x \<Longrightarrow> b_dev (bh s' y) = b_dev (bh s y)"
    "y \<in> Bufs s \<Longrightarrow> y \<noteq> x \<Longrightarrow> b_blkno (bh s' y) = b_blkno (bh s y)" "y \<in> Bufs s \<Longrightarrow> y \<noteq> x \<Longrightarrow> b_data (bh s' y) = b_data (bh s y)"
    "y \<in> Bufs s \<Longrightarrow> y \<noteq> x \<Longrightarrow> fl s' y = fl s y" "Bufs s' = Bufs s" "heads s' = heads s" "bhash s' = bhash s"
    "v_hbuf s' = v_hbuf s" "bdevcnt s' = bdevcnt s"
  using assms unfolding changed_def pb_def by (auto simp: Bufs_def heads_def bhash_def fun_eq_iff)

lemma cache_ok_changed:
  assumes "cache_ok R s" "changed x s s'" "b_dev (bh s' x) = b_dev (bh s x)" "b_blkno (bh s' x) = b_blkno (bh s x)"
  shows "cache_ok R s'"
proof -
  note c = changedD [OF assms(2)]
  have e: "b_dev (bh s' y) = b_dev (bh s y)" "b_blkno (bh s' y) = b_blkno (bh s y)" if "y \<in> Bufs s" for y
    using c(2,3) [OF that] assms(3,4) by (cases "y = x"; simp)+
  have "y \<in> set (R (if b_dev (bh s' y) = NODEV then Fre else bhash s (b_dev (bh s' y)) (b_blkno (bh s' y))))"
    if "y \<in> Bufs s" for y unfolding e [OF that] using assms(1) that unfolding cache_ok_def by blast
  with assms(1) show ?thesis unfolding cache_ok_def c(6,8,9,10) by blast
qed

lemma one_each_changed:
  assumes "one_each s" "changed x s s'"
    "\<And>y. y \<in> Bufs s \<Longrightarrow> y \<noteq> x \<Longrightarrow> B_STALE \<notin> fl s' x \<Longrightarrow> B_STALE \<notin> fl s y \<Longrightarrow> b_dev (bh s' x) \<noteq> NODEV \<Longrightarrow>
      b_dev (bh s y) = b_dev (bh s' x) \<Longrightarrow> b_blkno (bh s y) = b_blkno (bh s' x) \<Longrightarrow> False"
  shows "one_each s'"
  unfolding one_each_def
proof (intro ballI impI, elim conjE)
  note c = changedD [OF assms(2)]
  fix y z
  assume y: "y \<in> Bufs s'" "z \<in> Bufs s'" "B_STALE \<notin> fl s' y" "B_STALE \<notin> fl s' z" "b_dev (bh s' y) \<noteq> NODEV"
    "b_dev (bh s' y) = b_dev (bh s' z)" "b_blkno (bh s' y) = b_blkno (bh s' z)"
  show "y = z"
  proof (rule ccontr)
    assume ne: "y \<noteq> z"
    consider "y = x" | "z = x" | "y \<noteq> x" "z \<noteq> x" by blast
    then show False
    proof cases
      case 1
      then have z: "z \<in> Bufs s" "z \<noteq> x" using y(2) ne unfolding c(6) by auto
      note cz = c(2,3,5) [OF z]
      show False by (rule assms(3) [OF z]) (use y(3-7) in \<open>simp_all add: 1 cz\<close>)
    next
      case 2
      then have z: "y \<in> Bufs s" "y \<noteq> x" using y(1) ne unfolding c(6) by auto
      note cz = c(2,3,5) [OF z]
      show False by (rule assms(3) [OF z]) (use y(3-7) in \<open>simp_all add: 2 cz\<close>)
    next
      case 3
      note cy = c(2,3,5) [OF y(1) [unfolded c(6)] 3(1)] and cz = c(2,3,5) [OF y(2) [unfolded c(6)] 3(2)]
      from assms(1) [unfolded one_each_def, rule_format, of y z] y ne show False unfolding c(6) cy cz by simp
    qed
  qed
qed

lemma same_block_unique:
  assumes "one_each s" "x \<in> Bufs s" "B_STALE \<notin> fl s x" "changed x s s'" "b_dev (bh s' x) = b_dev (bh s x)" "b_blkno (bh s' x) = b_blkno (bh s x)"
  shows "one_each s'"
  using assms(1,4)
proof (rule one_each_changed)
  fix y assume "y \<in> Bufs s" "y \<noteq> x" "B_STALE \<notin> fl s' x" "B_STALE \<notin> fl s y" "b_dev (bh s' x) \<noteq> NODEV"
      "b_dev (bh s y) = b_dev (bh s' x)" "b_blkno (bh s y) = b_blkno (bh s' x)"
  with assms(1-3,5,6) show False unfolding one_each_def by metis
qed

lemma io_ok_changed:
  assumes i: "io_ok s" and ch: "changed x s s'" and q: "distinct (ioq s')" "set (ioq s') - {x} \<subseteq> set (ioq s)"
    and n: "basyncnt s' = int (length (async_writes s'))"
    and x: "x \<in> set (ioq s') \<Longrightarrow> B_BUSY \<in> fl s' x \<and> B_DONE \<notin> fl s' x"
      "B_STALE \<in> fl s' x \<Longrightarrow> B_BUSY \<notin> fl s' x \<and> B_DELWRI \<notin> fl s' x" "B_DELWRI \<in> fl s' x \<Longrightarrow> B_DONE \<in> fl s' x"
      "B_BUSY \<in> fl s' x \<or> B_ERROR \<notin> fl s' x \<and> (B_DONE \<in> fl s' x \<or> B_ASYNC \<notin> fl s' x)"
  shows "io_ok s'"
proof -
  note c = changedD [OF ch] and D = io_okD [OF i]
  have "y \<in> Bufs s' \<and> B_BUSY \<in> fl s' y \<and> B_DONE \<notin> fl s' y" if y: "y \<in> set (ioq s')" for y
  proof (cases "y = x")
    case True
    with x(1) y c(1) show ?thesis unfolding c(6) by simp
  next
    case False
    with y q(2) have "y \<in> set (ioq s)" by blast
    with D(3-5) [of y] c(5) [of y] False show ?thesis unfolding c(6) by simp
  qed
  moreover have "B_STALE \<in> fl s' y \<longrightarrow> B_BUSY \<notin> fl s' y \<and> B_DELWRI \<notin> fl s' y" if "y \<in> Bufs s'" for y
    using D(6,7) [of y] x(2) c(5) [of y] that unfolding c(6) by (cases "y = x") auto
  moreover have "B_DELWRI \<in> fl s' y \<longrightarrow> B_DONE \<in> fl s' y" if "y \<in> Bufs s'" for y
    using D(8) [of y] x(3) c(5) [of y] that unfolding c(6) by (cases "y = x") auto
  moreover have "B_BUSY \<notin> fl s' y \<longrightarrow> B_ERROR \<notin> fl s' y \<and> (B_DONE \<notin> fl s' y \<longrightarrow> B_ASYNC \<notin> fl s' y)" if "y \<in> Bufs s'" for y
    using D(9) [of y] x(4) c(5) [of y] that unfolding c(6) by (cases "y = x") auto
  ultimately show ?thesis using q(1) n unfolding io_ok_def by blast
qed

lemma coherent_changed:
  assumes h: "coherent s" and ch: "changed x s s'"
    and x: "settled s' x \<Longrightarrow> b_data (bh s' x) = disk s' (b_dev (bh s' x)) (b_blkno (bh s' x))"
    and k: "\<And>y. y \<in> Bufs s \<Longrightarrow> y \<noteq> x \<Longrightarrow> settled s y \<Longrightarrow>
      disk s' (b_dev (bh s y)) (b_blkno (bh s y)) = disk s (b_dev (bh s y)) (b_blkno (bh s y))"
  shows "coherent s'"
  unfolding coherent_def
proof (intro ballI impI)
  note c = changedD [OF ch]
  fix y assume y: "y \<in> Bufs s'" "settled s' y"
  show "b_data (bh s' y) = disk s' (b_dev (bh s' y)) (b_blkno (bh s' y))"
  proof (cases "y = x")
    case True
    with x y show ?thesis by simp
  next
    case False
    note c' = c(2-5) [OF y(1) [unfolded c(6)] False]
    have "settled s y" using y(2) unfolding settled_def c' .
    with h y(1) k [of y] False show ?thesis unfolding c' c(6) coherent_def by simp
  qed
qed

subsection \<open>The operations keep the invariant\<close>

lemma Bufs_length:
  assumes "distinct xs" "set xs \<subseteq> Bufs s"
  shows "length xs \<le> v_buf s"
proof -
  have "card (set xs) \<le> card (Bufs s)" using assms(2) by (intro card_mono) (auto simp: Bufs_def)
  moreover have "card (Bufs s) = v_buf s" by (simp add: Bufs_def card_image inj_on_def)
  ultimately show ?thesis using distinct_card [OF assms(1)] by simp
qed

lemma bucket_list:
  assumes "hash_lists R s" "k \<in> heads s"
  shows "bucket s k = R k"
proof -
  note r = hash_lists_parts(1) [OF assms]
  show ?thesis unfolding bucket_def
    by (rule ring_walk_all [OF r Bufs_length [OF conjunct1 [OF ring_distinct [OF r]] hash_lists_parts(2) [OF assms]]])
qed

lemma avail_list:
  assumes "av_list A s"
  shows "avail s = A"
proof -
  note p = av_list_parts [OF assms]
  have "set A \<subseteq> Bufs s" unfolding p(2) by blast
  from ring_walk_all [OF p(1) Bufs_length [OF conjunct1 [OF ring_distinct [OF p(1)]] this]] show ?thesis by (simp add: avail_def)
qed

lemma async_writes_cong:
  assumes "ioq s' = ioq s" "\<And>x. x \<in> set (ioq s) \<Longrightarrow> fl s' x = fl s x"
  shows "async_writes s' = async_writes s"
  unfolding async_writes_def assms(1) using assms(2) by (intro filter_cong) auto

lemma bio_inv_links:
  assumes i: "bio_inv R A s" and l: "bfs s' = bfs s" "bbs s' = bbs s" and av: "av_list A s'"
    and r: "rest s' = rest s" and p: "\<And>x. x \<in> Bufs s \<Longrightarrow> pb s' x = pb s x"
  shows "bio_inv R A s'"
proof -
  note D = bio_invD [OF i] and B = Bufs_rest [OF r] and R = rest_eq [OF r]
  have f: "fl s' x = fl s x" "b_dev (bh s' x) = b_dev (bh s x)" "b_blkno (bh s' x) = b_blkno (bh s x)"
    "b_data (bh s' x) = b_data (bh s x)" if "x \<in> Bufs s" for x
    using pb_same [OF p [OF that]] by simp_all
  have aw: "async_writes s' = async_writes s"
    using R f(1) io_okD(3) [OF D(5)] by (intro async_writes_cong) auto
  have "hash_lists R s'" by (rule hash_lists_cong [OF D(1) l(1,2) r])
  moreover have "cache_ok R s'"
    using D(3) f(2,3) R unfolding cache_ok_def B bhash_rest [OF r] by auto
  moreover have "one_each s'" using D(4) f unfolding one_each_def B by auto
  moreover have "io_ok s'" using D(5) f R aw unfolding io_ok_def B by auto
  moreover have "coherent s'" using D(6) f R unfolding coherent_def settled_def B by auto
  ultimately show ?thesis using av unfolding bio_inv_def by blast
qed

lemma bio_inv_cong:
  assumes i: "bio_inv R A s" and l: "bfs s' = bfs s" "bbs s' = bbs s" "afs s' = afs s" "abs' s' = abs' s"
    "b_bcount (bh s' Fre) = b_bcount (bh s Fre)" and r: "rest s' = rest s" and p: "\<And>x. x \<in> Bufs s \<Longrightarrow> pb s' x = pb s x"
  shows "bio_inv R A s'"
proof (rule bio_inv_links [OF i l(1,2) _ r p])
  show "av_list A s'" by (rule av_list_cong [OF bio_invD(2) [OF i] l(3,4) r l(5)]) (use pb_same [OF p] in simp)
qed

lemma changedI:
  assumes "x \<in> Bufs s" "rest s' = rest s" "\<And>y. y \<noteq> x \<Longrightarrow> y \<noteq> Fre \<Longrightarrow> pb s' y = pb s y"
  shows "changed x s s'"
  using assms rest_eq [OF assms(2)] unfolding changed_def by (auto simp: Bufs_def)

lemma take_inv:
  assumes i: "bio_inv R (us @ x # vs) s" and st: "B_STALE \<notin> fl s x"
  shows "bio_inv R (us @ vs) (notavail x s)"
proof -
  let ?s = "notavail x s"
  note D = bio_invD [OF i] and O = io_okD [OF bio_invD(5) [OF i]]
  have x: "x \<in> Bufs s" "B_BUSY \<notin> fl s x" using av_listD [OF D(2), of x] by simp_all
  then have xF: "x \<noteq> Fre" by auto
  have xq: "x \<notin> set (ioq s)" using O(4) x(2) by blast
  note sel = notavail_sel [OF xF ring_not_self(2,1) [OF av_list_parts(1) [OF D(2)], of x], simplified]
  note R = rest_eq [OF sel(8)]
  have ch: "changed x s ?s" by (rule changedI [OF x(1) sel(8)]) (use sel(7) in \<open>simp add: pb_def core_def sel(5)\<close>)
  have db: "b_dev (bh ?s x) = b_dev (bh s x)" "b_blkno (bh ?s x) = b_blkno (bh s x)" using core_eq [OF sel(7)] by simp_all
  have "hash_lists R ?s" by (rule hash_lists_cong [OF D(1) _ _ sel(8)]) (simp_all add: sel(3,4) fun_eq_iff)
  moreover have "av_list (us @ vs) ?s" by (rule notavail_list [OF D(2)])
  moreover have "cache_ok R ?s" by (rule cache_ok_changed [OF D(3) ch db])
  moreover have "one_each ?s" by (rule same_block_unique [OF D(4) x(1) st ch db])
  moreover have "io_ok ?s"
  proof (rule io_ok_changed [OF D(5) ch])
    have "async_writes ?s = async_writes s" by (rule async_writes_cong) (use R xq sel(5) in auto)
    then show "basyncnt ?s = int (length (async_writes ?s))" using O(2) R by simp
  qed (use O(1) R xq sel(5) st O(8) [OF x(1)] in auto)
  moreover have "coherent ?s"
    by (rule coherent_changed [OF D(6) ch]) (use sel(5) R in \<open>simp_all add: settled_def\<close>)
  ultimately show ?thesis unfolding bio_inv_def by blast
qed

text \<open>An operation on one busy buffer outside the driver's queue that moves no header.\<close>

lemma held_inv:
  assumes i: "bio_inv R A s" and ch: "changed x s s'" and l: "bfs s' = bfs s" "bbs s' = bbs s" "afs s' = afs s" "abs' s' = abs' s"
    "b_bcount (bh s' Fre) = b_bcount (bh s Fre)" and b: "B_BUSY \<in> fl s x" "B_BUSY \<in> fl s' x" and xq: "x \<notin> set (ioq s)"
    and e: "b_dev (bh s' x) = b_dev (bh s x)" "b_blkno (bh s' x) = b_blkno (bh s x)" and d: "disk s' = disk s"
    and f: "B_STALE \<notin> fl s' x" "B_DELWRI \<in> fl s' x \<Longrightarrow> B_DONE \<in> fl s' x"
    and q: "ioq s' = ioq s \<and> basyncnt s' = basyncnt s \<or>
      ioq s' = ioq s @ [x] \<and> B_DONE \<notin> fl s' x \<and>
      basyncnt s' = basyncnt s + (if B_ASYNC \<in> fl s' x \<and> B_READ \<notin> fl s' x then 1 else 0)"
  shows "bio_inv R A s'"
proof -
  note D = bio_invD [OF i] and O = io_okD [OF bio_invD(5) [OF i]] and c = changedD [OF ch]
  have st: "B_STALE \<notin> fl s x" using O(6) [OF c(1)] b(1) by blast
  have "hash_lists R s'" using D(1) unfolding hash_lists_def l c(6,7) .
  moreover have "av_list A s'"
  proof -
    note p = av_list_parts [OF D(2)]
    have "set A = {y \<in> Bufs s'. B_BUSY \<notin> fl s' y}" unfolding p(2) c(6) using b c(5) by auto
    with p show ?thesis unfolding av_list_def l by simp
  qed
  moreover have "cache_ok R s'" by (rule cache_ok_changed [OF D(3) ch e])
  moreover have "one_each s'" by (rule same_block_unique [OF D(4) c(1) st ch e])
  moreover have "io_ok s'"
  proof (rule io_ok_changed [OF D(5) ch])
    have w: "filter (\<lambda>x. B_ASYNC \<in> fl s' x \<and> B_READ \<notin> fl s' x) (ioq s) = async_writes s"
      unfolding async_writes_def by (rule filter_cong) (use c(5) O(3) xq in auto)
    show "basyncnt s' = int (length (async_writes s'))"
      using q O(2) w by (elim disjE conjE) (simp_all add: async_writes_def)
    show "distinct (ioq s')" "set (ioq s') - {x} \<subseteq> set (ioq s)" using q O(1) xq by auto
    show "x \<in> set (ioq s') \<Longrightarrow> B_BUSY \<in> fl s' x \<and> B_DONE \<notin> fl s' x" using q xq b(2) by auto
  qed (use f b(2) in auto)
  moreover have "coherent s'"
    by (rule coherent_changed [OF D(6) ch]) (use b(2) d in \<open>simp_all add: settled_def\<close>)
  ultimately show ?thesis unfolding bio_inv_def by blast
qed

lemma fl_on_sel:
  "bfs (fl_on F x s) = bfs s" "bbs (fl_on F x s) = bbs s" "afs (fl_on F x s) = afs s" "abs' (fl_on F x s) = abs' s"
  "b_bcount (bh (fl_on F x s) y) = b_bcount (bh s y)" "core (fl_on F x s) y = core s y" "rest (fl_on F x s) = rest s"
  "fl (fl_on F x s) y = (if y = x then fl s x \<union> F else fl s y)"
  by (auto simp: fl_on_def bh_bupd core_def fun_eq_iff)

lemma fl_off_sel:
  "bfs (fl_off F x s) = bfs s" "bbs (fl_off F x s) = bbs s" "afs (fl_off F x s) = afs s" "abs' (fl_off F x s) = abs' s"
  "b_bcount (bh (fl_off F x s) y) = b_bcount (bh s y)" "core (fl_off F x s) y = core s y" "rest (fl_off F x s) = rest s"
  "fl (fl_off F x s) y = (if y = x then fl s x - F else fl s y)"
  by (auto simp: fl_off_def bh_bupd core_def fun_eq_iff)

lemma bwrite_sel:
  "bfs (bwrite x s) = bfs s" "bbs (bwrite x s) = bbs s" "afs (bwrite x s) = afs s" "abs' (bwrite x s) = abs' s"
  "b_bcount (bh (bwrite x s) y) = b_bcount (bh s y)" "core (bwrite x s) y = core s y"
  "fl (bwrite x s) y = (if y = x then fl s x - {B_READ, B_DONE, B_ERROR, B_DELWRI, B_LOPRI} else fl s y)"
  "ioq (bwrite x s) = ioq s @ [x]" "basyncnt (bwrite x s) = basyncnt s + (if B_ASYNC \<in> fl s x then 1 else 0)"
  "disk (bwrite x s) = disk s" "v_buf (bwrite x s) = v_buf s" "v_hbuf (bwrite x s) = v_hbuf s" "bdevcnt (bwrite x s) = bdevcnt s"
  "lbolt (bwrite x s) = lbolt s"
  by (auto simp: bwrite_def Let_def strategy_def geterror_def fl_off_def bh_bupd core_def bupd_def fun_eq_iff)

lemma bwrite_changed: "x \<in> Bufs s \<Longrightarrow> changed x s (bwrite x s)"
  using bwrite_sel [of x s] unfolding changed_def by (auto simp: pb_def core_def)

lemma bwrite_inv:
  assumes i: "bio_inv R A s" and x: "x \<in> Bufs s" "B_BUSY \<in> fl s x" "x \<notin> set (ioq s)"
  shows "bio_inv R A (bwrite x s)"
proof (rule held_inv [OF i bwrite_changed [OF x(1)]])
  note O = io_okD [OF bio_invD(5) [OF i]]
  show "B_STALE \<notin> fl (bwrite x s) x" using O(6) [OF x(1)] x(2) by (auto simp: bwrite_sel)
qed (use x core_eq [OF bwrite_sel(6), of x s x] in \<open>auto simp: bwrite_sel\<close>)

lemma flags_inv:
  assumes i: "bio_inv R A s" and F: "F \<subseteq> {B_ASYNC, B_LOPRI, B_WANTED, B_AGE}" and x: "B_ASYNC \<notin> F \<or> x \<notin> set (ioq s) \<and> (B_BUSY \<in> fl s x \<or> B_DONE \<in> fl s x)"
  shows "bio_inv R A (fl_on F x s)"
proof (cases "x \<in> Bufs s")
  case False
  show ?thesis
    by (rule bio_inv_cong [OF i]) (use False in \<open>auto simp: fl_on_sel pb_def core_eq [OF fl_on_sel(6)]\<close>)
next
  case True
  let ?s = "fl_on F x s"
  note D = bio_invD [OF i] and O = io_okD [OF bio_invD(5) [OF i]] and R = rest_eq [OF fl_on_sel(7) [of F x s]]
  note db = core_eq [OF fl_on_sel(6) [of F x s]]
  have ch: "changed x s ?s" by (rule changedI [OF True fl_on_sel(7)]) (simp add: pb_def db fl_on_sel(8))
  have G: "B_BUSY \<in> fl ?s y \<longleftrightarrow> B_BUSY \<in> fl s y" "B_STALE \<in> fl ?s y \<longleftrightarrow> B_STALE \<in> fl s y" "B_DONE \<in> fl ?s y \<longleftrightarrow> B_DONE \<in> fl s y"
    "B_DELWRI \<in> fl ?s y \<longleftrightarrow> B_DELWRI \<in> fl s y" "B_READ \<in> fl ?s y \<longleftrightarrow> B_READ \<in> fl s y" for y
    using F by (auto simp: fl_on_sel(8))
  have "hash_lists R ?s" by (rule hash_lists_cong [OF D(1)]) (simp_all add: fl_on_sel)
  moreover have "av_list A ?s" by (rule av_list_cong [OF D(2)]) (simp_all only: fl_on_sel(1-7) G)
  moreover have "cache_ok R ?s" by (rule cache_ok_changed [OF D(3) ch]) (simp_all add: db)
  moreover have "one_each ?s"
    by (rule one_each_changed [OF D(4) ch]) (use D(4) True in \<open>auto simp: db G one_each_def\<close>)
  moreover have "io_ok ?s"
  proof (rule io_ok_changed [OF D(5) ch])
    have "async_writes ?s = async_writes s"
      unfolding async_writes_def using R x by (intro filter_cong) (auto simp: fl_on_sel(8) dest: subsetD [OF F])
    then show "basyncnt ?s = int (length (async_writes ?s))" using O(2) R by simp
    show "B_BUSY \<in> fl ?s x \<or> B_ERROR \<notin> fl ?s x \<and> (B_DONE \<in> fl ?s x \<or> B_ASYNC \<notin> fl ?s x)"
      using O(9) [OF True] x F unfolding G by (auto simp: fl_on_sel(8))
  qed (use O R True in \<open>auto simp: G\<close>)
  moreover have "coherent ?s"
    by (rule coherent_changed [OF D(6) ch]) (use D(6) True R in \<open>simp_all add: settled_def G db coherent_def\<close>)
  ultimately show ?thesis unfolding bio_inv_def by blast
qed

lemma push_inv:
  assumes i: "bio_inv R (us @ x # vs) s" and x: "B_DELWRI \<in> fl s x"
  shows "bio_inv R (us @ vs) (push_out x (notavail x s))"
    "F \<subseteq> {B_ASYNC, B_LOPRI} \<Longrightarrow> bio_inv R (us @ vs) (bwrite x (notavail x (fl_on F x s)))"
proof -
  note D = bio_invD [OF i] and O = io_okD [OF bio_invD(5) [OF i]]
  have xb: "x \<in> Bufs s" "B_BUSY \<notin> fl s x" using av_listD [OF D(2), of x] by simp_all
  have st: "B_STALE \<notin> fl s x" using O(7) [OF xb(1)] x by blast
  have xq: "x \<notin> set (ioq s)" using O(4) xb(2) by blast
  have take: "bio_inv R (us @ vs) (notavail x t)" "x \<in> Bufs (notavail x t)" "B_BUSY \<in> fl (notavail x t) x" "x \<notin> set (ioq (notavail x t))"
    if t: "bio_inv R (us @ x # vs) t" "B_STALE \<notin> fl t x" "x \<in> Bufs t" "x \<notin> set (ioq t)" for t
  proof -
    have "x \<noteq> Fre" using t(3) by auto
    note sel = notavail_sel [OF this ring_not_self(2,1) [OF av_list_parts(1) [OF bio_invD(2) [OF t(1)]], of x], simplified]
    show "bio_inv R (us @ vs) (notavail x t)" by (rule take_inv [OF t(1,2)])
    show "x \<in> Bufs (notavail x t)" "B_BUSY \<in> fl (notavail x t) x" "x \<notin> set (ioq (notavail x t))"
      using t(3,4) Bufs_rest(1) [OF sel(8)] sel(5) rest_eq [OF sel(8)] by auto
  qed
  note T = take [OF i st xb(1) xq]
  have "bio_inv R (us @ vs) (fl_on {B_ASYNC, B_LOPRI} x (notavail x s))" by (rule flags_inv [OF T(1)]) (use T(3,4) in auto)
  then show "bio_inv R (us @ vs) (push_out x (notavail x s))"
    unfolding push_out_def by (rule bwrite_inv) (use T Bufs_rest(1) [OF fl_on_sel(7)] rest_eq [OF fl_on_sel(7)] in \<open>auto simp: fl_on_sel(8)\<close>)
  assume F: "F \<subseteq> {B_ASYNC, B_LOPRI}"
  let ?t = "fl_on F x s"
  have t: "bio_inv R (us @ x # vs) ?t" "B_STALE \<notin> fl ?t x" "x \<in> Bufs ?t" "x \<notin> set (ioq ?t)"
    using flags_inv [OF i, of F x] O(8) [OF xb(1) x] F xq st xb(1) Bufs_rest(1) [OF fl_on_sel(7)] rest_eq [OF fl_on_sel(7) [of F x s]]
    by (auto simp: fl_on_sel(8))
  from bwrite_inv [OF take [OF t]] show "bio_inv R (us @ vs) (bwrite x (notavail x ?t))" .
qed

lemma brelse_inv:
  assumes i: "bio_inv R A s" and x: "x \<in> Bufs s" "B_BUSY \<in> fl s x" "x \<notin> set (ioq s)" and cl: "clean s x"
  shows "bio_inv R (put_av x (fl s x) A) (brelse x s)"
proof -
  let ?s = "brelse x s"
  note D = bio_invD [OF i] and O = io_okD [OF bio_invD(5) [OF i]]
  have xF: "x \<noteq> Fre" using x(1) by auto
  note L = brelse_list [OF D(2) x(1,2)]
  note sel = brelse_sel [OF xF L(2,3)] and R = rest_eq [OF brelse_sel(8) [OF xF L(2,3)]]
  have ch: "changed x s ?s" by (rule changedI [OF x(1) sel(8)]) (simp add: pb_def sel(3,5-7))
  have fx: "fl ?s x = rel_flags (fl s x)" using sel(3) [OF xF] by simp
  have st: "B_STALE \<notin> fl s x" using O(6) [OF x(1)] x(2) by blast
  have "hash_lists R ?s" by (rule hash_lists_cong [OF D(1) _ _ sel(8)]) (simp_all add: sel(1,2) fun_eq_iff)
  moreover have "cache_ok R ?s" by (rule cache_ok_changed [OF D(3) ch sel(5,6)])
  moreover have "one_each ?s" by (rule same_block_unique [OF D(4) x(1) st ch sel(5,6)])
  moreover have "io_ok ?s"
  proof (rule io_ok_changed [OF D(5) ch])
    have "async_writes ?s = async_writes s"
      by (rule async_writes_cong) (use R O(3) x(3) changedD(5) [OF ch] in auto)
    then show "basyncnt ?s = int (length (async_writes ?s))" using O(2) R by simp
  qed (use O(1) O(8) [OF x(1)] R x st fx in \<open>auto simp: rel_flags_def split: if_splits\<close>)
  moreover have "coherent ?s"
    by (rule coherent_changed [OF D(6) ch])
      (use cl fx R in \<open>auto simp: settled_def clean_def sel(5-7) rel_flags_def split: if_splits\<close>)
  ultimately show ?thesis using L(1) unfolding bio_inv_def by blast
qed

lemma bhash_heads: "0 < v_hbuf s \<Longrightarrow> bhash s d b \<in> heads s"
proof -
  assume h: "0 < v_hbuf s"
  let ?k = "c_int (d + b) AND (int (v_hbuf s) - 1)"
  have "0 \<le> ?k" "?k \<le> int (v_hbuf s) - 1" using h AND_upper2 [of "int (v_hbuf s) - 1" "c_int (d + b)"] by auto
  then have "nat ?k < v_hbuf s" using h by linarith
  then show ?thesis by (auto simp: bhash_def heads_def)
qed

text \<open>Giving the first available buffer to another block, or to no block.\<close>

definition reassign :: "bref \<Rightarrow> bref \<Rightarrow> bflag set \<Rightarrow> (buf \<Rightarrow> buf) \<Rightarrow> bst \<Rightarrow> bst" where
  "reassign x dp F g s = bupd x g (b_link dp x (b_unlink x (bupd x (\<lambda>c. c\<lparr>b_flags := F\<rparr>) s)))"

definition labels :: "int \<Rightarrow> (buf \<Rightarrow> buf) \<Rightarrow> bool" where
  "labels d g \<longleftrightarrow> (\<forall>c. b_forw (g c) = b_forw c \<and> b_back (g c) = b_back c \<and> av_forw (g c) = av_forw c \<and> av_back (g c) = av_back c \<and>
     b_flags (g c) = b_flags c \<and> b_data (g c) = b_data c \<and> b_dev (g c) = d)"

lemma reassign_inv:
  assumes i: "bio_inv R (x # vs) s" and F: "B_BUSY \<in> F" "F \<subseteq> {B_BUSY, B_AGE}" and g: "labels d g"
    and dp: "\<And>c. b_blkno (g c) = b' c" "dp = (if d = NODEV then Fre else bhash s d b)" "d \<noteq> NODEV \<Longrightarrow> \<forall>c. b' c = b"
    and u: "\<And>y. y \<in> Bufs s \<Longrightarrow> d \<noteq> NODEV \<Longrightarrow> B_STALE \<notin> fl s y \<Longrightarrow> b_dev (bh s y) = d \<Longrightarrow> b_blkno (bh s y) = b \<Longrightarrow> False"
  defines "s' \<equiv> reassign x dp F g (notavail x s)"
  shows "bio_inv (moved x dp R) vs s'" "changed x s s'" "fl s' x = F" "b_dev (bh s' x) = d" "d \<noteq> NODEV \<Longrightarrow> b_blkno (bh s' x) = b"
    "ioq s' = ioq s" "disk s' = disk s" "x \<in> Bufs s" "x \<notin> set (ioq s)"
proof -
  note D = bio_invD [OF i] and O = io_okD [OF bio_invD(5) [OF i]]
  note g' = g [unfolded labels_def, rule_format]
  show xb: "x \<in> Bufs s" using av_listD [OF D(2), of x] by simp
  have nb: "B_BUSY \<notin> fl s x" using av_listD [OF D(2), of x] by simp
  have xF: "x \<noteq> Fre" using xb by auto
  show xq: "x \<notin> set (ioq s)" using O(4) nb by blast
  define t where "t = bupd x (\<lambda>c. c\<lparr>b_flags := F\<rparr>) (notavail x s)"
  note N = notavail_sel [OF xF ring_not_self(2,1) [OF av_list_parts(1) [OF D(2)], of x], simplified]
  have t: "bfs t = bfs s" "bbs t = bbs s" "afs t = afs (notavail x s)" "abs' t = abs' (notavail x s)"
    "b_bcount (bh t Fre) = b_bcount (bh (notavail x s) Fre)" "rest t = rest s" "core t y = core s y" "fl t y = (if y = x then F else fl s y)" for y
    using xF N(7) [of y] N(7) [of x] by (simp_all add: t_def bh_bupd N(3,4,5,8) fun_eq_iff core_def)
  have Ht: "hash_lists R t" by (rule hash_lists_cong [OF D(1) t(1,2,6)])
  have B: "Bufs t = Bufs s" "heads t = heads s" using Bufs_rest [OF t(6)] by simp_all
  have h0: "0 < v_hbuf s" using D(3) by (simp add: cache_ok_def)
  have dph: "dp \<in> heads t" unfolding B dp(2) using bhash_heads [OF h0] by (auto simp: heads_def)
  obtain k where k: "k \<in> heads t" "x \<in> set (R k)" using hash_lists_parts(3) [OF Ht, of x] xb B by auto
  note L = relink_lists [OF Ht k dph]
  note U = b_unlink_sel [OF L(4,5)] and K = b_link_sel [OF L(2,3)]
  have s': "s' = bupd x g (b_link dp x (b_unlink x t))" by (simp add: s'_def reassign_def t_def)
  have S: "bfs s' = bfs (b_link dp x (b_unlink x t))" "bbs s' = bbs (b_link dp x (b_unlink x t))"
    "afs s' = afs (notavail x s)" "abs' s' = abs' (notavail x s)" "b_bcount (bh s' Fre) = b_bcount (bh (notavail x s) Fre)" "rest s' = rest s"
    using xF by (simp_all add: s' bh_bupd g' fun_eq_iff K(3,4,6,8) U(3,4,6,8) t(5,6) fun_cong [OF t(3)] fun_cong [OF t(4)])
  note R = rest_eq [OF S(6)]
  show fx: "fl s' x = F" by (simp add: s' bh_bupd g' K(5) U(5) t(8))
  show dx: "b_dev (bh s' x) = d" by (simp add: s' bh_bupd g')
  show bx: "d \<noteq> NODEV \<Longrightarrow> b_blkno (bh s' x) = b" using dp(1,3) by (simp add: s' bh_bupd)
  show "ioq s' = ioq s" "disk s' = disk s" using R by simp_all
  show ch: "changed x s s'"
  proof (rule changedI [OF xb S(6)])
    fix y assume "y \<noteq> x" "y \<noteq> Fre"
    then show "pb s' y = pb s y"
      using core_eq [OF K(7) [of y]] core_eq [OF U(7) [of y]] core_eq [OF t(7) [of y]]
      by (simp add: s' bh_bupd pb_def K(5) U(5) t(8))
  qed
  note c = changedD [OF ch]
  have "hash_lists (moved x dp R) s'"
    by (rule hash_lists_cong [OF L(1) S(1,2)]) (simp add: s')
  moreover have "av_list vs s'"
  proof (rule av_list_cong [of _ "notavail x s"])
    show "av_list vs (notavail x s)" using notavail_list [of "[]" x vs s] D(2) by simp
    fix y assume "y \<in> Bufs (notavail x s)"
    then show "B_BUSY \<in> fl s' y \<longleftrightarrow> B_BUSY \<in> fl (notavail x s) y"
      using fx F(1) c(5) [of y] Bufs_rest(1) [OF N(8)] by (cases "y = x") (auto simp: N(5))
  qed (use S N(8) in simp_all)
  moreover have "cache_ok (moved x dp R) s'"
    unfolding cache_ok_def c(6,8,9,10)
  proof (intro conjI ballI)
    fix y assume y: "y \<in> Bufs s"
    show "y \<in> set (moved x dp R (if b_dev (bh s' y) = NODEV then Fre else bhash s (b_dev (bh s' y)) (b_blkno (bh s' y))))"
    proof (cases "y = x")
      case True
      with dx bx dp(2) show ?thesis by (auto simp: moved_def)
    next
      case False
      have "y \<in> set (R (if b_dev (bh s y) = NODEV then Fre else bhash s (b_dev (bh s y)) (b_blkno (bh s y))))"
        using D(3) y unfolding cache_ok_def by blast
      with False c(2,3) [OF y False] show ?thesis by (simp only: moved_other [OF False])
    qed
  qed (use D(3) in \<open>simp_all add: cache_ok_def\<close>)
  moreover have "one_each s'"
    by (rule one_each_changed [OF D(4) ch]) (use u dx bx in auto)
  moreover have "io_ok s'"
  proof (rule io_ok_changed [OF D(5) ch])
    have "async_writes s' = async_writes s" by (rule async_writes_cong) (use R xq c(5) O(3) in auto)
    then show "basyncnt s' = int (length (async_writes s'))" using O(2) R by simp
  qed (use O(1) R xq fx F in auto)
  moreover have "coherent s'" by (rule coherent_changed [OF D(6) ch]) (use fx F(1) R in \<open>simp_all add: settled_def\<close>)
  ultimately show "bio_inv (moved x dp R) vs s'" unfolding bio_inv_def by blast
qed

subsection \<open>What a block holds\<close>

text \<open>The data of a block as the system sees it: the buffer's, if a buffer holds it or is being written, else the disk's.\<close>

definition live :: "bst \<Rightarrow> bref \<Rightarrow> bool" where
  "live s x \<longleftrightarrow> B_DONE \<in> fl s x \<or> x \<in> set (ioq s) \<and> B_READ \<notin> fl s x"

definition cur :: "bst \<Rightarrow> int \<Rightarrow> int \<Rightarrow> int list" where
  "cur s d b = (case find (is_for s d b) (bucket s (bhash s d b)) of
     Some x \<Rightarrow> if live s x then b_data (bh s x) else disk s d b
   | None \<Rightarrow> disk s d b)"

lemma find_block:
  assumes i: "bio_inv R A s" and d: "d \<noteq> NODEV"
  shows "x \<in> Bufs s \<Longrightarrow> is_for s d b x \<Longrightarrow> find (is_for s d b) (bucket s (bhash s d b)) = Some x"
    "find (is_for s d b) (bucket s (bhash s d b)) = Some x \<Longrightarrow> x \<in> Bufs s \<and> is_for s d b x"
    "find (is_for s d b) (bucket s (bhash s d b)) = None \<Longrightarrow> y \<in> Bufs s \<Longrightarrow> \<not> is_for s d b y"
proof -
  note D = bio_invD [OF i]
  let ?k = "bhash s d b" let ?f = "find (is_for s d b) (bucket s (bhash s d b))"
  have k: "?k \<in> heads s" using D(3) by (intro bhash_heads) (simp add: cache_ok_def)
  have e: "bucket s ?k = R ?k" by (rule bucket_list [OF D(1) k])
  have sub: "set (R ?k) \<subseteq> Bufs s" by (rule hash_lists_parts(2) [OF D(1) k])
  have mem: "y \<in> set (R ?k)" if "y \<in> Bufs s" "is_for s d b y" for y
  proof -
    have "y \<in> set (R (if b_dev (bh s y) = NODEV then Fre else bhash s (b_dev (bh s y)) (b_blkno (bh s y))))"
      using D(3) that(1) unfolding cache_ok_def by blast
    with that(2) d show ?thesis by (simp add: is_for_def)
  qed
  have some: "?f = Some y \<Longrightarrow> y \<in> Bufs s \<and> is_for s d b y" for y
    unfolding e find_Some_iff using sub nth_mem by fastforce
  then show "?f = Some x \<Longrightarrow> x \<in> Bufs s \<and> is_for s d b x" .
  show none: "?f = None \<Longrightarrow> y \<in> Bufs s \<Longrightarrow> \<not> is_for s d b y" for y
    unfolding e find_None_iff using mem by blast
  assume x: "x \<in> Bufs s" "is_for s d b x"
  then obtain y where y: "?f = Some y" using none by (cases ?f) auto
  have "y = x" using some [OF y] x D(4) d unfolding one_each_def is_for_def by auto
  with y show "?f = Some x" by simp
qed

lemma cur_own: "bio_inv R A s \<Longrightarrow> d \<noteq> NODEV \<Longrightarrow> x \<in> Bufs s \<Longrightarrow> is_for s d b x \<Longrightarrow>
  cur s d b = (if live s x then b_data (bh s x) else disk s d b)"
  unfolding cur_def by (simp add: find_block(1))

lemma cur_none:
  assumes "bio_inv R A s" "d \<noteq> NODEV" "\<And>x. x \<in> Bufs s \<Longrightarrow> \<not> is_for s d b x"
  shows "cur s d b = disk s d b"
proof (cases "find (is_for s d b) (bucket s (bhash s d b))")
  case (Some x)
  from find_block(2) [OF assms(1,2) this] assms(3) show ?thesis by blast
qed (simp add: cur_def)

lemma cur_change:
  assumes i: "bio_inv R A s" "bio_inv R' A' s'" and ch: "changed x s s'" and d: "d \<noteq> NODEV"
    and k: "disk s' d b = disk s d b" and q: "\<And>y. y \<noteq> x \<Longrightarrow> y \<in> set (ioq s') \<longleftrightarrow> y \<in> set (ioq s)"
    and x: "is_for s' d b x \<Longrightarrow> live s' x \<Longrightarrow> b_data (bh s' x) = cur s d b"
      "is_for s d b x \<Longrightarrow> live s x \<Longrightarrow> \<not> (is_for s' d b x \<and> live s' x) \<Longrightarrow> b_data (bh s x) = disk s d b"
  shows "cur s' d b = cur s d b"
proof -
  note c = changedD [OF ch]
  have other: "is_for s' d b y \<longleftrightarrow> is_for s d b y" "live s' y \<longleftrightarrow> live s y" "b_data (bh s' y) = b_data (bh s y)"
    if "y \<in> Bufs s" "y \<noteq> x" for y
    using c(2-5) [OF that] q [OF that(2)] by (auto simp: is_for_def live_def)
  show ?thesis
  proof (cases "\<exists>y\<in>Bufs s. y \<noteq> x \<and> is_for s d b y")
    case True
    then obtain y where y: "y \<in> Bufs s" "y \<noteq> x" "is_for s d b y" by blast
    note o = other [OF y(1,2)]
    show ?thesis
      using cur_own [OF i(1) d y(1,3)] cur_own [OF i(2) d, of y b] y(1,3) k unfolding c(6) o by simp
  next
    case False
    then have n: "\<not> is_for s d b y" "\<not> is_for s' d b y" if "y \<in> Bufs s" "y \<noteq> x" for y using that other(1) by blast+
    have s: "cur s d b = (if is_for s d b x \<and> live s x then b_data (bh s x) else disk s d b)"
    proof (cases "is_for s d b x")
      case True
      with cur_own [OF i(1) d c(1)] show ?thesis by simp
    next
      case False
      with n(1) cur_none [OF i(1) d, of b] show ?thesis by (metis (full_types))
    qed
    have "cur s' d b = (if is_for s' d b x \<and> live s' x then b_data (bh s' x) else disk s d b)"
    proof (cases "is_for s' d b x")
      case True
      with cur_own [OF i(2) d, of x b] c(1) k show ?thesis unfolding c(6) by simp
    next
      case False
      have "\<not> is_for s' d b y" if "y \<in> Bufs s'" for y using False n(2) [of y] that unfolding c(6) by (cases "y = x") simp_all
      from cur_none [OF i(2) d this] False k show ?thesis by simp
    qed
    with s x show ?thesis by auto
  qed
qed

definition keeps_blocks :: "bst \<Rightarrow> bst \<Rightarrow> bool" where
  "keeps_blocks s s' \<longleftrightarrow> (\<forall>d b. d \<noteq> NODEV \<longrightarrow> cur s' d b = cur s d b)"

lemma keeps_blocks_trans: "keeps_blocks s t \<Longrightarrow> keeps_blocks t u \<Longrightarrow> keeps_blocks s u"
  by (simp add: keeps_blocks_def)

text \<open>An operation that leaves a buffer's block, data and being up to date as they are.\<close>

lemma keeps_same:
  assumes i: "bio_inv R A s" "bio_inv R' A' s'" and ch: "changed x s s'" and k: "disk s' = disk s"
    and q: "\<And>y. y \<noteq> x \<Longrightarrow> y \<in> set (ioq s') \<longleftrightarrow> y \<in> set (ioq s)"
    and x: "b_dev (bh s' x) = b_dev (bh s x)" "b_blkno (bh s' x) = b_blkno (bh s x)" "b_data (bh s' x) = b_data (bh s x)"
      "B_STALE \<in> fl s' x \<longleftrightarrow> B_STALE \<in> fl s x" "live s' x \<longleftrightarrow> live s x"
  shows "keeps_blocks s s'"
  unfolding keeps_blocks_def
proof (intro allI impI)
  fix d b assume d: "d \<noteq> NODEV"
  have f: "is_for s' d b x \<longleftrightarrow> is_for s d b x" using x by (simp add: is_for_def)
  show "cur s' d b = cur s d b"
    by (rule cur_change [OF i ch d]) (use k q f x cur_own [OF i(1) d changedD(1) [OF ch]] in auto)
qed

subsection \<open>getblk\<close>

lemma take_sel:
  assumes i: "bio_inv R (us @ x # vs) s"
  shows "x \<in> Bufs s" "B_BUSY \<notin> fl s x" "x \<notin> set (ioq s)" "rest (notavail x s) = rest s"
    "fl (notavail x s) y = (if y = x then insert B_BUSY (fl s x) else fl s y)" "core (notavail x s) y = core s y"
    "changed x s (notavail x s)"
proof -
  note D = bio_invD [OF i]
  show x: "x \<in> Bufs s" "B_BUSY \<notin> fl s x" using av_listD [OF D(2), of x] by simp_all
  then show "x \<notin> set (ioq s)" using io_okD(4) [OF D(5)] by blast
  have xF: "x \<noteq> Fre" using x(1) by auto
  note sel = notavail_sel [OF xF ring_not_self(2,1) [OF av_list_parts(1) [OF D(2)], of x], simplified]
  show "rest (notavail x s) = rest s" by (rule sel(8))
  show "fl (notavail x s) y = (if y = x then insert B_BUSY (fl s x) else fl s y)" for y by (rule sel(5))
  show "core (notavail x s) y = core s y" for y by (rule sel(7))
  show "changed x s (notavail x s)" by (rule changedI [OF x(1) sel(8)]) (use sel(7) in \<open>simp add: pb_def core_def sel(5)\<close>)
qed

lemma take_keeps:
  assumes i: "bio_inv R (us @ x # vs) s" and st: "B_STALE \<notin> fl s x"
  shows "keeps_blocks s (notavail x s)"
proof (rule keeps_same [OF i take_inv [OF i st] take_sel(7) [OF i]])
  note T = take_sel [OF i] and R = rest_eq [OF take_sel(4) [OF i]]
  show "live (notavail x s) x = live s x" using T(3,5) R by (simp add: live_def)
qed (use core_eq [OF take_sel(6) [OF i]] rest_eq [OF take_sel(4) [OF i]] take_sel(5) [OF i] in auto)

lemma push_sel:
  assumes i: "bio_inv R (us @ x # vs) s" and x: "B_DELWRI \<in> fl s x" and F: "F \<subseteq> {B_ASYNC, B_LOPRI}"
    and s': "s' = push_out x (notavail x s) \<or> s' = bwrite x (notavail x (fl_on F x s))"
  shows "bio_inv R (us @ vs) s'" "keeps_blocks s s'" "ioq s' = ioq s @ [x]" "disk s' = disk s" "v_buf s' = v_buf s"
    "v_hbuf s' = v_hbuf s" "bdevcnt s' = bdevcnt s" "changed x s s'" "x \<in> Bufs s" "lbolt s' = lbolt s"
    "is_for s' d b y \<longleftrightarrow> is_for s d b y" "B_BUSY \<in> fl s y \<Longrightarrow> B_BUSY \<in> fl s' y" "core s' y = core s y"
    "y \<noteq> x \<Longrightarrow> fl s' y = fl s y"
proof -
  note T = take_sel [OF i] and O = io_okD [OF bio_invD(5) [OF i]]
  show xb: "x \<in> Bufs s" by (rule T(1))
  have st: "B_STALE \<notin> fl s x" using O(7) [OF xb] x by blast
  have iF: "bio_inv R (us @ x # vs) (fl_on F x s)" by (rule flags_inv [OF i]) (use F T(3) O(8) [OF xb x] in auto)
  note TF = take_sel [OF iF]
  define s1 where "s1 = (if s' = push_out x (notavail x s) then fl_on {B_ASYNC, B_LOPRI} x (notavail x s) else notavail x (fl_on F x s))"
  have s1: "s' = bwrite x s1" using s' by (auto simp: s1_def push_out_def)
  have r1: "rest s1 = rest s" by (simp add: s1_def fl_on_sel(7) TF(4) T(4))
  have c1: "core s1 y = core s y" for y by (simp add: s1_def fl_on_sel(6) TF(6) T(6))
  have f1: "y \<noteq> x \<Longrightarrow> fl s1 y = fl s y" "\<exists>G. fl s1 x = fl s x \<union> G \<and> G \<subseteq> {B_BUSY, B_ASYNC, B_LOPRI}" for y
    using F by (auto simp: s1_def fl_on_sel(8) TF(5) T(5))
  show inv: "bio_inv R (us @ vs) s'" using push_inv [OF i x] F s' by auto
  note W = bwrite_sel [where x = x and s = s1, folded s1] and R1 = rest_eq [OF r1]
  show q: "ioq s' = ioq s @ [x]" and k: "disk s' = disk s" and "v_buf s' = v_buf s" "v_hbuf s' = v_hbuf s" "bdevcnt s' = bdevcnt s" "lbolt s' = lbolt s"
    using W R1 by simp_all
  have st': "(B_STALE \<in> fl s' x) = (B_STALE \<in> fl s x)" using f1(2) W(7) [of x] by auto
  show c: "core s' y = core s y" for y using c1 W(6) by simp
  show f: "y \<noteq> x \<Longrightarrow> fl s' y = fl s y" for y using f1(1) [of y] W(7) [of y] by simp
  show "is_for s' d b y \<longleftrightarrow> is_for s d b y" for y
    using core_eq [OF c [of y]] st' f [of y] by (cases "y = x") (auto simp: is_for_def)
  show "B_BUSY \<in> fl s y \<Longrightarrow> B_BUSY \<in> fl s' y" for y
    using f1(2) f [of y] W(7) [of x] by (cases "y = x") auto
  show ch: "changed x s s'"
    using core_eq [OF c1] core_eq [OF W(6)] f1(1) W R1 xb unfolding changed_def by (auto simp: pb_def)
  show "keeps_blocks s s'"
  proof (rule keeps_same [OF i inv ch k])
    have "B_READ \<notin> fl s' x" using W(7) [of x] by simp
    then show "live s' x = live s x" using q O(8) [OF xb x] by (simp add: live_def)
    show "(B_STALE \<in> fl s' x) = (B_STALE \<in> fl s x)" by (rule st')
  qed (use q core_eq [OF c1 [of x]] core_eq [OF W(6) [of x]] in auto)
qed

lemma labels_assign: "labels d (\<lambda>c. c\<lparr>b_dev := d, b_blkno := b, b_bcount := z, b_resid := 0\<rparr>)"
  "labels d (\<lambda>c. c\<lparr>b_dev := d, b_bcount := z, b_resid := 0\<rparr>)"
  by (simp_all add: labels_def)

lemma reassign_keeps:
  assumes i: "bio_inv R (x # vs) s" and i': "bio_inv R' vs s'" and ch: "changed x s s'" and q: "ioq s' = ioq s" "disk s' = disk s"
    and x: "x \<notin> set (ioq s)" "B_DELWRI \<notin> fl s x" and f: "fl s' x \<subseteq> {B_BUSY, B_AGE}"
  shows "keeps_blocks s s'"
  unfolding keeps_blocks_def
proof (intro allI impI)
  fix d b assume d: "d \<noteq> NODEV"
  have nl: "\<not> live s' x" using f x(1) q(1) by (auto simp: live_def)
  have "b_data (bh s x) = disk s d b" if "is_for s d b x" "live s x"
  proof -
    have "settled s x" using that take_sel(2) [of R "[]" x vs s] i x(1,2) d by (auto simp: settled_def is_for_def live_def)
    with bio_invD(6) [OF i] changedD(1) [OF ch] that(1) show ?thesis by (auto simp: coherent_def is_for_def)
  qed
  with nl show "cur s' d b = cur s d b" by (intro cur_change [OF i i' ch d]) (use q in auto)
qed

text \<open>What \<open>getblk\<close> gives its caller.\<close>

definition got_blk :: "int \<Rightarrow> int \<Rightarrow> bst \<Rightarrow> bst \<Rightarrow> gres \<Rightarrow> bool" where
  "got_blk d b s s' r \<longleftrightarrow>
     (case r of
        GBuf x \<Rightarrow> x \<in> Bufs s \<and> B_BUSY \<notin> fl s x \<and> B_BUSY \<in> fl s' x \<and> x \<notin> set (ioq s') \<and> is_for s' d b x \<and> clean s' x \<and> B_ERROR \<notin> fl s' x \<and>
          (if B_DONE \<in> fl s' x then b_data (bh s' x) = cur s d b else B_ASYNC \<notin> fl s' x)
      | GSleep (OnBuf x) \<Rightarrow> x = Fre \<and> avail s' = [] \<or> x \<in> Bufs s \<and> is_for s d b x \<and> B_BUSY \<in> fl s x
      | _ \<Rightarrow> False)"

lemma bmajor_NODEV: "bmajor NODEV = 127" by (simp add: bmajor_def NODEV_def)

lemma hit_step:
  assumes i: "bio_inv R A s" and d: "d \<noteq> NODEV" and x: "x \<in> Bufs s" "is_for s d b x" "B_BUSY \<notin> fl s x"
  shows "\<exists>A'. bio_inv R A' (notavail x s) \<and> keeps_blocks s (notavail x s) \<and> got_blk d b s (notavail x s) (GBuf x) \<and>
    rest (notavail x s) = rest s"
proof -
  have "x \<in> set A" using av_listD [OF bio_invD(2) [OF i]] x(1,3) by blast
  then obtain us vs where A: "A = us @ x # vs" by (meson split_list)
  note i' = i [unfolded A] and T = take_sel [OF i [unfolded A]]
  have st: "B_STALE \<notin> fl s x" using x(2) by (simp add: is_for_def)
  have f: "is_for (notavail x s) d b x" using x(2) core_eq [OF T(6) [of x]] by (simp add: is_for_def T(5))
  have "clean (notavail x s) x"
  proof (cases "B_DONE \<in> fl s x \<and> B_DELWRI \<notin> fl s x")
    case True
    then have "settled s x" using x(2,3) d by (auto simp: settled_def is_for_def)
    with bio_invD(6) [OF i] x(1) core_eq [OF T(6) [of x]] rest_eq [OF T(4)] show ?thesis by (simp add: clean_def coherent_def)
  next
    case False
    then show ?thesis by (auto simp: clean_def T(5))
  qed
  moreover have "b_data (bh (notavail x s) x) = cur s d b" if "B_DONE \<in> fl (notavail x s) x"
    using that cur_own [OF i d x(1,2)] core_eq [OF T(6) [of x]] by (simp add: T(5) live_def)
  ultimately show ?thesis
    using take_inv [OF i' st] take_keeps [OF i' st] f x(1,3) T(3,4,5) rest_eq [OF T(4)] io_okD(9) [OF bio_invD(5) [OF i] x(1,3)]
    by (auto simp: got_blk_def)
qed

lemma miss_step:
  assumes i: "bio_inv R (x # vs) s" and d: "d \<noteq> NODEV" and x: "B_DELWRI \<notin> fl s x"
    and n: "\<And>y. y \<in> Bufs s \<Longrightarrow> \<not> is_for s d b y" and s'_def: "s' = assign_buf x (bhash s d b) d b z (notavail x s)"
  shows "\<exists>R' A'. bio_inv R' A' s' \<and> keeps_blocks s s' \<and> got_blk d b s s' (GBuf x) \<and> ioq s' = ioq s \<and> disk s' = disk s \<and> changed x s s'"
proof -
  let ?g = "\<lambda>c. c\<lparr>b_dev := d, b_blkno := b, b_bcount := z, b_resid := 0\<rparr>"
  have s': "s' = reassign x (bhash s d b) {B_BUSY} ?g (notavail x s)" by (simp add: s'_def assign_buf_def reassign_def)
  have 1: "B_BUSY \<in> {B_BUSY}" "{B_BUSY} \<subseteq> {B_BUSY, B_AGE}" by auto
  have 2: "b_blkno (?g c) = b" for c by simp
  have 3: "bhash s d b = (if d = NODEV then Fre else bhash s d b)" using d by simp
  have 4: "y \<in> Bufs s \<Longrightarrow> d \<noteq> NODEV \<Longrightarrow> B_STALE \<notin> fl s y \<Longrightarrow> b_dev (bh s y) = d \<Longrightarrow> b_blkno (bh s y) = b \<Longrightarrow> False" for y
    using n [of y] by (simp add: is_for_def)
  note R0 = reassign_inv [where b' = "\<lambda>_. b" and b = b, OF i 1 labels_assign(1) [where d = d and b = b and z = z] 2 3 _ 4, folded s']
  have R: "bio_inv (moved x (bhash s d b) R) vs s'" "changed x s s'" "fl s' x = {B_BUSY}" "b_dev (bh s' x) = d" "b_blkno (bh s' x) = b"
    "ioq s' = ioq s" "disk s' = disk s" "x \<in> Bufs s" "x \<notin> set (ioq s)"
    using R0 d by simp_all
  have "keeps_blocks s s'" by (rule reassign_keeps [OF i R(1,2,6,7,9) x]) (simp add: R(3))
  moreover have "B_BUSY \<notin> fl s x" using take_sel(2) [of R "[]" x vs s] i by simp
  moreover have "clean s' x" using R(3) by (simp add: clean_def)
  ultimately show ?thesis using R by (auto simp: got_blk_def is_for_def)
qed

lemma av_first_head: "av_list A s \<Longrightarrow> av_forw (bh s Fre) = hd (A @ [Fre])"
  using ring_first [OF av_list_parts(1)] by blast

lemma bhash_vbuf: "v_hbuf s' = v_hbuf s \<Longrightarrow> bhash s' = bhash s"
  by (simp add: bhash_def fun_eq_iff)

lemma got_blk_later:
  assumes "got_blk d b t s' r" "keeps_blocks s t" "d \<noteq> NODEV" "v_buf t = v_buf s"
    "\<And>y. y \<in> Bufs s \<Longrightarrow> B_BUSY \<notin> fl t y \<Longrightarrow> B_BUSY \<notin> fl s y" "\<And>y. y \<in> Bufs s \<Longrightarrow> \<not> is_for t d b y"
  shows "got_blk d b s s' r"
proof -
  have B: "Bufs t = Bufs s" using assms(4) by (simp add: Bufs_def)
  show ?thesis using assms(1,5,6) assms(2) [unfolded keeps_blocks_def, rule_format, OF assms(3)]
    unfolding got_blk_def B by (auto split: gres.splits bchan.splits)
qed

lemma keeps_all:
  assumes i: "bio_inv R A s" "bio_inv R' A' s'" and B: "v_buf s' = v_buf s" "disk s' = disk s"
    and f: "\<And>y. y \<in> Bufs s \<Longrightarrow> b_dev (bh s' y) = b_dev (bh s y) \<and> b_blkno (bh s' y) = b_blkno (bh s y) \<and> b_data (bh s' y) = b_data (bh s y) \<and>
      (B_STALE \<in> fl s' y \<longleftrightarrow> B_STALE \<in> fl s y) \<and> live s' y = live s y"
  shows "keeps_blocks s s'"
  unfolding keeps_blocks_def
proof (intro allI impI)
  fix d b assume d: "d \<noteq> NODEV"
  have Bf: "Bufs s' = Bufs s" using B(1) by (simp add: Bufs_def)
  have o: "is_for s' d b y \<longleftrightarrow> is_for s d b y" if "y \<in> Bufs s" for y using f [OF that] by (simp add: is_for_def)
  show "cur s' d b = cur s d b"
  proof (cases "\<exists>y\<in>Bufs s. is_for s d b y")
    case True
    then obtain y where y: "y \<in> Bufs s" "is_for s d b y" by blast
    with cur_own [OF i(1) d y] cur_own [OF i(2) d, of y b] f [OF y(1)] o [OF y(1)] B(2) show ?thesis unfolding Bf by simp
  next
    case False
    with cur_none [OF i(1) d, of b] cur_none [OF i(2) d, of b] o B(2) show ?thesis unfolding Bf by simp
  qed
qed

lemma sleep_step:
  assumes i: "bio_inv R A s"
  shows "bio_inv R A (fl_on {B_WANTED} x s)" "keeps_blocks s (fl_on {B_WANTED} x s)" "rest (fl_on {B_WANTED} x s) = rest s"
    "avail (fl_on {B_WANTED} x s) = avail s"
proof -
  let ?s = "fl_on {B_WANTED} x s"
  note R = rest_eq [OF fl_on_sel(7) [of "{B_WANTED}" x s]] and c = core_eq [OF fl_on_sel(6) [of "{B_WANTED}" x s]]
  show "rest ?s = rest s" by (rule fl_on_sel(7))
  show i': "bio_inv R A ?s" by (rule flags_inv [OF i]) auto
  show "keeps_blocks s ?s"
    by (rule keeps_all [OF i i']) (use R c in \<open>auto simp: fl_on_sel(8) live_def\<close>)
  show "avail ?s = avail s" using avail_list [OF bio_invD(2) [OF i]] avail_list [OF bio_invD(2) [OF i']] by simp
qed

lemma getblk_loop_spec:
  "bio_inv R A s \<Longrightarrow> d \<noteq> NODEV \<Longrightarrow> length A < n \<Longrightarrow>
   \<exists>r s' R' A' ws. getblk_loop n d b z s = Some (r, s') \<and> bio_inv R' A' s' \<and> keeps_blocks s s' \<and> got_blk d b s s' r \<and>
     disk s' = disk s \<and> v_buf s' = v_buf s \<and> bdevcnt s' = bdevcnt s \<and> ioq s' = ioq s @ ws \<and> set ws \<subseteq> set A"
proof (induction n arbitrary: A s)
  case (Suc n)
  note i = Suc.prems(1) and d = Suc.prems(2) and D = bio_invD [OF Suc.prems(1)]
  let ?f = "find (is_for s d b) (bucket s (bhash s d b))"
  show ?case
  proof (cases ?f)
    case (Some x)
    note x = find_block(2) [OF i d Some]
    show ?thesis
    proof (cases "B_BUSY \<in> fl s x")
      case True
      note S = sleep_step [OF i, of x]
      have "got_blk d b s (fl_on {B_WANTED} x s) (GSleep (OnBuf x))" using x True by (simp add: got_blk_def)
      with S Some True rest_eq [OF S(3)] show ?thesis
        by (intro exI [of _ "GSleep (OnBuf x)"] exI [of _ "fl_on {B_WANTED} x s"] exI [of _ R] exI [of _ A] exI [of _ "[]"]) simp
    next
      case False
      with hit_step [OF i d conjunct1 [OF x] conjunct2 [OF x]] obtain A' where
        H: "bio_inv R A' (notavail x s)" "keeps_blocks s (notavail x s)" "got_blk d b s (notavail x s) (GBuf x)" "rest (notavail x s) = rest s"
        by blast
      with Some False rest_eq [OF H(4)] show ?thesis
        by (intro exI [of _ "GBuf x"] exI [of _ "notavail x s"] exI [of _ R] exI [of _ A'] exI [of _ "[]"]) simp
    qed
  next
    case None
    note n = find_block(3) [OF i d None]
    show ?thesis
    proof (cases A)
      case Nil
      have F: "av_forw (bh s Fre) = Fre" using av_first_head [OF D(2)] Nil by simp
      note S = sleep_step [OF i, of Fre]
      have "got_blk d b s (fl_on {B_WANTED} Fre s) (GSleep (OnBuf Fre))"
        using S(4) avail_list [OF D(2)] Nil by (simp add: got_blk_def)
      with S None F rest_eq [OF S(3)] show ?thesis
        by (intro exI [of _ "GSleep (OnBuf Fre)"] exI [of _ "fl_on {B_WANTED} Fre s"] exI [of _ R] exI [of _ A] exI [of _ "[]"])
          (simp add: Let_def)
    next
      case (Cons x vs)
      have F: "av_forw (bh s Fre) = x" using av_first_head [OF D(2)] Cons by simp
      note i0 = i [unfolded Cons] and T = take_sel [where us = "[]", simplified, OF i [unfolded Cons]]
      have xF: "x \<noteq> Fre" using T(1) by auto
      show ?thesis
      proof (cases "B_DELWRI \<in> fl s x")
        case True
        let ?t = "push_out x (notavail x s)"
        have P: "bio_inv R ([] @ vs) ?t" "keeps_blocks s ?t" "ioq ?t = ioq s @ [x]" "disk ?t = disk s" "v_buf ?t = v_buf s"
          "v_hbuf ?t = v_hbuf s" "bdevcnt ?t = bdevcnt s" "changed x s ?t" "is_for ?t d b y \<longleftrightarrow> is_for s d b y"
          "B_BUSY \<in> fl s y \<Longrightarrow> B_BUSY \<in> fl ?t y" for y
          using push_sel [where us = "[]" and F = "{}", simplified, OF i0 True] by auto
        have l: "length vs < n" using Suc.prems(3) Cons by simp
        from Suc.IH [OF P(1) [simplified] d l] obtain r s' R' A' ws where
          I: "getblk_loop n d b z ?t = Some (r, s')" "bio_inv R' A' s'" "keeps_blocks ?t s'" "got_blk d b ?t s' r"
            "disk s' = disk ?t" "v_buf s' = v_buf ?t" "bdevcnt s' = bdevcnt ?t" "ioq s' = ioq ?t @ ws" "set ws \<subseteq> set vs" by blast
        have "got_blk d b s s' r"
        proof (rule got_blk_later [OF I(4) P(2) d P(5)])
          show "B_BUSY \<notin> fl s y" if "y \<in> Bufs s" "B_BUSY \<notin> fl ?t y" for y using P(10) that(2) by blast
          show "\<not> is_for ?t d b y" if "y \<in> Bufs s" for y using P(9) n [OF that] by blast
        qed
        moreover have "getblk_loop (Suc n) d b z s = Some (r, s')" using None F xF True I(1) T(5) [of x] by (simp add: Let_def)
        moreover have "keeps_blocks s s'" by (rule keeps_blocks_trans [OF P(2) I(3)])
        ultimately show ?thesis using I P Cons
          by (intro exI [of _ r] exI [of _ s'] exI [of _ R'] exI [of _ A'] exI [of _ "x # ws"]) auto
      next
        case False
        from miss_step [OF i0 d False n refl, of z] obtain R' A' where
          M: "bio_inv R' A' (assign_buf x (bhash s d b) d b z (notavail x s))"
            "keeps_blocks s (assign_buf x (bhash s d b) d b z (notavail x s))"
            "got_blk d b s (assign_buf x (bhash s d b) d b z (notavail x s)) (GBuf x)"
            "ioq (assign_buf x (bhash s d b) d b z (notavail x s)) = ioq s" "disk (assign_buf x (bhash s d b) d b z (notavail x s)) = disk s"
            "changed x s (assign_buf x (bhash s d b) d b z (notavail x s))" by blast
        have "getblk_loop (Suc n) d b z s = Some (GBuf x, assign_buf x (bhash s d b) d b z (notavail x s))"
          using None F xF False T(5) [of x] by (simp add: Let_def)
        with M show ?thesis unfolding changed_def
          by (intro exI [of _ "GBuf x"] exI [of _ "assign_buf x (bhash s d b) d b z (notavail x s)"] exI [of _ R'] exI [of _ A'] exI [of _ "[]"]) simp
      qed
    qed
  qed
qed simp

lemma getblk_spec:
  assumes i: "bio_inv R A s" and d: "bmajor d < bdevcnt s"
  shows "\<exists>r s' R' A' ws. getblk d blk z s = Some (r, s') \<and> bio_inv R' A' s' \<and> keeps_blocks s s' \<and>
     got_blk d (ltopblk blk z) s s' r \<and> disk s' = disk s \<and> v_buf s' = v_buf s \<and> bdevcnt s' = bdevcnt s \<and> ioq s' = ioq s @ ws \<and> set ws \<subseteq> set A"
proof -
  note D = bio_invD [OF i] and p = av_list_parts [OF bio_invD(2) [OF i]]
  have nd: "d \<noteq> NODEV" using d D(3) bmajor_NODEV by (auto simp: cache_ok_def)
  have "set A \<subseteq> Bufs s" unfolding p(2) by blast
  then have "length A < Suc (v_buf s)" using Bufs_length [OF conjunct1 [OF ring_distinct [OF p(1)]]] by fastforce
  from getblk_loop_spec [OF i nd this, of "ltopblk blk z" z] show ?thesis using d by (simp add: getblk_def del: getblk_loop.simps)
qed

lemma geteblk_loop_inv:
  "bio_inv R A s \<Longrightarrow> length A < n \<Longrightarrow>
   \<exists>r s' R' A'. geteblk_loop n s = Some (r, s') \<and> bio_inv R' A' s' \<and> keeps_blocks s s' \<and> disk s' = disk s \<and>
     (\<forall>x. r = GBuf x \<longrightarrow> x \<in> Bufs s \<and> fl s' x = {B_BUSY, B_AGE} \<and> x \<notin> set (ioq s'))"
proof (induction n arbitrary: A s)
  case (Suc n)
  note i = Suc.prems(1) and D = bio_invD [OF Suc.prems(1)]
  show ?case
  proof (cases A)
    case Nil
    have F: "av_forw (bh s Fre) = Fre" using av_first_head [OF D(2)] Nil by simp
    note S = sleep_step [OF i, of Fre]
    from S F rest_eq [OF S(3)] show ?thesis
      by (intro exI [of _ "GSleep (OnBuf Fre)"] exI [of _ "fl_on {B_WANTED} Fre s"] exI [of _ R] exI [of _ A]) (simp add: Let_def)
  next
    case (Cons x vs)
    have F: "av_forw (bh s Fre) = x" using av_first_head [OF D(2)] Cons by simp
    note i0 = i [unfolded Cons] and T = take_sel [where us = "[]", simplified, OF i [unfolded Cons]]
    have xF: "x \<noteq> Fre" using T(1) by auto
    show ?thesis
    proof (cases "B_DELWRI \<in> fl s x")
      case True
      let ?t = "push_out x (notavail x s)"
      have P: "bio_inv R vs ?t" "keeps_blocks s ?t" "disk ?t = disk s" "v_buf ?t = v_buf s"
        using push_sel [where us = "[]" and F = "{}", simplified, OF i0 True] by auto
      have "length vs < n" using Suc.prems(2) Cons by simp
      from Suc.IH [OF P(1) this] obtain r s' R' A' where
        I: "geteblk_loop n ?t = Some (r, s')" "bio_inv R' A' s'" "keeps_blocks ?t s'" "disk s' = disk ?t"
          "\<forall>x. r = GBuf x \<longrightarrow> x \<in> Bufs ?t \<and> fl s' x = {B_BUSY, B_AGE} \<and> x \<notin> set (ioq s')" by blast
      have "geteblk_loop (Suc n) s = Some (r, s')" using F xF True I(1) T(5) [of x] by (simp add: Let_def)
      moreover have "keeps_blocks s s'" by (rule keeps_blocks_trans [OF P(2) I(3)])
      moreover have "Bufs ?t = Bufs s" using P(4) by (simp add: Bufs_def)
      ultimately show ?thesis using I P(3) by auto
    next
      case False
      let ?g = "\<lambda>c. c\<lparr>b_dev := NODEV, b_bcount := 1024, b_resid := 0\<rparr>"
      let ?s = "reassign x Fre {B_BUSY, B_AGE} ?g (notavail x s)"
      have 1: "B_BUSY \<in> {B_BUSY, B_AGE}" "{B_BUSY, B_AGE} \<subseteq> {B_BUSY, B_AGE}" by auto
      have 2: "b_blkno (?g c) = b_blkno c" for c by simp
      have 3: "Fre = (if NODEV = NODEV then Fre else bhash s NODEV 0)" by simp
      note R0 = reassign_inv [where b' = b_blkno and b = 0, OF i0 1 labels_assign(2) [where d = NODEV and z = 1024] 2 3]
      have R: "bio_inv (moved x Fre R) vs ?s" "changed x s ?s" "fl ?s x = {B_BUSY, B_AGE}" "ioq ?s = ioq s" "disk ?s = disk s"
        "x \<notin> set (ioq s)" using R0 by simp_all
      have "keeps_blocks s ?s" by (rule reassign_keeps [OF i0 R(1,2,4,5,6) False]) (simp add: R(3))
      moreover have "geteblk_loop (Suc n) s = Some (GBuf x, ?s)"
        using F xF False T(5) [of x] by (simp add: Let_def reassign_def)
      ultimately show ?thesis using R T(1)
        by (intro exI [of _ "GBuf x"] exI [of _ ?s] exI [of _ "moved x Fre R"] exI [of _ vs]) simp
    qed
  qed
qed simp

subsection \<open>Releasing and finishing a transfer\<close>

lemma brelse_keeps:
  assumes i: "bio_inv R A s" and x: "x \<in> Bufs s" "B_BUSY \<in> fl s x" "x \<notin> set (ioq s)" and cl: "clean s x" and e: "B_ERROR \<notin> fl s x"
  shows "keeps_blocks s (brelse x s)" "changed x s (brelse x s)" "fl (brelse x s) x = rel_flags (fl s x)" "rest (brelse x s) = rest s"
    "b_dev (bh (brelse x s) y) = b_dev (bh s y)" "b_blkno (bh (brelse x s) y) = b_blkno (bh s y)" "b_data (bh (brelse x s) y) = b_data (bh s y)"
proof -
  have xF: "x \<noteq> Fre" using x(1) by auto
  note L = brelse_list [OF bio_invD(2) [OF i] x(1,2)]
  note sel = brelse_sel [OF xF L(2,3)]
  show ch: "changed x s (brelse x s)" by (rule changedI [OF x(1) sel(8)]) (simp add: pb_def sel(3,5-7))
  show fx: "fl (brelse x s) x = rel_flags (fl s x)" using sel(3) [OF xF] by simp
  show "rest (brelse x s) = rest s" by (rule sel(8))
  show "b_dev (bh (brelse x s) y) = b_dev (bh s y)" "b_blkno (bh (brelse x s) y) = b_blkno (bh s y)"
    "b_data (bh (brelse x s) y) = b_data (bh s y)" for y by (rule sel)+
  show "keeps_blocks s (brelse x s)"
    by (rule keeps_same [OF i brelse_inv [OF i x cl] ch])
      (use rest_eq [OF sel(8)] fx e x(3) in \<open>auto simp: sel(5-7) rel_flags_def live_def\<close>)
qed

text \<open>The state when \<open>iodone\<close> comes to release the buffer, or is done with it.\<close>

definition io_mid :: "int option \<Rightarrow> bref \<Rightarrow> bst \<Rightarrow> bst \<Rightarrow> bool" where
  "io_mid e x s t \<longleftrightarrow> bfs t = bfs s \<and> bbs t = bbs s \<and> afs t = afs s \<and> abs' t = abs' s \<and>
     (\<forall>y. b_bcount (bh t y) = b_bcount (bh s y) \<and> b_dev (bh t y) = b_dev (bh s y) \<and> b_blkno (bh t y) = b_blkno (bh s y)) \<and>
     (\<forall>y. y \<noteq> x \<longrightarrow> bh t y = bh s y) \<and> v_buf t = v_buf s \<and> v_hbuf t = v_hbuf s \<and> bdevcnt t = bdevcnt s \<and>
     ioq t = remove1 x (ioq s) \<and> basyncnt t = basyncnt s - (if B_ASYNC \<in> fl s x \<and> B_READ \<notin> fl s x then 1 else 0) \<and>
     (\<exists>F. fl t x = (fl s x \<union> {B_DONE} \<union> (if e = None then {} else {B_ERROR})) - F \<and> F \<subseteq> {B_LOPRI, B_WANTED}) \<and>
     (if e = None \<and> B_READ \<notin> fl s x
      then disk t = (disk s)(b_dev (bh s x) := (disk s (b_dev (bh s x)))(b_blkno (bh s x) := b_data (bh s x))) \<and> b_data (bh t x) = b_data (bh s x)
      else disk t = disk s \<and> b_data (bh t x) = (if e = None then disk s (b_dev (bh s x)) (b_blkno (bh s x)) else b_data (bh s x)))"

lemma io_end_mid: "\<exists>t. io_mid e x s t \<and> io_end e x s = (if B_ASYNC \<in> fl s x then brelse x t else t)"
proof -
  define s1 where "s1 = s\<lparr>ioq := remove1 x (ioq s)\<rparr>"
  define s2 where "s2 = (case e of
           Some n \<Rightarrow> bupd x (\<lambda>b. b\<lparr>b_flags := b_flags b \<union> {B_ERROR}, b_error := n\<rparr>) s1
         | None \<Rightarrow>
             if B_READ \<in> fl s x then bupd x (\<lambda>c. c\<lparr>b_data := disk s (b_dev (bh s x)) (b_blkno (bh s x))\<rparr>) s1
             else s1\<lparr>disk := (disk s)(b_dev (bh s x) := (disk s (b_dev (bh s x)))(b_blkno (bh s x) := b_data (bh s x)))\<rparr>)"
  define s3 where "s3 = fl_off {B_LOPRI} x (fl_on {B_DONE} x s2)"
  define s4 where "s4 = (if B_READ \<in> fl s3 x then s3 else s3\<lparr>basyncnt := basyncnt s3 - 1\<rparr>)"
  define s5 where "s5 = (if basyncnt s4 = 0 \<and> basynwait s4 then bwake OnAsync (s4\<lparr>basynwait := False\<rparr>) else s4)"
  define t where "t = (if B_ASYNC \<in> fl s x then s5 else bwake (OnBuf x) (fl_off {B_WANTED} x s3))"
  have f3: "fl s3 x = (fl s x \<union> {B_DONE} \<union> (if e = None then {} else {B_ERROR})) - {B_LOPRI}"
    by (cases e) (auto simp: s3_def s2_def s1_def fl_off_def fl_on_def bh_bupd)
  have a: "B_ASYNC \<in> fl s3 x \<longleftrightarrow> B_ASYNC \<in> fl s x" by (auto simp: f3)
  have "io_end e x s = (if B_ASYNC \<in> fl s x then brelse x t else t)"
    unfolding io_end_def iodone_def Let_def s1_def [symmetric] s2_def [symmetric] s3_def [symmetric] a s4_def [symmetric] s5_def [symmetric]
    by (simp add: t_def)
  moreover have "io_mid e x s t"
  proof -
    have b5: "bh s5 = bh s3" "ioq s5 = ioq s3" "disk s5 = disk s3" "v_buf s5 = v_buf s3" "v_hbuf s5 = v_hbuf s3" "bdevcnt s5 = bdevcnt s3"
      "basyncnt s5 = basyncnt s3 - (if B_READ \<in> fl s3 x then 0 else 1)" by (simp_all add: s5_def s4_def)
    have q3: "ioq s3 = remove1 x (ioq s)" "basyncnt s3 = basyncnt s" "v_buf s3 = v_buf s" "v_hbuf s3 = v_hbuf s" "bdevcnt s3 = bdevcnt s"
      by (cases e; simp add: s3_def s2_def s1_def fl_off_def fl_on_def)+
    have l: "bfs s3 = bfs s" "bbs s3 = bbs s" "afs s3 = afs s" "abs' s3 = abs' s"
      "b_bcount (bh s3 y) = b_bcount (bh s y)" "b_dev (bh s3 y) = b_dev (bh s y)" "b_blkno (bh s3 y) = b_blkno (bh s y)" for y
      by (cases e; auto simp: s3_def s2_def s1_def fl_off_def fl_on_def bh_bupd fun_eq_iff)+
    have o: "y \<noteq> x \<Longrightarrow> bh s3 y = bh s y" for y
      by (cases e) (auto simp: s3_def s2_def s1_def fl_off_def fl_on_def bh_bupd)
    have k: "if e = None \<and> B_READ \<notin> fl s x
      then disk s3 = (disk s)(b_dev (bh s x) := (disk s (b_dev (bh s x)))(b_blkno (bh s x) := b_data (bh s x))) \<and> b_data (bh s3 x) = b_data (bh s x)
      else disk s3 = disk s \<and> b_data (bh s3 x) = (if e = None then disk s (b_dev (bh s x)) (b_blkno (bh s x)) else b_data (bh s x))"
      by (cases e) (auto simp: s3_def s2_def s1_def fl_off_def fl_on_def bh_bupd)
    have r: "B_READ \<in> fl s3 x \<longleftrightarrow> B_READ \<in> fl s x" by (auto simp: f3)
    show ?thesis
    proof (cases "B_ASYNC \<in> fl s x")
      case True
      then have "t = s5" by (simp add: t_def)
      moreover have "\<exists>F. fl s5 x = (fl s x \<union> {B_DONE} \<union> (if e = None then {} else {B_ERROR})) - F \<and> F \<subseteq> {B_LOPRI, B_WANTED}"
        unfolding b5(1) f3 by blast
      ultimately show ?thesis unfolding io_mid_def using b5 q3 l o k r True by simp
    next
      case False
      then have t: "t = bwake (OnBuf x) (fl_off {B_WANTED} x s3)" by (simp add: t_def)
      have f: "fl t x = (fl s x \<union> {B_DONE} \<union> (if e = None then {} else {B_ERROR})) - {B_LOPRI, B_WANTED}"
        unfolding t by (auto simp: fl_off_def bh_bupd f3)
      have "\<exists>F. fl t x = (fl s x \<union> {B_DONE} \<union> (if e = None then {} else {B_ERROR})) - F \<and> F \<subseteq> {B_LOPRI, B_WANTED}"
        unfolding f by blast
      moreover have "bfs t = bfs s3" "bbs t = bbs s3" "afs t = afs s3" "abs' t = abs' s3" "b_bcount (bh t y) = b_bcount (bh s3 y)"
        "b_dev (bh t y) = b_dev (bh s3 y)" "b_blkno (bh t y) = b_blkno (bh s3 y)" "y \<noteq> x \<Longrightarrow> bh t y = bh s3 y" "b_data (bh t y) = b_data (bh s3 y)" for y
        unfolding t by (auto simp: fl_off_def bh_bupd fun_eq_iff)
      moreover have "disk t = disk s3" "ioq t = ioq s3" "basyncnt t = basyncnt s3" "v_buf t = v_buf s3" "v_hbuf t = v_hbuf s3" "bdevcnt t = bdevcnt s3"
        unfolding t by (simp_all add: fl_off_def)
      ultimately show ?thesis unfolding io_mid_def using q3 l o k False by simp
    qed
  qed
  ultimately show ?thesis by blast
qed

lemma io_midD:
  assumes "io_mid e x s t"
  shows "bfs t = bfs s" "bbs t = bbs s" "afs t = afs s" "abs' t = abs' s" "b_bcount (bh t y) = b_bcount (bh s y)"
    "b_dev (bh t y) = b_dev (bh s y)" "b_blkno (bh t y) = b_blkno (bh s y)" "y \<noteq> x \<Longrightarrow> bh t y = bh s y"
    "v_buf t = v_buf s" "v_hbuf t = v_hbuf s" "bdevcnt t = bdevcnt s" "ioq t = remove1 x (ioq s)"
    "basyncnt t = basyncnt s - (if B_ASYNC \<in> fl s x \<and> B_READ \<notin> fl s x then 1 else 0)"
    "\<exists>F. fl t x = (fl s x \<union> {B_DONE} \<union> (if e = None then {} else {B_ERROR})) - F \<and> F \<subseteq> {B_LOPRI, B_WANTED}"
    "if e = None \<and> B_READ \<notin> fl s x
      then disk t = (disk s)(b_dev (bh s x) := (disk s (b_dev (bh s x)))(b_blkno (bh s x) := b_data (bh s x))) \<and> b_data (bh t x) = b_data (bh s x)
      else disk t = disk s \<and> b_data (bh t x) = (if e = None then disk s (b_dev (bh s x)) (b_blkno (bh s x)) else b_data (bh s x))"
  using assms unfolding io_mid_def by (elim conjE, simp)+

lemma io_mid_changed: "io_mid e x s t \<Longrightarrow> x \<in> Bufs s \<Longrightarrow> changed x s t"
  unfolding changed_def using io_midD(8-11) [of e x s t] by (simp add: pb_def)

lemma io_mid_disk:
  assumes m: "io_mid e x s t" and i: "bio_inv R A s" and x: "x \<in> set (ioq s)" and y: "y \<in> Bufs s" "y \<noteq> x" "B_STALE \<notin> fl s y" "b_dev (bh s y) \<noteq> NODEV"
  shows "disk t (b_dev (bh s y)) (b_blkno (bh s y)) = disk s (b_dev (bh s y)) (b_blkno (bh s y))"
proof -
  note O = io_okD [OF bio_invD(5) [OF i]]
  have "B_STALE \<notin> fl s x" using O(3,4,6) x by blast
  then have "b_dev (bh s y) \<noteq> b_dev (bh s x) \<or> b_blkno (bh s y) \<noteq> b_blkno (bh s x)"
    using bio_invD(4) [OF i] y O(3) [OF x] unfolding one_each_def by metis
  with io_midD(15) [OF m] show ?thesis by (auto split: if_splits)
qed

lemma io_mid_inv:
  assumes m: "io_mid e x s t" and i: "bio_inv R A s" and x: "x \<in> set (ioq s)"
  shows "bio_inv R A t" "x \<in> Bufs t" "B_BUSY \<in> fl t x" "x \<notin> set (ioq t)" "clean t x \<or> e \<noteq> None" "B_DONE \<in> fl t x"
    "B_ERROR \<in> fl t x \<longleftrightarrow> B_ERROR \<in> fl s x \<or> e \<noteq> None"
proof -
  note D = bio_invD [OF i] and O = io_okD [OF bio_invD(5) [OF i]] and M = io_midD [OF m]
  have xb: "x \<in> Bufs s" "B_BUSY \<in> fl s x" "B_DONE \<notin> fl s x" "B_STALE \<notin> fl s x" "B_DELWRI \<notin> fl s x" using O(3-8) x by blast+
  have ch: "changed x s t" by (rule io_mid_changed [OF m xb(1)])
  note c = changedD [OF ch]
  show "x \<in> Bufs t" using xb(1) c(6) by simp
  show b: "B_BUSY \<in> fl t x" and d: "B_DONE \<in> fl t x" and "B_ERROR \<in> fl t x \<longleftrightarrow> B_ERROR \<in> fl s x \<or> e \<noteq> None"
    using M(14) xb(2) by auto
  show q: "x \<notin> set (ioq t)" using M(12) O(1) by simp
  show "clean t x \<or> e \<noteq> None" using M(15) by (auto simp: clean_def M(6,7) split: if_splits)
  have ns: "B_STALE \<notin> fl t x" "B_DELWRI \<notin> fl t x" using M(14) xb(4,5) by (auto split: if_splits)
  have "hash_lists R t" using D(1) unfolding hash_lists_def M(1,2) c(6,7) .
  moreover have "av_list A t"
  proof -
    note p = av_list_parts [OF D(2)]
    have "set A = {y \<in> Bufs t. B_BUSY \<notin> fl t y}" unfolding p(2) c(6) using b xb(2) c(5) by auto
    with p show ?thesis unfolding av_list_def M(3,4,5) by simp
  qed
  moreover have "cache_ok R t" by (rule cache_ok_changed [OF D(3) ch M(6,7)])
  moreover have "one_each t" by (rule same_block_unique [OF D(4) xb(1,4) ch M(6,7)])
  moreover have "io_ok t"
  proof (rule io_ok_changed [OF D(5) ch])
    let ?P = "\<lambda>z u. B_ASYNC \<in> fl z u \<and> B_READ \<notin> fl z u"
    have "async_writes t = filter (?P s) (remove1 x (ioq s))"
      unfolding async_writes_def M(12)
      by (rule filter_cong) (use c(5) O(1,3) in \<open>auto dest: notin_set_remove1\<close>)
    also have "\<dots> = remove1 x (async_writes s)" by (simp add: async_writes_def filter_remove1)
    finally have "length (async_writes t) = length (async_writes s) - (if ?P s x then 1 else 0)"
      using x by (simp add: length_remove1 async_writes_def remove1_idem)
    moreover have "?P s x \<Longrightarrow> int (length (async_writes s) - 1) = int (length (async_writes s)) - 1"
    proof -
      assume "?P s x"
      then have "x \<in> set (async_writes s)" using x by (simp add: async_writes_def)
      from length_pos_if_in_set [OF this] show ?thesis by linarith
    qed
    ultimately show "basyncnt t = int (length (async_writes t))"
      unfolding M(13) O(2) by (simp split: if_splits)
    show "distinct (ioq t)" "set (ioq t) - {x} \<subseteq> set (ioq s)" using M(12) O(1) by (auto simp: distinct_remove1)
  qed (use q ns b in auto)
  moreover have "coherent t"
    by (rule coherent_changed [OF D(6) ch]) (use b io_mid_disk [OF m i x] in \<open>auto simp: settled_def\<close>)
  ultimately show "bio_inv R A t" unfolding bio_inv_def by blast
qed

lemma io_end_inv:
  assumes i: "bio_inv R A s" and x: "x \<in> set (ioq s)"
  shows "\<exists>A'. bio_inv R A' (io_end e x s)"
proof -
  obtain t where t: "io_mid e x s t" "io_end e x s = (if B_ASYNC \<in> fl s x then brelse x t else t)" using io_end_mid by blast
  note I = io_mid_inv [OF t(1) i x]
  have "clean t x" using I(5,7) by (auto simp: clean_def)
  from brelse_inv [OF I(1-4) this] I(1) show ?thesis unfolding t(2) by auto
qed

lemma io_mid_keeps:
  assumes m: "io_mid None x s t" and i: "bio_inv R A s" and x: "x \<in> set (ioq s)"
  shows "keeps_blocks s t"
  unfolding keeps_blocks_def
proof (intro allI impI)
  fix d b assume d: "d \<noteq> NODEV"
  note I = io_mid_inv [OF m i x] and M = io_midD [OF m] and O = io_okD [OF bio_invD(5) [OF i]]
  have xb: "x \<in> Bufs s" "B_DONE \<notin> fl s x" using O(3,5) x by blast+
  have ch: "changed x s t" by (rule io_mid_changed [OF m xb(1)])
  have st: "is_for t d b x \<longleftrightarrow> is_for s d b x" using M(14) by (auto simp: is_for_def M(6,7))
  have lt: "live t x" using I(6) by (simp add: live_def)
  show "cur t d b = cur s d b"
  proof (cases "is_for s d b x")
    case True
    have "cur s d b = (if B_READ \<notin> fl s x then b_data (bh s x) else disk s d b)"
      using cur_own [OF i d xb(1) True] xb(2) x by (simp add: live_def)
    moreover have "cur t d b = b_data (bh t x)" using cur_own [OF I(1) d I(2)] True st lt by simp
    ultimately show ?thesis using M(15) True by (simp add: is_for_def split: if_splits)
  next
    case False
    show ?thesis
    proof (cases "disk t d b = disk s d b")
      case True
      show ?thesis
        by (rule cur_change [OF i I(1) ch d True])
          (use st False M(12) O(1) in \<open>auto dest: notin_set_remove1\<close>)
    next
      case k: False
      then have own: "b_dev (bh s x) = d" "b_blkno (bh s x) = b" using M(15) by (auto split: if_splits)
      have "B_STALE \<notin> fl s x" using O(3,4,6) x by blast
      with own False show ?thesis by (simp add: is_for_def)
    qed
  qed
qed

lemma io_end_keeps:
  assumes i: "bio_inv R A s" and x: "x \<in> set (ioq s)" "B_ERROR \<notin> fl s x"
  shows "keeps_blocks s (io_end None x s)"
proof -
  obtain t where t: "io_mid None x s t" "io_end None x s = (if B_ASYNC \<in> fl s x then brelse x t else t)" using io_end_mid by blast
  note I = io_mid_inv [OF t(1) i x(1)] and K = io_mid_keeps [OF t(1) i x(1)]
  have "keeps_blocks t (brelse x t)" by (rule brelse_keeps(1) [OF I(1-4)]) (use I(5,7) x(2) in auto)
  with K show ?thesis unfolding t(2) by (auto intro: keeps_blocks_trans)
qed

subsection \<open>Writing, reading and flushing\<close>

definition held :: "bref \<Rightarrow> bst \<Rightarrow> bool" where
  "held x s \<longleftrightarrow> x \<in> Bufs s \<and> B_BUSY \<in> fl s x \<and> x \<notin> set (ioq s)"

text \<open>Changes to the fields of a held buffer that the lists do not use.\<close>

lemma bupd_inv:
  assumes i: "bio_inv R A s" and x: "held x s"
    and f: "\<And>b. b_forw (f b) = b_forw b \<and> b_back (f b) = b_back b \<and> av_forw (f b) = av_forw b \<and> av_back (f b) = av_back b \<and>
      b_dev (f b) = b_dev b \<and> b_blkno (f b) = b_blkno b"
    and F: "B_BUSY \<in> b_flags (f (bh s x))" "B_STALE \<notin> b_flags (f (bh s x))" "B_DELWRI \<in> b_flags (f (bh s x)) \<Longrightarrow> B_DONE \<in> b_flags (f (bh s x))"
  shows "bio_inv R A (bupd x f s)" "held x (bupd x f s)" "changed x s (bupd x f s)"
proof -
  have xb: "x \<in> Bufs s" "B_BUSY \<in> fl s x" "x \<notin> set (ioq s)" using x by (auto simp: held_def)
  show ch: "changed x s (bupd x f s)" by (rule changedI [OF xb(1)]) (simp_all add: pb_def bh_bupd)
  show "bio_inv R A (bupd x f s)"
    by (rule held_inv [OF i ch _ _ _ _ _ xb(2) _ xb(3)]) (use F f xb(1) in \<open>auto simp: bh_bupd fun_eq_iff\<close>)
  show "held x (bupd x f s)" using F(1) xb changedD(6) [OF ch] by (simp add: held_def bh_bupd)
qed

lemma held_live: "held x s \<Longrightarrow> live s x \<longleftrightarrow> B_DONE \<in> fl s x"
  by (simp add: held_def live_def)

lemma held_not_stale: "bio_inv R A s \<Longrightarrow> held x s \<Longrightarrow> B_STALE \<notin> fl s x"
  using io_okD(6) [OF bio_invD(5)] by (auto simp: held_def)

text \<open>An operation of the holder makes its data what the block holds, and leaves every other block alone.\<close>

definition writes_block :: "bref \<Rightarrow> bst \<Rightarrow> bst \<Rightarrow> bool" where
  "writes_block x s s' \<longleftrightarrow> (\<forall>d b. d \<noteq> NODEV \<longrightarrow>
     cur s' d b = (if b_dev (bh s x) = d \<and> b_blkno (bh s x) = b then b_data (bh s x) else cur s d b))"

lemma writes_blockI:
  assumes i: "bio_inv R A s" "bio_inv R' A' s'" and ch: "changed x s s'" and k: "disk s' = disk s"
    and q: "\<And>y. y \<noteq> x \<Longrightarrow> y \<in> set (ioq s') \<longleftrightarrow> y \<in> set (ioq s)"
    and e: "b_dev (bh s' x) = b_dev (bh s x)" "b_blkno (bh s' x) = b_blkno (bh s x)" "b_data (bh s' x) = b_data (bh s x)"
    and st: "B_STALE \<notin> fl s' x" "B_STALE \<notin> fl s x" and l: "live s' x"
  shows "writes_block x s s'"
  unfolding writes_block_def
proof (intro allI impI)
  fix d b assume d: "d \<noteq> NODEV"
  have x: "x \<in> Bufs s" "x \<in> Bufs s'" using changedD(1,6) [OF ch] by simp_all
  show "cur s' d b = (if b_dev (bh s x) = d \<and> b_blkno (bh s x) = b then b_data (bh s x) else cur s d b)"
  proof (cases "b_dev (bh s x) = d \<and> b_blkno (bh s x) = b")
    case True
    with st(1) e have "is_for s' d b x" by (simp add: is_for_def)
    with cur_own [OF i(2) d x(2) this] l e True show ?thesis by simp
  next
    case False
    then have "\<not> is_for s d b x" "\<not> is_for s' d b x" using e by (auto simp: is_for_def)
    then have "cur s' d b = cur s d b" by (intro cur_change [OF i ch d]) (use k q in auto)
    then show ?thesis unfolding if_not_P [OF False] .
  qed
qed

lemma bwrite_writes:
  assumes i: "bio_inv R A s" and x: "held x s"
  shows "bio_inv R A (bwrite x s)" "writes_block x s (bwrite x s)" "ioq (bwrite x s) = ioq s @ [x]" "disk (bwrite x s) = disk s"
proof -
  have xb: "x \<in> Bufs s" "B_BUSY \<in> fl s x" "x \<notin> set (ioq s)" using x by (auto simp: held_def)
  show i': "bio_inv R A (bwrite x s)" by (rule bwrite_inv [OF i xb])
  show "ioq (bwrite x s) = ioq s @ [x]" "disk (bwrite x s) = disk s" by (simp_all add: bwrite_sel)
  show "writes_block x s (bwrite x s)"
    by (rule writes_blockI [OF i i' bwrite_changed [OF xb(1)]])
      (use core_eq [OF bwrite_sel(6), of x s x] held_not_stale [OF i x] in \<open>auto simp: bwrite_sel live_def\<close>)
qed

lemma bdwrite_writes:
  assumes i: "bio_inv R A s" and x: "held x s"
  shows "\<exists>A'. bio_inv R A' (bdwrite x s)" "B_ERROR \<notin> fl s x \<Longrightarrow> writes_block x s (bdwrite x s)" "disk (bdwrite x s) = disk s"
    "ioq (bdwrite x s) = ioq s"
proof -
  define s1 where "s1 = (if B_DELWRI \<in> fl s x then s else bupd x (\<lambda>b. b\<lparr>b_start := lbolt s\<rparr>) s)"
  let ?f = "\<lambda>b. b\<lparr>b_flags := b_flags b \<union> {B_DELWRI, B_DONE}, b_resid := 0\<rparr>"
  define t where "t = bupd x ?f s1"
  have xb: "x \<in> Bufs s" "B_BUSY \<in> fl s x" using x by (auto simp: held_def)
  have f1: "fl s1 y = fl s y" "b_dev (bh s1 y) = b_dev (bh s y)" "b_blkno (bh s1 y) = b_blkno (bh s y)" "b_data (bh s1 y) = b_data (bh s y)"
    "ioq s1 = ioq s" "disk s1 = disk s" "rest s1 = rest s" for y by (simp_all add: s1_def bh_bupd)
  have "bio_inv R A s1 \<and> held x s1"
    unfolding s1_def using i x held_not_stale [OF i x] xb io_okD(8) [OF bio_invD(5) [OF i] xb(1)]
    by (auto intro!: bupd_inv(1,2))
  then have I1: "bio_inv R A s1" "held x s1" by auto
  have T: "bio_inv R A t" "held x t" "changed x s1 t" unfolding t_def
    using bupd_inv [OF I1, of ?f] held_not_stale [OF I1] I1(2) by (auto simp: held_def)
  have tf: "fl t x = fl s x \<union> {B_DELWRI, B_DONE}" "b_dev (bh t y) = b_dev (bh s y)" "b_blkno (bh t y) = b_blkno (bh s y)"
    "b_data (bh t y) = b_data (bh s y)" "rest t = rest s" for y by (simp_all add: t_def bh_bupd f1)
  have e: "bdwrite x s = brelse x t" by (simp add: bdwrite_def t_def s1_def Let_def)
  have cl: "clean t x" using tf(1) by (simp add: clean_def)
  note X = T(2) [unfolded held_def]
  have i': "bio_inv R (put_av x (fl t x) A) (bdwrite x s)" unfolding e using brelse_inv [OF T(1) _ _ _ cl] X by blast
  then show "\<exists>A'. bio_inv R A' (bdwrite x s)" by blast
  have xF: "x \<noteq> Fre" using xb(1) by auto
  note L = brelse_list [OF bio_invD(2) [OF T(1)], of x]
  have L': "afs t Fre \<noteq> x" "abs' t Fre \<noteq> x" using L(2,3) X by auto
  note sel = brelse_sel [OF xF L']
  have r: "rest (bdwrite x s) = rest s" unfolding e using sel(8) tf(5) by simp
  then show "disk (bdwrite x s) = disk s" "ioq (bdwrite x s) = ioq s" using rest_eq by blast+
  have ft: "y \<noteq> x \<Longrightarrow> fl t y = fl s y" for y by (simp add: t_def bh_bupd f1)
  have ch: "changed x s (bdwrite x s)"
    by (rule changedI [OF xb(1) r]) (simp add: pb_def e sel(3,5-7) tf(2-4) ft)
  assume "B_ERROR \<notin> fl s x"
  then have "fl (bdwrite x s) x = (fl s x \<union> {B_DELWRI, B_DONE}) - {B_WANTED, B_BUSY, B_ASYNC, B_AGE}"
    unfolding e using sel(3) [OF xF] tf(1) by (simp add: rel_flags_def)
  then show "writes_block x s (bdwrite x s)"
    by (intro writes_blockI [OF i i' ch])
      (use held_not_stale [OF i x] rest_eq [OF r] in \<open>auto simp: live_def e sel(5-7) tf(2-4)\<close>)
qed

lemma bread_spec:
  assumes i: "bio_inv R A s" and d: "bmajor d < bdevcnt s"
  shows "\<exists>r w s' R' A' ws. bread d blk z s = Some ((r, w), s') \<and> bio_inv R' A' s' \<and> keeps_blocks s s' \<and> disk s' = disk s \<and>
    v_buf s' = v_buf s \<and> bdevcnt s' = bdevcnt s \<and> set ws \<subseteq> set A \<and>
    (case r of
       GBuf x \<Rightarrow> is_for s' d (ltopblk blk z) x \<and> B_BUSY \<notin> fl s x \<and>
         (if w then x \<in> Bufs s' \<and> ioq s' = ioq s @ ws @ [x] \<and> B_READ \<in> fl s' x \<and> B_ASYNC \<notin> fl s' x \<and> B_ERROR \<notin> fl s' x
          else held x s' \<and> clean s' x \<and> B_ERROR \<notin> fl s' x \<and> ioq s' = ioq s @ ws \<and> B_DONE \<in> fl s' x \<and> b_data (bh s' x) = cur s d (ltopblk blk z))
     | _ \<Rightarrow> \<not> w \<and> ioq s' = ioq s @ ws \<and> got_blk d (ltopblk blk z) s s' r)"
proof -
  let ?b = "ltopblk blk z"
  from getblk_spec [OF i d, of blk z] obtain r s1 R' A' ws where
    G: "getblk d blk z s = Some (r, s1)" "bio_inv R' A' s1" "keeps_blocks s s1" "got_blk d ?b s s1 r" "disk s1 = disk s" "v_buf s1 = v_buf s"
      "bdevcnt s1 = bdevcnt s" "ioq s1 = ioq s @ ws" "set ws \<subseteq> set A" by blast
  show ?thesis
  proof (cases r)
    case (GBuf x)
    have x: "x \<in> Bufs s" "B_BUSY \<notin> fl s x" "B_BUSY \<in> fl s1 x" "x \<notin> set (ioq s1)" "is_for s1 d ?b x" "clean s1 x"
      "B_ERROR \<notin> fl s1 x \<and> (if B_DONE \<in> fl s1 x then b_data (bh s1 x) = cur s d ?b else B_ASYNC \<notin> fl s1 x)"
      using G(4) GBuf by (auto simp: got_blk_def)
    have h: "held x s1" using x G(6) by (simp add: held_def Bufs_def)
    show ?thesis
    proof (cases "B_DONE \<in> fl s1 x")
      case True
      with G GBuf x h show ?thesis
        by (intro exI [of _ r] exI [of _ False] exI [of _ s1] exI [of _ R'] exI [of _ A'] exI [of _ ws]) (simp add: bread_def)
    next
      case False
      let ?s = "strategy x (bupd x (\<lambda>b. b\<lparr>b_flags := b_flags b \<union> {B_READ}, b_bcount := z\<rparr>) s1)"
      note st = held_not_stale [OF G(2) h] and O = io_okD [OF bio_invD(5) [OF G(2)]]
      have xb: "x \<in> Bufs s1" "x \<noteq> Fre" using h by (auto simp: held_def)
      have dl: "B_DELWRI \<notin> fl s1 x" using O(8) [OF xb(1)] False by blast
      have ch: "changed x s1 ?s" using xb(1) by (auto simp: changed_def strategy_def bh_bupd pb_def)
      have i': "bio_inv R' A' ?s"
        by (rule held_inv [OF G(2) ch _ _ _ _ _ x(3) _ x(4)]) (use xb st dl False x(3) in \<open>auto simp: strategy_def bh_bupd fun_eq_iff\<close>)
      have k: "keeps_blocks s1 ?s"
        by (rule keeps_same [OF G(2) i' ch]) (use False x(4) in \<open>auto simp: strategy_def bh_bupd live_def\<close>)
      have "bread d blk z s = Some ((GBuf x, True), ?s)" using G(1) GBuf False by (simp add: bread_def)
      moreover have "is_for ?s d ?b x" using x(5) by (simp add: is_for_def strategy_def bh_bupd)
      moreover have "disk ?s = disk s" "v_buf ?s = v_buf s" "bdevcnt ?s = bdevcnt s" "ioq ?s = ioq s @ ws @ [x]" "B_READ \<in> fl ?s x"
        "B_ASYNC \<notin> fl ?s x" "B_ERROR \<notin> fl ?s x"
        using G(5-8) x(7) False by (simp_all add: strategy_def bh_bupd)
      moreover have "x \<in> Bufs ?s" using xb(1) changedD(6) [OF ch] by simp
      ultimately show ?thesis using i' keeps_blocks_trans [OF G(3) k] G(9) x(2)
        by (intro exI [of _ "GBuf x"] exI [of _ True] exI [of _ ?s] exI [of _ R'] exI [of _ A'] exI [of _ ws]) simp
    qed
  next
    case (GSleep c)
    with G show ?thesis
      by (intro exI [of _ r] exI [of _ False] exI [of _ s1] exI [of _ R'] exI [of _ A'] exI [of _ ws]) (simp add: bread_def)
  next
    case GPanic
    with G(4) show ?thesis by (simp add: got_blk_def)
  qed
qed

text \<open>Writing out the delayed writes of the available buffers a test selects.\<close>

lemma flush_step:
  assumes i: "bio_inv R A s" and f: "find (\<lambda>x. B_DELWRI \<in> fl s x \<and> P s x) (avail s) = Some x" and F: "F \<subseteq> {B_ASYNC, B_LOPRI}" "B_ASYNC \<in> F"
  defines "t \<equiv> bwrite x (notavail x (fl_on F x s))"
  shows "\<exists>us vs. A = us @ x # vs \<and> bio_inv R (us @ vs) t \<and> keeps_blocks s t \<and> ioq t = ioq s @ [x] \<and> disk t = disk s \<and> v_buf t = v_buf s \<and>
    (\<forall>y. y \<noteq> x \<longrightarrow> fl t y = fl s y) \<and> (\<forall>y. core t y = core s y) \<and> lbolt t = lbolt s \<and> B_DELWRI \<in> fl s x \<and> P s x \<and>
    B_ASYNC \<in> fl t x \<and> B_READ \<notin> fl t x \<and> B_ERROR \<notin> fl t x"
proof -
  have x: "x \<in> set A" "B_DELWRI \<in> fl s x" "P s x"
    using f unfolding avail_list [OF bio_invD(2) [OF i]] find_Some_iff by (auto simp: in_set_conv_nth)
  then obtain us vs where A: "A = us @ x # vs" by (meson split_list)
  note S = push_sel [OF i [unfolded A] x(2) F(1) disjI2, OF refl, folded t_def]
  have "bio_inv R (us @ x # vs) (fl_on F x s)"
    by (rule flags_inv [OF i [unfolded A]])
      (use F take_sel(3) [OF i [unfolded A]] io_okD(8) [OF bio_invD(5) [OF i] S(9) x(2)] in auto)
  note T = take_sel(5) [OF this]
  have "B_ASYNC \<in> fl t x \<and> B_READ \<notin> fl t x \<and> B_ERROR \<notin> fl t x"
    using F(2) by (simp add: t_def bwrite_sel T fl_on_sel(8))
  with A S x(2,3) show ?thesis by blast
qed

lemma flush_loop:
  assumes u: "\<And>n s. g (Suc n) s = (case find (\<lambda>x. B_DELWRI \<in> fl s x \<and> P s x) (avail s) of
        None \<Rightarrow> Some s | Some x \<Rightarrow> g n (bwrite x (notavail x (fl_on F x s))))"
    and F: "F \<subseteq> {B_ASYNC, B_LOPRI}" "B_ASYNC \<in> F"
    and P: "\<And>s t x. core t x = core s x \<Longrightarrow> lbolt t = lbolt s \<Longrightarrow> P t x = P s x"
  shows "bio_inv R A s \<Longrightarrow> length A < n \<Longrightarrow>
    \<exists>s' A' ws. g n s = Some s' \<and> bio_inv R A' s' \<and> keeps_blocks s s' \<and> disk s' = disk s \<and> ioq s' = ioq s @ ws \<and>
      set ws = {x \<in> set A. B_DELWRI \<in> fl s x \<and> P s x} \<and> set A' = set A - set ws \<and> (\<forall>y. core s' y = core s y) \<and>
      (\<forall>y. y \<notin> set ws \<longrightarrow> fl s' y = fl s y) \<and> (\<forall>x\<in>set ws. B_ASYNC \<in> fl s' x \<and> B_READ \<notin> fl s' x \<and> B_ERROR \<notin> fl s' x) \<and> v_buf s' = v_buf s"
proof (induction n arbitrary: s A)
  case (Suc n)
  note i = Suc.prems(1)
  note av = avail_list [OF bio_invD(2) [OF i]]
  show ?case
  proof (cases "find (\<lambda>x. B_DELWRI \<in> fl s x \<and> P s x) (avail s)")
    case None
    then have "g (Suc n) s = Some s" by (simp add: u)
    moreover have "{x \<in> set A. B_DELWRI \<in> fl s x \<and> P s x} = {}" using None unfolding av find_None_iff by blast
    ultimately show ?thesis using i by (intro exI [of _ s] exI [of _ A] exI [of _ "[]"]) (simp add: keeps_blocks_def)
  next
    case (Some x)
    define t where "t = bwrite x (notavail x (fl_on F x s))"
    from flush_step [where P = P and F = F, OF i Some F, folded t_def] obtain us vs where
      S: "A = us @ x # vs" "bio_inv R (us @ vs) t" "keeps_blocks s t" "ioq t = ioq s @ [x]" "disk t = disk s" "v_buf t = v_buf s"
        "\<And>y. y \<noteq> x \<Longrightarrow> fl t y = fl s y" "\<And>y. core t y = core s y" "lbolt t = lbolt s" "B_DELWRI \<in> fl s x" "P s x" "B_ASYNC \<in> fl t x \<and> B_READ \<notin> fl t x \<and> B_ERROR \<notin> fl t x" by blast
    have l: "length (us @ vs) < n" using Suc.prems(2) S(1) by simp
    from Suc.IH [OF S(2) l] obtain s' A' ws where
      I: "g n t = Some s'" "bio_inv R A' s'" "keeps_blocks t s'" "disk s' = disk t" "ioq s' = ioq t @ ws"
        "set ws = {y \<in> set (us @ vs). B_DELWRI \<in> fl t y \<and> P t y}" "set A' = set (us @ vs) - set ws"
        "\<And>y. core s' y = core t y" "\<And>y. y \<notin> set ws \<Longrightarrow> fl s' y = fl t y"
        "\<And>x. x \<in> set ws \<Longrightarrow> B_ASYNC \<in> fl s' x \<and> B_READ \<notin> fl s' x \<and> B_ERROR \<notin> fl s' x" "v_buf s' = v_buf t" by blast
    have d: "distinct (us @ x # vs)" using ring_distinct [OF av_list_parts(1) [OF bio_invD(2) [OF i]]] S(1) by simp
    have Pt: "P t y = P s y" for y by (rule P [OF S(8,9)])
    have "fl t y = fl s y" if "y \<in> set (us @ vs)" for y using S(7) [of y] that d by auto
    then have "set ws = {y \<in> set (us @ vs). B_DELWRI \<in> fl s y \<and> P s y}" unfolding I(6) Pt by auto
    then have "set (x # ws) = {y \<in> set A. B_DELWRI \<in> fl s y \<and> P s y}" using S(1,10,11) by auto
    moreover have "set A' = set A - set (x # ws)" using I(7) S(1) d by auto
    moreover have "g (Suc n) s = Some s'" using Some I(1) by (simp add: u t_def)
    moreover have "fl s' y = fl s y" if "y \<notin> set (x # ws)" for y using I(9) [of y] S(7) [of y] that by simp
    moreover have "x \<notin> set ws" using I(6) d by auto
    then have "B_ASYNC \<in> fl s' y \<and> B_READ \<notin> fl s' y \<and> B_ERROR \<notin> fl s' y" if "y \<in> set (x # ws)" for y
      using I(9) [of x] I(10) [of y] S(12) that by auto
    ultimately show ?thesis using I(2,4,5,8,11) S(4,5,6,8) keeps_blocks_trans [OF S(3) I(3)]
      by (intro exI [of _ s'] exI [of _ A'] exI [of _ "x # ws"]) simp
  qed
qed simp

lemma av_length:
  assumes "av_list A s"
  shows "length A < Suc (v_buf s)"
proof -
  note p = av_list_parts [OF assms]
  have "set A \<subseteq> Bufs s" unfolding p(2) by blast
  then show ?thesis using Bufs_length [OF conjunct1 [OF ring_distinct [OF p(1)]]] by fastforce
qed

lemma bflush_spec:
  assumes i: "bio_inv R A s"
  shows "\<exists>s' A' ws. bflush d s = Some s' \<and> bio_inv R A' s' \<and> keeps_blocks s s' \<and> disk s' = disk s \<and> ioq s' = ioq s @ ws \<and>
      set ws = {x \<in> set A. B_DELWRI \<in> fl s x \<and> (d = NODEV \<or> d = b_dev (bh s x))} \<and> set A' = set A - set ws \<and> (\<forall>y. core s' y = core s y) \<and>
      (\<forall>y. y \<notin> set ws \<longrightarrow> fl s' y = fl s y) \<and> (\<forall>x\<in>set ws. B_ASYNC \<in> fl s' x \<and> B_READ \<notin> fl s' x \<and> B_ERROR \<notin> fl s' x) \<and> v_buf s' = v_buf s"
  unfolding bflush_def
  by (rule flush_loop [where P = "\<lambda>s x. d = NODEV \<or> d = b_dev (bh s x)" and F = "{B_ASYNC}", OF _ _ _ _ i av_length [OF bio_invD(2) [OF i]]])
    (auto simp: core_def)

lemma bdflush_spec:
  assumes i: "bio_inv R A s"
  shows "\<exists>s' A' ws. bdflush_loop (Suc (v_buf s)) autoup s = Some s' \<and> bio_inv R A' s' \<and> keeps_blocks s s' \<and> disk s' = disk s \<and> ioq s' = ioq s @ ws \<and>
      set ws = {x \<in> set A. B_DELWRI \<in> fl s x \<and> autoup \<le> c_int (lbolt s - b_start (bh s x))} \<and> set A' = set A - set ws \<and> (\<forall>y. core s' y = core s y) \<and>
      (\<forall>y. y \<notin> set ws \<longrightarrow> fl s' y = fl s y) \<and> (\<forall>x\<in>set ws. B_ASYNC \<in> fl s' x \<and> B_READ \<notin> fl s' x \<and> B_ERROR \<notin> fl s' x) \<and> v_buf s' = v_buf s"
  by (rule flush_loop [where P = "\<lambda>s x. autoup \<le> c_int (lbolt s - b_start (bh s x))" and F = "{B_ASYNC, B_LOPRI}",
        OF _ _ _ _ i av_length [OF bio_invD(2) [OF i]]]) (auto simp: core_def)

end
