(* ===== verification/Bread.thy ===== *)
theory Bread imports Bcache begin

text \<open>
  Reading ahead.  \<open>breada\<close> holds several buffers at once, on a list through the link that an available buffer would use; the
  lemmas show that \<open>getblk\<close> and \<open>brelse\<close> leave the busy buffers and this list alone.
\<close>

subsection \<open>Busy buffers are left alone\<close>

definition frame :: "bst \<Rightarrow> bst \<Rightarrow> bool" where
  "frame s s' \<longleftrightarrow> v_buf s' = v_buf s \<and> (\<forall>y\<in>Bufs s. B_BUSY \<in> fl s y \<longrightarrow> pb s' y = pb s y \<and> av_forw (bh s' y) = av_forw (bh s y) \<and>
     (y \<in> set (ioq s') \<longleftrightarrow> y \<in> set (ioq s)))"

lemma frame_trans: "frame s t \<Longrightarrow> frame t u \<Longrightarrow> frame s u"
  unfolding frame_def Bufs_def pb_def by auto

lemma ring_nbrs:
  assumes "av_list A s" "x \<in> set (Fre # A)" "y \<in> Bufs s" "B_BUSY \<in> fl s y"
  shows "afs s x \<noteq> y" "abs' s x \<noteq> y" "x \<noteq> y"
proof -
  have "y \<notin> set (Fre # A)" using assms(3,4) av_listD [OF assms(1), of y] by auto
  with ring_in [OF av_list_parts(1) [OF assms(1)] assms(2)] assms(2) show "afs s x \<noteq> y" "abs' s x \<noteq> y" "x \<noteq> y" by auto
qed

lemma bupd_afs: "(\<And>b. av_forw (f b) = av_forw b) \<Longrightarrow> av_forw (bh (bupd x f s) y) = av_forw (bh s y)"
  by (simp add: bh_bupd)

lemma bupd_afs_set: "av_forw (bh (bupd x (\<lambda>b. b\<lparr>av_forw := v\<rparr>) s) y) = (if y = x then v else av_forw (bh s y))"
  by (simp add: bh_bupd)

lemma notavail_afs: "av_forw (bh (notavail x s) y) = (if y = abs' s x then afs s x else afs s y)"
  unfolding notavail_def Let_def fl_on_def
  by (subst bupd_afs, simp, subst bupd_afs, simp, subst bupd_afs, simp, rule bupd_afs_set)

lemma assign_afs: "av_forw (bh (assign_buf x dp d b z s) y) = av_forw (bh s y)"
  by (simp add: assign_buf_def b_link_def b_unlink_def Let_def bupd_afs)

lemma push_afs: "av_forw (bh (push_out x s) y) = av_forw (bh s y)"
  by (simp add: push_out_def fun_cong [OF bwrite_sel(3)] fun_cong [OF fl_on_sel(3)])

lemma frameI:
  assumes "changed x s s'" "av_list A s" "x \<in> set A" "\<And>y. av_forw (bh s' y) = (if y = abs' s x then afs s x else afs s y)"
    and "\<And>y. y \<noteq> x \<Longrightarrow> y \<in> set (ioq s') \<longleftrightarrow> y \<in> set (ioq s)"
  shows "frame s s'"
  unfolding frame_def
proof (intro conjI ballI impI)
  show "v_buf s' = v_buf s" using assms(1) by (simp add: changed_def)
next
  fix y assume y: "y \<in> Bufs s" "B_BUSY \<in> fl s y"
  note n = ring_nbrs [OF assms(2) _ y, of x]
  have "y \<noteq> x" "y \<noteq> abs' s x" using n(2,3) assms(3) by auto
  with assms(1,4,5) y(1) show "pb s' y = pb s y" "av_forw (bh s' y) = av_forw (bh s y)" "y \<in> set (ioq s') \<longleftrightarrow> y \<in> set (ioq s)"
    by (auto simp: changed_def)
qed

lemma getblk_loop_frame:
  "bio_inv R A s \<Longrightarrow> d \<noteq> NODEV \<Longrightarrow> getblk_loop n d b z s = Some (GBuf x, s') \<Longrightarrow> frame s s'"
proof (induction n arbitrary: A s)
  case (Suc n)
  note i = Suc.prems(1) and d = Suc.prems(2) and r = Suc.prems(3) and D = bio_invD [OF Suc.prems(1)]
  show ?case
  proof (cases "find (is_for s d b) (bucket s (bhash s d b))")
    case (Some y)
    with r have y: "B_BUSY \<notin> fl s y" "s' = notavail y s" by (auto split: if_splits)
    have yA: "y \<in> set A" using find_block(2) [OF i d Some] y(1) av_listD [OF D(2)] by blast
    then obtain us vs where "A = us @ y # vs" by (meson split_list)
    note T = take_sel [OF i [unfolded this]]
    show ?thesis unfolding y(2) by (rule frameI [OF T(7) D(2) yA notavail_afs]) (use rest_eq [OF T(4)] in simp)
  next
    case None
    show ?thesis
    proof (cases A)
      case Nil
      with r None av_first_head [OF D(2)] show ?thesis by (simp add: Let_def)
    next
      case (Cons y vs)
      have F: "av_forw (bh s Fre) = y" using av_first_head [OF D(2)] Cons by simp
      note i0 = i [unfolded Cons] and T = take_sel [where us = "[]", simplified, OF i [unfolded Cons]]
      have yF: "y \<noteq> Fre" "y \<in> set A" using T(1) Cons by auto
      show ?thesis
      proof (cases "B_DELWRI \<in> fl s y")
        case True
        let ?t = "push_out y (notavail y s)"
        have P: "bio_inv R ([] @ vs) ?t" "ioq ?t = ioq s @ [y]" "changed y s ?t"
          using push_sel [where us = "[]" and F = "{}", simplified, OF i0 True] by auto
        have "frame s ?t" by (rule frameI [OF P(3) D(2) yF(2)]) (simp_all add: push_afs notavail_afs P(2))
        moreover have "getblk_loop n d b z ?t = Some (GBuf x, s')" using r None F yF True T(5) [of y] by (simp add: Let_def)
        ultimately show ?thesis using Suc.IH [OF P(1) [simplified] d] frame_trans by blast
      next
        case False
          have "s' = assign_buf y (bhash s d b) d b z (notavail y s)" using r None F yF False T(5) [of y] by (auto simp: Let_def)
        moreover from miss_step [OF i0 d False find_block(3) [OF i d None] refl, of z] obtain R' A' where
          M: "ioq (assign_buf y (bhash s d b) d b z (notavail y s)) = ioq s" "changed y s (assign_buf y (bhash s d b) d b z (notavail y s))"
          by blast
        ultimately show ?thesis using frameI [OF M(2) D(2) yF(2)] by (simp add: assign_afs notavail_afs M(1))
      qed
    qed
  qed
qed simp

lemma getblk_frame: "bio_inv R A s \<Longrightarrow> getblk d blk z s = Some (GBuf x, s') \<Longrightarrow> d \<noteq> NODEV \<Longrightarrow> frame s s'"
  using getblk_loop_frame by (auto simp: getblk_def simp del: getblk_loop.simps split: if_splits)

lemma brelse_frame:
  assumes i: "bio_inv R A s" and x: "x \<in> Bufs s" "B_BUSY \<in> fl s x" "x \<notin> set (ioq s)" "clean s x" "B_ERROR \<notin> fl s x"
    and y: "y \<in> Bufs s" "B_BUSY \<in> fl s y" "y \<noteq> x"
  shows "pb (brelse x s) y = pb s y" "av_forw (bh (brelse x s) y) = av_forw (bh s y)" "ioq (brelse x s) = ioq s"
proof -
  note L = brelse_list [OF bio_invD(2) [OF i] x(1,2)]
  have "x \<noteq> Fre" "y \<noteq> Fre" using x(1) y(1) by auto
  note sel = brelse_sel [OF this(1) L(2,3)]
  show "pb (brelse x s) y = pb s y" using brelse_keeps(2) [OF i x] y by (auto simp: changed_def)
  have "abs' s Fre \<noteq> y" using ring_nbrs [OF bio_invD(2) [OF i] _ y(1,2), of Fre] by simp
  then show "av_forw (bh (brelse x s) y) = av_forw (bh s y)" using y(3) \<open>y \<noteq> Fre\<close> by (simp add: sel(11))
  show "ioq (brelse x s) = ioq s" using rest_eq [OF sel(8)] by simp
qed

subsection \<open>The list of blocks to read ahead\<close>

definition ra_held :: "bst \<Rightarrow> bref \<Rightarrow> bool" where
  "ra_held s y \<longleftrightarrow> held y s \<and> B_DONE \<notin> fl s y \<and> B_ASYNC \<notin> fl s y \<and> B_ERROR \<notin> fl s y"

fun ra_linked :: "bst \<Rightarrow> bref list \<Rightarrow> bool" where
  "ra_linked s [] = True"
| "ra_linked s (x # xs) = (av_forw (bh s x) = hd (xs @ [Nul]) \<and> ra_linked s xs)"

definition ra_list :: "bst \<Rightarrow> bref list \<Rightarrow> bool" where
  "ra_list s xs \<longleftrightarrow> distinct xs \<and> (\<forall>y\<in>set xs. ra_held s y) \<and> ra_linked s xs"

lemma ra_linked_cong: "(\<And>y. y \<in> set xs \<Longrightarrow> av_forw (bh s' y) = av_forw (bh s y)) \<Longrightarrow> ra_linked s' xs = ra_linked s xs"
  by (induction xs) auto

lemma ra_linked_snoc:
  "ra_linked s (us @ [x]) \<Longrightarrow> distinct (us @ [x, y]) \<Longrightarrow> (\<And>z. z \<in> set us \<Longrightarrow> av_forw (bh s' z) = av_forw (bh s z)) \<Longrightarrow>
   av_forw (bh s' x) = y \<Longrightarrow> av_forw (bh s' y) = Nul \<Longrightarrow> ra_linked s' (us @ [x, y])"
proof (induction us)
  case (Cons u us)
  then show ?case by (cases us) auto
qed simp

lemma ra_held_pb: "ra_held s y \<Longrightarrow> pb s' y = pb s y \<Longrightarrow> v_buf s' = v_buf s \<Longrightarrow> y \<notin> set (ioq s') \<Longrightarrow> ra_held s' y"
  by (simp add: ra_held_def held_def Bufs_def pb_def)

lemma frame_ra_list:
  assumes "frame s s'" "ra_list s xs"
  shows "ra_list s' xs" "y \<in> set xs \<Longrightarrow> pb s' y = pb s y"
proof -
  have f: "pb s' y = pb s y" "av_forw (bh s' y) = av_forw (bh s y)" "y \<notin> set (ioq s')" if "y \<in> set xs" for y
    using assms that by (auto simp: frame_def ra_list_def ra_held_def held_def)
  show "y \<in> set xs \<Longrightarrow> pb s' y = pb s y" using f(1) .
  have "ra_held s' y" if "y \<in> set xs" for y
    by (rule ra_held_pb [OF _ f(1) [OF that] _ f(3) [OF that]]) (use assms that in \<open>auto simp: ra_list_def frame_def\<close>)
  with assms(2) ra_linked_cong [OF f(2)] show "ra_list s' xs" by (simp add: ra_list_def)
qed

lemma link_inv:
  assumes i: "bio_inv R A s" and x: "held x s"
  shows "bio_inv R A (bupd x (\<lambda>b. b\<lparr>av_forw := v\<rparr>) s)" "keeps_blocks s (bupd x (\<lambda>b. b\<lparr>av_forw := v\<rparr>) s)"
    "pb (bupd x (\<lambda>b. b\<lparr>av_forw := v\<rparr>) s) y = pb s y"
proof -
  let ?s = "bupd x (\<lambda>b. b\<lparr>av_forw := v\<rparr>) s"
  note p = av_list_parts [OF bio_invD(2) [OF i]]
  have xb: "x \<in> Bufs s" "B_BUSY \<in> fl s x" using x by (auto simp: held_def)
  then have n: "x \<notin> set (Fre # A)" using av_listD [OF bio_invD(2) [OF i], of x] by auto
  show pb: "pb ?s y = pb s y" for y by (simp add: pb_def bh_bupd)
  have "ring (afs ?s) (abs' ?s) Fre A = ring (afs s) (abs' s) Fre A" by (rule ring_cong) (use n in \<open>auto simp: bh_bupd\<close>)
  moreover have "{y \<in> Bufs ?s. B_BUSY \<notin> fl ?s y} = {y \<in> Bufs s. B_BUSY \<notin> fl s y}" using pb_same [OF pb] by (auto simp: Bufs_def)
  ultimately have "av_list A ?s" using p n by (simp add: av_list_def bh_bupd)
  then show i': "bio_inv R A ?s" by (intro bio_inv_links [OF i]) (simp_all add: pb, simp_all add: bh_bupd fun_eq_iff)
  show "keeps_blocks s ?s" by (rule keeps_all [OF i i']) (use pb_same [OF pb] in \<open>simp_all add: live_def\<close>)
qed

lemma ra_collect_spec:
  "bio_inv R A s \<Longrightarrow> bmajor d < bdevcnt s \<Longrightarrow> ra_list s (us @ [x]) \<Longrightarrow>
   \<exists>g s' R' A' ws vs. ra_collect n d ra z x s = Some (g, s') \<and> bio_inv R' A' s' \<and> keeps_blocks s s' \<and> v_buf s' = v_buf s \<and>
     bdevcnt s' = bdevcnt s \<and> disk s' = disk s \<and> ioq s' = ioq s @ ws \<and> (case g of None \<Rightarrow> ra_list s' (us @ x # vs) \<and> (\<forall>y\<in>set (us @ [x]). pb s' y = pb s y)
       | Some (GSleep _) \<Rightarrow> True | _ \<Rightarrow> False)"
proof (induction n arbitrary: ra us x s R A)
  case 0
  then show ?case by (intro exI [of _ None] exI [of _ s] exI [of _ R] exI [of _ A] exI [of _ "[]"]) (simp add: keeps_blocks_def)
next
  case (Suc n)
  note i = Suc.prems(1) and L = Suc.prems(3)
  have nd: "d \<noteq> NODEV" using Suc.prems(2) bio_invD(3) [OF i] bmajor_NODEV by (auto simp: cache_ok_def)
  from getblk_spec [OF i Suc.prems(2), of ra z] obtain r s1 R1 A1 ws where
    G: "getblk d ra z s = Some (r, s1)" "bio_inv R1 A1 s1" "keeps_blocks s s1" "got_blk d (ltopblk ra z) s s1 r" "v_buf s1 = v_buf s"
      "bdevcnt s1 = bdevcnt s" "disk s1 = disk s" "ioq s1 = ioq s @ ws" by blast
  show ?case
  proof (cases r)
    case (GSleep c)
    with G show ?thesis by (intro exI [of _ "Some r"] exI [of _ s1] exI [of _ R1] exI [of _ A1] exI [of _ ws]) simp
  next
    case GPanic
    with G(4) show ?thesis by (simp add: got_blk_def)
  next
    case (GBuf y)
    note F = getblk_frame [OF i G(1) [unfolded GBuf] nd]
    note L1 = frame_ra_list [OF F L]
    have y: "y \<in> Bufs s" "B_BUSY \<notin> fl s y" "B_BUSY \<in> fl s1 y" "y \<notin> set (ioq s1)" "clean s1 y" "B_ERROR \<notin> fl s1 y"
      "B_DONE \<notin> fl s1 y \<Longrightarrow> B_ASYNC \<notin> fl s1 y" using G(4) GBuf by (auto simp: got_blk_def split: if_splits)
    have yb: "y \<in> Bufs s1" using y(1) G(5) by (simp add: Bufs_def)
    have ny: "y \<notin> set (us @ [x])" using L y(2) by (auto simp: ra_list_def ra_held_def held_def)
    show ?thesis
    proof (cases "B_DONE \<in> fl s1 y")
      case True
      let ?t = "brelse y s1"
      have it: "\<exists>A'. bio_inv R1 A' ?t" using brelse_inv [OF G(2) yb y(3,4,5)] by blast
      note K = brelse_keeps [OF G(2) yb y(3-6)] and BF = brelse_frame [OF G(2) yb y(3-6)]
      have xs: "z \<in> Bufs s1 \<and> B_BUSY \<in> fl s1 z \<and> z \<noteq> y" if "z \<in> set (us @ [x])" for z
        using L1(1) that ny by (auto simp: ra_list_def ra_held_def held_def)
      have "ra_held ?t z" if "z \<in> set (us @ [x])" for z
        by (rule ra_held_pb [of s1]) (use L1(1) that xs BF rest_eq [OF K(4)] in \<open>auto simp: ra_list_def ra_held_def held_def\<close>)
      moreover have "ra_linked ?t (us @ [x]) = ra_linked s1 (us @ [x])" by (rule ra_linked_cong) (use BF(2) xs in blast)
      ultimately have Lt: "ra_list ?t (us @ [x])" using L1(1) by (simp add: ra_list_def)
      from it obtain A2 where i2: "bio_inv R1 A2 ?t" by blast
      have "bmajor d < bdevcnt ?t" using rest_eq [OF K(4)] G(6) Suc.prems(2) by simp
      from Suc.IH [OF i2 this Lt, of "c_int (ra + 1)"] obtain g s' R' A' ws' vs where
        I: "ra_collect n d (c_int (ra + 1)) z x ?t = Some (g, s')" "bio_inv R' A' s'" "keeps_blocks ?t s'" "v_buf s' = v_buf ?t"
          "bdevcnt s' = bdevcnt ?t" "disk s' = disk ?t" "ioq s' = ioq ?t @ ws'"
          "case g of None \<Rightarrow> ra_list s' (us @ x # vs) \<and> (\<forall>z\<in>set (us @ [x]). pb s' z = pb ?t z) | Some (GSleep _) \<Rightarrow> True | _ \<Rightarrow> False" by blast
      have "pb ?t z = pb s z" if "z \<in> set (us @ [x])" for z using BF(1) xs [OF that] L1(2) [OF that] by simp
      moreover have "keeps_blocks s s'" using keeps_blocks_trans [OF keeps_blocks_trans [OF G(3) K(1)] I(3)] .
      ultimately show ?thesis using I G GBuf True rest_eq [OF K(4)]
        by (intro exI [of _ g] exI [of _ s'] exI [of _ R'] exI [of _ A'] exI [of _ "ws @ ws'"] exI [of _ vs])
          (simp split: option.splits gres.splits)
    next
      case False
      have hx: "held x s1" "held y s1" using L1(1) yb y(3,4) by (auto simp: ra_list_def ra_held_def held_def)
      let ?u = "bupd x (\<lambda>b. b\<lparr>av_forw := y\<rparr>) s1" let ?t = "bupd y (\<lambda>b. b\<lparr>av_forw := Nul\<rparr>) ?u"
      note U = link_inv [OF G(2) hx(1), where v = y]
      have hy: "held y ?u" using hx(2) pb_same [OF U(3)] by (simp add: held_def Bufs_def)
      note T = link_inv [OF U(1) hy, where v = Nul]
      have pt: "pb ?t z = pb s1 z" for z using T(3) U(3) by simp
      have "ra_held ?t z" if "z \<in> set (us @ [x, y])" for z
        by (rule ra_held_pb [of s1, OF _ pt]) (use L1(1) that hx(2) False y(6,7) in \<open>auto simp: ra_list_def ra_held_def held_def\<close>)
      moreover have "ra_linked ?t (us @ [x, y])"
        by (rule ra_linked_snoc [of s1]) (use L1(1) ny in \<open>auto simp: ra_list_def bh_bupd\<close>)
      ultimately have Lt: "ra_list ?t ((us @ [x]) @ [y])" using L1(1) ny by (auto simp: ra_list_def)
      have "bmajor d < bdevcnt ?t" using G(6) Suc.prems(2) by simp
      from Suc.IH [OF T(1) this Lt, of "c_int (ra + 1)"] obtain g s' R' A' ws' vs where
        I: "ra_collect n d (c_int (ra + 1)) z y ?t = Some (g, s')" "bio_inv R' A' s'" "keeps_blocks ?t s'" "v_buf s' = v_buf ?t"
          "bdevcnt s' = bdevcnt ?t" "disk s' = disk ?t" "ioq s' = ioq ?t @ ws'"
          "case g of None \<Rightarrow> ra_list s' ((us @ [x]) @ y # vs) \<and> (\<forall>z\<in>set ((us @ [x]) @ [y]). pb s' z = pb ?t z)
            | Some (GSleep _) \<Rightarrow> True | _ \<Rightarrow> False" by blast
      have "pb ?t z = pb s z" if "z \<in> set (us @ [x])" for z using pt L1(2) [OF that] by simp
      moreover have "keeps_blocks s s'"
        using keeps_blocks_trans [OF keeps_blocks_trans [OF keeps_blocks_trans [OF G(3) U(2)] T(2)] I(3)] .
      ultimately show ?thesis using I G GBuf False
        by (intro exI [of _ g] exI [of _ s'] exI [of _ R'] exI [of _ A'] exI [of _ "ws @ ws'"] exI [of _ "y # vs"])
          (simp split: option.splits gres.splits)
    qed
  qed
qed

subsection \<open>Starting the transfers\<close>

lemma ra_io_sel:
  assumes "y \<noteq> Fre"
  shows "bfs (ra_io z x y s) = bfs s" "bbs (ra_io z x y s) = bbs s" "afs (ra_io z x y s) = afs s" "abs' (ra_io z x y s) = abs' s"
    "b_bcount (bh (ra_io z x y s) Fre) = b_bcount (bh s Fre)" "core (ra_io z x y s) v = core s v" "basyncnt (ra_io z x y s) = basyncnt s"
    "v_buf (ra_io z x y s) = v_buf s" "v_hbuf (ra_io z x y s) = v_hbuf s" "bdevcnt (ra_io z x y s) = bdevcnt s" "disk (ra_io z x y s) = disk s"
    "ioq (ra_io z x y s) = ioq s @ [y]"
    "v \<noteq> y \<Longrightarrow> fl (ra_io z x y s) v = fl s v"
    "B_WAIT \<noteq> F \<Longrightarrow> F \<in> fl (ra_io z x y s) y \<longleftrightarrow> F = B_READ \<or> F = B_ASYNC \<and> y \<noteq> x \<or> F \<in> fl s y \<and> \<not> (F = B_ASYNC \<and> y = x)"
  using assms by (auto simp: ra_io_def Let_def fl_off_def fl_on_def strategy_def bupd_def core_def fun_eq_iff)

lemma ra_io_inv:
  assumes i: "bio_inv R A s" and y: "ra_held s y" and t_def: "t = ra_io z x y s"
  shows "bio_inv R A t" "keeps_blocks s t" "v \<noteq> y \<Longrightarrow> pb t v = pb s v" "y \<in> Bufs s" "y \<noteq> Fre"
proof -
  have yb: "y \<in> Bufs s" "B_BUSY \<in> fl s y" "y \<notin> set (ioq s)" "B_DONE \<notin> fl s y" and h: "held y s" using y by (auto simp: ra_held_def held_def)
  then show nF: "y \<in> Bufs s" "y \<noteq> Fre" by auto
  note S = ra_io_sel [OF nF(2), where z = z and x = x and s = s, folded t_def]
  have db: "b_dev (bh t v) = b_dev (bh s v)" "b_blkno (bh t v) = b_blkno (bh s v)" "b_data (bh t v) = b_data (bh s v)" for v
    using core_eq [OF S(6)] by simp_all
  show pb: "v \<noteq> y \<Longrightarrow> pb t v = pb s v" for v using db S(13) by (simp add: pb_def)
  have ch: "changed y s t" using yb(1) S(8-10) pb by (simp add: changed_def)
  have st: "B_STALE \<notin> fl s y" using held_not_stale [OF i h] .
  have dl: "B_DELWRI \<notin> fl s y" using io_okD(8) [OF bio_invD(5) [OF i] yb(1)] yb(4) by blast
  show i': "bio_inv R A t"
    by (rule held_inv [OF i ch S(1-5) yb(2) _ yb(3) db(1,2) S(11)]) (use yb st dl S(7,12,14) in auto)
  show "keeps_blocks s t"
    by (rule keeps_same [OF i i' ch S(11) _ db]) (use S(12,14) yb st in \<open>auto simp: live_def\<close>)
qed

lemma ra_start_spec:
  "bio_inv R A s \<Longrightarrow> ra_list s ys \<Longrightarrow> length ys < n \<Longrightarrow>
   \<exists>s'. ra_start n z x (hd (ys @ [Nul])) s = Some s' \<and> bio_inv R A s' \<and> keeps_blocks s s' \<and> v_buf s' = v_buf s \<and> bdevcnt s' = bdevcnt s \<and>
     disk s' = disk s \<and> ioq s' = ioq s @ ys \<and> (\<forall>v. core s' v = core s v) \<and> (\<forall>v. v \<notin> set ys \<longrightarrow> fl s' v = fl s v) \<and>
     (\<forall>y\<in>set ys. B_READ \<in> fl s' y \<and> (B_ASYNC \<in> fl s' y \<longleftrightarrow> y \<noteq> x) \<and> B_ERROR \<notin> fl s' y \<and> (B_STALE \<in> fl s' y \<longleftrightarrow> B_STALE \<in> fl s y))"
proof (induction ys arbitrary: n s)
  case Nil
  then show ?case by (cases n) (auto simp: keeps_blocks_def)
next
  case (Cons y ys)
  then obtain k where k: "n = Suc k" "length ys < k" by (cases n) auto
  have y: "ra_held s y" "y \<notin> set ys" "av_forw (bh s y) = hd (ys @ [Nul])" using Cons.prems(2) by (auto simp: ra_list_def)
  define t where "t = ra_io z x y s"
  note I = ra_io_inv [OF Cons.prems(1) y(1) t_def] and S = ra_io_sel [OF ra_io_inv(5) [OF Cons.prems(1) y(1) refl], where z = z and x = x and s = s, folded t_def]
  have ne: "y \<noteq> Nul" using I(4) by (auto simp: Bufs_def)
  have "ra_held t v" if "v \<in> set ys" for v
    by (rule ra_held_pb [of s, OF _ _ S(8)]) (use Cons.prems(2) that y(2) S(12) I(3) [of v] in \<open>auto simp: ra_list_def ra_held_def held_def\<close>)
  moreover have "ra_linked t ys" using Cons.prems(2) ra_linked_cong [of ys t s] fun_cong [OF S(3)] by (simp add: ra_list_def)
  ultimately have "ra_list t ys" using Cons.prems(2) by (simp add: ra_list_def)
  from Cons.IH [OF I(1) this k(2)] obtain s' where
    H: "ra_start k z x (hd (ys @ [Nul])) t = Some s'" "bio_inv R A s'" "keeps_blocks t s'" "v_buf s' = v_buf t" "bdevcnt s' = bdevcnt t"
      "disk s' = disk t" "ioq s' = ioq t @ ys" "\<And>v. core s' v = core t v" "\<And>v. v \<notin> set ys \<Longrightarrow> fl s' v = fl t v"
      "\<And>v. v \<in> set ys \<Longrightarrow> B_READ \<in> fl s' v \<and> (B_ASYNC \<in> fl s' v \<longleftrightarrow> v \<noteq> x) \<and> B_ERROR \<notin> fl s' v \<and> (B_STALE \<in> fl s' v \<longleftrightarrow> B_STALE \<in> fl t v)" by blast
  have "ra_start n z x (hd ((y # ys) @ [Nul])) s = Some s'" using H(1) y(3) ne k(1) by (simp add: t_def)
  moreover have "keeps_blocks s s'" by (rule keeps_blocks_trans [OF I(2) H(3)])
  moreover have "B_READ \<in> fl s' v \<and> (B_ASYNC \<in> fl s' v \<longleftrightarrow> v \<noteq> x) \<and> B_ERROR \<notin> fl s' v \<and> (B_STALE \<in> fl s' v \<longleftrightarrow> B_STALE \<in> fl s v)"
    if "v \<in> set (y # ys)" for v
    using that H(9,10) [of v] y(1,2) S(13) [of v] S(14) by (cases "v = y") (auto simp: ra_held_def)
  moreover have "fl s' v = fl s v" if "v \<notin> set (y # ys)" for v using that H(9) S(13) by simp
  ultimately show ?case using H S by (intro exI [of _ s']) simp
qed

text \<open>\<open>breada\<close> is \<open>bread\<close>, and starts transfers of other blocks.\<close>

lemma breada_spec:
  assumes i: "bio_inv R A s" and d: "bmajor d < bdevcnt s"
  shows "\<exists>r w s' R' A' ws vs. breada d blk ra z s = Some ((r, w), s') \<and> bio_inv R' A' s' \<and> keeps_blocks s s' \<and> disk s' = disk s \<and>
    v_buf s' = v_buf s \<and> bdevcnt s' = bdevcnt s \<and>
    (case r of
       GBuf x \<Rightarrow> is_for s' d (ltopblk blk z) x \<and> B_BUSY \<notin> fl s x \<and>
         (if w then ioq s' = ioq s @ ws @ x # vs \<and> B_READ \<in> fl s' x \<and> B_ASYNC \<notin> fl s' x \<and> B_ERROR \<notin> fl s' x \<and>
            (\<forall>y\<in>set vs. B_READ \<in> fl s' y \<and> B_ASYNC \<in> fl s' y)
          else held x s' \<and> ioq s' = ioq s @ ws \<and> B_DONE \<in> fl s' x \<and> b_data (bh s' x) = cur s d (ltopblk blk z))
     | GSleep _ \<Rightarrow> \<not> w \<and> ioq s' = ioq s @ ws | GPanic \<Rightarrow> False)"
proof -
  let ?b = "ltopblk blk z"
  from getblk_spec [OF i d, of blk z] obtain r s1 R1 A1 ws where
    G: "getblk d blk z s = Some (r, s1)" "bio_inv R1 A1 s1" "keeps_blocks s s1" "got_blk d ?b s s1 r" "disk s1 = disk s" "v_buf s1 = v_buf s"
      "bdevcnt s1 = bdevcnt s" "ioq s1 = ioq s @ ws" by blast
  show ?thesis
  proof (cases r)
    case GPanic
    with G(4) show ?thesis by (simp add: got_blk_def)
  next
    case (GSleep c)
    with G show ?thesis
      by (intro exI [of _ r] exI [of _ False] exI [of _ s1] exI [of _ R1] exI [of _ A1] exI [of _ ws]) (simp add: breada_def)
  next
    case (GBuf x)
    have x: "x \<in> Bufs s" "B_BUSY \<notin> fl s x" "B_BUSY \<in> fl s1 x" "x \<notin> set (ioq s1)" "is_for s1 d ?b x" "B_ERROR \<notin> fl s1 x"
      "if B_DONE \<in> fl s1 x then b_data (bh s1 x) = cur s d ?b else B_ASYNC \<notin> fl s1 x"
      using G(4) GBuf by (auto simp: got_blk_def)
    have h: "held x s1" using x G(6) by (simp add: held_def Bufs_def)
    show ?thesis
    proof (cases "B_DONE \<in> fl s1 x")
      case True
      with G GBuf x h show ?thesis
        by (intro exI [of _ r] exI [of _ False] exI [of _ s1] exI [of _ R1] exI [of _ A1] exI [of _ ws]) (simp add: breada_def)
    next
      case False
      let ?u = "bupd x (\<lambda>b. b\<lparr>av_forw := Nul\<rparr>) s1"
      let ?p = "if ra < 0 then (nat (ra + 2 ^ 31), c_int (blk + 1)) else (1, ra)"
      note U = link_inv [OF G(2) h, where v = Nul]
      have "ra_held ?u x" using h False x(6,7) pb_same [OF U(3)] by (simp add: ra_held_def held_def Bufs_def)
      then have L: "ra_list ?u ([] @ [x])" by (simp add: ra_list_def bh_bupd)
      have "bmajor d < bdevcnt ?u" using d G(7) by simp
      from ra_collect_spec [OF U(1) this L, of "fst ?p" "snd ?p" z] obtain g s2 R2 A2 ws2 vs where
        C: "ra_collect (fst ?p) d (snd ?p) z x ?u = Some (g, s2)" "bio_inv R2 A2 s2" "keeps_blocks ?u s2" "v_buf s2 = v_buf ?u" "bdevcnt s2 = bdevcnt ?u"
          "disk s2 = disk ?u" "ioq s2 = ioq ?u @ ws2"
          "case g of None \<Rightarrow> ra_list s2 ([] @ x # vs) \<and> (\<forall>y\<in>set ([] @ [x]). pb s2 y = pb ?u y) | Some (GSleep _) \<Rightarrow> True | _ \<Rightarrow> False" by blast
      have k: "keeps_blocks s s2" using keeps_blocks_trans [OF keeps_blocks_trans [OF G(3) U(2)] C(3)] .
      show ?thesis
      proof (cases g)
        case (Some g')
        then obtain c where c: "g = Some (GSleep c)" using C(8) by (cases g') auto
        then have "breada d blk ra z s = Some ((GSleep c, False), s2)" using G(1) GBuf False C(1) by (simp add: breada_def split: if_splits)
        with C k G show ?thesis
          by (intro exI [of _ "GSleep c"] exI [of _ False] exI [of _ s2] exI [of _ R2] exI [of _ A2] exI [of _ "ws @ ws2"]) simp
      next
        case None
        have L2: "ra_list s2 (x # vs)" and px: "pb s2 x = pb s1 x" using C(8) None U(3) by simp_all
        have "set (x # vs) \<subseteq> Bufs s2" "distinct (x # vs)" using L2 by (auto simp: ra_list_def ra_held_def held_def)
        then have "length (x # vs) < Suc (v_buf s)" using Bufs_length [of "x # vs" s2] C(4) G(6) by simp
        from ra_start_spec [OF C(2) L2 this, of z x] obtain s3 where
          H: "ra_start (Suc (v_buf s)) z x x s2 = Some s3" "bio_inv R2 A2 s3" "keeps_blocks s2 s3" "v_buf s3 = v_buf s2" "bdevcnt s3 = bdevcnt s2"
            "disk s3 = disk s2" "ioq s3 = ioq s2 @ x # vs" "\<And>v. core s3 v = core s2 v"
            "\<And>y. y \<in> set (x # vs) \<Longrightarrow> B_READ \<in> fl s3 y \<and> (B_ASYNC \<in> fl s3 y \<longleftrightarrow> y \<noteq> x) \<and> B_ERROR \<notin> fl s3 y \<and> (B_STALE \<in> fl s3 y \<longleftrightarrow> B_STALE \<in> fl s2 y)"
          unfolding append_Cons list.sel by blast
        have "breada d blk ra z s = Some ((GBuf x, True), s3)"
          using G(1) GBuf False C(1) None H(1) by (simp add: breada_def del: ra_start.simps split: if_splits)
        moreover have "is_for s3 d ?b x" using x(5) H(9) [of x] core_eq [OF H(8) [of x]] pb_same [OF px] by (simp add: is_for_def)
        moreover have "x \<notin> set vs" using L2 by (simp add: ra_list_def)
        then have "\<forall>y\<in>set vs. B_READ \<in> fl s3 y \<and> B_ASYNC \<in> fl s3 y" using H(9) by auto
        ultimately show ?thesis using H C(4-7) G(5-8) keeps_blocks_trans [OF k H(3)] x(2)
          by (intro exI [of _ "GBuf x"] exI [of _ True] exI [of _ s3] exI [of _ R2] exI [of _ A2] exI [of _ "ws @ ws2"] exI [of _ vs]) simp
      qed
    qed
  qed
qed

end
