(* ===== verification/Bsys.thy ===== *)
theory Bsys imports Bread begin

text \<open>
  The buffer cache as a system: invalidation and initialisation, the events that change the cache (the calls of its clients
  and the ends of transfers) as a step relation, and the properties of every reachable state.
\<close>

subsection \<open>Invalidation\<close>

lemma stale_inv:
  assumes i: "bio_inv R A s" and x: "x \<in> Bufs s" "B_BUSY \<notin> fl s x" "B_DELWRI \<notin> fl s x"
  shows "bio_inv R A (fl_on {B_STALE, B_AGE} x s)" "keeps_blocks s (fl_on {B_STALE, B_AGE} x s)"
proof -
  let ?s = "fl_on {B_STALE, B_AGE} x s"
  note D = bio_invD [OF i] and O = io_okD [OF bio_invD(5) [OF i]] and R = rest_eq [OF fl_on_sel(7) [of "{B_STALE, B_AGE}" x s]]
  note db = core_eq [OF fl_on_sel(6) [of "{B_STALE, B_AGE}" x s]]
  have xq: "x \<notin> set (ioq s)" using O(4) x(2) by blast
  have ch: "changed x s ?s" by (rule changedI [OF x(1) fl_on_sel(7)]) (simp add: pb_def db fl_on_sel(8))
  have "hash_lists R ?s" by (rule hash_lists_cong [OF D(1)]) (simp_all add: fl_on_sel)
  moreover have "av_list A ?s" by (rule av_list_cong [OF D(2)]) (auto simp: fl_on_sel)
  moreover have "cache_ok R ?s" by (rule cache_ok_changed [OF D(3) ch]) (simp_all add: db)
  moreover have "one_each ?s" by (rule one_each_changed [OF D(4) ch]) (simp add: fl_on_sel(8))
  moreover have "io_ok ?s"
  proof (rule io_ok_changed [OF D(5) ch])
    have "async_writes ?s = async_writes s" by (rule async_writes_cong) (use R xq in \<open>auto simp: fl_on_sel(8)\<close>)
    then show "basyncnt ?s = int (length (async_writes ?s))" using O(2) R by simp
  qed (use O(1) O(9) [OF x(1,2)] R xq x in \<open>auto simp: fl_on_sel(8)\<close>)
  moreover have "coherent ?s" by (rule coherent_changed [OF D(6) ch]) (use R in \<open>simp_all add: settled_def fl_on_sel(8)\<close>)
  ultimately show i': "bio_inv R A ?s" unfolding bio_inv_def by blast
  show "keeps_blocks s ?s"
    unfolding keeps_blocks_def
  proof (intro allI impI)
    fix d b assume d: "d \<noteq> NODEV"
    have "b_data (bh s x) = disk s d b" if "is_for s d b x" "live s x"
    proof -
      have "settled s x" using that x xq d by (auto simp: settled_def is_for_def live_def)
      with D(6) x(1) that(1) show ?thesis by (auto simp: coherent_def is_for_def)
    qed
    moreover have "\<not> is_for ?s d b x" by (simp add: is_for_def fl_on_sel(8))
    ultimately show "cur ?s d b = cur s d b" by (intro cur_change [OF i i' ch d]) (use R in auto)
  qed
qed

definition idle_dev :: "int \<Rightarrow> bst \<Rightarrow> bool" where
  "idle_dev d s \<longleftrightarrow> (\<forall>x\<in>Bufs s. b_dev (bh s x) = d \<longrightarrow> B_BUSY \<notin> fl s x \<and> B_DELWRI \<notin> fl s x)"

lemma binval_buf_inv:
  assumes "bio_inv R A s" "idle_dev d s" "x \<in> Bufs s"
  shows "bio_inv R A (binval_buf d x s) \<and> keeps_blocks s (binval_buf d x s) \<and> idle_dev d (binval_buf d x s) \<and>
    v_buf (binval_buf d x s) = v_buf s \<and> v_hbuf (binval_buf d x s) = v_hbuf s"
proof (cases "b_dev (bh s x) = d")
  case True
  let ?s = "fl_on {B_STALE, B_AGE} x s"
  have "B_BUSY \<notin> fl s x" "B_DELWRI \<notin> fl s x" using assms True by (auto simp: idle_dev_def)
  note S = stale_inv [OF assms(1,3) this] and R = rest_eq [OF fl_on_sel(7) [of "{B_STALE, B_AGE}" x s]]
  have "idle_dev d ?s"
    using assms(2) Bufs_rest(1) [OF fl_on_sel(7) [of "{B_STALE, B_AGE}" x s]] core_eq [OF fl_on_sel(6) [of "{B_STALE, B_AGE}" x s]]
    by (simp add: idle_dev_def fl_on_sel(8))
  with S R True show ?thesis by (simp add: binval_buf_def)
qed (use assms in \<open>simp add: binval_buf_def keeps_blocks_def\<close>)

lemma binval_bufs_inv:
  "bio_inv R A s \<Longrightarrow> idle_dev d s \<Longrightarrow> set xs \<subseteq> Bufs s \<Longrightarrow>
   bio_inv R A (fold (binval_buf d) xs s) \<and> keeps_blocks s (fold (binval_buf d) xs s) \<and> idle_dev d (fold (binval_buf d) xs s) \<and>
   v_buf (fold (binval_buf d) xs s) = v_buf s \<and> v_hbuf (fold (binval_buf d) xs s) = v_hbuf s"
proof (induction xs arbitrary: s)
  case (Cons x xs)
  have B: "bio_inv R A (binval_buf d x s)" "keeps_blocks s (binval_buf d x s)" "idle_dev d (binval_buf d x s)"
    "v_buf (binval_buf d x s) = v_buf s" "v_hbuf (binval_buf d x s) = v_hbuf s"
    using binval_buf_inv [OF Cons.prems(1,2), of x] Cons.prems(3) by auto
  have "set xs \<subseteq> Bufs (binval_buf d x s)" using Cons.prems(3) B(4) by (simp add: Bufs_def)
  from Cons.IH [OF B(1,3) this] B(2,4,5) keeps_blocks_trans [OF B(2)] show ?case by auto
qed (simp add: keeps_blocks_def)

lemma binval_inv:
  assumes "bio_inv R A s" "idle_dev d s"
  shows "bio_inv R A (binval d s) \<and> keeps_blocks s (binval d s)"
proof -
  have "set is \<subseteq> {..<v_hbuf s} \<Longrightarrow> bio_inv R A s \<Longrightarrow> idle_dev d s \<Longrightarrow>
    bio_inv R A (fold (\<lambda>i s. fold (binval_buf d) (bucket s (Hsh i)) s) is s) \<and>
    keeps_blocks s (fold (\<lambda>i s. fold (binval_buf d) (bucket s (Hsh i)) s) is s)" for "is" s
  proof (induction "is" arbitrary: s)
    case (Cons i js)
    have k: "Hsh i \<in> heads s" using Cons.prems(1) by (auto simp: heads_def)
    note H = bio_invD(1) [OF Cons.prems(2)]
    have "set (bucket s (Hsh i)) \<subseteq> Bufs s" unfolding bucket_list [OF H k] by (rule hash_lists_parts(2) [OF H k])
    note B = binval_bufs_inv [OF Cons.prems(2,3) this]
    let ?t = "fold (binval_buf d) (bucket s (Hsh i)) s"
    have "set js \<subseteq> {..<v_hbuf ?t}" using Cons.prems(1) B by simp
    from Cons.IH [OF this] B keeps_blocks_trans [of s ?t] show ?case by auto
  qed (simp add: keeps_blocks_def)
  moreover have "set [0..<v_hbuf s] \<subseteq> {..<v_hbuf s}" by auto
  ultimately show ?thesis using assms unfolding binval_def by blast
qed

subsection \<open>The events\<close>

inductive bio_step :: "bst \<Rightarrow> bst \<Rightarrow> bool" where
  ev_getblk: "bmajor d < bdevcnt s \<Longrightarrow> getblk d blk z s = Some (r, s') \<Longrightarrow> bio_step s s'"
| ev_geteblk: "geteblk s = Some (r, s') \<Longrightarrow> bio_step s s'"
| ev_bread: "bmajor d < bdevcnt s \<Longrightarrow> bread d blk z s = Some (rw, s') \<Longrightarrow> bio_step s s'"
| ev_breada: "bmajor d < bdevcnt s \<Longrightarrow> breada d blk ra z s = Some (rw, s') \<Longrightarrow> bio_step s s'"
| ev_change: "held x s \<Longrightarrow> bio_step s (bupd x (\<lambda>b. b\<lparr>b_data := t\<rparr>) s)"
| ev_clrbuf: "held x s \<Longrightarrow> bio_step s (clrbuf x s)"
| ev_brelse: "held x s \<Longrightarrow> clean s x \<Longrightarrow> bio_step s (brelse x s)"
| ev_bwrite: "held x s \<Longrightarrow> bio_step s (bwrite x s)"
| ev_bawrite: "held x s \<Longrightarrow> bio_step s (bawrite x s)"
| ev_bdwrite: "held x s \<Longrightarrow> bio_step s (bdwrite x s)"
| ev_iowait: "held x s \<Longrightarrow> iowait x s = Some s' \<Longrightarrow> bio_step s s'"
| ev_bwrite_end: "held x s \<Longrightarrow> clean s x \<Longrightarrow> bwrite_end x s = Some s' \<Longrightarrow> bio_step s s'"
| ev_io_end: "x \<in> set (ioq s) \<Longrightarrow> bio_step s (io_end e x s)"
| ev_bflush: "bflush d s = Some s' \<Longrightarrow> bio_step s s'"
| ev_bdflush: "bdflush_loop (Suc (v_buf s)) autoup s = Some s' \<Longrightarrow> bio_step s s'"
| ev_bdwait: "bdwait s = (c, s') \<Longrightarrow> bio_step s s'"
| ev_binval: "idle_dev d s \<Longrightarrow> bio_step s (binval d s)"
| ev_time: "bio_step s (s\<lparr>lbolt := n\<rparr>)"

definition bio_good :: "bst \<Rightarrow> bool" where "bio_good s \<longleftrightarrow> (\<exists>R A. bio_inv R A s)"

lemma bio_good_other:
  assumes "bio_inv R A s" "bh s' = bh s" "v_buf s' = v_buf s" "v_hbuf s' = v_hbuf s" "bdevcnt s' = bdevcnt s" "basyncnt s' = basyncnt s"
    "ioq s' = ioq s" "disk s' = disk s"
  shows "bio_inv R A s'"
  using assms(1)
  unfolding bio_inv_def hash_lists_def av_list_def cache_ok_def one_each_def io_ok_def coherent_def settled_def async_writes_def
    Bufs_def heads_def bhash_def assms(2-)
  by simp

lemma geterror_inv: "bio_inv R A s \<Longrightarrow> bio_inv R A (geterror x s)"
  by (rule bio_good_other [of R A s]) (simp_all add: geterror_def)

lemma bawrite_inv:
  assumes i: "bio_inv R A s" and x: "held x s"
  shows "bio_inv R A (bawrite x s)"
proof (cases "4 < b_bcount (bh s Fre)")
  case True
  have "bio_inv R A (fl_on {B_ASYNC} x s)" by (rule flags_inv [OF i]) (use x in \<open>auto simp: held_def\<close>)
  from bwrite_inv [OF this] x True show ?thesis
    using Bufs_rest(1) [OF fl_on_sel(7) [of "{B_ASYNC}" x s]] rest_eq [OF fl_on_sel(7) [of "{B_ASYNC}" x s]]
    by (simp add: bawrite_def held_def fl_on_sel(8))
qed (use bwrite_inv [OF i] x in \<open>simp add: bawrite_def held_def\<close>)

lemma bio_step_good:
  assumes "bio_step s s'" "bio_inv R A s"
  shows "bio_good s'"
  using assms
proof (induction rule: bio_step.induct)
  case (ev_getblk d s blk z r s')
  with getblk_spec [OF ev_getblk.prems ev_getblk.hyps(1), of blk z] show ?case unfolding bio_good_def by auto
next
  case (ev_geteblk s r s')
  with geteblk_loop_inv [OF ev_geteblk.prems av_length [OF bio_invD(2) [OF ev_geteblk.prems]]]
  show ?case unfolding bio_good_def geteblk_def by auto
next
  case (ev_bread d s blk z rw s')
  with bread_spec [OF ev_bread.prems ev_bread.hyps(1), of blk z] show ?case unfolding bio_good_def by (cases rw) auto
next
  case (ev_breada d s blk ra z rw s')
  with breada_spec [OF ev_breada.prems ev_breada.hyps(1), of blk ra z] show ?case unfolding bio_good_def by (cases rw) auto
next
  case (ev_change x s t)
  have "bio_inv R A (bupd x (\<lambda>b. b\<lparr>b_data := t\<rparr>) s)"
    by (rule bupd_inv(1) [OF ev_change.prems ev_change.hyps])
      (use ev_change io_okD(8) [OF bio_invD(5) [OF ev_change.prems]] held_not_stale [OF ev_change.prems] in \<open>auto simp: held_def\<close>)
  then show ?case unfolding bio_good_def by blast
next
  case (ev_clrbuf x s)
  have "bio_inv R A (clrbuf x s)" unfolding clrbuf_def
    by (rule bupd_inv(1) [OF ev_clrbuf.prems ev_clrbuf.hyps])
      (use ev_clrbuf io_okD(8) [OF bio_invD(5) [OF ev_clrbuf.prems]] held_not_stale [OF ev_clrbuf.prems] in \<open>auto simp: held_def Let_def\<close>)
  then show ?case unfolding bio_good_def by blast
next
  case (ev_brelse x s)
  with brelse_inv [of R A s x] show ?case unfolding bio_good_def held_def by blast
next
  case (ev_bwrite x s)
  with bwrite_inv [of R A s x] show ?case unfolding bio_good_def held_def by blast
next
  case (ev_bawrite x s)
  with bawrite_inv [of R A s x] show ?case unfolding bio_good_def by blast
next
  case (ev_bdwrite x s)
  with bdwrite_writes(1) [of R A s x] show ?case unfolding bio_good_def by blast
next
  case (ev_iowait x s s')
  then have "s' = geterror x s" by (simp add: iowait_def split: if_splits)
  with geterror_inv [OF ev_iowait.prems] show ?case unfolding bio_good_def by blast
next
  case (ev_bwrite_end x s s')
  then have s': "s' = brelse x (geterror x s)" by (auto simp: bwrite_end_def iowait_def split: if_splits)
  have "bh (geterror x s) = bh s" "ioq (geterror x s) = ioq s" "disk (geterror x s) = disk s" "v_buf (geterror x s) = v_buf s"
    by (simp_all add: geterror_def)
  with ev_bwrite_end.hyps brelse_inv [OF geterror_inv [OF ev_bwrite_end.prems, of x], of x]
  show ?case unfolding bio_good_def s' held_def clean_def Bufs_def by auto
next
  case (ev_io_end x s e)
  with io_end_inv [of R A s x e] show ?case unfolding bio_good_def by blast
next
  case (ev_bflush d s s')
  with bflush_spec [OF ev_bflush.prems, of d] show ?case unfolding bio_good_def by auto
next
  case (ev_bdflush s autoup s')
  with bdflush_spec [OF ev_bdflush.prems, of autoup] show ?case unfolding bio_good_def by (auto simp del: bdflush_loop.simps)
next
  case (ev_bdwait s c s')
  have "bio_inv R A s'"
    by (rule bio_good_other [OF ev_bdwait.prems]) (use ev_bdwait.hyps in \<open>auto simp: bdwait_def split: if_splits\<close>)
  then show ?case unfolding bio_good_def by blast
next
  case (ev_binval d s)
  with binval_inv [of R A s d] show ?case unfolding bio_good_def by blast
next
  case (ev_time s n)
  have "bio_inv R A (s\<lparr>lbolt := n\<rparr>)" by (rule bio_good_other [OF ev_time]) simp_all
  then show ?case unfolding bio_good_def by blast
qed

subsection \<open>Initialisation\<close>

definition binit_ok :: "nat \<Rightarrow> bst \<Rightarrow> bool" where
  "binit_ok i s \<longleftrightarrow> ring (bfs s) (bbs s) Fre (rev (map Buf [0..<i])) \<and> ring (afs s) (abs' s) Fre (map Buf [0..<i]) \<and>
     (\<forall>j<i. fl s (Buf j) = {} \<and> b_dev (bh s (Buf j)) = NODEV) \<and> b_bcount (bh s Fre) = int i"

lemma binit_ok_pool [simp]: "binit_ok i (pool_init s) = binit_ok i s"
  by (simp add: binit_ok_def)

lemma binit_buf_ok:
  assumes "binit_ok i s"
  shows "binit_ok (Suc i) (binit_buf i s)" "rest (binit_buf i s) = rest s"
proof -
  let ?x = "Buf i"
  define t where "t = (let s1 = bupd ?x (\<lambda>b. b\<lparr>b_dev := NODEV\<rparr>) s; s2 = bupd ?x (\<lambda>b. b\<lparr>b_back := Fre\<rparr>) s1;
          s3 = bupd ?x (\<lambda>b. b\<lparr>b_forw := b_forw (bh s2 Fre)\<rparr>) s2; s4 = bupd (b_forw (bh s3 Fre)) (\<lambda>b. b\<lparr>b_back := ?x\<rparr>) s3;
          s5 = bupd Fre (\<lambda>b. b\<lparr>b_forw := ?x\<rparr>) s4 in bupd ?x (\<lambda>b. b\<lparr>b_flags := {B_BUSY}, b_bcount := 0\<rparr>) s5)"
  have e: "binit_buf i s = brelse ?x t" by (simp add: binit_buf_def t_def Let_def)
  have P: "ring (bfs s) (bbs s) Fre (rev (map Buf [0..<i]))" "ring (afs s) (abs' s) Fre (map Buf [0..<i])"
    "\<And>j. j < i \<Longrightarrow> fl s (Buf j) = {} \<and> b_dev (bh s (Buf j)) = NODEV" "b_bcount (bh s Fre) = int i"
    using assms unfolding binit_ok_def by blast+
  have n: "bfs s Fre \<noteq> ?x" "afs s Fre \<noteq> ?x" "abs' s Fre \<noteq> ?x"
    using ring_in [OF P(1), of Fre] ring_in [OF P(2), of Fre] by auto
  have t: "bfs t y = (if y = ?x then bfs s Fre else if y = Fre then ?x else bfs s y)"
    "bbs t y = (if y = ?x then Fre else if y = bfs s Fre then ?x else bbs s y)" "afs t y = afs s y" "abs' t y = abs' s y"
    "fl t y = (if y = ?x then {B_BUSY} else fl s y)" "b_dev (bh t y) = (if y = ?x then NODEV else b_dev (bh s y))"
    "b_bcount (bh t Fre) = b_bcount (bh s Fre)" "rest t = rest s" for y
    using n(1) by (auto simp: t_def Let_def bh_bupd)
  have nt: "?x \<noteq> Fre" "afs t Fre \<noteq> ?x" "abs' t Fre \<noteq> ?x" using n t by simp_all
  note sel = brelse_sel [OF nt, folded e]
  show "rest (binit_buf i s) = rest s" using sel(8) t(8) by simp
  have rf: "\<not> rel_front (fl t ?x)" by (simp add: t(5) rel_front_def)
  have "ring (bfs (binit_buf i s)) (bbs (binit_buf i s)) Fre ([] @ ?x # rev (map Buf [0..<i]))"
    by (rule ring_insert [of "bfs s" "bbs s"]) (use P(1) n(1) ring_first [OF P(1)] in \<open>auto simp: sel t\<close>)
  moreover have "ring (afs (binit_buf i s)) (abs' (binit_buf i s)) Fre (map Buf [0..<i] @ ?x # [])"
    by (rule ring_insert [of "afs s" "abs' s"]) (use P(2) rf n ring_last [OF P(2)] in \<open>auto simp: sel(11,12) t(3,4)\<close>)
  moreover have "fl (binit_buf i s) (Buf j) = {} \<and> b_dev (bh (binit_buf i s) (Buf j)) = NODEV" if "j < Suc i" for j
    using P(3) [of j] that sel(3) [of "Buf j"] sel(5) [of "Buf j"] t(5,6) [of "Buf j"] t(5) [of ?x]
    by (cases "j = i") (auto simp: rel_flags_def)
  moreover have "b_bcount (bh (binit_buf i s) Fre) = int (Suc i)" using sel(4) [of Fre] t(7) P(4) by simp
  ultimately show "binit_ok (Suc i) (binit_buf i s)" by (simp add: binit_ok_def)
qed

lemma binit_bufs_ok: "binit_ok 0 s \<Longrightarrow> binit_ok n (fold binit_buf [0..<n] s) \<and> rest (fold binit_buf [0..<n] s) = rest s"
  by (induction n) (use binit_buf_ok in auto)

lemma binit_heads:
  defines "g \<equiv> \<lambda>i. bupd (Hsh i) (\<lambda>b. b\<lparr>b_forw := Hsh i, b_back := Hsh i\<rparr>)"
  shows "bh (fold g [0..<n] s) y = (case y of Hsh i \<Rightarrow> if i < n then (bh s y)\<lparr>b_forw := y, b_back := y\<rparr> else bh s y | _ \<Rightarrow> bh s y) \<and>
    rest (fold g [0..<n] s) = rest s"
proof (induction n)
  case (Suc n)
  then show ?case by (cases y) (auto simp: g_def bh_bupd split: if_splits)
qed (cases y; simp)

text \<open>The state before \<open>binit\<close>: no transfer, one free bucket head at least, and counters of 0 as the loader leaves them.\<close>

definition boot :: "bst \<Rightarrow> bool" where
  "boot s \<longleftrightarrow> ioq s = [] \<and> basyncnt s = 0 \<and> b_bcount (bh s Fre) = 0 \<and> 0 < v_hbuf s \<and> bdevcnt s \<le> 127"

lemma binit_inv:
  assumes "boot s"
  shows "\<exists>R A. bio_inv R A (binit s)"
proof -
  let ?s1 = "bupd Fre (\<lambda>b. b\<lparr>b_forw := Fre, b_back := Fre, av_forw := Fre, av_back := Fre\<rparr>) s"
  let ?s2 = "pool_init (fold binit_buf [0..<v_buf s] ?s1)"
  let ?s = "binit s" let ?n = "v_buf s"
  have s: "?s = fold (\<lambda>i. bupd (Hsh i) (\<lambda>b. b\<lparr>b_forw := Hsh i, b_back := Hsh i\<rparr>)) [0..<v_hbuf ?s2] ?s2"
    by (simp add: binit_def Let_def)
  have "binit_ok 0 ?s1" using assms by (simp add: binit_ok_def bh_bupd boot_def)
  from binit_bufs_ok [OF this, of ?n] have b: "binit_ok ?n ?s2" "rest ?s2 = rest s" by simp_all
  have h: "v_hbuf ?s2 = v_hbuf s" using rest_eq [OF b(2)] by simp
  note H = binit_heads [of "v_hbuf s" ?s2]
  have r: "rest ?s = rest s" using H b(2) unfolding s h by simp
  note R = rest_eq [OF r]
  have bh: "bh ?s y = (case y of Hsh i \<Rightarrow> if i < v_hbuf s then (bh ?s2 y)\<lparr>b_forw := y, b_back := y\<rparr> else bh ?s2 y | _ \<Rightarrow> bh ?s2 y)" for y
    using H unfolding s h by blast
  have B: "Bufs ?s = Buf ` {..<?n}" using R by (simp add: Bufs_def)
  have hd: "heads ?s = insert Fre (Hsh ` {..<v_hbuf s})" using R by (simp add: heads_def)
  let ?E = "rev (map Buf [0..<?n])" and ?A = "map Buf [0..<?n]"
  let ?R = "\<lambda>k. if k = Fre then ?E else []"
  have K: "ring (bfs ?s2) (bbs ?s2) Fre ?E" "ring (afs ?s2) (abs' ?s2) Fre ?A"
    "\<And>j. j < ?n \<Longrightarrow> fl ?s2 (Buf j) = {} \<and> b_dev (bh ?s2 (Buf j)) = NODEV" "b_bcount (bh ?s2 Fre) = int ?n"
    using b(1) unfolding binit_ok_def by blast+
  have f: "fl ?s x = {}" "b_dev (bh ?s x) = NODEV" if "x \<in> Bufs ?s" for x
    using that K(3) unfolding B by (auto simp: bh)
  have "ring (bfs ?s) (bbs ?s) Fre ?E = ring (bfs ?s2) (bbs ?s2) Fre ?E" by (rule ring_cong) (auto simp: bh)
  then have r1: "ring (bfs ?s) (bbs ?s) Fre ?E" using K(1) by blast
  have "ring (afs ?s) (abs' ?s) Fre ?A = ring (afs ?s2) (abs' ?s2) Fre ?A" by (rule ring_cong) (auto simp: bh)
  then have r2: "ring (afs ?s) (abs' ?s) Fre ?A" using K(2) by blast
  have r3: "ring (bfs ?s) (bbs ?s) (Hsh i) []" if "i < v_hbuf s" for i using that by (simp add: bh)
  have c: "b_bcount (bh ?s Fre) = int (length ?A)" using K(4) by (simp add: bh)
  have E: "set ?E = Bufs ?s" "set ?A = Bufs ?s" unfolding B by auto
  have "hash_lists ?R ?s"
    unfolding hash_lists_def
  proof (intro conjI ballI impI)
    fix k assume k: "k \<in> heads ?s"
    then show "ring (bfs ?s) (bbs ?s) k (?R k)" using r1 r3 unfolding hd by (cases "k = Fre") auto
    show "set (?R k) \<subseteq> Bufs ?s" using E(1) by (cases "k = Fre") simp_all
  next
    fix x assume "x \<in> Bufs ?s"
    then show "\<exists>k\<in>heads ?s. x \<in> set (?R k)" using E(1) unfolding hd by simp
  next
    fix k l assume "k \<noteq> (l :: bref)"
    then show "set (?R k) \<inter> set (?R l) = {}" by (cases "k = Fre") auto
  qed
  moreover have "av_list ?A ?s" unfolding av_list_def using r2 c E(2) f(1) by auto
  moreover have "cache_ok ?R ?s" using assms R f(2) E(1) unfolding cache_ok_def boot_def by simp
  moreover have "one_each ?s" "io_ok ?s" "coherent ?s"
    using f R assms unfolding one_each_def io_ok_def coherent_def settled_def async_writes_def boot_def by simp_all
  ultimately show ?thesis unfolding bio_inv_def by blast
qed

subsection \<open>What others do to a block\<close>

text \<open>Any event in which nobody writes block \<open>b\<close> of device \<open>d\<close> and no transfer fails.\<close>

inductive other_step :: "int \<Rightarrow> int \<Rightarrow> bst \<Rightarrow> bst \<Rightarrow> bool" for d b where
  o_getblk: "bmajor e < bdevcnt s \<Longrightarrow> getblk e blk z s = Some (r, s') \<Longrightarrow> other_step d b s s'"
| o_geteblk: "geteblk s = Some (r, s') \<Longrightarrow> other_step d b s s'"
| o_bread: "bmajor e < bdevcnt s \<Longrightarrow> bread e blk z s = Some (rw, s') \<Longrightarrow> other_step d b s s'"
| o_breada: "bmajor e < bdevcnt s \<Longrightarrow> breada e blk ra z s = Some (rw, s') \<Longrightarrow> other_step d b s s'"
| o_brelse: "held x s \<Longrightarrow> clean s x \<Longrightarrow> B_ERROR \<notin> fl s x \<Longrightarrow> other_step d b s (brelse x s)"
| o_bwrite: "held x s \<Longrightarrow> b_dev (bh s x) \<noteq> d \<or> b_blkno (bh s x) \<noteq> b \<Longrightarrow> other_step d b s (bwrite x s)"
| o_bdwrite: "held x s \<Longrightarrow> b_dev (bh s x) \<noteq> d \<or> b_blkno (bh s x) \<noteq> b \<Longrightarrow> B_ERROR \<notin> fl s x \<Longrightarrow> other_step d b s (bdwrite x s)"
| o_io_end: "x \<in> set (ioq s) \<Longrightarrow> B_ERROR \<notin> fl s x \<Longrightarrow> other_step d b s (io_end None x s)"
| o_bflush: "bflush e s = Some s' \<Longrightarrow> other_step d b s s'"
| o_bdflush: "bdflush_loop (Suc (v_buf s)) autoup s = Some s' \<Longrightarrow> other_step d b s s'"

lemma other_step_cur:
  assumes "other_step d b s s'" "bio_good s" "d \<noteq> NODEV"
  shows "bio_good s' \<and> cur s' d b = cur s d b"
  using assms
proof (induction rule: other_step.induct)
  case (o_getblk e s blk z r s')
  from o_getblk.prems(1) obtain R A where i: "bio_inv R A s" by (auto simp: bio_good_def)
  from getblk_spec [OF i o_getblk.hyps(1), of blk z] o_getblk show ?case by (auto simp: bio_good_def keeps_blocks_def)
next
  case (o_geteblk s r s')
  from o_geteblk.prems(1) obtain R A where i: "bio_inv R A s" by (auto simp: bio_good_def)
  from geteblk_loop_inv [OF i av_length [OF bio_invD(2) [OF i]]] o_geteblk
  show ?case by (auto simp: bio_good_def keeps_blocks_def geteblk_def simp del: geteblk_loop.simps)
next
  case (o_bread e s blk z rw s')
  from o_bread.prems(1) obtain R A where i: "bio_inv R A s" by (auto simp: bio_good_def)
  from bread_spec [OF i o_bread.hyps(1), of blk z] o_bread show ?case by (auto simp: bio_good_def keeps_blocks_def)
next
  case (o_breada e s blk ra z rw s')
  from o_breada.prems(1) obtain R A where i: "bio_inv R A s" by (auto simp: bio_good_def)
  from breada_spec [OF i o_breada.hyps(1), of blk ra z] o_breada show ?case by (auto simp: bio_good_def keeps_blocks_def)
next
  case (o_brelse x s)
  from o_brelse.prems(1) obtain R A where i: "bio_inv R A s" by (auto simp: bio_good_def)
  from brelse_keeps(1) [OF i] brelse_inv [OF i] o_brelse show ?case unfolding held_def bio_good_def keeps_blocks_def by blast
next
  case (o_bwrite x s)
  from o_bwrite.prems(1) obtain R A where i: "bio_inv R A s" by (auto simp: bio_good_def)
  from bwrite_writes(1,2) [OF i o_bwrite.hyps(1)] o_bwrite show ?case unfolding bio_good_def writes_block_def by auto
next
  case (o_bdwrite x s)
  from o_bdwrite.prems(1) obtain R A where i: "bio_inv R A s" by (auto simp: bio_good_def)
  from bdwrite_writes(1,2) [OF i o_bdwrite.hyps(1)] o_bdwrite show ?case unfolding bio_good_def writes_block_def by auto
next
  case (o_io_end x s)
  from o_io_end.prems(1) obtain R A where i: "bio_inv R A s" by (auto simp: bio_good_def)
  from io_end_inv [OF i o_io_end.hyps(1)] io_end_keeps [OF i o_io_end.hyps] o_io_end.prems(2)
  show ?case unfolding bio_good_def keeps_blocks_def by blast
next
  case (o_bflush e s s')
  from o_bflush.prems(1) obtain R A where i: "bio_inv R A s" by (auto simp: bio_good_def)
  from bflush_spec [OF i, of e] o_bflush show ?case by (auto simp: bio_good_def keeps_blocks_def)
next
  case (o_bdflush s autoup s')
  from o_bdflush.prems(1) obtain R A where i: "bio_inv R A s" by (auto simp: bio_good_def)
  from bdflush_spec [OF i, of autoup] o_bdflush show ?case
    by (auto simp: bio_good_def keeps_blocks_def simp del: bdflush_loop.simps)
qed

lemma other_steps_cur: "(other_step d b)\<^sup>*\<^sup>* s s' \<Longrightarrow> bio_good s \<Longrightarrow> d \<noteq> NODEV \<Longrightarrow> bio_good s' \<and> cur s' d b = cur s d b"
proof (induction rule: rtranclp_induct)
  case (step t u)
  with other_step_cur [OF step.hyps(2)] show ?case by auto
qed simp

subsection \<open>Reading to the end\<close>

text \<open>The first part of \<open>bread\<close> with the transfer it waits for; \<open>e\<close> is the error the driver reports, if it does.\<close>

definition read_blk :: "int option \<Rightarrow> int \<Rightarrow> int \<Rightarrow> int \<Rightarrow> bst \<Rightarrow> (gres \<times> bst) option" where
  "read_blk e d blk z s =
     (case bread d blk z s of
        Some ((GBuf x, True), s1) \<Rightarrow> map_option (Pair (GBuf x)) (iowait x (io_end e x s1))
      | Some ((r, _), s1) \<Rightarrow> Some (r, s1)
      | None \<Rightarrow> None)"

lemma io_end_read:
  assumes i: "bio_inv R A s" and d: "d \<noteq> NODEV" and x: "x \<in> set (ioq s)" "B_READ \<in> fl s x" "B_ASYNC \<notin> fl s x" "B_ERROR \<notin> fl s x" "is_for s d b x"
    and t_def: "t = io_end e x s"
  shows "bio_inv R A t" "held x t" "B_DONE \<in> fl t x" "clean t x" "e = None \<Longrightarrow> b_data (bh t x) = cur s d b" "B_ERROR \<in> fl t x \<longleftrightarrow> e \<noteq> None"
    "e = None \<Longrightarrow> keeps_blocks s t" "disk t = disk s" "ioq t = remove1 x (ioq s)" "v_buf t = v_buf s" "bdevcnt t = bdevcnt s" "is_for t d b x"
    "u_err t = u_err s"
proof -
  obtain t' where "io_mid e x s t'" "io_end e x s = (if B_ASYNC \<in> fl s x then brelse x t' else t')" using io_end_mid by blast
  then have m: "io_mid e x s t" using x(3) by (simp add: t_def)
  note I = io_mid_inv [OF m i x(1)] and M = io_midD [OF m]
  show "bio_inv R A t" "B_DONE \<in> fl t x" "held x t" using I by (simp_all add: held_def)
  show "B_ERROR \<in> fl t x \<longleftrightarrow> e \<noteq> None" using I(7) x(4) by simp
  then show "clean t x" using I(5) by (auto simp: clean_def)
  have xb: "x \<in> Bufs s" "B_DONE \<notin> fl s x" using io_okD(3,5) [OF bio_invD(5) [OF i]] x(1) by blast+
  have "cur s d b = disk s d b" using cur_own [OF i d xb(1) x(5)] xb(2) x(2) by (simp add: live_def)
  then show "e = None \<Longrightarrow> b_data (bh t x) = cur s d b" using M(15) x(2,5) by (simp add: is_for_def)
  show "e = None \<Longrightarrow> keeps_blocks s t" using io_mid_keeps [of x s t] m i x(1) by simp
  show "disk t = disk s" using M(15) x(2) by simp
  show "ioq t = remove1 x (ioq s)" "v_buf t = v_buf s" "bdevcnt t = bdevcnt s" by (rule M)+
  show "is_for t d b x" using M(14) x(5) by (auto simp: is_for_def M(6,7) split: if_splits)
  show "u_err t = u_err s"
    unfolding t_def io_end_def iodone_def using x(3)
    by (cases e) (auto simp: Let_def fl_off_def fl_on_def bh_bupd bwake_def)
qed

lemma getblk_loop_err: "getblk_loop n d b z s = Some (r, s') \<Longrightarrow> u_err s' = u_err s"
proof (induction n arbitrary: s)
  case (Suc n)
  have nt: "u_err (notavail x s) = u_err s" "B_DELWRI \<in> fl (notavail x s) x \<Longrightarrow> u_err (push_out x (notavail x s)) = u_err s" for x
    by (simp_all add: notavail_def Let_def fl_on_def push_out_def bwrite_def strategy_def fl_off_def bh_bupd)
  have as: "u_err (assign_buf x k d b z t) = u_err t" for x k t
    by (simp add: assign_buf_def b_link_def b_unlink_def Let_def)
  show ?case
  proof (cases "find (is_for s d b) (bucket s (bhash s d b))")
    case None
    with Suc.prems Suc.IH [of "push_out (av_forw (bh s Fre)) (notavail (av_forw (bh s Fre)) s)"] show ?thesis
      by (auto simp: Let_def nt as fl_on_def split: if_splits)
  next
    case (Some x)
    with Suc.prems show ?thesis by (auto simp: nt fl_on_def split: if_splits)
  qed
qed simp

lemma getblk_err: "getblk d blk z s = Some (r, s') \<Longrightarrow> u_err s' = u_err s"
  using getblk_loop_err by (auto simp: getblk_def simp del: getblk_loop.simps split: if_splits)

lemma bread_err: "bread d blk z s = Some ((r, w), s') \<Longrightarrow> u_err s' = u_err s"
  using getblk_err [of d blk z s]
  by (auto simp: bread_def strategy_def split: option.splits prod.splits gres.splits if_splits)

lemma read_blk_spec:
  assumes i: "bio_inv R A s" and d: "bmajor d < bdevcnt s"
  shows "\<exists>r s' R' A' ws. read_blk None d blk z s = Some (r, s') \<and> bio_inv R' A' s' \<and> keeps_blocks s s' \<and> disk s' = disk s \<and>
    v_buf s' = v_buf s \<and> bdevcnt s' = bdevcnt s \<and> ioq s' = ioq s @ ws \<and> set ws \<subseteq> set A \<and> u_err s' = u_err s \<and>
    (case r of
       GBuf x \<Rightarrow> held x s' \<and> clean s' x \<and> B_ERROR \<notin> fl s' x \<and> B_DONE \<in> fl s' x \<and> is_for s' d (ltopblk blk z) x \<and>
         b_data (bh s' x) = cur s d (ltopblk blk z)
     | _ \<Rightarrow> got_blk d (ltopblk blk z) s s' r)"
proof -
  let ?b = "ltopblk blk z"
  have nd: "d \<noteq> NODEV" using d bio_invD(3) [OF i] bmajor_NODEV by (auto simp: cache_ok_def)
  from bread_spec [OF i d, of blk z] obtain r w s1 R1 A1 ws where
    B: "bread d blk z s = Some ((r, w), s1)" "bio_inv R1 A1 s1" "keeps_blocks s s1" "disk s1 = disk s" "v_buf s1 = v_buf s" "bdevcnt s1 = bdevcnt s"
      "set ws \<subseteq> set A" "case r of
       GBuf x \<Rightarrow> is_for s1 d ?b x \<and> B_BUSY \<notin> fl s x \<and>
         (if w then x \<in> Bufs s1 \<and> ioq s1 = ioq s @ ws @ [x] \<and> B_READ \<in> fl s1 x \<and> B_ASYNC \<notin> fl s1 x \<and> B_ERROR \<notin> fl s1 x
          else held x s1 \<and> clean s1 x \<and> B_ERROR \<notin> fl s1 x \<and> ioq s1 = ioq s @ ws \<and> B_DONE \<in> fl s1 x \<and> b_data (bh s1 x) = cur s d ?b)
     | _ \<Rightarrow> \<not> w \<and> ioq s1 = ioq s @ ws \<and> got_blk d ?b s s1 r" by blast
  note E = bread_err [OF B(1)]
  show ?thesis
  proof (cases "\<exists>x. r = GBuf x \<and> w")
    case False
    have "read_blk None d blk z s = Some (r, s1)" using B(1) False by (cases r) (auto simp: read_blk_def)
    with B E False show ?thesis
      by (intro exI [of _ r] exI [of _ s1] exI [of _ R1] exI [of _ A1] exI [of _ ws]) (cases r; simp)
  next
    case True
    then obtain x where r: "r = GBuf x" "w" by blast
    define t where "t = io_end None x s1"
    have q: "x \<in> set (ioq s1)" "B_READ \<in> fl s1 x" "B_ASYNC \<notin> fl s1 x" "B_ERROR \<notin> fl s1 x" "is_for s1 d ?b x"
      "ioq s1 = (ioq s @ ws) @ [x]" using B(8) r by simp_all
    note I = io_end_read [OF B(2) nd q(1-5) t_def]
    have g: "geterror x t = t" using I(6) by (simp add: geterror_def)
    have "x \<notin> set (ioq s @ ws)" using io_okD(1) [OF bio_invD(5) [OF B(2)]] q(6) by simp
    then have io: "ioq t = ioq s @ ws" using I(9) q(6) by (simp add: remove1_append)
    have "cur s1 d ?b = cur s d ?b" using B(3) nd by (simp add: keeps_blocks_def)
    moreover have "read_blk None d blk z s = Some (r, t)" using B(1) r I(3) g by (simp add: read_blk_def iowait_def t_def)
    ultimately show ?thesis
      using r I io keeps_blocks_trans [OF B(3) I(7)] B(4-7) E
      by (intro exI [of _ r] exI [of _ t] exI [of _ R1] exI [of _ A1] exI [of _ ws]) simp
  qed
qed

subsection \<open>The end of several writes\<close>

lemma write_end:
  assumes i: "bio_inv R A s" and x: "x \<in> set (ioq s)" "B_READ \<notin> fl s x" "B_ASYNC \<in> fl s x" "B_ERROR \<notin> fl s x"
    and t_def: "t = io_end None x s"
  shows "bio_good t" "keeps_blocks s t" "ioq t = remove1 x (ioq s)" "v_buf t = v_buf s"
    "disk t = (disk s)(b_dev (bh s x) := (disk s (b_dev (bh s x)))(b_blkno (bh s x) := b_data (bh s x)))"
    "y \<in> Bufs s \<Longrightarrow> y \<noteq> x \<Longrightarrow> pb t y = pb s y" "b_dev (bh t y) = b_dev (bh s y)" "b_blkno (bh t y) = b_blkno (bh s y)" "b_data (bh t x) = b_data (bh s x)"
proof -
  obtain u where "io_mid None x s u" "io_end None x s = (if B_ASYNC \<in> fl s x then brelse x u else u)" using io_end_mid by blast
  then have u: "io_mid None x s u" "t = brelse x u" using x(3) by (simp_all add: t_def)
  note I = io_mid_inv [OF u(1) i x(1)] and M = io_midD [OF u(1)]
  have cl: "clean u x" "B_ERROR \<notin> fl u x" using I(5,7) x(4) by auto
  note B = brelse_keeps [OF I(1-4) cl, folded u(2)] and r = rest_eq [OF brelse_keeps(4) [OF I(1-4) cl], folded u(2)]
  show "bio_good t" unfolding bio_good_def u(2) using brelse_inv [OF I(1-4) cl(1)] by blast
  show "keeps_blocks s t" by (rule keeps_blocks_trans [OF io_mid_keeps [OF u(1) i x(1)] B(1)])
  show "ioq t = remove1 x (ioq s)" "v_buf t = v_buf s" using r M by simp_all
  show "disk t = (disk s)(b_dev (bh s x) := (disk s (b_dev (bh s x)))(b_blkno (bh s x) := b_data (bh s x)))"
    using r M(15) x(2) by simp
  show "b_dev (bh t y) = b_dev (bh s y)" "b_blkno (bh t y) = b_blkno (bh s y)" "b_data (bh t x) = b_data (bh s x)" for y
    using B(5-7) M(6,7,15) x(2) by simp_all
  show "pb t y = pb s y" if "y \<in> Bufs s" "y \<noteq> x" for y
  proof -
    have "y \<in> Bufs u" using that(1) M(9) by (simp add: Bufs_def)
    then have "pb t y = pb u y" using B(2) that(2) unfolding changed_def by blast
    then show ?thesis using M(8) [OF that(2)] by (simp add: pb_def)
  qed
qed

definition ends :: "bref list \<Rightarrow> bst \<Rightarrow> bst" where "ends xs s = fold (io_end None) xs s"

lemma ends_disk:
  "bio_good s \<Longrightarrow> distinct xs \<Longrightarrow> (\<And>x. x \<in> set xs \<Longrightarrow> x \<in> set (ioq s) \<and> B_READ \<notin> fl s x \<and> B_ASYNC \<in> fl s x \<and> B_ERROR \<notin> fl s x) \<Longrightarrow>
   bio_good (ends xs s) \<and> keeps_blocks s (ends xs s) \<and>
   (\<forall>d b. (\<forall>x\<in>set xs. b_dev (bh s x) \<noteq> d \<or> b_blkno (bh s x) \<noteq> b) \<longrightarrow> disk (ends xs s) d b = disk s d b) \<and>
   (\<forall>x\<in>set xs. b_dev (bh s x) \<noteq> NODEV \<longrightarrow> disk (ends xs s) (b_dev (bh s x)) (b_blkno (bh s x)) = b_data (bh s x))"
proof (induction xs arbitrary: s)
  case (Cons x xs)
  from Cons.prems(1) obtain R A where i: "bio_inv R A s" by (auto simp: bio_good_def)
  have X: "x \<in> set (ioq s)" "B_READ \<notin> fl s x" "B_ASYNC \<in> fl s x" "B_ERROR \<notin> fl s x" using Cons.prems(3) [of x] by simp_all
  define t where "t = io_end None x s"
  note W = write_end [OF i X t_def]
  note O = io_okD [OF bio_invD(5) [OF i]]
  have e: "ends (x # xs) s = ends xs t" by (simp add: ends_def t_def)
  have same: "y \<in> Bufs s" "y \<noteq> x" "fl t y = fl s y" "b_data (bh t y) = b_data (bh s y)" if "y \<in> set xs" for y
  proof -
    show y: "y \<in> Bufs s" "y \<noteq> x" using O(3) [of y] Cons.prems(2) Cons.prems(3) [of y] that by auto
    from pb_same [OF W(6) [OF this]] show "fl t y = fl s y" "b_data (bh t y) = b_data (bh s y)" by simp_all
  qed
  have "y \<in> set (ioq t) \<and> B_READ \<notin> fl t y \<and> B_ASYNC \<in> fl t y \<and> B_ERROR \<notin> fl t y" if "y \<in> set xs" for y
    using Cons.prems(3) [of y] same [OF that] that W(3) by simp
  from Cons.IH [OF W(1) _ this] Cons.prems(2) have IH: "bio_good (ends xs t)" "keeps_blocks t (ends xs t)"
    "\<And>d b. (\<forall>y\<in>set xs. b_dev (bh t y) \<noteq> d \<or> b_blkno (bh t y) \<noteq> b) \<Longrightarrow> disk (ends xs t) d b = disk t d b"
    "\<And>y. y \<in> set xs \<Longrightarrow> b_dev (bh t y) \<noteq> NODEV \<Longrightarrow> disk (ends xs t) (b_dev (bh t y)) (b_blkno (bh t y)) = b_data (bh t y)" by simp_all
  have ne: "b_dev (bh s y) \<noteq> b_dev (bh s x) \<or> b_blkno (bh s y) \<noteq> b_blkno (bh s x)" if "y \<in> set xs" "b_dev (bh s x) \<noteq> NODEV" for y
  proof -
    have "y \<in> set (ioq s)" using Cons.prems(3) [of y] that(1) by simp
    then have "B_STALE \<notin> fl s y" "B_STALE \<notin> fl s x" "y \<in> Bufs s" "x \<in> Bufs s" using O(3,4,6) X(1) by blast+
    with bio_invD(4) [OF i] same(2) [OF that(1)] that(2) show ?thesis unfolding one_each_def by metis
  qed
  have "disk (ends xs t) (b_dev (bh s x)) (b_blkno (bh s x)) = b_data (bh s x)" if "b_dev (bh s x) \<noteq> NODEV"
  proof -
    have "disk (ends xs t) (b_dev (bh s x)) (b_blkno (bh s x)) = disk t (b_dev (bh s x)) (b_blkno (bh s x))"
      using ne that by (intro IH(3)) (simp add: W(7,8))
    then show ?thesis by (simp add: W(5))
  qed
  moreover have "disk (ends xs t) (b_dev (bh s y)) (b_blkno (bh s y)) = b_data (bh s y)" if "y \<in> set xs" "b_dev (bh s y) \<noteq> NODEV" for y
    using IH(4) [OF that(1)] that(2) same(4) [OF that(1)] by (simp add: W(7,8))
  moreover have "disk (ends xs t) d b = disk s d b" if "\<forall>y\<in>set (x # xs). b_dev (bh s y) \<noteq> d \<or> b_blkno (bh s y) \<noteq> b" for d b
  proof -
    have "disk (ends xs t) d b = disk t d b" using that by (intro IH(3)) (simp add: W(7,8))
    with that show ?thesis by (auto simp: W(5))
  qed
  ultimately show ?case unfolding e using IH(1) keeps_blocks_trans [OF W(2) IH(2)] by auto
qed (simp add: ends_def keeps_blocks_def)

subsection \<open>Properties\<close>

lemma bio_steps_good: "bio_step\<^sup>*\<^sup>* s s' \<Longrightarrow> bio_good s \<Longrightarrow> bio_good s'"
proof (induction rule: rtranclp_induct)
  case (step t u)
  then obtain R A where "bio_inv R A t" by (auto simp: bio_good_def)
  with bio_step_good [OF step.hyps(2)] show ?case .
qed

definition boot_ex :: bst where
  "boot_ex = \<lparr>bh = (\<lambda>_. \<lparr>b_flags = {}, b_forw = Fre, b_back = Fre, av_forw = Fre, av_back = Fre, b_dev = 0, b_bcount = 0, b_data = [],
     b_blkno = 0, b_error = 0, b_resid = 0, b_start = 0\<rparr>), v_buf = 2, v_hbuf = 1, bdevcnt = 8, basyncnt = 0, basynwait = False,
     lbolt = 0, u_err = 0, ioq = [], disk = (\<lambda>_ b. [b]), bwoken = [],
     v_pbuf = 1, pfreecnt = 0, pfreelist = None, pav = (\<lambda>_. None)\<rparr>"

lemma boot_ex_good: "boot boot_ex" "bio_good (binit boot_ex)"
proof -
  show b: "boot boot_ex" by (simp add: boot_def boot_ex_def)
  show "bio_good (binit boot_ex)" using binit_inv [OF b] by (simp add: bio_good_def)
qed

lemma binit_rest:
  assumes "boot s"
  shows "rest (binit s) = rest s"
proof -
  let ?s1 = "bupd Fre (\<lambda>b. b\<lparr>b_forw := Fre, b_back := Fre, av_forw := Fre, av_back := Fre\<rparr>) s"
  let ?s2 = "pool_init (fold binit_buf [0..<v_buf s] ?s1)"
  have s: "binit s = fold (\<lambda>i. bupd (Hsh i) (\<lambda>b. b\<lparr>b_forw := Hsh i, b_back := Hsh i\<rparr>)) [0..<v_hbuf ?s2] ?s2"
    by (simp add: binit_def Let_def)
  have "binit_ok 0 ?s1" using assms by (simp add: binit_ok_def bh_bupd boot_def)
  from binit_bufs_ok [OF this, of "v_buf s"] have "rest ?s2 = rest s" by simp
  with binit_heads [of "v_hbuf ?s2" ?s2] show ?thesis unfolding s by simp
qed

lemma boot_ex_rest: "bdevcnt (binit boot_ex) = 8" "disk (binit boot_ex) d b = [b]" "v_buf (binit boot_ex) = 2" "ioq (binit boot_ex) = []"
  using rest_eq [OF binit_rest [OF boot_ex_good(1)]] by (simp_all add: boot_ex_def)



text \<open>C8: \<open>getblk\<close> returns.  Its buffer is busy and the caller's alone, and holds the block asked for: either up to date with the
  block's contents or free to be filled.  It sleeps only if the block's buffer is busy or none is available.  No block changes by it:
  the delayed writes it meets are on their way to the disk.\<close>

theorem getblk_gets:
  assumes "bio_good s" "bmajor d < bdevcnt s"
  shows "\<exists>r s' ws. getblk d blk z s = Some (r, s') \<and> bio_good s' \<and> (\<forall>e b. e \<noteq> NODEV \<longrightarrow> cur s' e b = cur s e b) \<and>
    disk s' = disk s \<and> ioq s' = ioq s @ ws \<and>
    (case r of
       GBuf x \<Rightarrow> x \<in> Bufs s \<and> B_BUSY \<notin> fl s x \<and> B_BUSY \<in> fl s' x \<and> x \<notin> set (ioq s') \<and>
         b_dev (bh s' x) = d \<and> b_blkno (bh s' x) = ltopblk blk z \<and> (B_DONE \<in> fl s' x \<longrightarrow> b_data (bh s' x) = cur s d (ltopblk blk z))
     | GSleep (OnBuf x) \<Rightarrow> x = Fre \<and> avail s' = [] \<or>
         x \<in> Bufs s \<and> b_dev (bh s x) = d \<and> b_blkno (bh s x) = ltopblk blk z \<and> B_BUSY \<in> fl s x
     | _ \<Rightarrow> False)"
proof -
  from assms(1) obtain R A where i: "bio_inv R A s" by (auto simp: bio_good_def)
  from getblk_spec [OF i assms(2), of blk z] obtain r s' R' A' ws where
    G: "getblk d blk z s = Some (r, s')" "bio_inv R' A' s'" "keeps_blocks s s'" "got_blk d (ltopblk blk z) s s' r" "disk s' = disk s"
      "ioq s' = ioq s @ ws" by blast
  have "bio_good s'" using G(2) by (auto simp: bio_good_def)
  with G show ?thesis unfolding keeps_blocks_def got_blk_def is_for_def
    by (intro exI [of _ r] exI [of _ s'] exI [of _ ws]) (auto split: gres.splits bchan.splits if_splits)
qed

theorem getblk_gets_witness:
  "\<exists>r s'. getblk 0 5 1024 (binit boot_ex) = Some (r, s') \<and> bio_good s' \<and> disk s' 0 10 = [10]"
proof -
  have "bmajor 0 < bdevcnt (binit boot_ex)" "disk (binit boot_ex) 0 10 = [10]" by (simp_all add: bmajor_def boot_ex_rest)
  with getblk_gets [OF boot_ex_good(2), of 0 5 1024] show ?thesis by auto
qed


text \<open>A buffer that \<open>getblk\<close> gave for block 10 of device 0 and that was filled with 7.\<close>

definition held_ex :: bst where
  "held_ex = bupd (Buf 0) (\<lambda>b. b\<lparr>b_data := [7]\<rparr>) (snd (the (getblk 0 5 1024 (binit boot_ex))))"

lemma held_ex: "bio_good held_ex" "held (Buf 0) held_ex" "B_ERROR \<notin> fl held_ex (Buf 0)" "b_dev (bh held_ex (Buf 0)) = 0"
  "b_blkno (bh held_ex (Buf 0)) = ltopblk 5 1024" "b_data (bh held_ex (Buf 0)) = [7]"
proof -
  let ?g = "snd (the (getblk 0 5 1024 (binit boot_ex)))"
  have m: "bmajor 0 < bdevcnt (binit boot_ex)" by (simp add: bmajor_def boot_ex_rest)
  have h: "held (Buf 0) ?g" unfolding held_def Bufs_def by code_simp
  have "map_option fst (getblk 0 5 1024 (binit boot_ex)) = Some (GBuf (Buf 0))" by code_simp
  then have "getblk 0 5 1024 (binit boot_ex) = Some (GBuf (Buf 0), ?g)" by auto
  from ev_getblk [OF m this] have "bio_step\<^sup>*\<^sup>* (binit boot_ex) ?g" ..
  from rtranclp.rtrancl_into_rtrancl [OF this ev_change [OF h]]
  show "bio_good held_ex" unfolding held_ex_def using bio_steps_good boot_ex_good(2) by blast
  show "held (Buf 0) held_ex" using h by (simp add: held_ex_def held_def Bufs_def bh_bupd)
  show "B_ERROR \<notin> fl held_ex (Buf 0)" "b_dev (bh held_ex (Buf 0)) = 0" "b_blkno (bh held_ex (Buf 0)) = ltopblk 5 1024"
    "b_data (bh held_ex (Buf 0)) = [7]" by code_simp+
qed


text \<open>C9: \<open>bflush\<close> returns, whatever it does to the list it walks, and has started a write for every available buffer of the device
  with a delayed write and for no other; none is left, and when these transfers end without error the disk holds their data.\<close>

theorem bflush_flushes:
  assumes "bio_good s"
  shows "\<exists>s' ws. bflush d s = Some s' \<and> bio_good s' \<and> distinct ws \<and> ioq s' = ioq s @ ws \<and>
    set ws = {x \<in> set (avail s). B_DELWRI \<in> fl s x \<and> (d = NODEV \<or> d = b_dev (bh s x))} \<and>
    (\<forall>x\<in>set (avail s'). B_DELWRI \<notin> fl s' x \<or> d \<noteq> NODEV \<and> d \<noteq> b_dev (bh s' x)) \<and>
    (\<forall>x\<in>set ws. b_dev (bh s x) \<noteq> NODEV \<longrightarrow> disk (ends ws s') (b_dev (bh s x)) (b_blkno (bh s x)) = b_data (bh s x))"
proof -
  from assms obtain R A where i: "bio_inv R A s" by (auto simp: bio_good_def)
  have A: "avail s = A" by (rule avail_list [OF bio_invD(2) [OF i]])
  from bflush_spec [OF i, of d] obtain s' A' ws where
    F: "bflush d s = Some s'" "bio_inv R A' s'" "ioq s' = ioq s @ ws"
      "set ws = {x \<in> set A. B_DELWRI \<in> fl s x \<and> (d = NODEV \<or> d = b_dev (bh s x))}" "set A' = set A - set ws" "\<And>y. core s' y = core s y"
      "\<And>y. y \<notin> set ws \<Longrightarrow> fl s' y = fl s y" "\<And>x. x \<in> set ws \<Longrightarrow> B_ASYNC \<in> fl s' x \<and> B_READ \<notin> fl s' x \<and> B_ERROR \<notin> fl s' x" by blast
  have A': "avail s' = A'" by (rule avail_list [OF bio_invD(2) [OF F(2)]])
  have g: "bio_good s'" using F(2) by (auto simp: bio_good_def)
  have d: "distinct ws" using io_okD(1) [OF bio_invD(5) [OF F(2)]] F(3) by simp
  have c: "b_dev (bh s' y) = b_dev (bh s y) \<and> b_blkno (bh s' y) = b_blkno (bh s y) \<and> b_data (bh s' y) = b_data (bh s y)" for y
    by (rule core_eq [OF F(6)])
  have "\<forall>x\<in>set (avail s'). B_DELWRI \<notin> fl s' x \<or> d \<noteq> NODEV \<and> d \<noteq> b_dev (bh s' x)"
    unfolding A' F(5) using F(4,7) c by auto
  moreover have "\<forall>x\<in>set ws. b_dev (bh s x) \<noteq> NODEV \<longrightarrow> disk (ends ws s') (b_dev (bh s x)) (b_blkno (bh s x)) = b_data (bh s x)"
    using ends_disk [OF g d] F(3,8) c by simp
  ultimately show ?thesis using F(1,3,4) g d unfolding A by blast
qed

theorem bflush_flushes_witness:
  "\<exists>s. bflush 0 (bdwrite (Buf 0) held_ex) = Some s \<and> ioq s = [Buf 0] \<and> disk s 0 10 = [10] \<and> disk (ends [Buf 0] s) 0 10 = [7]"
proof -
  let ?s0 = "bdwrite (Buf 0) held_ex"
  obtain R A where "bio_inv R A held_ex" using held_ex(1) by (auto simp: bio_good_def)
  from bdwrite_writes(1) [OF this held_ex(2)] have g: "bio_good ?s0" by (auto simp: bio_good_def)
  have c: "map_option ioq (bflush 0 ?s0) = Some [Buf 0]" "ioq ?s0 = []" "b_dev (bh ?s0 (Buf 0)) = 0" "b_blkno (bh ?s0 (Buf 0)) = 10"
    "b_data (bh ?s0 (Buf 0)) = [7]" "(0::int) \<noteq> NODEV" "map_option (\<lambda>s. disk s 0 10) (bflush 0 ?s0) = Some [10]" by code_simp+
  from bflush_flushes [OF g, of 0] obtain s ws where
    F: "bflush 0 ?s0 = Some s" "ioq s = ioq ?s0 @ ws"
      "\<forall>x\<in>set ws. b_dev (bh ?s0 x) \<noteq> NODEV \<longrightarrow> disk (ends ws s) (b_dev (bh ?s0 x)) (b_blkno (bh ?s0 x)) = b_data (bh ?s0 x)" by blast
  have "ws = [Buf 0]" using F(1,2) c(1,2) by simp
  with F c show ?thesis by simp
qed

end
