(* ===== verification/Bclient.thy ===== *)
theory Bclient imports Bsys begin

text \<open>
  What the file system relies on when it uses the buffer cache: filling a buffer it holds, writing it through to the disk, and
  throwing a block away change no other block.
\<close>

definition keeps_but :: "int \<Rightarrow> int \<Rightarrow> bst \<Rightarrow> bst \<Rightarrow> bool" where
  "keeps_but d b s s' \<longleftrightarrow> (\<forall>e c. e \<noteq> NODEV \<longrightarrow> \<not> (e = d \<and> c = b) \<longrightarrow> cur s' e c = cur s e c)"

lemma keeps_but_trans: "keeps_but d b s t \<Longrightarrow> keeps_but d b t u \<Longrightarrow> keeps_but d b s u"
  by (simp add: keeps_but_def)

lemma keeps_blocks_but: "keeps_blocks s t \<Longrightarrow> keeps_but d b s t"
  by (simp add: keeps_but_def keeps_blocks_def)

lemma writes_block_but: "writes_block x s t \<Longrightarrow> keeps_but (b_dev (bh s x)) (b_blkno (bh s x)) s t"
  by (auto simp: keeps_but_def writes_block_def)

subsection \<open>Filling a held buffer\<close>

lemma fill_held:
  assumes i: "bio_inv R A s" and x: "held x s"
    and f: "\<And>b. b_forw (f b) = b_forw b \<and> b_back (f b) = b_back b \<and> av_forw (f b) = av_forw b \<and> av_back (f b) = av_back b \<and>
      b_dev (f b) = b_dev b \<and> b_blkno (f b) = b_blkno b \<and> b_flags (f b) = b_flags b"
  shows "bio_inv R A (bupd x f s)" "held x (bupd x f s)" "keeps_but (b_dev (bh s x)) (b_blkno (bh s x)) s (bupd x f s)"
proof -
  have xb: "x \<in> Bufs s" "B_BUSY \<in> fl s x" using x by (auto simp: held_def)
  have f': "b_forw (f b) = b_forw b \<and> b_back (f b) = b_back b \<and> av_forw (f b) = av_forw b \<and> av_back (f b) = av_back b \<and>
      b_dev (f b) = b_dev b \<and> b_blkno (f b) = b_blkno b" for b using f [of b] by blast
  note U = bupd_inv [OF i x f']
  have fl: "b_flags (f (bh s x)) = fl s x" using f by blast
  show i': "bio_inv R A (bupd x f s)" and "held x (bupd x f s)"
    using U(1,2) xb held_not_stale [OF i x] io_okD(8) [OF bio_invD(5) [OF i] xb(1)] unfolding fl by blast+
  have ch: "changed x s (bupd x f s)" using U(3) xb held_not_stale [OF i x] io_okD(8) [OF bio_invD(5) [OF i] xb(1)] unfolding fl by blast
  show "keeps_but (b_dev (bh s x)) (b_blkno (bh s x)) s (bupd x f s)"
    unfolding keeps_but_def
  proof (intro allI impI)
    fix d b assume d: "d \<noteq> NODEV" and n: "\<not> (d = b_dev (bh s x) \<and> b = b_blkno (bh s x))"
    have "\<not> is_for s d b x" "\<not> is_for (bupd x f s) d b x" using n f by (auto simp: is_for_def bh_bupd)
    then show "cur (bupd x f s) d b = cur s d b" by (intro cur_change [OF i i' ch d]) simp_all
  qed
qed

subsection \<open>Writing it through\<close>

lemma write_through:
  assumes i: "bio_inv R A s" and x: "held x s" "B_ASYNC \<notin> fl s x" and t_def: "t = io_end None x (bwrite x s)"
  shows "\<exists>u. bwrite_end x t = Some u \<and> bio_good u \<and> writes_block x s u \<and> v_buf u = v_buf s \<and> bdevcnt u = bdevcnt s \<and> u_err u = u_err s"
proof -
  let ?w = "bwrite x s"
  have xb: "x \<in> Bufs s" "B_BUSY \<in> fl s x" "x \<notin> set (ioq s)" using x by (auto simp: held_def)
  have iw: "bio_inv R A ?w" by (rule bwrite_inv [OF i xb])
  note W = bwrite_sel [of x s]
  have q: "x \<in> set (ioq ?w)" and f: "B_ASYNC \<notin> fl ?w x" "B_ERROR \<notin> fl ?w x" using x(2) by (auto simp: W)
  obtain t' where "io_mid None x ?w t'" "io_end None x ?w = (if B_ASYNC \<in> fl ?w x then brelse x t' else t')" using io_end_mid by blast
  then have m: "io_mid None x ?w t" using f by (simp add: t_def)
  note I = io_mid_inv [OF m iw q] and M = io_midD [OF m]
  have e: "B_ERROR \<notin> fl t x" and cl: "clean t x" using I(5,7) f(2) by auto
  note K = brelse_keeps [OF I(1-4) cl e] and B = brelse_inv [OF I(1-4) cl]
  have "bwrite_end x t = Some (brelse x t)" using I(6) e by (simp add: bwrite_end_def iowait_def geterror_def)
  moreover have "bio_good (brelse x t)" using B by (auto simp: bio_good_def)
  moreover have "writes_block x s (brelse x t)"
    using bwrite_writes(2) [OF i x(1)] io_mid_keeps [OF m iw q] K(1) by (simp add: writes_block_def keeps_blocks_def)
  moreover have "v_buf (brelse x t) = v_buf s" "bdevcnt (brelse x t) = bdevcnt s" using rest_eq [OF K(4)] M by (simp_all add: W)
  moreover have "u_err (brelse x t) = u_err s"
  proof -
    have "u_err t = u_err ?w" unfolding t_def io_end_def iodone_def using f(1)
      by (auto simp: Let_def fl_off_def fl_on_def bh_bupd bwake_def)
    moreover have "u_err ?w = u_err s" using x(2) by (simp add: bwrite_def Let_def strategy_def fl_off_def)
    moreover have "u_err (brelse x t) = u_err t"
      by (simp add: brelse_def brelse_wake_def bwake_def Let_def av_first_def av_last_def fl_off_def)
    ultimately show ?thesis by simp
  qed
  ultimately show ?thesis by blast
qed

subsection \<open>Throwing a block away\<close>

text \<open>\<open>s5free\<close> makes the buffer of a freed block the first to be reused; this is its part inside \<open>spl6\<close>.\<close>

definition s5_drop :: "bref \<Rightarrow> bst \<Rightarrow> bst" where
  "s5_drop x s =
     (let s1 = fl_off {B_DELWRI} x (fl_on {B_STALE} x s);
          s2 = bupd (av_back (bh s1 x)) (\<lambda>b. b\<lparr>av_forw := av_forw (bh s1 x)\<rparr>) s1;
          s3 = bupd (av_forw (bh s2 x)) (\<lambda>b. b\<lparr>av_back := av_back (bh s2 x)\<rparr>) s2
      in av_first x s3)"

lemma s5_drop_inv:
  assumes i: "bio_inv R (us @ x # vs) s"
  shows "bio_inv R (x # us @ vs) (s5_drop x s)" "keeps_but (b_dev (bh s x)) (b_blkno (bh s x)) s (s5_drop x s)"
    "rest (s5_drop x s) = rest s" "u_err (s5_drop x s) = u_err s"
proof -
  note D = bio_invD [OF i] and O = io_okD [OF bio_invD(5) [OF i]] and p = av_list_parts [OF bio_invD(2) [OF i]]
  have xb: "x \<in> Bufs s" "B_BUSY \<notin> fl s x" using av_listD [OF D(2), of x] by simp_all
  have xF: "x \<noteq> Fre" using xb(1) by auto
  have xq: "x \<notin> set (ioq s)" using O(4) xb(2) by blast
  have ns: "afs s x \<noteq> x" "abs' s x \<noteq> x" using ring_not_self [OF p(1), of x] by simp_all
  define s1 where "s1 = fl_off {B_DELWRI} x (fl_on {B_STALE} x s)"
  define s2 where "s2 = bupd (av_back (bh s1 x)) (\<lambda>b. b\<lparr>av_forw := av_forw (bh s1 x)\<rparr>) s1"
  define s3 where "s3 = bupd (av_forw (bh s2 x)) (\<lambda>b. b\<lparr>av_back := av_back (bh s2 x)\<rparr>) s2"
  let ?s = "s5_drop x s"
  have e: "?s = av_first x s3" by (simp add: s5_drop_def Let_def s1_def s2_def s3_def)
  have a: "afs s3 y = (if y = abs' s x then afs s x else afs s y)" "abs' s3 y = (if y = afs s x then abs' s x else abs' s y)"
    "bfs s3 y = bfs s y" "bbs s3 y = bbs s y" "fl s3 y = (if y = x then insert B_STALE (fl s x) - {B_DELWRI} else fl s y)"
    "b_bcount (bh s3 y) = b_bcount (bh s y)" "core s3 y = core s y" "rest s3 = rest s" "u_err s3 = u_err s" for y
    using ns by (auto simp: s3_def s2_def s1_def fl_off_def fl_on_def bh_bupd core_def)
  have r3: "ring (afs s3) (abs' s3) Fre (us @ vs)" by (rule ring_remove [OF p(1)]) (simp_all add: a)
  have d: "distinct (us @ x # vs)" using ring_distinct [OF p(1)] by blast
  have n3: "afs s3 Fre \<noteq> x" using ring_in [OF r3, of Fre] d xF by auto
  note F = av_first_sel [OF xF n3, folded e]
  show rs: "rest ?s = rest s" using F(8) a(8) by simp
  show "u_err ?s = u_err s" using F(9) a(9) by simp
  note Rs = rest_eq [OF rs]
  have fx: "fl ?s x = insert B_STALE (fl s x) - {B_DELWRI}" using F(5) a(5) by simp
  have fo: "fl ?s y = fl s y" if "y \<noteq> x" for y using F(5) a(5) that by simp
  have bz: "B_BUSY \<in> fl ?s y \<longleftrightarrow> B_BUSY \<in> fl s y" for y using fx fo by (cases "y = x") auto
  have co: "core ?s y = core s y" for y using F(7) a(7) by simp
  have ch: "changed x s ?s" by (rule changedI [OF xb(1) rs]) (use co fo in \<open>simp add: pb_def core_def\<close>)
  note c = changedD [OF ch] and db = core_eq [OF co]
  have "ring (afs ?s) (abs' ?s) Fre ([] @ x # (us @ vs))"
    by (rule ring_insert [of "afs s3" "abs' s3"]) (use r3 d xF ring_first [OF r3] in \<open>auto simp: F(1,2)\<close>)
  moreover have "set (x # us @ vs) = {y \<in> Bufs ?s. B_BUSY \<notin> fl ?s y}"
    using p(2) by (auto simp: c(6) bz)
  moreover have "b_bcount (bh ?s Fre) = int (length (x # us @ vs))" using F(6) a(6) p(3) by simp
  ultimately have "av_list (x # us @ vs) ?s" by (simp add: av_list_def)
  moreover have "hash_lists R ?s" by (rule hash_lists_cong [OF D(1) _ _ rs]) (simp_all add: F(3,4) a(3,4) fun_eq_iff)
  moreover have "cache_ok R ?s" by (rule cache_ok_changed [OF D(3) ch]) (simp_all add: db)
  moreover have "one_each ?s" by (rule one_each_changed [OF D(4) ch]) (simp add: fx)
  moreover have "io_ok ?s"
  proof (rule io_ok_changed [OF D(5) ch])
    have "fl ?s y = fl s y" if "y \<in> set (ioq s)" for y using that xq fo [of y] by metis
    then have "async_writes ?s = async_writes s" using Rs by (intro async_writes_cong) simp_all
    then show "basyncnt ?s = int (length (async_writes ?s))" using O(2) Rs by simp
  qed (use O(1) O(9) [OF xb] Rs xq xb fx in auto)
  moreover have "coherent ?s" by (rule coherent_changed [OF D(6) ch]) (use Rs in \<open>simp_all add: settled_def fx\<close>)
  ultimately show i': "bio_inv R (x # us @ vs) ?s" unfolding bio_inv_def by blast
  show "keeps_but (b_dev (bh s x)) (b_blkno (bh s x)) s ?s"
    unfolding keeps_but_def
  proof (intro allI impI)
    fix d b assume d: "d \<noteq> NODEV" and n: "\<not> (d = b_dev (bh s x) \<and> b = b_blkno (bh s x))"
    have "\<not> is_for s d b x" "\<not> is_for ?s d b x" using n by (auto simp: is_for_def fx)
    then show "cur ?s d b = cur s d b" by (intro cur_change [OF i i' ch d]) (use Rs in simp_all)
  qed
qed

end
