(* ===== verification/S5alloc.thy ===== *)
theory S5alloc imports Bclient begin

text \<open>
  The free block list of the System V file system (fs/s5/s5alloc.c).  The super block holds up to \<open>NICFREE\<close> free block numbers;
  the first of them is a block that holds more of them, and so on, as in a chain.  The blocks are read and written
  through the buffer cache, whose model this theory builds on.

  A process sleeps in \<open>bread\<close> and \<open>getblk\<close> when the cache has no buffer for it, and on \<open>s_flock\<close> while another one
  works on the chain.  The result of an operation says where it sleeps and the functions below it go on from there.
\<close>

record filsys =
  s_isize :: int
  s_fsize :: int
  s_nfree :: int
  s_free :: "int list"
  s_flock :: int
  s_fmod :: int
  s_tfree :: int

record mount =
  m_dev :: int
  m_bsize :: int

record s5st =
  sfs :: filsys
  sbc :: bst
  fwoken :: nat

abbreviation NICFREE :: nat where "NICFREE \<equiv> 50"
abbreviation ENOSPC :: int where "ENOSPC \<equiv> 28"

definition FsBSIZE :: "int \<Rightarrow> int" where "FsBSIZE b = (if b < 1024 then b else 1024)"

text \<open>The block number given to the cache: where the chain is read and written, and elsewhere.\<close>

definition link_blk :: "mount \<Rightarrow> int \<Rightarrow> int" where
  "link_blk m b = (if m_bsize m > 1024 then c_int (b * (m_bsize m div 1024)) else b)"

definition data_blk :: "mount \<Rightarrow> int \<Rightarrow> int" where "data_blk m b = c_int (b * (m_bsize m div 1024))"

text \<open>The structure \<open>fblk\<close> in the words of a block.\<close>

definition df_nfree :: "int list \<Rightarrow> int" where "df_nfree t = (case t of [] \<Rightarrow> 0 | n # _ \<Rightarrow> n)"

definition df_free :: "int list \<Rightarrow> int list" where "df_free t = take NICFREE (tl t)"

definition fblk_put :: "int \<Rightarrow> int list \<Rightarrow> int list \<Rightarrow> int list" where
  "fblk_put n fr t = (n # take NICFREE fr) @ drop (Suc NICFREE) t"

definition s5badblock :: "filsys \<Rightarrow> int \<Rightarrow> bool" where
  "s5badblock fp b \<longleftrightarrow> b < s_isize fp \<or> s_fsize fp \<le> b"

subsection \<open>Taking a block\<close>

datatype pick = Picked int | NoBlock | BadIndex

text \<open>The loop that takes a number off the list and drops those outside the volume; a count that is too large reads
  past the array.\<close>

function s5_pick :: "filsys \<Rightarrow> pick \<times> filsys" where
  "s5_pick fp =
     (if s_nfree fp \<le> 0 then (NoBlock, fp)
      else (let n = nat (s_nfree fp - 1); fp1 = fp\<lparr>s_nfree := s_nfree fp - 1\<rparr>
            in if length (s_free fp) \<le> n then (BadIndex, fp1)
               else if s_free fp ! n = 0 then (NoBlock, fp1)
               else if s5badblock fp1 (s_free fp ! n) then s5_pick fp1
               else (Picked (s_free fp ! n), fp1)))"
  by pat_completeness auto
termination by (relation "measure (\<lambda>fp. nat (s_nfree fp))") auto

declare s5_pick.simps [simp del]

datatype ares = ABuf bref | ANull | AFlock | AInBread int | AInGetblk int | AFault

definition s5_nospace :: "s5st \<Rightarrow> s5st" where
  "s5_nospace s = s\<lparr>sfs := (sfs s)\<lparr>s_nfree := 0, s_tfree := 0\<rparr>, sbc := (sbc s)\<lparr>u_err := ENOSPC\<rparr>\<rparr>"

text \<open>The last part, from \<open>getblk\<close> on.\<close>

definition s5alloc_get :: "mount \<Rightarrow> int \<Rightarrow> s5st \<Rightarrow> (ares \<times> s5st) option" where
  "s5alloc_get m b s =
     (case getblk (m_dev m) (data_blk m b) (FsBSIZE (m_bsize m)) (sbc s) of
        None \<Rightarrow> None
      | Some (GBuf x, c) \<Rightarrow>
          Some (ABuf x, s\<lparr>sbc := clrbuf x c,
            sfs := (sfs s)\<lparr>s_tfree := (if s_tfree (sfs s) \<noteq> 0 then c_int (s_tfree (sfs s) - 1) else 0), s_fmod := 1\<rparr>\<rparr>)
      | Some (GSleep _, c) \<Rightarrow> Some (AInGetblk b, s\<lparr>sbc := c\<rparr>)
      | Some (GPanic, c) \<Rightarrow> Some (AFault, s\<lparr>sbc := c\<rparr>))"

definition s5alloc_end :: "mount \<Rightarrow> int \<Rightarrow> s5st \<Rightarrow> (ares \<times> s5st) option" where
  "s5alloc_end m b s =
     (if s_nfree (sfs s) \<le> 0 \<or> int NICFREE < s_nfree (sfs s) then Some (ANull, s5_nospace s) else s5alloc_get m b s)"

text \<open>Reading the next part of the chain, with \<open>s_flock\<close> held; \<open>e\<close> is the error of the transfer, if there is one.\<close>

definition s5alloc_fill :: "int option \<Rightarrow> mount \<Rightarrow> int \<Rightarrow> s5st \<Rightarrow> (ares \<times> s5st) option" where
  "s5alloc_fill e m b s =
     (case read_blk e (m_dev m) (link_blk m b) (FsBSIZE (m_bsize m)) (sbc s) of
        None \<Rightarrow> None
      | Some (GBuf x, c) \<Rightarrow>
          (let t = b_data (bh c x);
               fp = (if u_err c = 0 then (sfs s)\<lparr>s_nfree := c_short (df_nfree t), s_free := df_free t\<rparr> else sfs s)
           in s5alloc_end m b (s\<lparr>sfs := fp\<lparr>s_flock := 0\<rparr>, sbc := brelse x c, fwoken := Suc (fwoken s)\<rparr>))
      | Some (GSleep _, c) \<Rightarrow> Some (AInBread b, s\<lparr>sbc := c\<rparr>)
      | Some (GPanic, c) \<Rightarrow> Some (AFault, s\<lparr>sbc := c\<rparr>))"

definition s5alloc :: "int option \<Rightarrow> mount \<Rightarrow> s5st \<Rightarrow> (ares \<times> s5st) option" where
  "s5alloc e m s =
     (if s_flock (sfs s) \<noteq> 0 then Some (AFlock, s)
      else case s5_pick (sfs s) of
          (BadIndex, fp) \<Rightarrow> Some (AFault, s\<lparr>sfs := fp\<rparr>)
        | (NoBlock, fp) \<Rightarrow> Some (ANull, s5_nospace (s\<lparr>sfs := fp\<rparr>))
        | (Picked b, fp) \<Rightarrow>
            if s_nfree fp \<le> 0 then s5alloc_fill e m b (s\<lparr>sfs := fp\<lparr>s_flock := s_flock fp + 1\<rparr>\<rparr>)
            else s5alloc_end m b (s\<lparr>sfs := fp\<rparr>))"

subsection \<open>Giving a block back\<close>

datatype fres = FDone | FFlock | FInGetblk int | FInBwrite bref int | FFault

definition s5free_push :: "int \<Rightarrow> filsys \<Rightarrow> filsys" where
  "s5free_push b fp = fp\<lparr>s_free := (s_free fp)[nat (s_nfree fp) := b], s_nfree := s_nfree fp + 1,
     s_tfree := c_int (s_tfree fp + 1), s_fmod := 1\<rparr>"

text \<open>After \<open>bwrite\<close> has come back.\<close>

definition s5free_end :: "int \<Rightarrow> s5st \<Rightarrow> s5st" where
  "s5free_end b s = s\<lparr>sfs := s5free_push b ((sfs s)\<lparr>s_flock := 0\<rparr>), fwoken := Suc (fwoken s)\<rparr>"

definition s5free_wrote :: "bref \<Rightarrow> int \<Rightarrow> s5st \<Rightarrow> s5st option" where
  "s5free_wrote x b s = map_option (\<lambda>c. s5free_end b (s\<lparr>sbc := c\<rparr>)) (bwrite_end x (sbc s))"

text \<open>Writing a full list into the block, with \<open>s_flock\<close> held.\<close>

definition s5free_link :: "mount \<Rightarrow> int \<Rightarrow> s5st \<Rightarrow> (fres \<times> s5st) option" where
  "s5free_link m b s =
     (case getblk (m_dev m) (link_blk m b) (FsBSIZE (m_bsize m)) (sbc s) of
        None \<Rightarrow> None
      | Some (GBuf x, c) \<Rightarrow>
          (let fp = sfs s; c1 = bupd x (\<lambda>h. h\<lparr>b_data := fblk_put (s_nfree fp) (s_free fp) (b_data h)\<rparr>) c;
               s1 = s\<lparr>sfs := fp\<lparr>s_nfree := 0\<rparr>, sbc := bwrite x c1\<rparr>
           in if B_ASYNC \<in> fl c1 x then Some (FDone, s5free_end b s1) else Some (FInBwrite x b, s1))
      | Some (GSleep _, c) \<Rightarrow> Some (FInGetblk b, s\<lparr>sbc := c\<rparr>)
      | Some (GPanic, c) \<Rightarrow> Some (FFault, s\<lparr>sbc := c\<rparr>))"

definition s5free :: "mount \<Rightarrow> int \<Rightarrow> s5st \<Rightarrow> (fres \<times> s5st) option" where
  "s5free m b s =
     (let s1 = s\<lparr>sfs := (sfs s)\<lparr>s_fmod := 1\<rparr>\<rparr>; fp = sfs s1;
          fp1 = (if s_nfree fp \<le> 0 then fp\<lparr>s_nfree := 1, s_free := (s_free fp)[0 := 0]\<rparr> else fp)
      in if s_flock fp \<noteq> 0 then Some (FFlock, s1)
         else if s5badblock fp b then Some (FDone, s1)
         else if int NICFREE \<le> s_nfree fp1 then s5free_link m b (s1\<lparr>sfs := fp1\<lparr>s_flock := s_flock fp1 + 1\<rparr>\<rparr>)
         else (let c = (case incore (m_dev m) (data_blk m b) (FsBSIZE (m_bsize m)) (sbc s) of
                   Some x \<Rightarrow> if B_BUSY \<in> fl (sbc s) x then sbc s else s5_drop x (sbc s)
                 | None \<Rightarrow> sbc s)
               in Some (FDone, s1\<lparr>sfs := s5free_push b fp1, sbc := c\<rparr>)))"

text \<open>With the write it waits for.\<close>

definition s5free_io :: "int option \<Rightarrow> mount \<Rightarrow> int \<Rightarrow> s5st \<Rightarrow> (fres \<times> s5st) option" where
  "s5free_io e m b s =
     (case s5free m b s of
        Some (FInBwrite x d, s1) \<Rightarrow> map_option (Pair FDone) (s5free_wrote x d (s1\<lparr>sbc := io_end e x (sbc s1)\<rparr>))
      | r \<Rightarrow> r)"

subsection \<open>The chain of free blocks\<close>

text \<open>The blocks of a chain in the order in which they are taken; \<open>D\<close> is what the blocks hold.\<close>

inductive free_chain :: "(int \<Rightarrow> int list) \<Rightarrow> nat \<Rightarrow> int list \<Rightarrow> int list \<Rightarrow> bool" for D where
  fc_none: "length fr = NICFREE \<Longrightarrow> free_chain D 0 fr []"
| fc_last: "length fr = NICFREE \<Longrightarrow> n < NICFREE \<Longrightarrow> fr ! 0 = 0 \<Longrightarrow> free_chain D (Suc n) fr (rev (take n (tl fr)))"
| fc_more: "length fr = NICFREE \<Longrightarrow> n < NICFREE \<Longrightarrow> fr ! 0 = b \<Longrightarrow> b \<noteq> 0 \<Longrightarrow> df_nfree (D b) = int (Suc k) \<Longrightarrow>
    free_chain D (Suc k) (df_free (D b)) bs \<Longrightarrow> free_chain D (Suc n) fr (rev (take n (tl fr)) @ b # bs)"

lemma chain_length: "free_chain D n fr bs \<Longrightarrow> n \<le> NICFREE \<and> length fr = NICFREE"
  by (induction rule: free_chain.induct) auto

lemma fchain_cong: "free_chain D n fr bs \<Longrightarrow> (\<And>b. b \<in> set bs \<Longrightarrow> D' b = D b) \<Longrightarrow> free_chain D' n fr bs"
proof (induction rule: free_chain.induct)
  case (fc_more fr n b k bs)
  then have "D' b = D b" "free_chain D' (Suc k) (df_free (D b)) bs" by simp_all
  with fc_more.hyps show ?case by (intro free_chain.fc_more) simp_all
qed (auto intro: free_chain.intros)

lemma take_tl_Suc: "length fr = NICFREE \<Longrightarrow> Suc n < NICFREE \<Longrightarrow> take (Suc n) (tl fr) = take n (tl fr) @ [fr ! Suc n]"
  by (simp add: take_Suc_conv_app_nth nth_tl)

lemma chain_take:
  assumes "free_chain D n fr (b # bs)"
  shows "\<exists>m. n = Suc m \<and> m < NICFREE \<and> length fr = NICFREE \<and> fr ! m = b \<and> (0 < m \<longrightarrow> free_chain D m fr bs) \<and>
    (m = 0 \<longrightarrow> b \<noteq> 0 \<and> (\<exists>k. df_nfree (D b) = int (Suc k) \<and> free_chain D (Suc k) (df_free (D b)) bs))"
  using assms
proof (cases rule: free_chain.cases)
  case (fc_last m)
  then obtain p where m: "m = Suc p" by (cases m) auto
  have "fr ! m = b" "bs = rev (take p (tl fr))" using fc_last take_tl_Suc [of fr p] m by auto
  then show ?thesis using fc_last m by (intro exI [of _ m]) (auto intro: free_chain.fc_last)
next
  case (fc_more m c k cs)
  show ?thesis
  proof (cases m)
    case 0
    with fc_more show ?thesis by (intro exI [of _ 0]) auto
  next
    case (Suc p)
    have "fr ! m = b" "bs = rev (take p (tl fr)) @ c # cs" using fc_more take_tl_Suc [of fr p] Suc by auto
    then show ?thesis using fc_more Suc by (intro exI [of _ m]) (auto intro: free_chain.fc_more)
  qed
qed

lemma chain_empty: "free_chain D n fr [] \<Longrightarrow> n = 0 \<or> n = 1 \<and> fr ! 0 = 0"
  by (cases rule: free_chain.cases) (auto dest!: arg_cong [where f = length])

text \<open>Adding a block behind the others, and as the first of a new list that refers to a full one.\<close>

lemma take_tl_update: "length fr = NICFREE \<Longrightarrow> Suc m < NICFREE \<Longrightarrow> take (Suc m) (tl (fr[Suc m := b])) = take m (tl fr) @ [b]"
  by (cases fr) (simp_all add: take_Suc_conv_app_nth)

lemma chain_put:
  assumes "free_chain D (Suc m) fr bs" "Suc m < NICFREE"
  shows "free_chain D (Suc (Suc m)) (fr[Suc m := b]) (b # bs)"
  using assms(1)
proof (cases rule: free_chain.cases)
  case fc_last
  have "free_chain D (Suc (Suc m)) (fr[Suc m := b]) (rev (take (Suc m) (tl (fr[Suc m := b]))))"
    using fc_last assms(2) by (intro free_chain.fc_last) simp_all
  then show ?thesis using fc_last take_tl_update [OF fc_last(2) assms(2)] by simp
next
  case (fc_more c k cs)
  have "free_chain D (Suc (Suc m)) (fr[Suc m := b]) (rev (take (Suc m) (tl (fr[Suc m := b]))) @ c # cs)"
    by (rule free_chain.fc_more [where k = k]) (use fc_more assms(2) in simp_all)
  then show ?thesis using fc_more take_tl_update [OF fc_more(2) assms(2)] by simp
qed

lemma fblk_get: "length fr = NICFREE \<Longrightarrow> df_nfree (fblk_put n fr t) = n \<and> df_free (fblk_put n fr t) = fr"
  by (simp add: df_nfree_def df_free_def fblk_put_def)

lemma chain_link:
  assumes "free_chain D NICFREE fr bs" "b \<noteq> 0" "D b = fblk_put (int NICFREE) fr t"
  shows "free_chain D 1 (fr[0 := b]) (b # bs)"
proof -
  have l: "length fr = NICFREE" using chain_length [OF assms(1)] by blast
  have "free_chain D (Suc 0) (fr[0 := b]) (rev (take 0 (tl (fr[0 := b]))) @ b # bs)"
    by (rule free_chain.fc_more [where k = 49]) (use l assms fblk_get [OF l] in simp_all)
  then show ?thesis by simp
qed

subsection \<open>The file system and its cache\<close>

definition pblk :: "mount \<Rightarrow> int \<Rightarrow> int" where "pblk m b = b * (m_bsize m div 512)"

definition on_disk :: "mount \<Rightarrow> bst \<Rightarrow> int \<Rightarrow> int list" where "on_disk m c b = cur c (m_dev m) (pblk m b)"

definition fs_ok :: "mount \<Rightarrow> filsys \<Rightarrow> bool" where
  "fs_ok m fp \<longleftrightarrow> m_bsize m \<in> {1024, 2048, 4096, 8192} \<and> 0 < s_isize fp \<and> s_fsize fp * (m_bsize m div 512) < 2 ^ 31"

definition cache_up :: "mount \<Rightarrow> bst \<Rightarrow> bool" where
  "cache_up m c \<longleftrightarrow> bio_good c \<and> bmajor (m_dev m) < bdevcnt c"

text \<open>The free list \<open>bs\<close>; \<open>k\<close> blocks have been taken from it by processes that have not counted them yet.\<close>

definition fs_rep :: "mount \<Rightarrow> nat \<Rightarrow> (int \<Rightarrow> int list) \<Rightarrow> int list \<Rightarrow> filsys \<Rightarrow> bool" where
  "fs_rep m k D bs fp \<longleftrightarrow> fs_ok m fp \<and> s_flock fp = 0 \<and> 0 \<le> s_nfree fp \<and> free_chain D (nat (s_nfree fp)) (s_free fp) bs \<and>
     distinct bs \<and> (\<forall>b\<in>set bs. \<not> s5badblock fp b) \<and> s_tfree fp = int (length bs + k) \<and> int (length bs + k) \<le> s_fsize fp"

definition s5_rep :: "mount \<Rightarrow> nat \<Rightarrow> int list \<Rightarrow> s5st \<Rightarrow> bool" where
  "s5_rep m k bs s \<longleftrightarrow> cache_up m (sbc s) \<and> fs_rep m k (on_disk m (sbc s)) bs (sfs s)"

text \<open>The state in which the rest \<open>bs\<close> of the chain is still in block \<open>b\<close>, to be read.\<close>

definition s5_pend :: "mount \<Rightarrow> nat \<Rightarrow> int \<Rightarrow> int list \<Rightarrow> s5st \<Rightarrow> bool" where
  "s5_pend m k b bs s \<longleftrightarrow> cache_up m (sbc s) \<and> s_nfree (sfs s) = 0 \<and> s_flock (sfs s) = 1 \<and> b \<notin> set bs \<and> \<not> s5badblock (sfs s) b \<and>
     (\<exists>j. df_nfree (on_disk m (sbc s) b) = int (Suc j) \<and>
        fs_rep m k (on_disk m (sbc s)) bs
          ((sfs s)\<lparr>s_nfree := int (Suc j), s_free := df_free (on_disk m (sbc s) b), s_flock := 0\<rparr>))"

lemma pblk_inj: "fs_ok m fp \<Longrightarrow> pblk m b = pblk m c \<longleftrightarrow> b = c"
  by (auto simp: pblk_def fs_ok_def)

lemma fs_rep_cong: "fs_rep m k D bs fp \<Longrightarrow> (\<And>b. b \<in> set bs \<Longrightarrow> D' b = D b) \<Longrightarrow> fs_rep m k D' bs fp"
  unfolding fs_rep_def using fchain_cong by blast

lemma blk_addr:
  assumes "fs_ok m fp" "\<not> s5badblock fp b"
  shows "ltopblk (link_blk m b) (FsBSIZE (m_bsize m)) = pblk m b" "ltopblk (data_blk m b) (FsBSIZE (m_bsize m)) = pblk m b"
proof -
  have b: "0 < b" "b < s_fsize fp" using assms by (auto simp: fs_ok_def s5badblock_def)
  have k: "m_bsize m \<in> {1024, 2048, 4096, 8192}" and f: "s_fsize fp * (m_bsize m div 512) < 2 ^ 31" using assms(1) by (auto simp: fs_ok_def)
  have "b * (m_bsize m div 512) < 2 ^ 31" using k f b by auto
  then show "ltopblk (link_blk m b) (FsBSIZE (m_bsize m)) = pblk m b" "ltopblk (data_blk m b) (FsBSIZE (m_bsize m)) = pblk m b"
    using k b by (auto simp: ltopblk_def link_blk_def data_blk_def FsBSIZE_def pblk_def c_int_id)
qed

lemma keeps_on_disk:
  assumes "keeps_but (m_dev m) (pblk m b) c c'" "fs_ok m fp" "cache_up m c" "x \<noteq> b"
  shows "on_disk m c' x = on_disk m c x"
proof -
  obtain R A where "bio_inv R A c" using assms(3) by (auto simp: cache_up_def bio_good_def)
  then have "m_dev m \<noteq> NODEV" using assms(3) bmajor_NODEV bio_invD(3) [of R A c] by (auto simp: cache_up_def cache_ok_def)
  with assms(1,4) pblk_inj [OF assms(2), of x b] show ?thesis by (simp add: keeps_but_def on_disk_def)
qed

subsection \<open>Allocation\<close>

text \<open>What \<open>s5alloc\<close> may do when \<open>b\<close> is the first free block.\<close>

definition took :: "mount \<Rightarrow> nat \<Rightarrow> int \<Rightarrow> int list \<Rightarrow> s5st \<Rightarrow> ares \<Rightarrow> s5st \<Rightarrow> bool" where
  "took m k b bs s r s' \<longleftrightarrow> keeps_but (m_dev m) (pblk m b) (sbc s) (sbc s') \<and>
     (case r of
        ABuf x \<Rightarrow> s5_rep m k bs s' \<and> held x (sbc s') \<and> b_dev (bh (sbc s') x) = m_dev m \<and> b_blkno (bh (sbc s') x) = pblk m b \<and>
          (let n = nat (b_bcount (bh (sbc s') x) div 4) in take n (b_data (bh (sbc s') x)) = replicate n 0)
      | AInGetblk c \<Rightarrow> c = b \<and> s5_rep m (Suc k) bs s'
      | AInBread c \<Rightarrow> c = b \<and> s5_pend m (Suc k) b bs s'
      | _ \<Rightarrow> False)"

lemma took_later: "took m k b bs t r s' \<Longrightarrow> keeps_but (m_dev m) (pblk m b) (sbc s) (sbc t) \<Longrightarrow> took m k b bs s r s'"
  using keeps_but_trans unfolding took_def by blast

lemma clrbuf_zero: "let n = nat (b_bcount (bh (clrbuf x c) x) div 4) in take n (b_data (bh (clrbuf x c) x)) = replicate n 0"
  by (simp add: clrbuf_def bh_bupd Let_def)

lemma got_held: "got_blk d b c c' (GBuf x) \<Longrightarrow> v_buf c' = v_buf c \<Longrightarrow> held x c' \<and> b_dev (bh c' x) = d \<and> b_blkno (bh c' x) = b"
  by (auto simp: got_blk_def is_for_def held_def Bufs_def)

lemma s5alloc_get_took:
  assumes s: "s5_rep m (Suc k) bs s" and b: "b \<notin> set bs" "\<not> s5badblock (sfs s) b"
  shows "\<exists>r s'. s5alloc_get m b s = Some (r, s') \<and> took m k b bs s r s'"
proof -
  have ok: "cache_up m (sbc s)" "fs_rep m (Suc k) (on_disk m (sbc s)) bs (sfs s)" "fs_ok m (sfs s)"
    using s by (auto simp: s5_rep_def fs_rep_def)
  then obtain R A where i: "bio_inv R A (sbc s)" and mj: "bmajor (m_dev m) < bdevcnt (sbc s)" by (auto simp: cache_up_def bio_good_def)
  note a = blk_addr(2) [OF ok(3) b(2)]
  from getblk_spec [OF i mj, of "data_blk m b" "FsBSIZE (m_bsize m)", unfolded a] obtain r c R' A' where
    G: "getblk (m_dev m) (data_blk m b) (FsBSIZE (m_bsize m)) (sbc s) = Some (r, c)" "bio_inv R' A' c" "keeps_blocks (sbc s) c"
      "got_blk (m_dev m) (pblk m b) (sbc s) c r" "v_buf c = v_buf (sbc s)" "bdevcnt c = bdevcnt (sbc s)" by blast
  have kb: "keeps_but (m_dev m) (pblk m b) (sbc s) c" by (rule keeps_blocks_but [OF G(3)])
  show ?thesis
  proof (cases r)
    case (GBuf x)
    have x: "held x c" "b_dev (bh c x) = m_dev m" "b_blkno (bh c x) = pblk m b" using got_held [OF G(4) [unfolded GBuf] G(5)] by auto
    have F: "bio_inv R' A' (clrbuf x c)" "held x (clrbuf x c)" "keeps_but (m_dev m) (pblk m b) c (clrbuf x c)"
      unfolding clrbuf_def using fill_held [OF G(2) x(1), where f = "\<lambda>b. let n = nat (b_bcount b div 4) in b\<lparr>b_data := replicate n 0 @ drop n (b_data b), b_resid := 0\<rparr>"]
      by (simp_all add: Let_def x)
    note kb2 = keeps_but_trans [OF kb F(3)]
    define fp where "fp = (sfs s)\<lparr>s_tfree := (if s_tfree (sfs s) \<noteq> 0 then c_int (s_tfree (sfs s) - 1) else 0), s_fmod := 1\<rparr>"
    have "fs_rep m k (on_disk m (sbc s)) bs fp"
    proof -
      have "s_fsize (sfs s) < 2 ^ 31"
      proof -
        have "s_fsize (sfs s) * 1 \<le> s_fsize (sfs s) * (m_bsize m div 512)"
          using ok(2,3) by (intro mult_left_mono) (auto simp: fs_ok_def fs_rep_def)
        also have "\<dots> < 2 ^ 31" using ok(3) by (simp add: fs_ok_def)
        finally show ?thesis by simp
      qed
      then have "s_tfree fp = int (length bs + k)" using ok(2) by (auto simp: fs_rep_def fp_def c_int_id)
      with ok(2) show ?thesis by (auto simp: fs_rep_def fp_def fs_ok_def s5badblock_def)
    qed
    then have "fs_rep m k (on_disk m (clrbuf x c)) bs fp"
      by (rule fs_rep_cong) (use keeps_on_disk [OF kb2 ok(3,1)] b(1) in metis)
    moreover have "cache_up m (clrbuf x c)" using F(1) mj G(6) by (auto simp: cache_up_def bio_good_def clrbuf_def)
    ultimately have "s5_rep m k bs (s\<lparr>sbc := clrbuf x c, sfs := fp\<rparr>)" by (simp add: s5_rep_def)
    moreover have "s5alloc_get m b s = Some (ABuf x, s\<lparr>sbc := clrbuf x c, sfs := fp\<rparr>)" using G(1) GBuf by (simp add: s5alloc_get_def fp_def)
    moreover have "b_dev (bh (clrbuf x c) x) = m_dev m" "b_blkno (bh (clrbuf x c) x) = pblk m b"
      using x by (simp_all add: clrbuf_def bh_bupd Let_def)
    ultimately show ?thesis using F(2) kb2 clrbuf_zero [of x c] by (simp add: took_def)
  next
    case (GSleep ch)
    have "cache_up m c" using G(2) mj G(6) by (auto simp: cache_up_def bio_good_def)
    moreover have "fs_rep m (Suc k) (on_disk m c) bs (sfs s)"
      by (rule fs_rep_cong [OF ok(2)]) (use keeps_on_disk [OF kb ok(3,1)] b(1) in metis)
    ultimately show ?thesis using G(1) GSleep kb by (simp add: s5alloc_get_def took_def s5_rep_def)
  next
    case GPanic
    with G(4) show ?thesis by (simp add: got_blk_def)
  qed
qed

lemma s5alloc_end_took:
  assumes "s5_rep m (Suc k) bs s" "b \<notin> set bs" "\<not> s5badblock (sfs s) b" "0 < s_nfree (sfs s)"
  shows "\<exists>r s'. s5alloc_end m b s = Some (r, s') \<and> took m k b bs s r s'"
proof -
  have "nat (s_nfree (sfs s)) \<le> NICFREE" using assms(1) chain_length by (auto simp: s5_rep_def fs_rep_def)
  then have "s_nfree (sfs s) \<le> 50" by linarith
  then show ?thesis using s5alloc_get_took [OF assms(1-3)] assms(4) by (simp add: s5alloc_end_def)
qed

lemma s5alloc_fill_took:
  assumes s: "s5_pend m (Suc k) b bs s" and u: "u_err (sbc s) = 0"
  shows "\<exists>r s'. s5alloc_fill None m b s = Some (r, s') \<and> took m k b bs s r s'"
proof -
  let ?D = "on_disk m (sbc s)"
  from s obtain j where P: "cache_up m (sbc s)" "b \<notin> set bs" "\<not> s5badblock (sfs s) b" "df_nfree (?D b) = int (Suc j)"
    "fs_rep m (Suc k) ?D bs ((sfs s)\<lparr>s_nfree := int (Suc j), s_free := df_free (?D b), s_flock := 0\<rparr>)"
    "s_nfree (sfs s) = 0" "s_flock (sfs s) = 1" by (auto simp: s5_pend_def)
  have ok: "fs_ok m (sfs s)" using P(5) by (auto simp: fs_rep_def fs_ok_def)
  obtain R A where i: "bio_inv R A (sbc s)" and mj: "bmajor (m_dev m) < bdevcnt (sbc s)" using P(1) by (auto simp: cache_up_def bio_good_def)
  then have nd: "m_dev m \<noteq> NODEV" using bmajor_NODEV bio_invD(3) [OF i] by (auto simp: cache_ok_def)
  from read_blk_spec [OF i mj, of "link_blk m b" "FsBSIZE (m_bsize m)", unfolded blk_addr(1) [OF ok P(3)]] obtain r c R' A' where
    G: "read_blk None (m_dev m) (link_blk m b) (FsBSIZE (m_bsize m)) (sbc s) = Some (r, c)" "bio_inv R' A' c" "keeps_blocks (sbc s) c"
      "v_buf c = v_buf (sbc s)" "bdevcnt c = bdevcnt (sbc s)" "u_err c = u_err (sbc s)"
      "case r of GBuf x \<Rightarrow> held x c \<and> clean c x \<and> B_ERROR \<notin> fl c x \<and> B_DONE \<in> fl c x \<and> is_for c (m_dev m) (pblk m b) x \<and>
         b_data (bh c x) = ?D b
       | _ \<Rightarrow> got_blk (m_dev m) (pblk m b) (sbc s) c r" unfolding on_disk_def by blast
  have D': "on_disk m c' = ?D" if "keeps_blocks (sbc s) c'" for c'
    using that nd by (simp add: on_disk_def keeps_blocks_def fun_eq_iff)
  show ?thesis
  proof (cases r)
    case (GBuf x)
    have x: "held x c" "clean c x" "B_ERROR \<notin> fl c x" "b_data (bh c x) = ?D b" using G(7) GBuf by auto
    note h = x(1) [unfolded held_def]
    have "bio_good (brelse x c)" using brelse_inv [OF G(2) _ _ _ x(2)] h by (auto simp: bio_good_def)
    moreover have K: "keeps_blocks c (brelse x c)" "rest (brelse x c) = rest c" using brelse_keeps [OF G(2) _ _ _ x(2,3)] h by blast+
    ultimately have up: "cache_up m (brelse x c)" using mj G(5) rest_eq [OF K(2)] by (simp add: cache_up_def)
    have kb: "keeps_blocks (sbc s) (brelse x c)" by (rule keeps_blocks_trans [OF G(3) K(1)])
    have "free_chain ?D (nat (int (Suc j))) (df_free (?D b)) bs" using P(5) by (simp add: fs_rep_def del: of_nat_Suc)
    from chain_length [OF this] have j: "Suc j \<le> NICFREE" by (simp only: nat_int)
    then have cs: "c_short (int (Suc j)) = int (Suc j)" by (simp add: c_short_def)
    define t where "t = s\<lparr>sfs := (sfs s)\<lparr>s_nfree := int (Suc j), s_free := df_free (?D b), s_flock := 0\<rparr>, sbc := brelse x c, fwoken := Suc (fwoken s)\<rparr>"
    have "s5alloc_fill None m b s = s5alloc_end m b t"
      using G(1,6) u GBuf x(4) P(4) cs by (simp add: s5alloc_fill_def t_def)
    moreover have "s5_rep m (Suc k) bs t" using P(5) up D' [OF kb] by (simp add: s5_rep_def t_def)
    moreover have "\<not> s5badblock (sfs t) b" "0 < s_nfree (sfs t)" using P(3) by (simp_all add: t_def s5badblock_def)
    moreover have "keeps_but (m_dev m) (pblk m b) (sbc s) (sbc t)" using keeps_blocks_but [OF kb] by (simp add: t_def)
    ultimately show ?thesis using s5alloc_end_took [of m k bs t b] P(2) took_later [of m k b bs t _ _ s] by metis
  next
    case (GSleep ch)
    have "cache_up m c" using G(2,5) mj by (auto simp: cache_up_def bio_good_def)
    with P D' [OF G(3)] have "s5_pend m (Suc k) b bs (s\<lparr>sbc := c\<rparr>)" by (auto simp: s5_pend_def)
    with G(1) GSleep keeps_blocks_but [OF G(3)] show ?thesis by (simp add: s5alloc_fill_def took_def)
  next
    case GPanic
    with G(7) show ?thesis by (simp add: got_blk_def)
  qed
qed

subsection \<open>Freeing\<close>

text \<open>What \<open>s5free\<close> may do with block \<open>b\<close>.\<close>

definition gave :: "mount \<Rightarrow> nat \<Rightarrow> int \<Rightarrow> int list \<Rightarrow> s5st \<Rightarrow> fres \<Rightarrow> s5st \<Rightarrow> bool" where
  "gave m k b bs s r s' \<longleftrightarrow> keeps_but (m_dev m) (pblk m b) (sbc s) (sbc s') \<and>
     (case r of
        FDone \<Rightarrow> s5_rep m k (b # bs) s'
      | FInGetblk c \<Rightarrow> c = b \<and> s_flock (sfs s') = 1 \<and> s_nfree (sfs s') = int NICFREE \<and> s5_rep m k bs (s'\<lparr>sfs := (sfs s')\<lparr>s_flock := 0\<rparr>\<rparr>)
      | _ \<Rightarrow> False)"

lemma fs_size: "fs_ok m fp \<Longrightarrow> 0 \<le> s_fsize fp \<Longrightarrow> s_fsize fp < 2 ^ 31"
  by (auto simp: fs_ok_def)

lemma fs_rep_push:
  assumes f: "fs_rep m k D bs fp" and b: "b \<notin> set bs" "\<not> s5badblock fp b" "int (length bs + k) < s_fsize fp"
    and c: "free_chain D' (nat (s_nfree fp1 + 1)) ((s_free fp1)[nat (s_nfree fp1) := b]) (b # bs)"
    and e: "s_isize fp1 = s_isize fp" "s_fsize fp1 = s_fsize fp" "s_tfree fp1 = s_tfree fp" "s_flock fp1 = 0" "0 \<le> s_nfree fp1"
  shows "fs_rep m k D' (b # bs) (s5free_push b fp1)"
proof -
  have "s_fsize fp < 2 ^ 31" using f by (intro fs_size) (auto simp: fs_rep_def)
  then have "c_int (s_tfree fp + 1) = int (length (b # bs) + k)" using f b(3) by (simp add: fs_rep_def c_int_id)
  with assms show ?thesis by (simp add: fs_rep_def s5free_push_def fs_ok_def s5badblock_def)
qed

text \<open>A full list goes into the block.\<close>

lemma fs_rep_link:
  assumes f: "fs_rep m k D bs fp" and b: "b \<notin> set bs" "\<not> s5badblock fp b" "int (length bs + k) < s_fsize fp"
    and n: "s_nfree fp = int NICFREE" and D: "D' b = fblk_put (s_nfree fp) (s_free fp) t" "\<And>x. x \<noteq> b \<Longrightarrow> D' x = D x"
    and e: "s_isize fp1 = s_isize fp" "s_fsize fp1 = s_fsize fp" "s_tfree fp1 = s_tfree fp" "s_flock fp1 = 0" "s_nfree fp1 = 0" "s_free fp1 = s_free fp"
  shows "fs_rep m k D' (b # bs) (s5free_push b fp1)"
proof (rule fs_rep_push [OF f b])
  have "free_chain D NICFREE (s_free fp) bs" using f n by (simp add: fs_rep_def)
  then have "free_chain D' NICFREE (s_free fp) bs" by (rule fchain_cong) (use D(2) b(1) in metis)
  moreover have "b \<noteq> 0" using b(2) f by (auto simp: fs_rep_def fs_ok_def s5badblock_def)
  ultimately show "free_chain D' (nat (s_nfree fp1 + 1)) ((s_free fp1)[nat (s_nfree fp1) := b]) (b # bs)"
    using chain_link [of D' "s_free fp" bs b t] D(1) n e by simp
qed (use e in simp_all)

lemma s5free_link_gave:
  assumes up: "cache_up m (sbc s)" and f: "fs_rep m k (on_disk m (sbc s)) bs ((sfs s)\<lparr>s_flock := 0\<rparr>)" and l: "s_flock (sfs s) = 1"
    and b: "b \<notin> set bs" "\<not> s5badblock (sfs s) b" "int (length bs + k) < s_fsize (sfs s)" and n: "s_nfree (sfs s) = int NICFREE"
  shows "\<exists>r s1. s5free_link m b s = Some (r, s1) \<and>
    (case r of FInBwrite x c \<Rightarrow> c = b \<and> (\<exists>s'. s5free_wrote x b (s1\<lparr>sbc := io_end None x (sbc s1)\<rparr>) = Some s' \<and> gave m k b bs s FDone s')
      | _ \<Rightarrow> gave m k b bs s r s1)"
proof -
  have ok: "fs_ok m (sfs s)" using f by (simp add: fs_rep_def fs_ok_def)
  obtain R A where i: "bio_inv R A (sbc s)" and mj: "bmajor (m_dev m) < bdevcnt (sbc s)" using up by (auto simp: cache_up_def bio_good_def)
  then have nd: "m_dev m \<noteq> NODEV" using bmajor_NODEV bio_invD(3) [OF i] by (auto simp: cache_ok_def)
  from getblk_spec [OF i mj, of "link_blk m b" "FsBSIZE (m_bsize m)", unfolded blk_addr(1) [OF ok b(2)]] obtain r c R' A' where
    G: "getblk (m_dev m) (link_blk m b) (FsBSIZE (m_bsize m)) (sbc s) = Some (r, c)" "bio_inv R' A' c" "keeps_blocks (sbc s) c"
      "got_blk (m_dev m) (pblk m b) (sbc s) c r" "v_buf c = v_buf (sbc s)" "bdevcnt c = bdevcnt (sbc s)" by blast
  have kb: "keeps_but (m_dev m) (pblk m b) (sbc s) c" by (rule keeps_blocks_but [OF G(3)])
  show ?thesis
  proof (cases r)
    case (GBuf x)
    have x: "held x c" "b_dev (bh c x) = m_dev m" "b_blkno (bh c x) = pblk m b" using got_held [OF G(4) [unfolded GBuf] G(5)] by auto
    define t where "t = fblk_put (s_nfree (sfs s)) (s_free (sfs s)) (b_data (bh c x))"
    define c1 where "c1 = bupd x (\<lambda>h. h\<lparr>b_data := fblk_put (s_nfree (sfs s)) (s_free (sfs s)) (b_data h)\<rparr>) c"
    have F: "bio_inv R' A' c1" "held x c1" "keeps_but (m_dev m) (pblk m b) c c1"
      unfolding c1_def using fill_held [OF G(2) x(1)] by (simp_all add: x)
    have c1: "b_dev (bh c1 x) = m_dev m" "b_blkno (bh c1 x) = pblk m b" "b_data (bh c1 x) = t" "bdevcnt c1 = bdevcnt c"
      using x by (simp_all add: c1_def bh_bupd t_def)
    let ?s1 = "s\<lparr>sfs := (sfs s)\<lparr>s_nfree := 0\<rparr>, sbc := bwrite x c1\<rparr>"
    have fin: "gave m k b bs s FDone (s5free_end b (?s1\<lparr>sbc := u\<rparr>))"
      if u: "bio_good u" "writes_block x c1 u" "bdevcnt u = bdevcnt c1" for u
    proof -
      have ku: "keeps_but (m_dev m) (pblk m b) (sbc s) u"
        using keeps_but_trans [OF keeps_but_trans [OF kb F(3)]] writes_block_but [OF u(2)] c1(1,2) by simp
      have "on_disk m u b = t" using u(2) nd c1 by (simp add: on_disk_def writes_block_def)
      then have "fs_rep m k (on_disk m u) (b # bs) (s5free_push b ((sfs s)\<lparr>s_nfree := 0, s_flock := 0\<rparr>))"
        by (intro fs_rep_link [OF f b(1), where t = "b_data (bh c x)"])
          (use b(2,3) n keeps_on_disk [OF ku ok up] in \<open>simp_all add: t_def s5badblock_def\<close>)
      then show ?thesis using u(1,3) c1(4) G(6) mj ku by (simp add: gave_def s5_rep_def s5free_end_def cache_up_def)
    qed
    show ?thesis
    proof (cases "B_ASYNC \<in> fl c1 x")
      case True
      have "bio_good (bwrite x c1)" "bdevcnt (bwrite x c1) = bdevcnt c1"
        using bwrite_writes(1) [OF F(1,2)] bwrite_sel by (auto simp: bio_good_def)
      from fin [OF this(1) bwrite_writes(2) [OF F(1,2)] this(2)] True G(1) GBuf show ?thesis
        by (simp add: s5free_link_def c1_def [symmetric] Let_def)
    next
      case False
      from write_through [OF F(1,2) False refl] obtain u where
        u: "bwrite_end x (io_end None x (bwrite x c1)) = Some u" "bio_good u" "writes_block x c1 u" "bdevcnt u = bdevcnt c1" by blast
      have "s5free_wrote x b (?s1\<lparr>sbc := io_end None x (sbc ?s1)\<rparr>) = Some (s5free_end b (?s1\<lparr>sbc := u\<rparr>))"
        using u(1) by (simp add: s5free_wrote_def)
      with fin [OF u(2-4)] False G(1) GBuf show ?thesis by (simp add: s5free_link_def c1_def [symmetric] Let_def)
    qed
  next
    case (GSleep ch)
    have "cache_up m c" using G(2,6) mj by (auto simp: cache_up_def bio_good_def)
    moreover have "fs_rep m k (on_disk m c) bs ((sfs s)\<lparr>s_flock := 0\<rparr>)"
      by (rule fs_rep_cong [OF f]) (use keeps_on_disk [OF kb ok up] b(1) in metis)
    ultimately show ?thesis using G(1) GSleep kb l n by (simp add: s5free_link_def gave_def s5_rep_def)
  next
    case GPanic
    with G(4) show ?thesis by (simp add: got_blk_def)
  qed
qed

lemma pick_first:
  assumes "fs_rep m k D (b # bs) fp"
  shows "\<exists>j. s5_pick fp = (Picked b, fp\<lparr>s_nfree := int j\<rparr>) \<and> (0 < j \<longrightarrow> free_chain D j (s_free fp) bs) \<and>
    (j = 0 \<longrightarrow> b \<noteq> 0 \<and> (\<exists>i. df_nfree (D b) = int (Suc i) \<and> free_chain D (Suc i) (df_free (D b)) bs))"
proof -
  have f: "0 \<le> s_nfree fp" "free_chain D (nat (s_nfree fp)) (s_free fp) (b # bs)" "\<not> s5badblock fp b" "fs_ok m fp"
    using assms by (simp_all add: fs_rep_def)
  from chain_take [OF f(2)] obtain j where j: "nat (s_nfree fp) = Suc j" "j < NICFREE" "length (s_free fp) = NICFREE" "s_free fp ! j = b"
    "0 < j \<longrightarrow> free_chain D j (s_free fp) bs"
    "j = 0 \<longrightarrow> b \<noteq> 0 \<and> (\<exists>i. df_nfree (D b) = int (Suc i) \<and> free_chain D (Suc i) (df_free (D b)) bs)" by blast
  have n: "s_nfree fp = int j + 1" using j(1) f(1) by linarith
  have "b \<noteq> 0" using f(3,4) by (auto simp: s5badblock_def fs_ok_def)
  then have "s5_pick fp = (Picked b, fp\<lparr>s_nfree := int j\<rparr>)"
    using j(2-4) f(3) n by (subst s5_pick.simps) (simp add: Let_def s5badblock_def)
  with j(5,6) show ?thesis by blast
qed

lemma pick_none: "fs_rep m k D [] fp \<Longrightarrow> \<exists>fp'. s5_pick fp = (NoBlock, fp')"
proof -
  assume f: "fs_rep m k D [] fp"
  then have c: "free_chain D (nat (s_nfree fp)) (s_free fp) []" "0 \<le> s_nfree fp" by (simp_all add: fs_rep_def)
  from chain_empty [OF c(1)] chain_length [OF c(1)] c(2) show ?thesis by (subst s5_pick.simps) (auto simp: Let_def)
qed

lemma s5_pick_range: "s5_pick fp = (Picked b, fp') \<Longrightarrow> b \<noteq> 0 \<and> \<not> s5badblock fp b"
proof (induction fp rule: s5_pick.induct)
  case (1 fp)
  show ?case using "1.prems" "1.IH" [OF _ refl refl]
    by (subst (asm) s5_pick.simps) (auto simp: Let_def s5badblock_def split: if_splits)
qed

lemma s5alloc_buf:
  assumes up: "cache_up m (sbc s)" and r: "s5alloc None m s = Some (ABuf x, s')"
  shows "\<exists>b. b \<noteq> 0 \<and> \<not> s5badblock (sfs s) b \<and> b_dev (bh (sbc s') x) = m_dev m \<and>
    b_blkno (bh (sbc s') x) = ltopblk (data_blk m b) (FsBSIZE (m_bsize m)) \<and> held x (sbc s')"
proof -
  have got: "b_dev (bh (sbc s') x) = m_dev m \<and> b_blkno (bh (sbc s') x) = ltopblk (data_blk m b) (FsBSIZE (m_bsize m)) \<and> held x (sbc s')"
    if t: "cache_up m (sbc t)" and e: "s5alloc_end m b t = Some (ABuf x, s')" for b t
  proof -
    obtain R A where i: "bio_inv R A (sbc t)" and mj: "bmajor (m_dev m) < bdevcnt (sbc t)" using t by (auto simp: cache_up_def bio_good_def)
    from getblk_spec [OF i mj, of "data_blk m b" "FsBSIZE (m_bsize m)"] obtain g c R' A' where
      G: "getblk (m_dev m) (data_blk m b) (FsBSIZE (m_bsize m)) (sbc t) = Some (g, c)"
        "got_blk (m_dev m) (ltopblk (data_blk m b) (FsBSIZE (m_bsize m))) (sbc t) c g" "v_buf c = v_buf (sbc t)" by blast
    with e have "g = GBuf x" "sbc s' = clrbuf x c"
      by (auto simp: s5alloc_end_def s5alloc_get_def split: if_splits gres.splits)
    with got_held [of "m_dev m" _ "sbc t" c x] G(2,3) show ?thesis
      by (simp add: clrbuf_def bh_bupd Let_def held_def Bufs_def)
  qed
  from r obtain b fp where p: "s5_pick (sfs s) = (Picked b, fp)"
    by (auto simp: s5alloc_def split: if_splits prod.splits pick.splits)
  show ?thesis
  proof (cases "s_nfree fp \<le> 0")
    case False
    with r p have "s5alloc_end m b (s\<lparr>sfs := fp\<rparr>) = Some (ABuf x, s')" by (simp add: s5alloc_def split: if_splits)
    from got [OF _ this] up s5_pick_range [OF p] show ?thesis by auto
  next
    case True
    let ?s = "s\<lparr>sfs := fp\<lparr>s_flock := s_flock fp + 1\<rparr>\<rparr>"
    have f: "s5alloc_fill None m b ?s = Some (ABuf x, s')" using r p True by (simp add: s5alloc_def split: if_splits)
    obtain R A where i: "bio_inv R A (sbc s)" and mj: "bmajor (m_dev m) < bdevcnt (sbc s)" using up by (auto simp: cache_up_def bio_good_def)
    from read_blk_spec [OF i mj, of "link_blk m b" "FsBSIZE (m_bsize m)"] obtain g c R' A' where
      G: "read_blk None (m_dev m) (link_blk m b) (FsBSIZE (m_bsize m)) (sbc s) = Some (g, c)" "bio_inv R' A' c" "bdevcnt c = bdevcnt (sbc s)"
        "case g of GBuf y \<Rightarrow> held y c \<and> clean c y \<and> B_ERROR \<notin> fl c y | _ \<Rightarrow> True"
      by (fastforce split: gres.splits)
    obtain y where y: "g = GBuf y" using f G(1) by (cases g) (auto simp: s5alloc_fill_def)
    have h: "held y c" "clean c y" "B_ERROR \<notin> fl c y" using G(4) y by simp_all
    note hy = h(1) [unfolded held_def]
    have "cache_up m (brelse y c)"
      using brelse_inv [OF G(2) _ _ _ h(2)] rest_eq [OF brelse_keeps(4) [OF G(2) _ _ _ h(2,3)]] hy mj G(3)
      by (auto simp: cache_up_def bio_good_def)
    moreover obtain fp2 where "s5alloc_end m b (?s\<lparr>sfs := fp2, sbc := brelse y c, fwoken := Suc (fwoken s)\<rparr>) = Some (ABuf x, s')"
      using f G(1) y by (auto simp: s5alloc_fill_def Let_def)
    ultimately show ?thesis using got [of "?s\<lparr>sfs := fp2, sbc := brelse y c, fwoken := Suc (fwoken s)\<rparr>" b] s5_pick_range [OF p] by auto
  qed
qed

lemma incore_drop:
  assumes up: "cache_up m c" and b: "fs_ok m fp" "\<not> s5badblock fp b"
  defines "c' \<equiv> case incore (m_dev m) (data_blk m b) (FsBSIZE (m_bsize m)) c of
                   Some x \<Rightarrow> if B_BUSY \<in> fl c x then c else s5_drop x c
                 | None \<Rightarrow> c"
  shows "cache_up m c'" "keeps_but (m_dev m) (pblk m b) c c'"
proof -
  obtain R A where i: "bio_inv R A c" and mj: "bmajor (m_dev m) < bdevcnt c" using up by (auto simp: cache_up_def bio_good_def)
  then have nd: "m_dev m \<noteq> NODEV" using bmajor_NODEV bio_invD(3) [OF i] by (auto simp: cache_ok_def)
  have "cache_up m c' \<and> keeps_but (m_dev m) (pblk m b) c c'"
  proof (cases "\<exists>x. incore (m_dev m) (data_blk m b) (FsBSIZE (m_bsize m)) c = Some x \<and> B_BUSY \<notin> fl c x")
    case True
    then obtain x where x: "incore (m_dev m) (data_blk m b) (FsBSIZE (m_bsize m)) c = Some x" "B_BUSY \<notin> fl c x" by blast
    then have "x \<in> Bufs c \<and> is_for c (m_dev m) (pblk m b) x"
      using find_block(2) [OF i nd] blk_addr(2) [OF b] by (simp add: incore_def Let_def)
    then have xb: "x \<in> Bufs c" "b_dev (bh c x) = m_dev m" "b_blkno (bh c x) = pblk m b" by (auto simp: is_for_def)
    have "x \<in> set A" using av_listD [OF bio_invD(2) [OF i]] xb(1) x(2) by blast
    then obtain us vs where "A = us @ x # vs" by (meson split_list)
    from s5_drop_inv [OF i [unfolded this]] rest_eq have "bio_good (s5_drop x c)" "keeps_but (m_dev m) (pblk m b) c (s5_drop x c)"
      "bdevcnt (s5_drop x c) = bdevcnt c" unfolding xb bio_good_def by blast+
    then show ?thesis using x mj by (simp add: c'_def cache_up_def)
  next
    case False
    then have "c' = c" by (auto simp: c'_def split: option.splits)
    then show ?thesis using up by (simp add: keeps_but_def)
  qed
  then show "cache_up m c'" "keeps_but (m_dev m) (pblk m b) c c'" by auto
qed

lemma s5free_short:
  assumes f: "fs_rep m k (on_disk m (sbc s)) bs (sfs s)" "cache_up m (sbc s)" and b: "b \<notin> set bs" "\<not> s5badblock (sfs s) b"
    "int (length bs + k) < s_fsize (sfs s)" and n: "s_nfree (sfs s) < int NICFREE"
  shows "\<exists>s'. s5free m b s = Some (FDone, s') \<and> gave m k b bs s FDone s'"
proof -
  let ?fp = "(sfs s)\<lparr>s_fmod := 1\<rparr>"
  define fp1 where "fp1 = (if s_nfree ?fp \<le> 0 then ?fp\<lparr>s_nfree := 1, s_free := (s_free ?fp)[0 := 0]\<rparr> else ?fp)"
  define c where "c = (case incore (m_dev m) (data_blk m b) (FsBSIZE (m_bsize m)) (sbc s) of
                   Some x \<Rightarrow> if B_BUSY \<in> fl (sbc s) x then sbc s else s5_drop x (sbc s)
                 | None \<Rightarrow> sbc s)"
  have ok: "fs_ok m (sfs s)" "s_flock (sfs s) = 0" "0 \<le> s_nfree (sfs s)"
    "free_chain (on_disk m (sbc s)) (nat (s_nfree (sfs s))) (s_free (sfs s)) bs" using f(1) by (simp_all add: fs_rep_def)
  note C = incore_drop [OF f(2) ok(1) b(2), folded c_def]
  have D: "on_disk m c x = on_disk m (sbc s) x" if "x \<in> set bs" for x using keeps_on_disk [OF C(2) ok(1) f(2)] that b(1) by metis
  have ch: "\<exists>j. s_nfree fp1 = int (Suc j) \<and> Suc j < NICFREE \<and> free_chain (on_disk m c) (Suc j) (s_free fp1) bs"
  proof (cases "s_nfree (sfs s) = 0")
    case True
    with ok(4) have "bs = []" "length (s_free (sfs s)) = NICFREE" by (auto elim: free_chain.cases)
    moreover from this have "free_chain (on_disk m c) (Suc 0) ((s_free (sfs s))[0 := 0]) (rev (take 0 (tl ((s_free (sfs s))[0 := 0]))))"
      by (intro free_chain.fc_last) simp_all
    ultimately show ?thesis using True by (intro exI [of _ 0]) (simp add: fp1_def)
  next
    case False
    then obtain j where j: "nat (s_nfree (sfs s)) = Suc j" using ok(3) by (cases "nat (s_nfree (sfs s))") auto
    have "s_nfree (sfs s) = int (Suc j)" using j ok(3) by linarith
    with fchain_cong [OF ok(4) D, unfolded j] n show ?thesis by (intro exI [of _ j]) (simp add: fp1_def)
  qed
  then obtain j where j: "s_nfree fp1 = int (Suc j)" "Suc j < NICFREE" "free_chain (on_disk m c) (Suc j) (s_free fp1) bs" by blast
  have j1: "nat (s_nfree fp1 + 1) = Suc (Suc j)" "nat (s_nfree fp1) = Suc j" using j(1) by simp_all
  have e: "s_isize fp1 = s_isize (sfs s)" "s_fsize fp1 = s_fsize (sfs s)" "s_tfree fp1 = s_tfree (sfs s)" "s_flock fp1 = 0" "0 \<le> s_nfree fp1"
    using ok(2) j(1) by (auto simp: fp1_def)
  have "fs_rep m k (on_disk m c) (b # bs) (s5free_push b fp1)"
    by (rule fs_rep_push [OF f(1) b _ e]) (use chain_put [OF j(3,2)] in \<open>simp only: j1\<close>)
  moreover have "s5free m b s = Some (FDone, s\<lparr>sfs := s5free_push b fp1, sbc := c\<rparr>)"
    using ok(2) b(2) j(1,2) n by (simp add: s5free_def Let_def s5badblock_def fp1_def c_def)
  ultimately show ?thesis using C by (simp add: gave_def s5_rep_def)
qed

subsection \<open>An example\<close>

text \<open>A cache of two buffers, and a disk on which block 9 of the file system (18 of the device) holds the rest of the free list.\<close>

definition fs_boot :: bst where
  "fs_boot = boot_ex\<lparr>disk := (\<lambda>_ b. if b = 18 then [2, 0, 11] @ replicate 48 0 else [b])\<rparr>"

definition m_ex :: "int \<Rightarrow> mount" where "m_ex b = \<lparr>m_dev = 0, m_bsize = b\<rparr>"

definition fs_ex :: "int list \<Rightarrow> s5st" where
  "fs_ex fr = \<lparr>sfs = \<lparr>s_isize = 3, s_fsize = 100, s_nfree = int (length fr), s_free = fr @ replicate (50 - length fr) 0, s_flock = 0, s_fmod = 0,
     s_tfree = 2\<rparr>, sbc = binit fs_boot, fwoken = 0\<rparr>"

lemma fs_ex_up: "cache_up (m_ex b) (sbc (fs_ex fr))" "u_err (sbc (fs_ex fr)) = 0"
proof -
  have b: "boot fs_boot" by (simp add: boot_def fs_boot_def boot_ex_def)
  have "bdevcnt (binit fs_boot) = 8" using rest_eq [OF binit_rest [OF b]] by (simp add: fs_boot_def boot_ex_def)
  then show "cache_up (m_ex b) (sbc (fs_ex fr))" using binit_inv [OF b]
    by (simp add: cache_up_def bio_good_def fs_ex_def m_ex_def bmajor_def)
  show "u_err (sbc (fs_ex fr)) = 0" unfolding fs_ex_def by code_simp
qed

lemma fs_ex_rep: "s5_rep (m_ex 1024) 0 [9, 11] (fs_ex [9])" "s5_rep (m_ex 1024) 0 [9, 11] (fs_ex [0, 11, 9])"
proof -
  let ?D = "on_disk (m_ex 1024) (binit fs_boot)"
  have D: "df_nfree (?D 9) = 2" "df_free (?D 9) = [0, 11] @ replicate 48 0" by code_simp+
  have "free_chain ?D (Suc 1) ([0, 11] @ replicate 48 0) (rev (take 1 (tl ([0, 11] @ replicate 48 0))))" by (rule free_chain.fc_last) simp_all
  then have "free_chain ?D (Suc 1) (df_free (?D 9)) [11]" unfolding D(2) by simp
  then have "free_chain ?D (Suc 0) ([9] @ replicate 49 0) (rev (take 0 (tl ([9] @ replicate 49 0))) @ 9 # [11])"
    by (intro free_chain.fc_more [where k = 1]) (simp_all add: D(1))
  then have "free_chain ?D 1 ([9] @ replicate 49 0) [9, 11]" by simp
  then show "s5_rep (m_ex 1024) 0 [9, 11] (fs_ex [9])" using fs_ex_up(1) [of 1024 "[9]"]
    by (simp add: s5_rep_def fs_rep_def fs_ok_def fs_ex_def m_ex_def s5badblock_def)
  have "free_chain ?D (Suc 2) ([0, 11, 9] @ replicate 47 0) (rev (take 2 (tl ([0, 11, 9] @ replicate 47 0))))" by (rule free_chain.fc_last) simp_all
  then have "free_chain ?D 3 ([0, 11, 9] @ replicate 47 0) [9, 11]" by (simp add: numeral_eq_Suc)
  then show "s5_rep (m_ex 1024) 0 [9, 11] (fs_ex [0, 11, 9])" using fs_ex_up(1) [of 1024 "[0, 11, 9]"]
    by (simp add: s5_rep_def fs_rep_def fs_ok_def fs_ex_def m_ex_def s5badblock_def)
qed

subsection \<open>Properties\<close>

text \<open>C7: \<open>s5alloc\<close> takes the first block of the free list, which may go on in blocks of the disk, and gives the caller its buffer, cleared
  and busy; every other block stays as it is.  When the cache has no buffer it sleeps before it reads on in the list,
  with \<open>s_flock\<close> held, or with the block taken.  An empty list is ENOSPC.\<close>

theorem s5alloc_takes:
  assumes "s5_rep m k free s" "u_err (sbc s) = 0"
  shows "\<exists>r s'. s5alloc None m s = Some (r, s') \<and>
    (case free of [] \<Rightarrow> r = ANull \<and> u_err (sbc s') = ENOSPC \<and> s_nfree (sfs s') = 0 \<and> s_tfree (sfs s') = 0
      | b # bs \<Rightarrow> took m k b bs s r s')"
proof (cases free)
  case Nil
  have f: "fs_rep m k (on_disk m (sbc s)) [] (sfs s)" using assms(1) Nil by (simp add: s5_rep_def)
  with pick_none [OF f] Nil show ?thesis by (auto simp: s5alloc_def s5_nospace_def fs_rep_def)
next
  case (Cons b bs)
  let ?D = "on_disk m (sbc s)" let ?fp = "sfs s"
  have f: "fs_rep m k ?D (b # bs) ?fp" "cache_up m (sbc s)" using assms(1) Cons by (simp_all add: s5_rep_def)
  have l: "s_flock ?fp = 0" "b \<notin> set bs" "\<not> s5badblock ?fp b" using f(1) by (simp_all add: fs_rep_def)
  from pick_first [OF f(1)] obtain j where j: "s5_pick ?fp = (Picked b, ?fp\<lparr>s_nfree := int j\<rparr>)" "0 < j \<longrightarrow> free_chain ?D j (s_free ?fp) bs"
    "j = 0 \<longrightarrow> b \<noteq> 0 \<and> (\<exists>i. df_nfree (?D b) = int (Suc i) \<and> free_chain ?D (Suc i) (df_free (?D b)) bs)" by blast
  show ?thesis
  proof (cases "j = 0")
    case True
    let ?s = "s\<lparr>sfs := ?fp\<lparr>s_nfree := 0, s_flock := 1\<rparr>\<rparr>"
    have "s5_pend m (Suc k) b bs ?s" using j(3) True f l
      by (auto simp: s5_pend_def fs_rep_def fs_ok_def s5badblock_def simp del: of_nat_Suc)
    from s5alloc_fill_took [OF this] assms(2) j(1) True l(1) Cons show ?thesis by (auto simp: s5alloc_def took_def)
  next
    case False
    let ?s = "s\<lparr>sfs := ?fp\<lparr>s_nfree := int j\<rparr>\<rparr>"
    have "s5_rep m (Suc k) bs ?s" using j(2) False f by (simp add: s5_rep_def fs_rep_def fs_ok_def s5badblock_def)
    from s5alloc_end_took [OF this l(2)] l(1,3) j(1) False Cons show ?thesis by (auto simp: s5alloc_def took_def s5badblock_def)
  qed
qed

theorem s5alloc_takes_witness:
  "(\<exists>s'. s5alloc None (m_ex 1024) (fs_ex [0, 11, 9]) = Some (ABuf (Buf 0), s') \<and> s5_rep (m_ex 1024) 0 [11] s' \<and> b_blkno (bh (sbc s') (Buf 0)) = 18) \<and>
   (\<exists>r s'. s5alloc None (m_ex 1024) (fs_ex [9]) = Some (r, s') \<and> took (m_ex 1024) 0 9 [11] (fs_ex [9]) r s')"
proof -
  have "map_option fst (s5alloc None (m_ex 1024) (fs_ex [0, 11, 9])) = Some (ABuf (Buf 0))" by code_simp
  with s5alloc_takes [OF fs_ex_rep(2) fs_ex_up(2)] s5alloc_takes [OF fs_ex_rep(1) fs_ex_up(2)] show ?thesis
    by (auto simp: took_def pblk_def m_ex_def)
qed

text \<open>After a sleep inside \<open>s5alloc\<close> or \<open>s5free\<close>, in which other processes may have changed the cache in any way but
  in what the blocks of the free list hold, the operation goes on as if it had not slept.\<close>

lemma s5_resumes:
  assumes "cache_up m c" "\<forall>x\<in>set (b # free). on_disk m c x = on_disk m (sbc s) x" "t = s\<lparr>sbc := c\<rparr>" "b \<notin> set free" "\<not> s5badblock (sfs s) b"
  shows "(s5_pend m (Suc k) b free s \<and> u_err c = 0 \<longrightarrow> (\<exists>r s'. s5alloc_fill None m b t = Some (r, s') \<and> took m k b free t r s')) \<and>
    (s5_rep m (Suc k) free s \<longrightarrow> (\<exists>r s'. s5alloc_get m b t = Some (r, s') \<and> took m k b free t r s')) \<and>
    (s_flock (sfs s) = 1 \<and> s_nfree (sfs s) = int NICFREE \<and> s5_rep m k free (s\<lparr>sfs := (sfs s)\<lparr>s_flock := 0\<rparr>\<rparr>) \<and>
      int (length free + k) < s_fsize (sfs s) \<longrightarrow>
      (\<exists>r s1. s5free_link m b t = Some (r, s1) \<and>
        (case r of FInBwrite x d \<Rightarrow> d = b \<and> (\<exists>s'. s5free_wrote x b (s1\<lparr>sbc := io_end None x (sbc s1)\<rparr>) = Some s' \<and> gave m k b free t FDone s')
         | _ \<Rightarrow> gave m k b free t r s1)))"
proof (intro conjI)
  have D: "fs_rep m j (on_disk m c) free fp" if "fs_rep m j (on_disk m (sbc s)) free fp" for j fp
    by (rule fs_rep_cong [OF that]) (use assms(2) in simp)
  show "s5_pend m (Suc k) b free s \<and> u_err c = 0 \<longrightarrow> (\<exists>r s'. s5alloc_fill None m b t = Some (r, s') \<and> took m k b free t r s')"
  proof (intro impI, elim conjE)
    assume p: "s5_pend m (Suc k) b free s" and u: "u_err c = 0"
    have "s5_pend m (Suc k) b free t"
      using p D assms(1,2) unfolding s5_pend_def assms(3) by auto
    from s5alloc_fill_took [OF this] u show "\<exists>r s'. s5alloc_fill None m b t = Some (r, s') \<and> took m k b free t r s'" by (simp add: assms(3))
  qed
  show "s5_rep m (Suc k) free s \<longrightarrow> (\<exists>r s'. s5alloc_get m b t = Some (r, s') \<and> took m k b free t r s')"
    using s5alloc_get_took [of m k free t b] D assms(1,3-5) by (auto simp: s5_rep_def)
  show "s_flock (sfs s) = 1 \<and> s_nfree (sfs s) = int NICFREE \<and> s5_rep m k free (s\<lparr>sfs := (sfs s)\<lparr>s_flock := 0\<rparr>\<rparr>) \<and>
      int (length free + k) < s_fsize (sfs s) \<longrightarrow>
      (\<exists>r s1. s5free_link m b t = Some (r, s1) \<and>
        (case r of FInBwrite x d \<Rightarrow> d = b \<and> (\<exists>s'. s5free_wrote x b (s1\<lparr>sbc := io_end None x (sbc s1)\<rparr>) = Some s' \<and> gave m k b free t FDone s')
         | _ \<Rightarrow> gave m k b free t r s1))"
  proof (intro impI, elim conjE)
    assume p: "s_flock (sfs s) = 1" "s_nfree (sfs s) = int NICFREE" "int (length free + k) < s_fsize (sfs s)"
      and q: "s5_rep m k free (s\<lparr>sfs := (sfs s)\<lparr>s_flock := 0\<rparr>\<rparr>)"
    have "cache_up m (sbc t)" "fs_rep m k (on_disk m (sbc t)) free ((sfs t)\<lparr>s_flock := 0\<rparr>)"
      using q D assms(1,3) by (simp_all add: s5_rep_def)
    from s5free_link_gave [OF this _ assms(4)] p assms(3,5)
    show "\<exists>r s1. s5free_link m b t = Some (r, s1) \<and>
        (case r of FInBwrite x d \<Rightarrow> d = b \<and> (\<exists>s'. s5free_wrote x b (s1\<lparr>sbc := io_end None x (sbc s1)\<rparr>) = Some s' \<and> gave m k b free t FDone s')
         | _ \<Rightarrow> gave m k b free t r s1)" by simp
  qed
qed

lemma s5_resumes_ex:
  "\<exists>r s'. s5alloc_get (m_ex 1024) 7 (fs_ex [9]\<lparr>sfs := (sfs (fs_ex [9]))\<lparr>s_tfree := 3\<rparr>\<rparr>) = Some (r, s') \<and>
    took (m_ex 1024) 0 7 [9, 11] (fs_ex [9]\<lparr>sfs := (sfs (fs_ex [9]))\<lparr>s_tfree := 3\<rparr>\<rparr>) r s'"
proof -
  let ?s = "fs_ex [9]\<lparr>sfs := (sfs (fs_ex [9]))\<lparr>s_tfree := 3\<rparr>\<rparr>"
  have r: "s5_rep (m_ex 1024) (Suc 0) [9, 11] ?s" using fs_ex_rep(1) by (simp add: s5_rep_def fs_rep_def fs_ok_def s5badblock_def fs_ex_def)
  have "cache_up (m_ex 1024) (sbc ?s)" "\<not> s5badblock (sfs ?s) 7" using fs_ex_up(1) [of 1024 "[9]"] by (simp_all add: fs_ex_def s5badblock_def)
  with s5_resumes [of "m_ex 1024" "sbc ?s" 7 "[9, 11]" ?s ?s 0] r show ?thesis by simp
qed

text \<open>C6: \<open>s5free\<close> puts the block in front of the free list.  A list that is full goes into the block itself, which is written through;
  otherwise a buffer of the block is thrown away.  No other block changes.\<close>

theorem s5free_gives:
  assumes "s5_rep m k free s" "b \<notin> set free" "\<not> s5badblock (sfs s) b" "int (length free + k) < s_fsize (sfs s)"
  shows "\<exists>r s'. s5free_io None m b s = Some (r, s') \<and> gave m k b free s r s'"
proof (cases "s_nfree (sfs s) < int NICFREE")
  case True
  with s5free_short [of m k s free b] assms show ?thesis by (auto simp: s5_rep_def s5free_io_def)
next
  case False
  have f: "cache_up m (sbc s)" "fs_rep m k (on_disk m (sbc s)) free (sfs s)" using assms(1) by (simp_all add: s5_rep_def)
  then have n: "s_nfree (sfs s) = int NICFREE" "s_flock (sfs s) = 0" using False chain_length by (fastforce simp: fs_rep_def)+
  let ?s = "s\<lparr>sfs := (sfs s)\<lparr>s_fmod := 1, s_flock := 1\<rparr>\<rparr>"
  have l: "s5free m b s = s5free_link m b ?s" using n assms(3) by (simp add: s5free_def Let_def s5badblock_def)
  have "fs_rep m k (on_disk m (sbc ?s)) free ((sfs ?s)\<lparr>s_flock := 0\<rparr>)" using f(2) n(2) by (simp add: fs_rep_def fs_ok_def s5badblock_def)
  from s5free_link_gave [OF _ this _ assms(2)] f(1) assms(3,4) n obtain r s1 where
    "s5free_link m b ?s = Some (r, s1)" "case r of FInBwrite x c \<Rightarrow> c = b \<and>
      (\<exists>s'. s5free_wrote x b (s1\<lparr>sbc := io_end None x (sbc s1)\<rparr>) = Some s' \<and> gave m k b free ?s FDone s') | _ \<Rightarrow> gave m k b free ?s r s1"
    by (auto simp: s5badblock_def)
  then show ?thesis unfolding s5free_io_def l by (cases r) (auto simp: gave_def)
qed

theorem s5free_gives_witness:
  "\<exists>s'. s5free_io None (m_ex 1024) 20 (fs_ex [9]) = Some (FDone, s') \<and> s5_rep (m_ex 1024) 0 [20, 9, 11] s' \<and> take 2 (s_free (sfs s')) = [9, 20]"
proof -
  have c: "map_option (\<lambda>(r, s'). (r, take 2 (s_free (sfs s')))) (s5free_io None (m_ex 1024) 20 (fs_ex [9])) = Some (FDone, [9, 20])" by code_simp
  have "\<not> s5badblock (sfs (fs_ex [9])) 20" "s_fsize (sfs (fs_ex [9])) = 100" by (simp_all add: fs_ex_def s5badblock_def)
  with s5free_gives [OF fs_ex_rep(1), of 20] obtain r s' where
    "s5free_io None (m_ex 1024) 20 (fs_ex [9]) = Some (r, s')" "gave (m_ex 1024) 0 20 [9, 11] (fs_ex [9]) r s'" by auto
  with c show ?thesis by (auto simp: gave_def)
qed

text \<open>C39: Whatever the free list and the disk hold, a buffer that \<open>s5alloc\<close> gives on a file system with blocks of 1024 bytes or more is that of
  a block of the volume behind the inodes.\<close>

theorem s5alloc_in_range:
  assumes "cache_up m (sbc s)" "fs_ok m (sfs s)" "s5alloc None m s = Some (ABuf x, s')"
  shows "held x (sbc s') \<and> b_dev (bh (sbc s') x) = m_dev m \<and>
    (\<exists>b. s_isize (sfs s) \<le> b \<and> b < s_fsize (sfs s) \<and> b_blkno (bh (sbc s') x) = pblk m b)"
proof -
  from s5alloc_buf [OF assms(1,3)] obtain b where b: "\<not> s5badblock (sfs s) b" "b_dev (bh (sbc s') x) = m_dev m"
    "b_blkno (bh (sbc s') x) = ltopblk (data_blk m b) (FsBSIZE (m_bsize m))" "held x (sbc s')" by blast
  from b(3) [unfolded blk_addr(2) [OF assms(2) b(1)]] b(1,2,4) show ?thesis unfolding s5badblock_def by (intro conjI exI [of _ b]) auto
qed

theorem s5alloc_in_range_witness:
  "\<exists>s' b. s5alloc None (m_ex 1024) (fs_ex [0, 7, 200, 2]) = Some (ABuf (Buf 0), s') \<and> 3 \<le> b \<and> b < 100 \<and> b_blkno (bh (sbc s') (Buf 0)) = 2 * b"
proof -
  have "map_option fst (s5alloc None (m_ex 1024) (fs_ex [0, 7, 200, 2])) = Some (ABuf (Buf 0))" by code_simp
  then obtain s' where r: "s5alloc None (m_ex 1024) (fs_ex [0, 7, 200, 2]) = Some (ABuf (Buf 0), s')" by auto
  have "fs_ok (m_ex 1024) (sfs (fs_ex [0, 7, 200, 2]))" by (simp add: fs_ok_def m_ex_def fs_ex_def)
  from s5alloc_in_range [OF fs_ex_up(1) this r] r show ?thesis by (auto simp: fs_ex_def m_ex_def pblk_def)
qed

text \<open>C40: On a file system with blocks of 512 bytes, which mount accepts, the buffer that \<open>s5alloc\<close> clears and gives is
  always that of block 0, whatever block it took from the list: the number is multiplied by \<open>m_bsize / 1024\<close>, which is 0.\<close>

theorem s5alloc_512_block0:
  assumes "cache_up m (sbc s)" "m_bsize m = 512" "s5alloc None m s = Some (ABuf x, s')"
  shows "b_blkno (bh (sbc s') x) = 0 \<and> (\<exists>b. 0 \<noteq> b \<and> \<not> s5badblock (sfs s) b)"
proof -
  have "ltopblk (data_blk m b) (FsBSIZE (m_bsize m)) = 0" for b using assms(2) by (simp add: ltopblk_def data_blk_def c_int_def)
  with s5alloc_buf [OF assms(1,3)] show ?thesis by auto
qed

theorem s5alloc_512_block0_witness:
  "\<exists>s'. s5alloc None (m_ex 512) (fs_ex [0, 7, 5]) = Some (ABuf (Buf 0), s') \<and> s_nfree (sfs s') = 2 \<and> b_blkno (bh (sbc s') (Buf 0)) = 0"
proof -
  have c: "map_option (\<lambda>(r, s'). (r, s_nfree (sfs s'))) (s5alloc None (m_ex 512) (fs_ex [0, 7, 5])) = Some (ABuf (Buf 0), 2)" by code_simp
  then obtain s' where r: "s5alloc None (m_ex 512) (fs_ex [0, 7, 5]) = Some (ABuf (Buf 0), s')" by auto
  have "m_bsize (m_ex 512) = 512" by (simp add: m_ex_def)
  from s5alloc_512_block0 [OF fs_ex_up(1) this r] r c show ?thesis by auto
qed

end
