(* ===== verification/Spec2Isabelle.thy ===== *)
theory Spec2Isabelle imports Kbase Fifo Prio Dll Rmap Clist Ipc Sem Semsets Strbuf Strq Flock Msg Callout Ring Bio Bcache Bread Bsys Bclient S5alloc begin

text \<open>
  The resource managers of the System V kernel for the m88k (src/uts/m88k).

  The kernel hands out a few kinds of scarce resource to everything above it: address ranges, character
  blocks, semaphores and undo entries, message headers and segments, stream buffers, record locks, timers, disk
  buffers and disk blocks.  Each manager is a set of C arrays with free lists, pointers and counters, shared by all processes,
  and each is modelled here in full, with its data layout, from the source.

  The model.  The kernel runs one process at a time and gives up the processor only at \<open>sleep\<close>, so an operation
  between two sleeps is a function from the state of its manager to a result and a new state.  Structs are records, arrays of structs
  are functions from the index, pointers into an array are optional indices, and an error is a value of
  the result.  What an operation wakes or schedules is recorded in the state.  The integers keep their C width
  (\<open>c_short\<close>, \<open>c_ushort\<close>, \<open>c_int\<close>, \<open>c_uint\<close> in Kbase) where the code can leave it.  User memory, clocks, the functions that
  timers run and the procedures of stream modules are parameters.

  Theories and sources.
    Kbase     the prelude: C integers, error numbers, the user structure, linked lists in a heap
    Fifo, Prio, Dll  interfaces and lemmas for queues, priority queues and doubly linked lists
    Rmap      os/malloc.c, sys/map.h: resource maps (malloc, mfree)
    Clist     io/clist.c: character lists (getc, putc, getcb, putcb, getcf, putcf, cinit)
    Ipc       io/ipc.c: ipcaccess, ipcget
    Sem, Semsets  io/sem.c: semop with its undo table; semget, semctl, semexit
    Strbuf    io/stream.c: stream buffers (allocb, freeb, dupb, adjmsg, pullupmsg, \<dots>)
    Strq      io/stream.c: stream queues, flow control and scheduling (getq, putq, \<dots>, queuerun)
    Flock     os/flock.c: record locks (insflck, delflck, flckadj, blocked, reclock, deadflck, cleanlocks)
    Msg       io/msg.c: message queues (msgget, msgctl, msgsnd, msgrcv)
    Callout   os/clock.c: the table of timers (timeout, untimeout, the countdown of clock, timein, delay)
    Ring      circular doubly linked lists with a header
    Bio       os/bio.c, sys/buf.h: the buffer cache, its operations and how they change its two kinds of list
    Bcache    its invariant, what each block holds, and what the operations do to both
    Bread     reading ahead (breada)
    Bsys      binval, binit, and the cache as a system: the steps it makes, and its properties
    Bclient   what the file system relies on when it fills, writes or throws away a buffer
    S5alloc   fs/s5/s5alloc.c: the free blocks of the System V file system (s5alloc, s5free)

  How they interact.  Sem and Msg allocate from a resource map: the locale \<open>unit_pool\<close> of Rmap states what they rely on, and its
  interpretation \<open>rm\<close> proves it for \<open>malloc\<close> and \<open>mfree\<close>.  Both find their objects with \<open>ipcget\<close> and test access with \<open>ipcaccess\<close>.
  A stream queue holds messages of the buffers of Strbuf; Strq shares its state.  The locale \<open>fifo_family\<close> of Fifo is
  interpreted by the clists, \<open>prio_queue\<close> of Prio by \<open>putq\<close> and \<open>getq\<close>.  The state of S5alloc contains that of the buffer cache, and its
  operations call \<open>getblk\<close>, \<open>bread\<close>, \<open>bwrite\<close>, \<open>brelse\<close>, \<open>incore\<close> and \<open>clrbuf\<close> of Bio where the code does.

  The disk.  A driver is its queue: \<open>strategy\<close> puts a buffer at the end of \<open>ioq\<close>, and \<open>io_end\<close>, at any later time and in any
  order, transfers the data or sets an error and calls \<open>iodone\<close>.  Bsys lets these events and the calls of all clients follow each other
  freely (\<open>bio_step\<close>).  \<open>cur s d b\<close> is what block b of device d holds for the system: the data of its buffer if that is up to date or
  on its way to the disk, else what the disk holds.  An operation that sleeps returns the channel; in S5alloc the result also says with which
  of the functions it goes on.

  Lemmas.  Every component has a representation predicate (\<open>rm_rep\<close>, \<open>cl_rep\<close>, \<open>undo_rep\<close>, \<open>sem_sys\<close>, \<open>sb_ok\<close>, \<open>q_rep\<close>, \<open>fl_rep\<close>, \<open>msg_rep\<close>,
  \<open>bio_inv\<close>, \<open>s5_rep\<close>), which says that the linked structures are the lists they should be and share no element, and for each operation a
  lemma that it keeps the predicate and changes the abstract lists in the specified way.  The properties C1 to C40 follow from these.

  Bounds.  A loop along a list runs on the list that \<open>follow\<close> (or \<open>ring_walk\<close>, for circular lists) reads with as much fuel as the array has
  elements; \<open>follow_chain\<close> and \<open>ring_walk_all\<close> show that this is enough for any list without a repetition.  Loops with other bounds: \<open>fl_loop\<close>
  runs once for every lock record; \<open>deadflck\<close> once more than there are records, and \<open>deadflck_detects\<close> shows that it is then
  decided unless processes wait in a circle; \<open>queuerun\<close> is shown to end when the service procedures enable no queue, \<open>timein\<close> when the
  functions arm nothing for at once.  \<open>getblk\<close>, \<open>geteblk\<close>, \<open>bflush\<close> and \<open>bdflush\<close> start over after each delayed write they send
  to the disk; each takes a buffer off the list of available ones, so one round more than there are buffers is enough (\<open>getblk_gets\<close>,
  \<open>bflush_flushes\<close>).

  Not modelled.  The rest of the kernel: process and memory management, inodes and the other file systems, the device drivers, the
  network code and the stream head (os/streamio.c), whose behaviour depends on hardware, on memory mapping or
  on other processes at every step; the commands, libraries and compilers outside src/uts.  In the modelled files: semaphore
  operations that protect a structure on multiprocessors (no-ops on the uniprocessor), console messages, accounting
  counters, the accounting of clock, the inode half of s5alloc.c and code under conditional compilation that is off.
\<close>

end
